(* ===== verification/Async_Prelude.thy ===== *)
theory Async_Prelude
  imports Main "HOL-Library.Word" "HOL-Library.Multiset"
begin

unbundle bit_operations_syntax

text \<open>
  What every component of the model shares: C++ exception objects and
  \<open>std::exception_ptr\<close>, the outcome of running a C++ expression, methods as
  state passing functions, the two assertion macros of
  \<^verbatim>\<open>include/async_simple/base/assert.hpp\<close>, and generic lemmas.

  A C++ expression ends in one of four ways. It returns a value, it throws, it
  stops the process (a failed \<open>assert\<close>, \<open>std::terminate\<close>), or its behaviour is undefined
  (null dereference, use after free, access to an inactive union member). Each is a
  constructor of \<open>outcome\<close>, so every early exit of the source is a branch of the model.
\<close>

named_theorems outcome_simps
  \<open>equations that run a method of the model one step\<close>

named_theorems wf_intros
  \<open>preservation of the components' well-formedness predicates\<close>

section \<open>Exceptions\<close>

datatype exn =
    LogicError string
  | RuntimeError string
  | BadFunctionCall \<comment> \<open>\<open>std::bad_function_call\<close>: an empty \<open>std::function\<close> was called\<close>
  | BadVariantAccess \<comment> \<open>\<open>std::bad_variant_access\<close>\<close>
  | UserExn nat \<comment> \<open>any exception object thrown by user code\<close>

text \<open>A \<open>std::exception_ptr\<close> is a nullable pointer to an exception object.\<close>

type_synonym exception_ptr = "exn option"

section \<open>Outcomes and methods\<close>

datatype 'a outcome =
    Return 'a
  | Throw exn
  | Abort
  | Undefined

fun bind_outcome :: "'a outcome \<Rightarrow> ('a \<Rightarrow> 'b outcome) \<Rightarrow> 'b outcome" where
  "bind_outcome (Return x) k = k x"
| "bind_outcome (Throw e) k = Throw e"
| "bind_outcome Abort k = Abort"
| "bind_outcome Undefined k = Undefined"

text \<open>A method takes the object it works on and gives back its outcome and the object.\<close>

type_synonym ('s, 'a) action = "'s \<Rightarrow> 'a outcome \<times> 's"

definition ret :: "'a \<Rightarrow> ('s, 'a) action" where
  "ret x s = (Return x, s)"

definition throw :: "exn \<Rightarrow> ('s, 'a) action" where
  "throw e s = (Throw e, s)"

definition abort :: "('s, 'a) action" where
  "abort s = (Abort, s)"

definition undef :: "('s, 'a) action" where
  "undef s = (Undefined, s)"

definition gets :: "('s \<Rightarrow> 'a) \<Rightarrow> ('s, 'a) action" where
  "gets f s = (Return (f s), s)"

definition modify :: "('s \<Rightarrow> 's) \<Rightarrow> ('s, unit) action" where
  "modify f s = (Return (), f s)"

definition bind :: "('s, 'a) action \<Rightarrow> ('a \<Rightarrow> ('s, 'b) action) \<Rightarrow> ('s, 'b) action" where
  "bind m k s =
     (case m s of
        (Return x, s') \<Rightarrow> k x s'
      | (Throw e, s') \<Rightarrow> (Throw e, s')
      | (Abort, s') \<Rightarrow> (Abort, s')
      | (Undefined, s') \<Rightarrow> (Undefined, s'))"

definition seq :: "('s, unit) action \<Rightarrow> ('s, 'b) action \<Rightarrow> ('s, 'b) action" where
  "seq m n = bind m (\<lambda>_. n)"

text \<open>\<open>try { m } catch (...) { h }\<close>: the handler starts from the state at the throw.\<close>

definition try_catch :: "('s, 'a) action \<Rightarrow> (exn \<Rightarrow> ('s, 'a) action) \<Rightarrow> ('s, 'a) action" where
  "try_catch m h s =
     (case m s of
        (Throw e, s') \<Rightarrow> h e s'
      | r \<Rightarrow> r)"

text \<open>
  A local object with destructor \<open>d\<close> around \<open>m\<close>: the destructor also runs when \<open>m\<close> throws. A
  destructor is \<open>noexcept\<close>, so an exception that leaves one ends in \<open>std::terminate\<close>.
\<close>

definition noexcept :: "('s, 'a) action \<Rightarrow> ('s, 'a) action" where
  "noexcept m s = (case m s of (Throw e, s') \<Rightarrow> (Abort, s') | r \<Rightarrow> r)"

definition finally_do :: "('s, 'a) action \<Rightarrow> ('s, unit) action \<Rightarrow> ('s, 'a) action" where
  "finally_do m d s =
     (case m s of
        (Return x, s') \<Rightarrow> bind (noexcept d) (\<lambda>_. ret x) s'
      | (Throw e, s') \<Rightarrow> bind (noexcept d) (\<lambda>_. throw e) s'
      | r \<Rightarrow> r)"

text \<open>A method of the object at location \<open>l\<close> of a store, so that two names for one object alias.\<close>

definition at :: "'l \<Rightarrow> ('o, 'a) action \<Rightarrow> ('l \<Rightarrow> 'o, 'a) action" where
  "at l m \<sigma> = (case m (\<sigma> l) of (r, ob) \<Rightarrow> (r, \<sigma>(l := ob)))"

text \<open>The assertion macros \<open>ASSERT\<close> (a bug of the library) and \<open>LOGIC_ASSERT\<close> (a bug of the user).\<close>

definition ASSERT :: "bool \<Rightarrow> ('s, unit) action" where
  "ASSERT b = (if b then ret () else abort)"

definition LOGIC_ASSERT :: "bool \<Rightarrow> string \<Rightarrow> ('s, unit) action" where
  "LOGIC_ASSERT b msg = (if \<not> b then throw (LogicError msg) else ret ())"

lemma bind_outcome_assoc:
  "bind_outcome (bind_outcome m f) g = bind_outcome m (\<lambda>x. bind_outcome (f x) g)"
  by (cases m) simp_all

lemma run_method [outcome_simps]:
  "ret x s = (Return x, s)"
  "throw e s = (Throw e, s)"
  "abort s = (Abort, s)"
  "undef s = (Undefined, s)"
  "gets f s = (Return (f s), s)"
  "modify g s = (Return (), g s)"
  by (simp_all add: ret_def throw_def abort_def undef_def gets_def modify_def)

lemma run_bind [outcome_simps]:
  "bind m k s =
     (case m s of
        (Return x, s') \<Rightarrow> k x s'
      | (Throw e, s') \<Rightarrow> (Throw e, s')
      | (Abort, s') \<Rightarrow> (Abort, s')
      | (Undefined, s') \<Rightarrow> (Undefined, s'))"
  by (simp add: bind_def)

lemma run_seq [outcome_simps]: "seq m n s = bind m (\<lambda>_. n) s"
  by (simp add: seq_def)

lemma run_try_catch [outcome_simps]:
  "try_catch m h s = (case m s of (Throw e, s') \<Rightarrow> h e s' | r \<Rightarrow> r)"
  by (simp add: try_catch_def)

lemma run_noexcept [outcome_simps]:
  "noexcept m s = (case m s of (Throw e, s') \<Rightarrow> (Abort, s') | r \<Rightarrow> r)"
  by (simp add: noexcept_def)

lemma run_finally_do [outcome_simps]:
  "finally_do m d s =
     (case m s of
        (Return x, s') \<Rightarrow> bind (noexcept d) (\<lambda>_. ret x) s'
      | (Throw e, s') \<Rightarrow> bind (noexcept d) (\<lambda>_. throw e) s'
      | r \<Rightarrow> r)"
  by (simp add: finally_do_def)

lemma run_at [outcome_simps]:
  "at l m \<sigma> = (case m (\<sigma> l) of (r, ob) \<Rightarrow> (r, \<sigma>(l := ob)))"
  by (simp add: at_def)

lemma run_ASSERT [outcome_simps]:
  "ASSERT b s = (if b then Return () else Abort, s)"
  by (simp add: ASSERT_def outcome_simps)

lemma run_LOGIC_ASSERT [outcome_simps]:
  "LOGIC_ASSERT b msg s = (if b then Return () else Throw (LogicError msg), s)"
  by (simp add: LOGIC_ASSERT_def outcome_simps)

lemma bind_assoc: "bind (bind m f) g = bind m (\<lambda>x. bind (f x) g)"
  by (rule ext) (auto simp: bind_def split: outcome.splits prod.splits)

lemma bind_ret_left: "bind (ret x) k = k x"
  by (rule ext) (simp add: bind_def ret_def)

lemma bind_ret_right: "bind m ret = m"
  by (rule ext) (auto simp: bind_def ret_def split: outcome.splits prod.splits)

section \<open>Generic lemmas\<close>

lemma sum_list_map_update:
  fixes g :: "'a \<Rightarrow> 'b::comm_monoid_add"
  assumes "i < length xs"
  shows "sum_list (map g (xs[i := y])) + g (xs ! i) = sum_list (map g xs) + g y"
  using assms
proof (induction xs arbitrary: i)
  case Nil
  then show ?case by simp
next
  case (Cons x xs)
  show ?case
  proof (cases i)
    case 0
    then show ?thesis by (simp add: ac_simps)
  next
    case (Suc j)
    with Cons have "sum_list (map g (xs[j := y])) + g (xs ! j) = sum_list (map g xs) + g y"
      by simp
    with Suc show ?thesis by (simp add: add.assoc)
  qed
qed

lemma sum_list_replicate_0: "sum_list (replicate n 0) = (0 :: 'a::comm_monoid_add)"
  by (induction n) simp_all

text \<open>Sign extension of an \<open>int32_t\<close> to 64 bits, read as unsigned.\<close>

lemma uint_scast_32_64:
  "uint (scast (w :: 32 word) :: 64 word) = sint w mod 18446744073709551616"
proof -
  have "uint (scast w :: 64 word) = take_bit LENGTH(64) (sint w)"
    by (simp only: scast_eq uint_word_of_int_eq)
  then show ?thesis by (simp add: take_bit_eq_mod)
qed

lemma sint_32_bounds: "- 2147483648 \<le> sint (w :: 32 word)" "sint w < 2147483648"
  using sint_ge [of w] sint_lt [of w] by simp_all

lemma uint_32_sint: "uint w = sint (w :: 32 word) mod 4294967296"
  using uint_sint [of w] by (simp add: take_bit_eq_mod)

lemma scast_below:
  fixes w :: "32 word"
  assumes below: "unat (scast w :: 64 word) < n" and n: "n \<le> 2 ^ 63"
  shows "unat w < n"
proof -
  have "n \<le> 9223372036854775808" using n by simp
  then have b: "uint (scast w :: 64 word) < 9223372036854775808"
    using below by (simp only: uint_nat)
  have nonneg: "0 \<le> sint w"
  proof (rule ccontr)
    assume "\<not> 0 \<le> sint w"
    then have "(sint w + 18446744073709551616) mod 18446744073709551616 = sint w + 18446744073709551616"
      using sint_32_bounds [of w] by (intro mod_pos_pos_trivial) linarith+
    then have "uint (scast w :: 64 word) = sint w + 18446744073709551616"
      unfolding uint_scast_32_64 by simp
    with b sint_32_bounds [of w] show False by linarith
  qed
  then have "sint w mod 18446744073709551616 = sint w" "sint w mod 4294967296 = sint w"
    using sint_32_bounds [of w] by (intro mod_pos_pos_trivial; linarith)+
  then have "uint w = uint (scast w :: 64 word)"
    by (simp only: uint_scast_32_64 uint_32_sint)
  with below show ?thesis by (simp only: unat_eq_nat_uint)
qed

text \<open>
  A non-negative \<open>int32_t\<close> keeps its value in 64 bits, truncation undoes the extension, and a bit
  above the value can be set and cleared again.
\<close>

lemma unat_scast_32_64:
  fixes w :: "32 word"
  assumes "unat w < 2 ^ 31"
  shows "unat (scast w :: 64 word) = unat w"
proof -
  have "unat w < 2147483648" using assms by (simp only: power_numeral) simp
  then have "int (unat w) < 2147483648" by linarith
  then have b: "uint w < 2147483648" by (simp only: uint_nat)
  have "0 \<le> sint w"
  proof (rule ccontr)
    assume "\<not> 0 \<le> sint w"
    then have "(sint w + 4294967296) mod 4294967296 = sint w + 4294967296"
      using sint_32_bounds [of w] by (intro mod_pos_pos_trivial) linarith+
    then have "uint w = sint w + 4294967296" unfolding uint_32_sint by simp
    with b sint_32_bounds [of w] show False by linarith
  qed
  then have "sint w mod 18446744073709551616 = sint w" "sint w mod 4294967296 = sint w"
    using sint_32_bounds [of w] by (intro mod_pos_pos_trivial; linarith)+
  then have "uint w = uint (scast w :: 64 word)"
    by (simp only: uint_scast_32_64 uint_32_sint)
  then show ?thesis by (simp only: unat_eq_nat_uint)
qed

lemma ucast_scast_32_64: "(ucast (scast (w :: 32 word) :: 64 word) :: 32 word) = w"
  by (rule bit_word_eqI) (auto simp add: bit_simps)

lemma scast_32_64_inject: "(scast (v :: 32 word) :: 64 word) = scast w \<longleftrightarrow> v = w"
  by (metis ucast_scast_32_64)

lemma mask_clear:
  fixes x :: "64 word"
  assumes "unat x < 2 ^ 30"
  shows "(x OR 1073741824) AND NOT 1073741824 = x"
proof -
  have m: "(1073741824 :: 64 word) = 2 ^ 30" by simp
  have x: "x = take_bit 30 x"
    using assms by (simp add: word_unat_eq_iff unsigned_take_bit_eq take_bit_nat_eq_self)
  have "\<not> bit x 30"
    by (subst x) (simp add: bit_take_bit_iff)
  moreover have b: "bit (1073741824 :: 64 word) n \<longleftrightarrow> n = 30" for n
    unfolding m by (subst bit_exp_iff) auto
  ultimately have eq: "bit (x OR 1073741824) n \<and> \<not> bit (1073741824 :: 64 word) n \<longleftrightarrow> bit x n" for n
    unfolding bit_or_iff b by (cases "n = 30") simp_all
  show ?thesis
  proof (rule bit_word_eqI)
    fix n
    assume "n < LENGTH(64)"
    then show "bit ((x OR 1073741824) AND NOT 1073741824) n = bit x n"
      unfolding bit_and_iff bit_not_iff eq [symmetric] by simp
  qed
qed
end
