(* ===== verification/Try_Base.thy ===== *)
theory Try_Base
  imports Async_Prelude
begin

text \<open>
  \<^verbatim>\<open>include/async_simple/base/try.hpp\<close>: \<open>Try<T>\<close>, its specialisation
  \<open>Try<void>\<close> and \<open>MakeTryCall\<close>.

  \<open>Try<T>\<close> is a hand-written tagged union. The model keeps the tag and the storage apart,
  as the class does, so reading or destroying a member that is not alive is \<open>Undefined\<close>,
  and constructing over a live member is counted in the ghost field \<open>lost\<close> (its destructor
  never runs). \<open>try_wf\<close> says that tag and storage agree; the operations are then refined by
  the sum type \<open>'a try_val\<close>.

  What moving out of a \<open>T\<close> leaves behind is the parameter \<open>mv\<close> (a property of the
  user's type); what moving out of a \<open>std::exception_ptr\<close> leaves behind is the parameter
  \<open>mvx\<close> (the standard leaves it open).
\<close>

section \<open>The object\<close>

datatype inner_type = kValue | kException | kNothing

datatype 'a storage = Inactive | ValueMember 'a | ExceptionMember exception_ptr

record 'a try_obj =
  inner_type :: inner_type
  storage :: "'a storage"
  lost :: nat

text \<open>Access to the members of the anonymous union.\<close>

definition read_value :: "('a try_obj, 'a) action" where
  "read_value t = (case storage t of ValueMember v \<Rightarrow> (Return v, t) | _ \<Rightarrow> (Undefined, t))"

definition move_value :: "('a \<Rightarrow> 'a) \<Rightarrow> ('a try_obj, 'a) action" where
  "move_value mv t =
     (case storage t of
        ValueMember v \<Rightarrow> (Return v, t\<lparr>storage := ValueMember (mv v)\<rparr>)
      | _ \<Rightarrow> (Undefined, t))"

definition read_exception :: "('a try_obj, exception_ptr) action" where
  "read_exception t =
     (case storage t of ExceptionMember e \<Rightarrow> (Return e, t) | _ \<Rightarrow> (Undefined, t))"

definition construct :: "'a storage \<Rightarrow> ('a try_obj, unit) action" where
  "construct m = modify (\<lambda>t. t\<lparr>storage := m,
     lost := (if storage t = Inactive then lost t else Suc (lost t))\<rparr>)"

definition destroy_value :: "('a try_obj, unit) action" where
  "destroy_value t =
     (case storage t of
        ValueMember v \<Rightarrow> (Return (), t\<lparr>storage := Inactive\<rparr>)
      | _ \<Rightarrow> (Undefined, t))"

definition destroy_exception :: "('a try_obj, unit) action" where
  "destroy_exception t =
     (case storage t of
        ExceptionMember e \<Rightarrow> (Return (), t\<lparr>storage := Inactive\<rparr>)
      | _ \<Rightarrow> (Undefined, t))"

lemmas member_simps [outcome_simps] =
  read_value_def move_value_def read_exception_def construct_def
  destroy_value_def destroy_exception_def

section \<open>The operations of \<open>Try<T>\<close>\<close>

definition Try_empty :: "'a try_obj" where
  "Try_empty = \<lparr>inner_type = kNothing, storage = Inactive, lost = 0\<rparr>"

definition Try_of_value :: "'a \<Rightarrow> 'a try_obj" where
  "Try_of_value v = \<lparr>inner_type = kValue, storage = ValueMember v, lost = 0\<rparr>"

definition Try_of_exception :: "exception_ptr \<Rightarrow> 'a try_obj" where
  "Try_of_exception e = \<lparr>inner_type = kException, storage = ExceptionMember e, lost = 0\<rparr>"

definition Try_Destroy :: "('a try_obj, unit) action" where
  "Try_Destroy =
     seq (bind (gets inner_type) (\<lambda>t.
            if t = kValue then destroy_value
            else if t = kException then destroy_exception
            else ret ()))
         (modify (\<lambda>s. s\<lparr>inner_type := kNothing\<rparr>))"

text \<open>The move constructor: the object acted on is \<open>other\<close>, the result is the new object.\<close>

definition Try_move_ctor :: "('a \<Rightarrow> 'a) \<Rightarrow> ('a try_obj, 'a try_obj) action" where
  "Try_move_ctor mv =
     bind (gets inner_type) (\<lambda>t.
       if t = kValue then
         bind (move_value mv) (\<lambda>v. ret \<lparr>inner_type = t, storage = ValueMember v, lost = 0\<rparr>)
       else if t = kException then
         bind read_exception (\<lambda>e. ret \<lparr>inner_type = t, storage = ExceptionMember e, lost = 0\<rparr>)
       else ret \<lparr>inner_type = t, storage = Inactive, lost = 0\<rparr>)"

definition Try_move_assign :: "('a \<Rightarrow> 'a) \<Rightarrow> 'l \<Rightarrow> 'l \<Rightarrow> ('l \<Rightarrow> 'a try_obj, unit) action" where
  "Try_move_assign mv this other =
     (if other = this then ret ()
      else
        seq (at this Try_Destroy)
        (bind (at other (gets inner_type)) (\<lambda>t.
         seq (at this (modify (\<lambda>s. s\<lparr>inner_type := t\<rparr>)))
         (if t = kValue then
            bind (at other (move_value mv)) (\<lambda>v. at this (construct (ValueMember v)))
          else if t = kException then
            bind (at other read_exception) (\<lambda>e. at this (construct (ExceptionMember e)))
          else ret ()))))"

text \<open>\<open>operator=(const std::exception_ptr &)\<close> and \<open>SetException\<close> have the same body.\<close>

definition Try_assign_exception :: "exception_ptr \<Rightarrow> ('a try_obj, unit) action" where
  "Try_assign_exception e =
     bind (gets inner_type) (\<lambda>t.
     bind (if t = kException then bind read_exception (\<lambda>x. ret (e = x)) else ret False)
       (\<lambda>same.
        if same then ret ()
        else
          seq Try_Destroy
          (seq (modify (\<lambda>s. s\<lparr>inner_type := kException\<rparr>))
               (construct (ExceptionMember e)))))"

definition Try_SetException :: "exception_ptr \<Rightarrow> ('a try_obj, unit) action" where
  "Try_SetException e =
     bind (gets inner_type) (\<lambda>t.
     bind (if t = kException then bind read_exception (\<lambda>x. ret (x = e)) else ret False)
       (\<lambda>same.
        if same then ret ()
        else
          seq Try_Destroy
          (seq (modify (\<lambda>s. s\<lparr>inner_type := kException\<rparr>))
               (construct (ExceptionMember e)))))"

definition Try_Available :: "'a try_obj \<Rightarrow> bool" where
  "Try_Available t \<longleftrightarrow> inner_type t \<noteq> kNothing"

definition Try_HasException :: "'a try_obj \<Rightarrow> bool" where
  "Try_HasException t \<longleftrightarrow> inner_type t = kException"

text \<open>
  \<open>std::rethrow_exception\<close> requires a non-null pointer; a null one is undefined behaviour.
\<close>

definition rethrow_exception :: "exception_ptr \<Rightarrow> ('s, 'a) action" where
  "rethrow_exception p = (case p of Some e \<Rightarrow> throw e | None \<Rightarrow> undef)"

definition Try_CheckHoldsValue :: "('a try_obj, unit) action" where
  "Try_CheckHoldsValue =
     bind (gets inner_type) (\<lambda>t.
       if t = kValue then ret ()
       else if t = kException then bind read_exception rethrow_exception
       else if t = kNothing then throw (LogicError ''Try object is empty'')
       else ASSERT False)"

text \<open>The four overloads of \<open>Value\<close>: check, then give access to the member.\<close>

definition Try_Value :: "('a try_obj, 'a) action" where
  "Try_Value = seq Try_CheckHoldsValue read_value"

definition Try_GetException :: "('a try_obj, exception_ptr) action" where
  "Try_GetException =
     bind (gets inner_type) (\<lambda>t.
       seq (LOGIC_ASSERT (t = kException) ''Try object do not have an error'')
           read_exception)"

section \<open>\<open>Try<void>\<close>\<close>

record try_void =
  void_exception :: exception_ptr

definition TryVoid_empty :: try_void where
  "TryVoid_empty = \<lparr>void_exception = None\<rparr>"

definition TryVoid_of_exception :: "exception_ptr \<Rightarrow> try_void" where
  "TryVoid_of_exception e = \<lparr>void_exception = e\<rparr>"

definition TryVoid_assign_exception :: "exception_ptr \<Rightarrow> (try_void, unit) action" where
  "TryVoid_assign_exception e = modify (\<lambda>t. t\<lparr>void_exception := e\<rparr>)"

definition TryVoid_move_ctor ::
  "(exception_ptr \<Rightarrow> exception_ptr) \<Rightarrow> (try_void, try_void) action" where
  "TryVoid_move_ctor mvx other =
     (Return \<lparr>void_exception = void_exception other\<rparr>,
      other\<lparr>void_exception := mvx (void_exception other)\<rparr>)"

definition TryVoid_move_assign :: "'l \<Rightarrow> 'l \<Rightarrow> ('l \<Rightarrow> try_void, unit) action" where
  "TryVoid_move_assign this other =
     (if this \<noteq> other then
        bind (at this (gets void_exception)) (\<lambda>mine.
        bind (at other (gets void_exception)) (\<lambda>theirs.
        seq (at this (modify (\<lambda>t. t\<lparr>void_exception := theirs\<rparr>)))
            (at other (modify (\<lambda>t. t\<lparr>void_exception := mine\<rparr>)))))
      else ret ())"

definition TryVoid_Value :: "(try_void, unit) action" where
  "TryVoid_Value =
     bind (gets void_exception) (\<lambda>e. if e \<noteq> None then rethrow_exception e else ret ())"

definition TryVoid_HasException :: "try_void \<Rightarrow> bool" where
  "TryVoid_HasException t \<longleftrightarrow> void_exception t \<noteq> None"

definition TryVoid_SetException :: "exception_ptr \<Rightarrow> (try_void, unit) action" where
  "TryVoid_SetException e = modify (\<lambda>t. t\<lparr>void_exception := e\<rparr>)"

definition TryVoid_GetException :: "try_void \<Rightarrow> exception_ptr" where
  "TryVoid_GetException t = void_exception t"

text \<open>The converting constructor \<open>Try<Unit>(const Try<void> &)\<close>.\<close>

definition Try_of_void :: "try_void \<Rightarrow> unit try_obj" where
  "Try_of_void other =
     (if TryVoid_HasException other
      then \<lparr>inner_type = kException, storage = ExceptionMember (void_exception other), lost = 0\<rparr>
      else \<lparr>inner_type = kValue, storage = ValueMember (), lost = 0\<rparr>)"

section \<open>\<open>MakeTryCall\<close>\<close>

text \<open>The call of \<open>f\<close> with its arguments is a method on the caller's state.\<close>

definition MakeTryCall :: "('s, 'b) action \<Rightarrow> ('s, 'b try_obj) action" where
  "MakeTryCall f =
     try_catch (bind f (\<lambda>x. ret (Try_of_value x))) (\<lambda>e. ret (Try_of_exception (Some e)))"

definition MakeTryCall_void :: "('s, unit) action \<Rightarrow> ('s, try_void) action" where
  "MakeTryCall_void f =
     try_catch (bind f (\<lambda>_. ret TryVoid_empty)) (\<lambda>e. ret (TryVoid_of_exception (Some e)))"

section \<open>Specification: a three-way sum\<close>

datatype 'a try_val = Nothing | Value 'a | Exception exception_ptr

fun try_value :: "'a try_val \<Rightarrow> 'a outcome" where
  "try_value Nothing = Throw (LogicError ''Try object is empty'')"
| "try_value (Value v) = Return v"
| "try_value (Exception (Some e)) = Throw e"
| "try_value (Exception None) = Undefined"

lemma try_value_Return_iff: "try_value x = Return v \<longleftrightarrow> x = Value v"
  by (cases x rule: try_value.cases) auto

fun try_available :: "'a try_val \<Rightarrow> bool" where
  "try_available Nothing = False"
| "try_available _ = True"

fun try_has_exception :: "'a try_val \<Rightarrow> bool" where
  "try_has_exception (Exception e) = True"
| "try_has_exception _ = False"

fun try_get_exception :: "'a try_val \<Rightarrow> exception_ptr outcome" where
  "try_get_exception (Exception e) = Return e"
| "try_get_exception _ = Throw (LogicError ''Try object do not have an error'')"

text \<open>What is left of a \<open>Try\<close> that was moved from: its tag is untouched.\<close>

fun try_moved :: "('a \<Rightarrow> 'a) \<Rightarrow> 'a try_val \<Rightarrow> 'a try_val" where
  "try_moved mv Nothing = Nothing"
| "try_moved mv (Value v) = Value (mv v)"
| "try_moved mv (Exception e) = Exception e"

definition try_of_outcome :: "'a outcome \<Rightarrow> 'a try_val outcome" where
  "try_of_outcome r =
     (case r of Return x \<Rightarrow> Return (Value x) | Throw e \<Rightarrow> Return (Exception (Some e))
      | Abort \<Rightarrow> Abort | Undefined \<Rightarrow> Undefined)"

fun try_rep :: "inner_type \<Rightarrow> 'a storage \<Rightarrow> 'a try_val option" where
  "try_rep kNothing Inactive = Some Nothing"
| "try_rep kValue (ValueMember v) = Some (Value v)"
| "try_rep kException (ExceptionMember e) = Some (Exception e)"
| "try_rep _ _ = None"

definition try_wf :: "'a try_obj \<Rightarrow> bool" where
  "try_wf t \<longleftrightarrow> try_rep (inner_type t) (storage t) \<noteq> None \<and> lost t = 0"

definition try_abs :: "'a try_obj \<Rightarrow> 'a try_val" where
  "try_abs t = the (try_rep (inner_type t) (storage t))"

definition try_conc :: "'a try_val \<Rightarrow> 'a try_obj" where
  "try_conc x =
     (case x of Nothing \<Rightarrow> Try_empty | Value v \<Rightarrow> Try_of_value v
      | Exception e \<Rightarrow> Try_of_exception e)"

text \<open>
  A well-formed object is the representation of exactly one \<open>'a try_val\<close>, so every lemma below
  is a case split on that sum.
\<close>

lemma try_conc_simps:
  "try_conc Nothing = Try_empty"
  "try_conc (Value v) = Try_of_value v"
  "try_conc (Exception e) = Try_of_exception e"
  by (simp_all add: try_conc_def)

lemmas try_ctor_defs = Try_empty_def Try_of_value_def Try_of_exception_def

lemma try_wf_conc [simp, wf_intros]: "try_wf (try_conc x)"
  by (cases x) (simp_all add: try_conc_simps try_ctor_defs try_wf_def)

lemma try_abs_conc [simp]: "try_abs (try_conc x) = x"
  by (cases x) (simp_all add: try_conc_simps try_ctor_defs try_abs_def)

lemma try_conc_abs: "try_wf t \<Longrightarrow> try_conc (try_abs t) = t"
  by (cases t; cases "inner_type t"; cases "storage t")
     (auto simp: try_wf_def try_abs_def try_conc_simps try_ctor_defs)

lemma try_wf_iff: "try_wf t \<longleftrightarrow> (\<exists>x. t = try_conc x)"
  by (metis try_conc_abs try_wf_conc)

lemma try_wfE:
  assumes "try_wf t"
  obtains "t = Try_empty" | v where "t = Try_of_value v" | e where "t = Try_of_exception e"
  using assms by (metis try_val.exhaust try_conc_simps try_wf_iff)

lemmas try_op_defs =
  Try_Destroy_def Try_move_ctor_def Try_assign_exception_def Try_SetException_def
  Try_Available_def Try_HasException_def Try_CheckHoldsValue_def Try_Value_def
  Try_GetException_def rethrow_exception_def

lemma Try_Destroy_conc [simp]: "Try_Destroy (try_conc x) = (Return (), Try_empty)"
  by (cases x) (simp_all add: try_conc_simps try_ctor_defs try_op_defs outcome_simps)

lemma Try_move_ctor_conc [simp]:
  "Try_move_ctor mv (try_conc x) = (Return (try_conc x), try_conc (try_moved mv x))"
  by (cases x) (simp_all add: try_conc_simps try_ctor_defs try_op_defs outcome_simps)

lemma Try_SetException_conc [simp]:
  "Try_SetException e (try_conc x) = (Return (), Try_of_exception e)"
  by (cases x) (auto simp: try_conc_simps try_ctor_defs try_op_defs outcome_simps)

lemma Try_assign_exception_conc [simp]:
  "Try_assign_exception e (try_conc x) = (Return (), Try_of_exception e)"
  by (cases x) (auto simp: try_conc_simps try_ctor_defs try_op_defs outcome_simps)

lemma Try_Value_conc [simp]: "Try_Value (try_conc x) = (try_value x, try_conc x)"
  by (cases x rule: try_value.cases)
     (simp_all add: try_conc_simps try_ctor_defs try_op_defs outcome_simps)

lemma Try_GetException_conc [simp]:
  "Try_GetException (try_conc x) = (try_get_exception x, try_conc x)"
  by (cases x) (simp_all add: try_conc_simps try_ctor_defs try_op_defs outcome_simps)

lemma Try_queries_conc [simp]:
  "Try_Available (try_conc x) = try_available x"
  "Try_HasException (try_conc x) = try_has_exception x"
  by (cases x; simp add: try_conc_simps try_ctor_defs try_op_defs)+

lemma Try_of_void_conc:
  "Try_of_void t =
     try_conc (case void_exception t of None \<Rightarrow> Value () | Some e \<Rightarrow> Exception (Some e))"
  by (cases "void_exception t")
     (simp_all add: Try_of_void_def TryVoid_HasException_def try_conc_simps try_ctor_defs)

text \<open>Move assignment on a store whose two locations may be one.\<close>

lemma Try_move_assign_conc:
  assumes "\<sigma> this = try_conc x" and "\<sigma> other = try_conc y"
  shows "Try_move_assign mv this other \<sigma> =
           (Return (), if this = other then \<sigma>
                       else \<sigma>(this := try_conc y, other := try_conc (try_moved mv y)))"
proof (cases "this = other")
  case True
  then show ?thesis by (simp add: Try_move_assign_def outcome_simps)
next
  case False
  with assms show ?thesis
    by (cases y)
       (auto simp: Try_move_assign_def outcome_simps try_conc_simps try_ctor_defs fun_eq_iff)
qed

section \<open>Every sequence of operations\<close>

text \<open>
  A program's uses of a set of \<open>Try\<close> objects, as a list of operations on a store: the
  constructors write the location (whose old object is destroyed first, as at scope exit).
\<close>

datatype ('l, 'a) try_op =
    OpConstruct 'l
  | OpValue 'l 'a
  | OpException 'l exception_ptr
  | OpMoveAssign 'l 'l
  | OpMoveCtor 'l 'l
  | OpAssignException 'l exception_ptr
  | OpSetException 'l exception_ptr

definition renew :: "'l \<Rightarrow> 'a try_obj \<Rightarrow> ('l \<Rightarrow> 'a try_obj, unit) action" where
  "renew l t = seq (at l Try_Destroy) (modify (\<lambda>\<sigma>. \<sigma>(l := t\<lparr>lost := lost t + lost (\<sigma> l)\<rparr>)))"

fun try_step :: "('a \<Rightarrow> 'a) \<Rightarrow> ('l, 'a) try_op \<Rightarrow> ('l \<Rightarrow> 'a try_obj, unit) action" where
  "try_step mv (OpConstruct l) = renew l Try_empty"
| "try_step mv (OpValue l v) = renew l (Try_of_value v)"
| "try_step mv (OpException l e) = renew l (Try_of_exception e)"
| "try_step mv (OpMoveAssign l m) = Try_move_assign mv l m"
| "try_step mv (OpMoveCtor l m) = bind (at m (Try_move_ctor mv)) (\<lambda>t. renew l t)"
| "try_step mv (OpAssignException l e) = at l (Try_assign_exception e)"
| "try_step mv (OpSetException l e) = at l (Try_SetException e)"

fun try_run :: "('a \<Rightarrow> 'a) \<Rightarrow> ('l, 'a) try_op list \<Rightarrow> ('l \<Rightarrow> 'a try_obj, unit) action" where
  "try_run mv [] = ret ()"
| "try_run mv (p # ps) = seq (try_step mv p) (try_run mv ps)"

text \<open>The same operations on the sum type.\<close>

fun try_spec_step :: "('a \<Rightarrow> 'a) \<Rightarrow> ('l, 'a) try_op \<Rightarrow> ('l \<Rightarrow> 'a try_val) \<Rightarrow> ('l \<Rightarrow> 'a try_val)" where
  "try_spec_step mv (OpConstruct l) s = s(l := Nothing)"
| "try_spec_step mv (OpValue l v) s = s(l := Value v)"
| "try_spec_step mv (OpException l e) s = s(l := Exception e)"
| "try_spec_step mv (OpMoveAssign l m) s =
     (if l = m then s else s(l := s m, m := try_moved mv (s m)))"
| "try_spec_step mv (OpMoveCtor l m) s = s(m := try_moved mv (s m), l := s m)"
| "try_spec_step mv (OpAssignException l e) s = s(l := Exception e)"
| "try_spec_step mv (OpSetException l e) s = s(l := Exception e)"

fun try_spec_run :: "('a \<Rightarrow> 'a) \<Rightarrow> ('l, 'a) try_op list \<Rightarrow> ('l \<Rightarrow> 'a try_val) \<Rightarrow> ('l \<Rightarrow> 'a try_val)" where
  "try_spec_run mv [] s = s"
| "try_spec_run mv (p # ps) s = try_spec_run mv ps (try_spec_step mv p s)"

lemma renew_conc:
  "renew l (try_conc x) (\<lambda>k. try_conc (s k)) = (Return (), \<lambda>k. try_conc ((s(l := x)) k))"
proof -
  have "try_conc x\<lparr>lost := lost (try_conc x) + lost Try_empty\<rparr> = try_conc x"
    by (cases x) (simp_all add: try_conc_simps try_ctor_defs)
  then show ?thesis by (auto simp: renew_def outcome_simps fun_eq_iff)
qed

lemmas renew_ctors = renew_conc [where x = Nothing, simplified try_conc_simps]
  renew_conc [where x = "Value v" for v, simplified try_conc_simps]
  renew_conc [where x = "Exception e" for e, simplified try_conc_simps]

lemma try_step_conc:
  "try_step mv p (\<lambda>k. try_conc (s k)) = (Return (), \<lambda>k. try_conc (try_spec_step mv p s k))"
proof (cases p)
  case (OpMoveCtor l m)
  have "(\<lambda>k. try_conc (s k))(m := try_conc (try_moved mv (s m)))
          = (\<lambda>k. try_conc ((s(m := try_moved mv (s m))) k))" by auto
  then show ?thesis using OpMoveCtor by (simp add: outcome_simps renew_conc fun_upd_def)
qed (auto simp: renew_ctors Try_move_assign_conc outcome_simps try_conc_simps)

lemma try_run_conc:
  "try_run mv ps (\<lambda>k. try_conc (s k)) = (Return (), \<lambda>k. try_conc (try_spec_run mv ps s k))"
  by (induction ps arbitrary: s) (simp_all add: outcome_simps try_step_conc)

lemma MakeTryCall_run:
  "MakeTryCall f s =
     (case f s of
        (Return x, s') \<Rightarrow> (Return (try_conc (Value x)), s')
      | (Throw e, s') \<Rightarrow> (Return (try_conc (Exception (Some e))), s')
      | (Abort, s') \<Rightarrow> (Abort, s')
      | (Undefined, s') \<Rightarrow> (Undefined, s'))"
  by (auto simp: MakeTryCall_def outcome_simps try_conc_simps split: outcome.splits prod.splits)

section \<open>The interface the rest of the library relies on\<close>

text \<open>
  Both implementations of \<open>Try\<close> promise the same contract, stated over the sum type. What a
  client concludes from it is proved once here.
\<close>

locale try_like =
  fixes wf :: "'o \<Rightarrow> bool"
    and abs :: "'o \<Rightarrow> 'a try_val"
    and of_value :: "'a \<Rightarrow> 'o"
    and of_exception :: "exception_ptr \<Rightarrow> 'o"
    and available :: "'o \<Rightarrow> bool"
    and has_exception :: "'o \<Rightarrow> bool"
    and get_value :: "('o, 'a) action"
    and get_exception :: "('o, exception_ptr) action"
    and set_exception :: "exception_ptr \<Rightarrow> ('o, unit) action"
    and make_call :: "('s, 'a) action \<Rightarrow> ('s, 'o) action"
  assumes wf_ctors: "wf (of_value v)" "wf (of_exception e)"
    and abs_ctors: "abs (of_value v) = Value v" "abs (of_exception e) = Exception e"
    and queries: "wf t \<Longrightarrow> available t = try_available (abs t)"
      "wf t \<Longrightarrow> has_exception t = try_has_exception (abs t)"
    and get_value_spec: "wf t \<Longrightarrow> get_value t = (try_value (abs t), t)"
    and get_exception_spec: "wf t \<Longrightarrow> abs t = Exception e \<Longrightarrow> get_exception t = (Return e, t)"
      "wf t \<Longrightarrow> \<not> try_has_exception (abs t) \<Longrightarrow>
         \<exists>msg. get_exception t = (Throw (LogicError msg), t)"
    and set_exception_spec: "wf t \<Longrightarrow> set_exception e t = (Return (), of_exception e)"
    and make_call_spec: "make_call f s =
      (case f s of
         (Return x, s') \<Rightarrow> (Return (of_value x), s')
       | (Throw e, s') \<Rightarrow> (Return (of_exception (Some e)), s')
       | (Abort, s') \<Rightarrow> (Abort, s')
       | (Undefined, s') \<Rightarrow> (Undefined, s'))"
begin

lemma call_never_throws: "fst (make_call f s) \<noteq> Throw e"
  by (auto simp: make_call_spec split: outcome.splits prod.splits)

text \<open>Asking the stored result for its value replays the call, exceptions included.\<close>

lemma call_replays:
  assumes "make_call f s = (Return t, s')"
  shows "wf t \<and> available t \<and> f s = (fst (get_value t), s')"
  using assms
  by (auto simp: make_call_spec wf_ctors queries get_value_spec abs_ctors
      split: outcome.splits prod.splits)

lemma set_exception_replays:
  assumes "wf t"
  shows "\<exists>t'. set_exception (Some e) t = (Return (), t') \<and> wf t' \<and> has_exception t' \<and>
           get_value t' = (Throw e, t') \<and> get_exception t' = (Return (Some e), t')"
  using assms
  by (simp add: set_exception_spec wf_ctors queries get_value_spec get_exception_spec abs_ctors)

lemma set_exception_idem:
  assumes "wf t"
  shows "seq (set_exception e) (set_exception e) t = set_exception e t"
  using assms by (simp add: outcome_simps set_exception_spec wf_ctors)

end

interpretation tryb: try_like try_wf try_abs Try_of_value Try_of_exception
  Try_Available Try_HasException Try_Value Try_GetException Try_SetException MakeTryCall
proof unfold_locales
  show "try_wf (Try_of_value v)" for v :: 'a
    by (metis try_wf_conc try_conc_simps(2))
  show "try_wf (Try_of_exception e)" for e
    by (metis try_wf_conc try_conc_simps(3))
  show "try_abs (Try_of_value v) = Value v" for v :: 'a
    by (metis try_abs_conc try_conc_simps(2))
  show "try_abs (Try_of_exception e) = Exception e" for e
    by (metis try_abs_conc try_conc_simps(3))
  show "\<exists>msg. Try_GetException t = (Throw (LogicError msg), t)"
    if "try_wf t" "\<not> try_has_exception (try_abs t)" for t :: "'a try_obj"
    using that by (cases "try_abs t") (auto simp: try_wf_iff)
  show "Try_GetException t = (Return e, t)"
    if "try_wf t" "try_abs t = Exception e" for t :: "'a try_obj" and e
    using that by (metis Try_GetException_conc try_conc_abs try_get_exception.simps(1))
qed (auto simp: try_wf_iff MakeTryCall_run try_conc_simps split: outcome.splits prod.splits)

section \<open>Properties\<close>

text \<open>
  Claim C1. The hand-written union of \<open>Try<T>\<close> is used safely: any sequence of
  constructions, moves, self-moves and exception assignments on any set of well-formed
  objects runs to the end without undefined behaviour, leaves every object's tag
  in agreement with its live member, skips no destructor, and computes what the sum type computes.
\<close>

theorem try_ops_refine:
  assumes "\<forall>k. try_wf (\<sigma> k)"
  shows "\<exists>\<sigma>'. try_run mv ps \<sigma> = (Return (), \<sigma>') \<and> (\<forall>k. try_wf (\<sigma>' k)) \<and>
           (\<forall>k. try_abs (\<sigma>' k) = try_spec_run mv ps (\<lambda>k. try_abs (\<sigma> k)) k)"
proof -
  have "\<sigma> = (\<lambda>k. try_conc (try_abs (\<sigma> k)))"
    using assms by (simp add: try_conc_abs)
  then have "try_run mv ps \<sigma> =
      (Return (), \<lambda>k. try_conc (try_spec_run mv ps (\<lambda>k. try_abs (\<sigma> k)) k))"
    by (metis try_run_conc)
  then show ?thesis by simp
qed

text \<open>A run with a self-move, a move between two objects and a stored exception.\<close>

definition demo_ops :: "(nat, nat) try_op list" where
  "demo_ops = [OpValue 1 7, OpMoveAssign 1 1, OpMoveAssign 2 1,
     OpSetException 3 (Some (UserExn 5)), OpMoveAssign 2 3]"

theorem try_ops_refine_witness:
  "\<exists>\<sigma>'. try_run (\<lambda>_. 0) demo_ops (\<lambda>_. Try_empty) = (Return (), \<sigma>') \<and>
     try_wf (\<sigma>' 1) \<and> try_abs (\<sigma>' 1) = Value 0 \<and>
     try_abs (\<sigma>' 2) = Exception (Some (UserExn 5)) \<and> try_abs (\<sigma>' 3) = Exception (Some (UserExn 5))"
proof -
  have "\<forall>k. try_wf ((\<lambda>_. Try_empty) k :: nat try_obj)"
    by (simp add: try_wf_def Try_empty_def)
  from try_ops_refine [OF this, of "\<lambda>_. 0" demo_ops]
  obtain \<sigma>' where run: "try_run (\<lambda>_. 0) demo_ops (\<lambda>_. Try_empty) = (Return (), \<sigma>')"
    and wf: "\<forall>k. try_wf (\<sigma>' k)"
    and abs: "\<forall>k. try_abs (\<sigma>' k) =
      try_spec_run (\<lambda>_. 0) demo_ops (\<lambda>k. try_abs (Try_empty :: nat try_obj)) k"
    by blast
  have "try_abs (\<sigma>' 1) = Value 0" "try_abs (\<sigma>' 2) = Exception (Some (UserExn 5))"
    "try_abs (\<sigma>' 3) = Exception (Some (UserExn 5))"
    by (simp_all add: abs demo_ops_def)
  with run wf show ?thesis by blast
qed

text \<open>
  \<open>MakeTryCall\<close> loses nothing: it never throws itself, and asking the \<open>Try\<close> it
  returns for its value gives back exactly what the call did, the exception included, with the
  same effect on the caller's state.
\<close>

lemma MakeTryCall_replays:
  "(case MakeTryCall f s of
      (Return t, s') \<Rightarrow> try_wf t \<and> Try_Available t \<and> f s = (fst (Try_Value t), s')
    | (Throw e, s') \<Rightarrow> False
    | (Abort, s') \<Rightarrow> f s = (Abort, s')
    | (Undefined, s') \<Rightarrow> f s = (Undefined, s'))"
proof (cases "MakeTryCall f s")
  case (Pair r s')
  show ?thesis
  proof (cases r)
    case (Return t)
    with Pair show ?thesis using tryb.call_replays [of f s t s'] by simp
  next
    case (Throw e)
    with Pair show ?thesis using tryb.call_never_throws [of f s e] by simp
  qed (use Pair in \<open>auto simp: tryb.make_call_spec split: outcome.splits prod.splits\<close>)
qed

end
