(* ===== verification/Try_Variant.thy ===== *)
theory Try_Variant
  imports Try_Base
begin

text \<open>
  \<^verbatim>\<open>include/async_simple/base/try_variant.hpp\<close>: \<open>TryV<T>\<close>, the second implementation of
  \<open>Try\<close>, over \<open>std::variant<std::monostate, T, std::exception_ptr>\<close>, with its specialisation for
  \<open>void\<close> and its call wrappers. A move constructor of \<open>T\<close> that throws (which would leave the
  variant valueless) is outside the model.
\<close>

section \<open>The object\<close>

datatype 'a variant = Monostate | HoldsValue 'a | HoldsException exception_ptr

record 'a tryv_obj =
  variant_value :: "'a variant"

text \<open>\<open>std::get\<close> throws on the wrong alternative; moving a variant moves the held alternative.\<close>

definition get_T :: "('a tryv_obj, 'a) action" where
  "get_T t = (case variant_value t of HoldsValue v \<Rightarrow> (Return v, t) | _ \<Rightarrow> (Throw BadVariantAccess, t))"

definition get_exception_ptr :: "('a tryv_obj, exception_ptr) action" where
  "get_exception_ptr t =
     (case variant_value t of HoldsException e \<Rightarrow> (Return e, t) | _ \<Rightarrow> (Throw BadVariantAccess, t))"

fun variant_moved ::
  "('a \<Rightarrow> 'a) \<Rightarrow> (exception_ptr \<Rightarrow> exception_ptr) \<Rightarrow> 'a variant \<Rightarrow> 'a variant" where
  "variant_moved mv mvx Monostate = Monostate"
| "variant_moved mv mvx (HoldsValue v) = HoldsValue (mv v)"
| "variant_moved mv mvx (HoldsException e) = HoldsException (mvx e)"

fun holds_monostate :: "'a variant \<Rightarrow> bool" where
  "holds_monostate Monostate = True"
| "holds_monostate _ = False"

fun holds_value :: "'a variant \<Rightarrow> bool" where
  "holds_value (HoldsValue v) = True"
| "holds_value _ = False"

fun holds_exception :: "'a variant \<Rightarrow> bool" where
  "holds_exception (HoldsException e) = True"
| "holds_exception _ = False"

section \<open>The operations of \<open>TryV<T>\<close>\<close>

definition TryV_empty :: "'a tryv_obj" where
  "TryV_empty = \<lparr>variant_value = Monostate\<rparr>"

definition TryV_of_value :: "'a \<Rightarrow> 'a tryv_obj" where
  "TryV_of_value v = \<lparr>variant_value = HoldsValue v\<rparr>"

definition TryV_of_exception :: "exception_ptr \<Rightarrow> 'a tryv_obj" where
  "TryV_of_exception e = \<lparr>variant_value = HoldsException e\<rparr>"

definition TryV_move_ctor ::
  "('a \<Rightarrow> 'a) \<Rightarrow> (exception_ptr \<Rightarrow> exception_ptr) \<Rightarrow> ('a tryv_obj, 'a tryv_obj) action" where
  "TryV_move_ctor mv mvx other =
     (Return \<lparr>variant_value = variant_value other\<rparr>,
      other\<lparr>variant_value := variant_moved mv mvx (variant_value other)\<rparr>)"

definition TryV_move_assign ::
  "('a \<Rightarrow> 'a) \<Rightarrow> (exception_ptr \<Rightarrow> exception_ptr) \<Rightarrow> 'l \<Rightarrow> 'l \<Rightarrow> ('l \<Rightarrow> 'a tryv_obj, unit) action" where
  "TryV_move_assign mv mvx this other =
     (if other \<noteq> this then
        bind (at other (\<lambda>t. (Return (variant_value t),
                             t\<lparr>variant_value := variant_moved mv mvx (variant_value t)\<rparr>)))
          (\<lambda>v. at this (modify (\<lambda>t. t\<lparr>variant_value := v\<rparr>)))
      else ret ())"

definition TryV_assign_exception :: "exception_ptr \<Rightarrow> ('a tryv_obj, unit) action" where
  "TryV_assign_exception e = modify (\<lambda>t. t\<lparr>variant_value := HoldsException e\<rparr>)"

definition TryV_Available :: "'a tryv_obj \<Rightarrow> bool" where
  "TryV_Available t \<longleftrightarrow> \<not> holds_monostate (variant_value t)"

definition TryV_HasException :: "'a tryv_obj \<Rightarrow> bool" where
  "TryV_HasException t \<longleftrightarrow> holds_exception (variant_value t)"

definition TryV_CheckHoldsValue :: "('a tryv_obj, unit) action" where
  "TryV_CheckHoldsValue =
     bind (gets variant_value) (\<lambda>v.
       if holds_value v then ret ()
       else if holds_exception v then bind get_exception_ptr rethrow_exception
       else if holds_monostate v then throw (LogicError ''Try object is empty'')
       else ASSERT False)"

definition TryV_Value :: "('a tryv_obj, 'a) action" where
  "TryV_Value = seq TryV_CheckHoldsValue get_T"

definition TryV_SetException :: "exception_ptr \<Rightarrow> ('a tryv_obj, unit) action" where
  "TryV_SetException e =
     bind (gets variant_value) (\<lambda>v.
     bind (if holds_exception v then bind get_exception_ptr (\<lambda>x. ret (x = e)) else ret False)
       (\<lambda>same. if same then ret ()
               else modify (\<lambda>t. t\<lparr>variant_value := HoldsException e\<rparr>)))"

definition TryV_GetException :: "('a tryv_obj, exception_ptr) action" where
  "TryV_GetException =
     bind (gets variant_value) (\<lambda>v.
       seq (LOGIC_ASSERT (holds_exception v) ''Try object do not have an exception'')
           get_exception_ptr)"

section \<open>\<open>TryV<void>\<close> and the call wrappers\<close>

record tryv_void =
  vvoid_exception :: exception_ptr

definition TryVVoid_empty :: tryv_void where
  "TryVVoid_empty = \<lparr>vvoid_exception = None\<rparr>"

definition TryVVoid_of_exception :: "exception_ptr \<Rightarrow> tryv_void" where
  "TryVVoid_of_exception e = \<lparr>vvoid_exception = e\<rparr>"

definition TryVVoid_assign_exception :: "exception_ptr \<Rightarrow> (tryv_void, unit) action" where
  "TryVVoid_assign_exception e = modify (\<lambda>t. t\<lparr>vvoid_exception := e\<rparr>)"

definition TryVVoid_move_ctor ::
  "(exception_ptr \<Rightarrow> exception_ptr) \<Rightarrow> (tryv_void, tryv_void) action" where
  "TryVVoid_move_ctor mvx other =
     (Return \<lparr>vvoid_exception = vvoid_exception other\<rparr>,
      other\<lparr>vvoid_exception := mvx (vvoid_exception other)\<rparr>)"

definition TryVVoid_move_assign :: "'l \<Rightarrow> 'l \<Rightarrow> ('l \<Rightarrow> tryv_void, unit) action" where
  "TryVVoid_move_assign this other =
     (if this \<noteq> other then
        bind (at this (gets vvoid_exception)) (\<lambda>mine.
        bind (at other (gets vvoid_exception)) (\<lambda>theirs.
        seq (at this (modify (\<lambda>t. t\<lparr>vvoid_exception := theirs\<rparr>)))
            (at other (modify (\<lambda>t. t\<lparr>vvoid_exception := mine\<rparr>)))))
      else ret ())"

definition TryVVoid_Value :: "(tryv_void, unit) action" where
  "TryVVoid_Value =
     bind (gets vvoid_exception) (\<lambda>e. if e \<noteq> None then rethrow_exception e else ret ())"

definition TryVVoid_HasException :: "tryv_void \<Rightarrow> bool" where
  "TryVVoid_HasException t \<longleftrightarrow> vvoid_exception t \<noteq> None"

definition TryVVoid_SetException :: "exception_ptr \<Rightarrow> (tryv_void, unit) action" where
  "TryVVoid_SetException e = modify (\<lambda>t. t\<lparr>vvoid_exception := e\<rparr>)"

definition TryVVoid_GetException :: "tryv_void \<Rightarrow> exception_ptr" where
  "TryVVoid_GetException t = vvoid_exception t"

definition TryV_of_void :: "tryv_void \<Rightarrow> unit tryv_obj" where
  "TryV_of_void other =
     (if TryVVoid_HasException other
      then \<lparr>variant_value = HoldsException (TryVVoid_GetException other)\<rparr>
      else \<lparr>variant_value = HoldsValue ()\<rparr>)"

definition MakeTryVCall :: "('s, 'b) action \<Rightarrow> ('s, 'b tryv_obj) action" where
  "MakeTryVCall f =
     try_catch (bind f (\<lambda>x. ret (TryV_of_value x))) (\<lambda>e. ret (TryV_of_exception (Some e)))"

definition MakeTryVCall_void :: "('s, unit) action \<Rightarrow> ('s, tryv_void) action" where
  "MakeTryVCall_void f =
     try_catch (bind f (\<lambda>_. ret TryVVoid_empty)) (\<lambda>e. ret (TryVVoid_of_exception (Some e)))"

section \<open>The contract\<close>

fun variant_abs :: "'a variant \<Rightarrow> 'a try_val" where
  "variant_abs Monostate = Nothing"
| "variant_abs (HoldsValue v) = Value v"
| "variant_abs (HoldsException e) = Exception e"

definition tryv_abs :: "'a tryv_obj \<Rightarrow> 'a try_val" where
  "tryv_abs t = variant_abs (variant_value t)"

lemma tryv_abs_inject: "tryv_abs t = tryv_abs u \<longleftrightarrow> (t :: 'a tryv_obj) = u"
  by (cases t; cases u; cases "variant_value t"; cases "variant_value u")
     (simp_all add: tryv_abs_def)

lemmas tryv_op_defs =
  TryV_Available_def TryV_HasException_def TryV_CheckHoldsValue_def TryV_Value_def
  TryV_SetException_def TryV_GetException_def TryV_assign_exception_def
  TryV_empty_def TryV_of_value_def TryV_of_exception_def get_T_def get_exception_ptr_def

lemma TryV_Value_abs: "TryV_Value t = (try_value (tryv_abs t), t)"
  by (cases t; cases "variant_value t")
     (auto simp: tryv_op_defs rethrow_exception_def outcome_simps tryv_abs_def split: option.splits)

lemma TryV_SetException_abs: "TryV_SetException e t = (Return (), TryV_of_exception e)"
  by (cases t; cases "variant_value t") (auto simp: tryv_op_defs outcome_simps tryv_abs_def)

lemma TryV_assign_exception_abs: "TryV_assign_exception e t = (Return (), TryV_of_exception e)"
  by (cases t) (simp add: tryv_op_defs outcome_simps)

interpretation tryvar: try_like "\<lambda>_. True" tryv_abs TryV_of_value TryV_of_exception
  TryV_Available TryV_HasException TryV_Value TryV_GetException TryV_SetException MakeTryVCall
proof unfold_locales
  show "TryV_Available t = try_available (tryv_abs t)" for t :: "'a tryv_obj"
    by (cases "variant_value t") (simp_all add: tryv_op_defs tryv_abs_def)
  show "TryV_HasException t = try_has_exception (tryv_abs t)" for t :: "'a tryv_obj"
    by (cases "variant_value t") (simp_all add: tryv_op_defs tryv_abs_def)
  show "TryV_GetException t = (Return e, t)" if "tryv_abs t = Exception e" for t :: "'a tryv_obj" and e
    using that by (cases "variant_value t") (simp_all add: tryv_op_defs tryv_abs_def outcome_simps)
  show "\<exists>msg. TryV_GetException t = (Throw (LogicError msg), t)"
    if "\<not> try_has_exception (tryv_abs t)" for t :: "'a tryv_obj"
    using that by (cases "variant_value t") (simp_all add: tryv_op_defs tryv_abs_def outcome_simps)
qed (auto simp: tryv_abs_def TryV_of_value_def TryV_of_exception_def TryV_Value_abs
    TryV_SetException_abs MakeTryVCall_def outcome_simps split: outcome.splits prod.splits)

section \<open>The two implementations side by side\<close>

definition renewv :: "'l \<Rightarrow> 'a tryv_obj \<Rightarrow> ('l \<Rightarrow> 'a tryv_obj, unit) action" where
  "renewv l t = modify (\<lambda>\<sigma>. \<sigma>(l := t))"

fun tryv_step ::
  "('a \<Rightarrow> 'a) \<Rightarrow> (exception_ptr \<Rightarrow> exception_ptr) \<Rightarrow> ('l, 'a) try_op \<Rightarrow>
   ('l \<Rightarrow> 'a tryv_obj, unit) action" where
  "tryv_step mv mvx (OpConstruct l) = renewv l TryV_empty"
| "tryv_step mv mvx (OpValue l v) = renewv l (TryV_of_value v)"
| "tryv_step mv mvx (OpException l e) = renewv l (TryV_of_exception e)"
| "tryv_step mv mvx (OpMoveAssign l m) = TryV_move_assign mv mvx l m"
| "tryv_step mv mvx (OpMoveCtor l m) = bind (at m (TryV_move_ctor mv mvx)) (\<lambda>t. renewv l t)"
| "tryv_step mv mvx (OpAssignException l e) = at l (TryV_assign_exception e)"
| "tryv_step mv mvx (OpSetException l e) = at l (TryV_SetException e)"

fun tryv_run ::
  "('a \<Rightarrow> 'a) \<Rightarrow> (exception_ptr \<Rightarrow> exception_ptr) \<Rightarrow> ('l, 'a) try_op list \<Rightarrow>
   ('l \<Rightarrow> 'a tryv_obj, unit) action" where
  "tryv_run mv mvx [] = ret ()"
| "tryv_run mv mvx (p # ps) = seq (tryv_step mv mvx p) (tryv_run mv mvx ps)"

text \<open>
  Two results agree when they have the same shape and the same value. The exception pointers
  agree too when \<open>exact\<close> is set, which is sound when moving a pointer leaves it as it was:
  \<open>Try\<close> copies the pointer out of a moved-from object, \<open>TryV\<close> moves it out.
\<close>

fun same_shape :: "bool \<Rightarrow> 'a try_val \<Rightarrow> 'a try_val \<Rightarrow> bool" where
  "same_shape exact Nothing Nothing = True"
| "same_shape exact (Value v) (Value w) = (v = w)"
| "same_shape exact (Exception e) (Exception f) = (exact \<longrightarrow> e = f)"
| "same_shape exact _ _ = False"

lemma same_shape_refl [simp]: "same_shape exact x x"
  by (cases x) simp_all

lemma same_shape_exact: "same_shape True x y \<longleftrightarrow> x = y"
  by (cases x; cases y) auto

lemma same_shape_moved:
  "same_shape exact x (variant_abs v) \<Longrightarrow> (exact \<Longrightarrow> mvx = id) \<Longrightarrow>
   same_shape exact (try_moved mv x) (variant_abs (variant_moved mv mvx v))"
  by (cases x; cases v) auto

lemma same_shape_queries:
  "same_shape exact x y \<Longrightarrow> try_available x = try_available y \<and>
     try_has_exception x = try_has_exception y \<and> (\<forall>v. x = Value v \<longleftrightarrow> y = Value v)"
  by (cases x; cases y) auto

lemma tryv_step_agrees:
  assumes "\<forall>k. same_shape exact (s k) (tryv_abs (\<tau> k))" and "exact \<Longrightarrow> mvx = id"
  shows "\<exists>\<tau>'. tryv_step mv mvx p \<tau> = (Return (), \<tau>') \<and>
           (\<forall>k. same_shape exact (try_spec_step mv p s k) (tryv_abs (\<tau>' k)))"
  using assms
  by (cases p)
     (auto simp: renewv_def outcome_simps TryV_move_assign_def TryV_move_ctor_def tryv_abs_def
        TryV_assign_exception_abs TryV_SetException_abs TryV_empty_def TryV_of_value_def
        TryV_of_exception_def same_shape_moved)

lemma tryv_run_agrees:
  assumes "\<forall>k. same_shape exact (s k) (tryv_abs (\<tau> k))" and "exact \<Longrightarrow> mvx = id"
  shows "\<exists>\<tau>'. tryv_run mv mvx ps \<tau> = (Return (), \<tau>') \<and>
           (\<forall>k. same_shape exact (try_spec_run mv ps s k) (tryv_abs (\<tau>' k)))"
  using assms
proof (induction ps arbitrary: s \<tau>)
  case Nil
  then show ?case by (simp add: outcome_simps)
next
  case (Cons p ps)
  obtain \<tau>1 where "tryv_step mv mvx p \<tau> = (Return (), \<tau>1)"
    and "\<forall>k. same_shape exact (try_spec_step mv p s k) (tryv_abs (\<tau>1 k))"
    using tryv_step_agrees [OF Cons.prems] by blast
  with Cons.IH Cons.prems(2) show ?case by (auto simp: outcome_simps)
qed

lemma try_tryv_run:
  assumes "exact \<Longrightarrow> mvx = id"
  shows "\<exists>\<sigma> \<tau>. try_run mv ps (\<lambda>_. Try_empty) = (Return (), \<sigma>) \<and>
           tryv_run mv mvx ps (\<lambda>_. TryV_empty) = (Return (), \<tau>) \<and>
           (\<forall>k. try_wf (\<sigma> k) \<and> same_shape exact (try_abs (\<sigma> k)) (tryv_abs (\<tau> k)))"
proof -
  let ?s = "\<lambda>_. Nothing"
  have "\<forall>k. same_shape exact (?s k) (tryv_abs ((\<lambda>_. TryV_empty) k))"
    by (simp add: tryv_abs_def TryV_empty_def)
  from tryv_run_agrees [OF this assms, of mv ps]
  obtain \<tau> where "tryv_run mv mvx ps (\<lambda>_. TryV_empty) = (Return (), \<tau>)"
    and "\<forall>k. same_shape exact (try_spec_run mv ps ?s k) (tryv_abs (\<tau> k))" by auto
  then show ?thesis using try_run_conc [of mv ps ?s] by (auto simp: try_conc_simps)
qed

section \<open>Properties\<close>

text \<open>
  Claim C2. After any sequence of operations from default-constructed objects, every \<open>Try\<close> and the corresponding
  \<open>TryV\<close> are available together, hold an exception together, and where one's \<open>Value\<close> returns a value the other's returns the same one.
  What \<open>Value\<close> does in the remaining cases (which exception it throws, whether that is defined) agrees when moving an exception
  pointer leaves it unchanged, and that is needed: the next property is a sequence after which they differ.
\<close>

theorem try_variant_equivalent:
  "\<exists>\<sigma> \<tau>. try_run mv ps (\<lambda>_. Try_empty) = (Return (), \<sigma>) \<and>
     tryv_run mv mvx ps (\<lambda>_. TryV_empty) = (Return (), \<tau>) \<and>
     (\<forall>k. Try_Available (\<sigma> k) = TryV_Available (\<tau> k) \<and>
          Try_HasException (\<sigma> k) = TryV_HasException (\<tau> k) \<and>
          (\<forall>v. fst (Try_Value (\<sigma> k)) = Return v \<longleftrightarrow> fst (TryV_Value (\<tau> k)) = Return v) \<and>
          (mvx = id \<longrightarrow> fst (Try_Value (\<sigma> k)) = fst (TryV_Value (\<tau> k))))"
proof -
  obtain \<sigma> \<tau> where run: "try_run mv ps (\<lambda>_. Try_empty) = (Return (), \<sigma>)"
      "tryv_run mv mvx ps (\<lambda>_. TryV_empty) = (Return (), \<tau>)"
    and wf: "\<forall>k. try_wf (\<sigma> k)"
    and same: "\<forall>k. same_shape (mvx = id) (try_abs (\<sigma> k)) (tryv_abs (\<tau> k))"
    using try_tryv_run [of "mvx = id" mvx mv ps] by blast
  have "Try_Available (\<sigma> k) = TryV_Available (\<tau> k) \<and>
        Try_HasException (\<sigma> k) = TryV_HasException (\<tau> k) \<and>
        (\<forall>v. fst (Try_Value (\<sigma> k)) = Return v \<longleftrightarrow> fst (TryV_Value (\<tau> k)) = Return v) \<and>
        (mvx = id \<longrightarrow> fst (Try_Value (\<sigma> k)) = fst (TryV_Value (\<tau> k)))" for k
    using wf same same_shape_queries [of "mvx = id" "try_abs (\<sigma> k)" "tryv_abs (\<tau> k)"]
    by (auto simp: tryb.queries tryb.get_value_spec tryvar.queries tryvar.get_value_spec try_value_Return_iff
        same_shape_exact)
  with run show ?thesis by blast
qed

theorem try_variant_equivalent_witness:
  "\<exists>\<sigma> \<tau>. try_run (\<lambda>_. 0) demo_ops (\<lambda>_. Try_empty) = (Return (), \<sigma>) \<and>
     tryv_run (\<lambda>_. 0) id demo_ops (\<lambda>_. TryV_empty) = (Return (), \<tau>) \<and>
     fst (Try_Value (\<sigma> 1)) = fst (TryV_Value (\<tau> 1)) \<and>
     fst (Try_Value (\<sigma> 3)) = fst (TryV_Value (\<tau> 3))"
proof -
  obtain \<sigma> \<tau> where "try_run (\<lambda>_. 0) demo_ops (\<lambda>_. Try_empty) = (Return (), \<sigma>)"
    "tryv_run (\<lambda>_. 0) id demo_ops (\<lambda>_. TryV_empty) = (Return (), \<tau>)"
    "\<forall>k. id = (id :: exception_ptr \<Rightarrow> _) \<longrightarrow> fst (Try_Value (\<sigma> k)) = fst (TryV_Value (\<tau> k))"
    using try_variant_equivalent [of "\<lambda>_. 0" demo_ops id] by blast
  then show ?thesis by blast
qed

text \<open>
  Claim C3. The implementations do differ on a moved-from exception: where moving a pointer
  nulls it (as libstdc++ does), a moved-from \<open>TryV\<close> still reports an exception but asking for
  its value is undefined, while a moved-from \<open>Try\<close> rethrows the exception it held.
\<close>

theorem moved_from_exception_differs:
  "(\<exists>u. TryV_move_ctor mv (\<lambda>_. None) (TryV_of_exception (Some e)) =
          (Return (TryV_of_exception (Some e)), u) \<and>
        TryV_HasException u \<and> TryV_Value u = (Undefined, u)) \<and>
   (\<exists>t. Try_move_ctor mv (Try_of_exception (Some e)) = (Return (Try_of_exception (Some e)), t) \<and>
        Try_HasException t \<and> Try_Value t = (Throw e, t))"
proof
  show "\<exists>u. TryV_move_ctor mv (\<lambda>_. None) (TryV_of_exception (Some e)) =
         (Return (TryV_of_exception (Some e)), u) \<and>
       TryV_HasException u \<and> TryV_Value u = (Undefined, u)"
    by (simp add: TryV_move_ctor_def tryvar.queries TryV_Value_abs tryv_abs_def TryV_of_exception_def)
  show "\<exists>t. Try_move_ctor mv (Try_of_exception (Some e)) = (Return (Try_of_exception (Some e)), t) \<and>
       Try_HasException t \<and> Try_Value t = (Throw e, t)"
    using Try_move_ctor_conc [of mv "Exception (Some e)"] Try_Value_conc [of "Exception (Some e)"]
      Try_queries_conc(2) [of "Exception (Some e)"]
    by (simp add: try_conc_simps)
qed

end
