(* ===== verification/Threadsafe_Queue.thy ===== *)
theory Threadsafe_Queue
  imports Async_Prelude
begin

text \<open>
  \<^verbatim>\<open>include/async_simple/container/threadsafe_queue.hpp\<close>. Every method holds the mutex for its
  whole effect on the queue, so each is one atomic function here; what the mutex does not cover
  (the call of \<open>notify_one\<close>/\<open>notify_all\<close> after it is released, and waiting on the condition
  variable) is the step relation of the second half. A \<open>try_to_lock\<close> may fail, spuriously or
  because another thread holds the mutex: whether it succeeded is an argument.
\<close>

section \<open>The queue and its operations\<close>

record 'a tsq =
  items :: "'a list"
  stopped :: bool

text \<open>
  The class declares \<open>bool stop_\<close> without an initialiser: a default-initialised queue starts with
  an indeterminate flag, the argument here. The pool value-initialises its queues in a
  \<open>std::vector\<close>, which zeroes the flag.
\<close>

definition Queue_ctor :: "bool \<Rightarrow> 'a tsq" where
  "Queue_ctor indeterminate = \<lparr>items = [], stopped = indeterminate\<rparr>"

definition Queue_Push :: "'a \<Rightarrow> 'a tsq \<Rightarrow> 'a tsq" where
  "Queue_Push item q = q\<lparr>items := items q @ [item]\<rparr>"

definition Queue_TryPush :: "bool \<Rightarrow> 'a \<Rightarrow> 'a tsq \<Rightarrow> bool \<times> 'a tsq" where
  "Queue_TryPush lock item q =
     (if \<not> lock then (False, q) else (True, q\<lparr>items := items q @ [item]\<rparr>))"

text \<open>
  \<open>None\<close> is the blocked call: the predicate of \<open>cond_.wait\<close> is false. Otherwise the result is the
  item, or \<open>None\<close> for \<open>return false\<close> (which leaves the caller's item as it was).
\<close>

definition Queue_Pop :: "'a tsq \<Rightarrow> ('a option \<times> 'a tsq) option" where
  "Queue_Pop q =
     (if \<not> (items q \<noteq> [] \<or> stopped q) then None
      else case items q of
             [] \<Rightarrow> Some (None, q)
           | x # xs \<Rightarrow> Some (Some x, q\<lparr>items := xs\<rparr>))"

definition Queue_TryPop :: "bool \<Rightarrow> 'a tsq \<Rightarrow> 'a option \<times> 'a tsq" where
  "Queue_TryPop lock q =
     (if \<not> lock then (None, q)
      else case items q of
             [] \<Rightarrow> (None, q)
           | x # xs \<Rightarrow> (Some x, q\<lparr>items := xs\<rparr>))"

text \<open>The predicate is a nullable function pointer that takes the front by reference.\<close>

definition Queue_TryPopIf ::
  "bool \<Rightarrow> ('a \<Rightarrow> bool \<times> 'a) option \<Rightarrow> 'a tsq \<Rightarrow> 'a option \<times> 'a tsq" where
  "Queue_TryPopIf lock predict q =
     (if \<not> lock then (None, q)
      else case items q of
             [] \<Rightarrow> (None, q)
           | x # xs \<Rightarrow>
               (case predict of
                  None \<Rightarrow> (Some x, q\<lparr>items := xs\<rparr>)
                | Some p \<Rightarrow>
                    (case p x of
                       (False, x') \<Rightarrow> (None, q\<lparr>items := x' # xs\<rparr>)
                     | (True, x') \<Rightarrow> (Some x', q\<lparr>items := xs\<rparr>))))"

definition Queue_Size :: "'a tsq \<Rightarrow> nat" where
  "Queue_Size q = length (items q)"

definition Queue_Empty :: "'a tsq \<Rightarrow> bool" where
  "Queue_Empty q \<longleftrightarrow> items q = []"

definition Queue_Stop :: "'a tsq \<Rightarrow> 'a tsq" where
  "Queue_Stop q = q\<lparr>stopped := True\<rparr>"

lemmas queue_defs =
  Queue_ctor_def Queue_Push_def Queue_TryPush_def Queue_Pop_def Queue_TryPop_def
  Queue_TryPopIf_def Queue_Size_def Queue_Empty_def Queue_Stop_def

section \<open>The contract of a work queue\<close>

text \<open>What a client of the queue relies on: where an item goes, and which item comes out.\<close>

definition reads_only :: "('a \<Rightarrow> bool \<times> 'a) option \<Rightarrow> bool" where
  "reads_only predict \<longleftrightarrow> (case predict of None \<Rightarrow> True | Some p \<Rightarrow> (\<forall>x. snd (p x) = x))"

locale work_queue =
  fixes contents :: "'q \<Rightarrow> 'a list"
    and is_stopped :: "'q \<Rightarrow> bool"
    and push :: "'a \<Rightarrow> 'q \<Rightarrow> 'q"
    and try_push :: "bool \<Rightarrow> 'a \<Rightarrow> 'q \<Rightarrow> bool \<times> 'q"
    and pop :: "'q \<Rightarrow> ('a option \<times> 'q) option"
    and try_pop_if :: "bool \<Rightarrow> ('a \<Rightarrow> bool \<times> 'a) option \<Rightarrow> 'q \<Rightarrow> 'a option \<times> 'q"
    and stop :: "'q \<Rightarrow> 'q"
  assumes push_contents: "contents (push x q) = contents q @ [x]"
    and push_stopped: "is_stopped (push x q) = is_stopped q"
    and try_push_spec: "try_push lock x q = (lock, if lock then push x q else q)"
    and pop_blocks: "pop q = None \<longleftrightarrow> contents q = [] \<and> \<not> is_stopped q"
    and pop_item: "pop q = Some (Some x, q') \<Longrightarrow> contents q = x # contents q' \<and> is_stopped q' = is_stopped q"
    and pop_done: "pop q = Some (None, q') \<Longrightarrow> contents q = [] \<and> is_stopped q \<and> q' = q"
    and try_pop_if_item: "reads_only predict \<Longrightarrow> try_pop_if lock predict q = (Some x, q') \<Longrightarrow>
      contents q = x # contents q' \<and> is_stopped q' = is_stopped q \<and>
      (case predict of None \<Rightarrow> True | Some p \<Rightarrow> fst (p x))"
    and try_pop_if_none: "reads_only predict \<Longrightarrow> try_pop_if lock predict q = (None, q') \<Longrightarrow> q' = q"
    and stop_spec: "contents (stop q) = contents q" "is_stopped (stop q)"
begin

lemma push_mset: "mset (contents (push x q)) = add_mset x (mset (contents q))"
  by (simp add: push_contents)

lemma pop_mset: "pop q = Some (Some x, q') \<Longrightarrow> mset (contents q) = add_mset x (mset (contents q'))"
  by (auto dest: pop_item)

lemma try_pop_if_mset:
  assumes "reads_only predict" and "try_pop_if lock predict q = (r, q')"
  shows "mset (contents q) = (case r of None \<Rightarrow> {#} | Some x \<Rightarrow> {#x#}) + mset (contents q')"
  using assms by (auto dest: try_pop_if_item try_pop_if_none split: option.splits)

text \<open>A stopped queue never blocks, and refuses only when it is drained.\<close>

lemma stopped_pop:
  assumes "is_stopped q"
  shows "if contents q = [] then pop q = Some (None, q)
         else \<exists>q'. pop q = Some (Some (hd (contents q)), q')"
proof (cases "pop q")
  case None
  with assms show ?thesis by (simp add: pop_blocks)
next
  case (Some rq)
  obtain r q' where rq: "rq = (r, q')" by (cases rq)
  show ?thesis
  proof (cases r)
    case None
    with Some rq show ?thesis using pop_done [of q q'] by simp
  next
    case (Some x)
    with \<open>pop q = Some rq\<close> rq show ?thesis using pop_item [of q x q'] by simp
  qed
qed

end

interpretation wq: work_queue items stopped Queue_Push Queue_TryPush Queue_Pop Queue_TryPopIf
  Queue_Stop
proof unfold_locales
  show "items q = x # items q' \<and> stopped q' = stopped q \<and>
      (case predict of None \<Rightarrow> True | Some p \<Rightarrow> fst (p x))"
    if "reads_only predict" "Queue_TryPopIf lock predict q = (Some x, q')"
    for predict lock and q q' :: "'a tsq" and x
    using that
    by (auto simp: queue_defs reads_only_def split: if_splits list.splits option.splits
        prod.splits bool.splits) (metis snd_conv fst_conv)+
  show "q' = q"
    if "reads_only predict" "Queue_TryPopIf lock predict q = (None, q')"
    for predict lock and q q' :: "'a tsq"
    using that
    by (auto simp: queue_defs reads_only_def split: if_splits list.splits option.splits
        prod.splits bool.splits) (metis snd_conv tsq.surjective tsq.update_convs(1))+
qed (auto simp: queue_defs split: if_splits list.splits)

section \<open>First in, first out\<close>

datatype 'a queue_op =
    OpPush 'a
  | OpTryPush bool 'a
  | OpPop
  | OpTryPop bool
  | OpTryPopIf bool "('a \<Rightarrow> bool \<times> 'a) option"
  | OpStop

text \<open>One call: what it pushed, what it popped, and the queue after it. A blocked \<open>Pop\<close> waits.\<close>

fun queue_step :: "'a queue_op \<Rightarrow> 'a tsq \<Rightarrow> 'a list \<times> 'a list \<times> 'a tsq" where
  "queue_step (OpPush x) q = ([x], [], Queue_Push x q)"
| "queue_step (OpTryPush lock x) q =
     (case Queue_TryPush lock x q of (ok, q') \<Rightarrow> (if ok then [x] else [], [], q'))"
| "queue_step OpPop q =
     (case Queue_Pop q of
        None \<Rightarrow> ([], [], q)
      | Some (None, q') \<Rightarrow> ([], [], q')
      | Some (Some x, q') \<Rightarrow> ([], [x], q'))"
| "queue_step (OpTryPop lock) q =
     (case Queue_TryPop lock q of (None, q') \<Rightarrow> ([], [], q') | (Some x, q') \<Rightarrow> ([], [x], q'))"
| "queue_step (OpTryPopIf lock p) q =
     (case Queue_TryPopIf lock p q of (None, q') \<Rightarrow> ([], [], q') | (Some x, q') \<Rightarrow> ([], [x], q'))"
| "queue_step OpStop q = ([], [], Queue_Stop q)"

fun queue_run :: "'a queue_op list \<Rightarrow> 'a tsq \<Rightarrow> 'a list \<times> 'a list \<times> 'a tsq" where
  "queue_run [] q = ([], [], q)"
| "queue_run (p # ps) q =
     (case queue_step p q of (i, out, q') \<Rightarrow>
      case queue_run ps q' of (is, outs, q'') \<Rightarrow> (i @ is, out @ outs, q''))"

fun op_reads_only :: "'a queue_op \<Rightarrow> bool" where
  "op_reads_only (OpTryPopIf lock p) = reads_only p"
| "op_reads_only _ = True"

lemma queue_step_fifo:
  assumes "op_reads_only p" and "queue_step p q = (i, out, q')"
  shows "items q @ i = out @ items q'"
  using assms
proof (cases p)
  case (OpTryPopIf lock f)
  with assms show ?thesis
    using wq.try_pop_if_item [of f lock q] wq.try_pop_if_none [of f lock q]
    by (auto split: prod.splits option.splits)
qed (auto simp: queue_defs split: if_splits list.splits)

lemma queue_run_fifo:
  assumes "list_all op_reads_only ps" and "queue_run ps q = (is, outs, q')"
  shows "items q @ is = outs @ items q'"
  using assms
proof (induction ps arbitrary: q "is" outs)
  case Nil
  then show ?case by simp
next
  case (Cons p ps)
  obtain i out q1 where step: "queue_step p q = (i, out, q1)" by (cases "queue_step p q")
  obtain is' outs' where run: "queue_run ps q1 = (is', outs', q')"
    using Cons.prems(2) step by (auto split: prod.splits)
  with Cons.prems step have res: "is = i @ is'" "outs = out @ outs'" by auto
  have "items q @ i = out @ items q1"
    using queue_step_fifo step Cons.prems(1) by auto
  moreover have "items q1 @ is' = outs' @ items q'"
    using Cons.IH run Cons.prems(1) by auto
  ultimately show ?case using res by (metis append.assoc)
qed

section \<open>Blocking and waking up\<close>

text \<open>
  The threads that use one queue. \<open>sleepers\<close> are blocked in \<open>cond_.wait\<close>, \<open>woken\<close> have been
  notified and must re-acquire the mutex and test the predicate again; \<open>to_notify_one\<close> and
  \<open>to_notify_all\<close> have released the mutex in \<open>Push\<close>/\<open>TryPush\<close> and \<open>Stop\<close> and have not called the
  notification yet. Threads are anonymous, so counts are enough.
\<close>

record 'a qsys =
  sys_queue :: "'a tsq"
  sleepers :: nat
  woken :: nat
  to_notify_one :: nat
  to_notify_all :: nat

definition qsys_init :: "'a qsys" where
  "qsys_init = \<lparr>sys_queue = Queue_ctor False, sleepers = 0, woken = 0,
     to_notify_one = 0, to_notify_all = 0\<rparr>"

text \<open>A \<open>Pop\<close> that has the mutex: the predicate decides between returning and going to sleep.\<close>

definition pop_attempt :: "'a qsys \<Rightarrow> 'a qsys" where
  "pop_attempt s =
     (case Queue_Pop (sys_queue s) of
        None \<Rightarrow> s\<lparr>sleepers := Suc (sleepers s)\<rparr>
      | Some (_, q') \<Rightarrow> s\<lparr>sys_queue := q'\<rparr>)"

inductive qsys_step :: "'a qsys \<Rightarrow> 'a qsys \<Rightarrow> bool" where
  push: "qsys_step s (s\<lparr>sys_queue := Queue_Push x (sys_queue s),
           to_notify_one := Suc (to_notify_one s)\<rparr>)"
| try_push: "Queue_TryPush lock x (sys_queue s) = (ok, q') \<Longrightarrow>
     qsys_step s (s\<lparr>sys_queue := q',
       to_notify_one := (if ok then Suc (to_notify_one s) else to_notify_one s)\<rparr>)"
| notify_one: "to_notify_one s = Suc n \<Longrightarrow>
     qsys_step s (if sleepers s = 0 then s\<lparr>to_notify_one := n\<rparr>
       else s\<lparr>to_notify_one := n, sleepers := sleepers s - 1, woken := Suc (woken s)\<rparr>)"
| pop_enter: "qsys_step s (pop_attempt s)"
| pop_retry: "woken s = Suc n \<Longrightarrow> qsys_step s (pop_attempt (s\<lparr>woken := n\<rparr>))"
| spurious: "sleepers s = Suc n \<Longrightarrow> qsys_step s (s\<lparr>sleepers := n, woken := Suc (woken s)\<rparr>)"
| try_pop: "Queue_TryPop lock (sys_queue s) = (r, q') \<Longrightarrow> qsys_step s (s\<lparr>sys_queue := q'\<rparr>)"
| try_pop_if: "Queue_TryPopIf lock p (sys_queue s) = (r, q') \<Longrightarrow>
     qsys_step s (s\<lparr>sys_queue := q'\<rparr>)"
| stop: "qsys_step s (s\<lparr>sys_queue := Queue_Stop (sys_queue s),
           to_notify_all := Suc (to_notify_all s)\<rparr>)"
| notify_all: "to_notify_all s = Suc n \<Longrightarrow>
     qsys_step s (s\<lparr>to_notify_all := n, woken := woken s + sleepers s, sleepers := 0\<rparr>)"

inductive qsys_reachable :: "'a qsys \<Rightarrow> bool" where
  qsys_start: "qsys_reachable qsys_init"
| qsys_next: "qsys_reachable s \<Longrightarrow> qsys_step s t \<Longrightarrow> qsys_reachable t"

text \<open>
  While a thread sleeps, every queued item is covered by a notification still to come or by a
  thread that has been woken for it, and a stop by its \<open>notify_all\<close>.
\<close>

definition covered :: "'a qsys \<Rightarrow> bool" where
  "covered s \<longleftrightarrow>
     (sleepers s = 0 \<or>
      length (items (sys_queue s)) \<le> to_notify_one s + woken s \<and>
      (stopped (sys_queue s) \<longrightarrow> 0 < to_notify_all s))"

lemma pop_attempt_covered:
  assumes "sleepers s = 0 \<or> length (items (sys_queue s)) \<le> Suc (to_notify_one s + woken s) \<and>
             (stopped (sys_queue s) \<longrightarrow> 0 < to_notify_all s)"
  shows "covered (pop_attempt s)"
  using assms
  by (auto simp: pop_attempt_def covered_def Queue_Pop_def split: list.splits)

lemma qsys_step_covered: "qsys_step s t \<Longrightarrow> covered s \<Longrightarrow> covered t"
proof (induction rule: qsys_step.induct)
  case (pop_enter s)
  then show ?case by (intro pop_attempt_covered) (auto simp: covered_def)
next
  case (pop_retry s n)
  then show ?case by (intro pop_attempt_covered) (auto simp: covered_def)
next
  case (try_pop_if lock p s r q')
  then show ?case
    by (auto simp: covered_def Queue_TryPopIf_def
        split: if_splits list.splits option.splits prod.splits bool.splits)
next
  case (try_pop lock s r q')
  then show ?case
    by (auto simp: covered_def Queue_TryPop_def split: if_splits list.splits)
next
  case (notify_one s n)
  then show ?case by (auto simp: covered_def)
qed (auto simp: covered_def queue_defs split: if_splits)

lemma qsys_reachable_covered: "qsys_reachable s \<Longrightarrow> covered s"
proof (induction rule: qsys_reachable.induct)
  case qsys_start
  show ?case by (simp add: covered_def qsys_init_def)
next
  case (qsys_next s t)
  then show ?case by (blast intro: qsys_step_covered)
qed

section \<open>Properties\<close>

text \<open>
  Claim C4. The queue is first in, first out and loses nothing: in any sequence of calls, whatever
  locks were obtained and whatever predicates were tested (as long as a predicate does not modify
  the item), the items pushed are, in order, the items popped followed by the items still queued.
\<close>

theorem queue_fifo:
  assumes "list_all op_reads_only ps" and "queue_run ps (Queue_ctor b) = (pushed, popped, q)"
  shows "pushed = popped @ items q"
  using queue_run_fifo [OF assms] by (simp add: Queue_ctor_def)

definition demo_queue_ops :: "nat queue_op list" where
  "demo_queue_ops = [OpPop, OpPush 4, OpTryPush True 5, OpTryPush False 6,
     OpTryPopIf True (Some (\<lambda>x. (x = 4, x))), OpPush 7, OpTryPopIf True (Some (\<lambda>x. (x = 4, x))), OpPop]"

theorem queue_fifo_witness:
  "\<exists>pushed popped q. queue_run demo_queue_ops (Queue_ctor False) = (pushed, popped, q) \<and>
     pushed = [4, 5, 7] \<and> popped = [4, 5] \<and> pushed = popped @ items q"
proof -
  obtain pushed popped q where
    run: "queue_run demo_queue_ops (Queue_ctor False) = (pushed, popped, q)"
    by (cases "queue_run demo_queue_ops (Queue_ctor False)")
  have "list_all op_reads_only demo_queue_ops"
    by (simp add: demo_queue_ops_def reads_only_def)
  from queue_fifo [OF this run] have "pushed = popped @ items q" .
  moreover have "pushed = [4, 5, 7]" "popped = [4, 5]"
    using run by (simp_all add: demo_queue_ops_def queue_defs)
  ultimately show ?thesis using run by blast
qed

text \<open>
  Claim C5. No wake-up is lost: in every reachable state in which a consumer is still blocked in
  \<open>Pop\<close> and every notification has been delivered and every woken thread has run, the queue is empty
  and was not stopped. (Notifying after the mutex is released is therefore sound.)
\<close>

theorem no_lost_wakeup:
  assumes "qsys_reachable s" and "0 < sleepers s"
    and "to_notify_one s = 0" and "to_notify_all s = 0" and "woken s = 0"
  shows "items (sys_queue s) = [] \<and> \<not> stopped (sys_queue s)"
  using qsys_reachable_covered [OF assms(1)] assms(2-) by (auto simp: covered_def)

theorem no_lost_wakeup_witness:
  "\<exists>s :: nat qsys. qsys_reachable s \<and> 0 < sleepers s \<and>
     items (sys_queue s) = [] \<and> \<not> stopped (sys_queue s)"
proof -
  let ?s = "pop_attempt qsys_init :: nat qsys"
  have s: "?s = qsys_init\<lparr>sleepers := 1\<rparr>"
    by (simp add: pop_attempt_def qsys_init_def queue_defs)
  have "qsys_reachable ?s"
    by (rule qsys_next [OF qsys_start qsys_step.pop_enter])
  moreover have "0 < sleepers ?s" "to_notify_one ?s = 0" "to_notify_all ?s = 0" "woken ?s = 0"
    by (simp_all add: s, simp_all add: qsys_init_def)
  ultimately show ?thesis using no_lost_wakeup [of ?s] by blast
qed

end
