(* ===== verification/Thread_Pool.thy ===== *)
theory Thread_Pool
  imports Threadsafe_Queue
begin

text \<open>
  \<^verbatim>\<open>include/async_simple/util/thread_pool.hpp\<close>: the pool with one queue per worker and optional
  work stealing. This theory holds the pool's data and its methods, each as one function;
  \<^verbatim>\<open>Pool_System.thy\<close> interleaves them. A task is an opaque \<open>'f\<close>; \<open>std::function<void()>\<close> is
  nullable, so it is an \<open>'f option\<close>. Results the code does not determine are arguments: which
  \<open>try_to_lock\<close> succeeds (\<open>lk n\<close> for the \<open>n\<close>-th attempt), what \<open>rand()\<close> returns, and
  \<open>std::thread::hardware_concurrency()\<close>.
\<close>

section \<open>Data\<close>

record 'f work_item =
  can_steal :: bool
  fn :: "'f option"

definition WorkItem_default :: "'f work_item" where
  "WorkItem_default = \<lparr>can_steal = False, fn = None\<rparr>"

datatype error_type = kErrorNone | kErrorPoolHasStop | kErrorPoolItemIsNull

record 'f pool =
  thread_num :: nat
  queues :: "'f work_item tsq list"
  enable_work_steal :: bool
  stop_flag :: bool

definition Pool_ctor :: "nat \<Rightarrow> nat \<Rightarrow> bool \<Rightarrow> 'f pool" where
  "Pool_ctor hardware_concurrency n steal =
     (let num = (if n \<noteq> 0 then n else hardware_concurrency)
      in \<lparr>thread_num = num, queues = replicate num (Queue_ctor False),
          enable_work_steal = steal, stop_flag = False\<rparr>)"

definition set_queue :: "nat \<Rightarrow> 'f work_item tsq \<Rightarrow> 'f pool \<Rightarrow> 'f pool" where
  "set_queue i q p = p\<lparr>queues := (queues p)[i := q]\<rparr>"

section \<open>Submitting\<close>

text \<open>The loop over \<open>TryPush\<close>: attempt \<open>n\<close>, with \<open>k\<close> attempts left.\<close>

fun try_push_loop ::
  "(nat \<Rightarrow> bool) \<Rightarrow> 'f work_item \<Rightarrow> nat \<Rightarrow> nat \<Rightarrow> 'f pool \<Rightarrow> 'f pool option" where
  "try_push_loop lk item n 0 p = None"
| "try_push_loop lk item n (Suc k) p =
     (case Queue_TryPush (lk n) item (queues p ! (n mod thread_num p)) of
        (True, q) \<Rightarrow> Some (set_queue (n mod thread_num p) q p)
      | (False, _) \<Rightarrow> try_push_loop lk item (Suc n) k p)"

definition push_to :: "nat \<Rightarrow> 'f work_item \<Rightarrow> 'f pool \<Rightarrow> 'f pool" where
  "push_to i item p = set_queue i (Queue_Push item (queues p ! i)) p"

text \<open>
  \<open>id\<close> is an \<open>int32_t\<close>. In \<open>ASSERT(id < thread_num_)\<close> it is converted to the unsigned 64-bit type of
  \<open>thread_num_\<close>, so a negative \<open>id\<close> becomes a huge number. \<open>rand() % 0\<close> is undefined.
\<close>

definition id_below :: "32 word \<Rightarrow> nat \<Rightarrow> bool" where
  "id_below tid n \<longleftrightarrow> unat (scast tid :: 64 word) < n"

definition Pool_ScheduleById ::
  "(nat \<Rightarrow> bool) \<Rightarrow> nat \<Rightarrow> 'f option \<Rightarrow> 32 word \<Rightarrow> ('f pool, error_type) action" where
  "Pool_ScheduleById lk rand f tid p =
     (if f = None then (Return kErrorPoolItemIsNull, p)
      else if stop_flag p then (Return kErrorPoolHasStop, p)
      else if tid = - 1 then
        (case (if enable_work_steal p
               then try_push_loop lk \<lparr>can_steal = True, fn = f\<rparr> 0 (thread_num p * 2) p
               else None) of
           Some p' \<Rightarrow> (Return kErrorNone, p')
         | None \<Rightarrow>
             if thread_num p = 0 then (Undefined, p)
             else (Return kErrorNone,
                   push_to (rand mod thread_num p)
                     \<lparr>can_steal = enable_work_steal p, fn = f\<rparr> p))
      else if \<not> id_below tid (thread_num p) then (Abort, p)
      else (Return kErrorNone, push_to (unat tid) \<lparr>can_steal = False, fn = f\<rparr> p))"

section \<open>Queries\<close>

text \<open>
  The thread-local pair of \<open>GetCurrent\<close>: a worker of pool \<open>this\<close> holds its index and \<open>this\<close>, any
  other thread the pair of another pool or the initial one.
\<close>

type_synonym current = "32 word \<times> nat option"

definition Pool_current_init :: current where
  "Pool_current_init = (- 1, None)"

definition Pool_GetCurrentId :: "nat \<Rightarrow> current \<Rightarrow> 32 word" where
  "Pool_GetCurrentId this current = (if Some this = snd current then fst current else - 1)"

definition Pool_GetItemCount :: "'f pool \<Rightarrow> nat" where
  "Pool_GetItemCount p = sum_list (map (\<lambda>i. Queue_Size (queues p ! i)) [0..<thread_num p])"

definition Pool_GetThreadNum :: "'f pool \<Rightarrow> nat" where
  "Pool_GetThreadNum p = thread_num p"

section \<open>The worker\<close>

definition steal_predicate :: "('f work_item \<Rightarrow> bool \<times> 'f work_item) option" where
  "steal_predicate = Some (\<lambda>item. (can_steal item, item))"

fun steal_loop ::
  "(nat \<Rightarrow> bool) \<Rightarrow> nat \<Rightarrow> nat \<Rightarrow> nat \<Rightarrow> 'f pool \<Rightarrow> 'f work_item option \<times> 'f pool" where
  "steal_loop lk wid n 0 p = (None, p)"
| "steal_loop lk wid n (Suc k) p =
     (case Queue_TryPopIf (lk n) steal_predicate (queues p ! ((wid + n) mod thread_num p)) of
        (Some item, q) \<Rightarrow> (Some item, set_queue ((wid + n) mod thread_num p) q p)
      | (None, q) \<Rightarrow> steal_loop lk wid (Suc n) k (set_queue ((wid + n) mod thread_num p) q p))"

text \<open>
  One turn of the loop of \<open>WorkerThreadMain\<close>: it runs a task, finds an item with no function,
  waits in \<open>Pop\<close>, or leaves the loop.
\<close>

datatype 'f turn = Runs 'f | Skips | Waits | Leaves

definition Pool_worker_turn :: "(nat \<Rightarrow> bool) \<Rightarrow> nat \<Rightarrow> 'f pool \<Rightarrow> 'f turn \<times> 'f pool" where
  "Pool_worker_turn lk wid p =
     (let (stolen, p1) = (if enable_work_steal p then steal_loop lk wid 0 (thread_num p * 2) p
                          else (None, p));
          item = (case stolen of Some it \<Rightarrow> it | None \<Rightarrow> WorkItem_default)
      in if fn item = None then
           (case Queue_Pop (queues p1 ! wid) of
              None \<Rightarrow> (Waits, p1)
            | Some (None, q) \<Rightarrow> (Leaves, p1)
            | Some (Some it, q) \<Rightarrow>
                (case fn it of
                   Some f \<Rightarrow> (Runs f, set_queue wid q p1)
                 | None \<Rightarrow> (Skips, set_queue wid q p1)))
         else (Runs (the (fn item)), p1))"

section \<open>Lemmas\<close>

text \<open>
  The pool's invariant: one queue per worker, only callable items are queued, and the number of
  workers is small enough for the \<open>int\<close> loop counters, which run to \<open>2 * thread_num_\<close>.
\<close>

definition callable :: "'f work_item \<Rightarrow> bool" where
  "callable item \<longleftrightarrow> fn item \<noteq> None"

definition pool_wf :: "'f pool \<Rightarrow> bool" where
  "pool_wf p \<longleftrightarrow> thread_num p \<le> 2 ^ 30 \<and> length (queues p) = thread_num p \<and>
     (\<forall>q \<in> set (queues p). \<forall>item \<in> set (items q). callable item)"

text \<open>The functions a pool still has to run.\<close>

definition queue_fns :: "'f work_item tsq \<Rightarrow> 'f multiset" where
  "queue_fns q = image_mset (\<lambda>item. the (fn item)) (mset (items q))"

definition pool_fns :: "'f pool \<Rightarrow> 'f multiset" where
  "pool_fns p = sum_list (map queue_fns (queues p))"

lemma set_queue_simps [simp]:
  "thread_num (set_queue i q p) = thread_num p"
  "enable_work_steal (set_queue i q p) = enable_work_steal p"
  "stop_flag (set_queue i q p) = stop_flag p"
  "queues (set_queue i q p) = (queues p)[i := q]"
  by (simp_all add: set_queue_def)

lemma pool_fns_set_queue:
  assumes "i < length (queues p)"
  shows "pool_fns (set_queue i q p) + queue_fns (queues p ! i) = pool_fns p + queue_fns q"
  using assms by (simp add: pool_fns_def sum_list_map_update)

lemma pool_fns_push:
  assumes "i < length (queues p)"
    and "items q = items (queues p ! i) @ [item]"
  shows "pool_fns (set_queue i q p) = add_mset (the (fn item)) (pool_fns p)"
proof -
  have "queue_fns q = add_mset (the (fn item)) (queue_fns (queues p ! i))"
    using assms(2) by (simp add: queue_fns_def)
  with pool_fns_set_queue [OF assms(1), of q] show ?thesis by simp
qed

lemma pool_fns_pop:
  assumes "i < length (queues p)"
    and "items (queues p ! i) = item # items q"
  shows "pool_fns p = add_mset (the (fn item)) (pool_fns (set_queue i q p))"
proof -
  have "queue_fns (queues p ! i) = add_mset (the (fn item)) (queue_fns q)"
    using assms(2) by (simp add: queue_fns_def)
  with pool_fns_set_queue [OF assms(1), of q] show ?thesis by simp
qed

lemma pool_wf_set_queue [wf_intros]:
  assumes "pool_wf p" and "\<forall>item \<in> set (items q). callable item"
  shows "pool_wf (set_queue i q p)"
  using assms set_update_subset_insert [of "queues p" i q] by (auto simp: pool_wf_def)

lemma pool_wf_item:
  "pool_wf p \<Longrightarrow> i < thread_num p \<Longrightarrow> item \<in> set (items (queues p ! i)) \<Longrightarrow> callable item"
  by (auto simp: pool_wf_def)

lemma steal_predicate_reads_only [simp]: "reads_only steal_predicate"
  by (simp add: reads_only_def steal_predicate_def)

lemma Pool_ctor_wf [wf_intros]:
  "hw \<le> 2 ^ 30 \<Longrightarrow> n \<le> 2 ^ 30 \<Longrightarrow> pool_wf (Pool_ctor hw n steal)"
  by (auto simp: Pool_ctor_def pool_wf_def Let_def Queue_ctor_def)

lemma Pool_ctor_fns: "pool_fns (Pool_ctor hw n steal) = {#}"
  by (auto simp: Pool_ctor_def pool_fns_def queue_fns_def Let_def Queue_ctor_def
      sum_list_replicate_0)

lemma try_push_loop_spec:
  assumes "pool_wf p" and "0 < thread_num p" and "callable item"
    and "try_push_loop lk item n k p = Some p'"
  shows "\<exists>i < thread_num p. p' = push_to i item p"
  using assms
proof (induction k arbitrary: n)
  case 0
  then show ?case by simp
next
  case (Suc k)
  show ?case
  proof (cases "lk n")
    case True
    with Suc.prems show ?thesis
      by (auto simp: wq.try_push_spec push_to_def intro!: exI [of _ "n mod thread_num p"])
  next
    case False
    with Suc show ?thesis by (auto simp: wq.try_push_spec)
  qed
qed

lemma push_to_spec:
  assumes "pool_wf p" and "i < thread_num p" and "callable item"
  shows "pool_wf (push_to i item p) \<and>
         pool_fns (push_to i item p) = add_mset (the (fn item)) (pool_fns p)"
proof -
  have "i < length (queues p)" using assms(1,2) by (simp add: pool_wf_def)
  then have "pool_fns (push_to i item p) = add_mset (the (fn item)) (pool_fns p)"
    unfolding push_to_def by (intro pool_fns_push) (simp_all add: wq.push_contents)
  moreover have "pool_wf (push_to i item p)"
    using assms unfolding push_to_def
    by (intro pool_wf_set_queue) (auto simp: wq.push_contents dest: pool_wf_item)
  ultimately show ?thesis by simp
qed

text \<open>What \<open>ScheduleById\<close> does when it accepts: one push, where the caller asked for it.\<close>

lemma id_below_unat:
  assumes "pool_wf p" and "id_below tid (thread_num p)"
  shows "unat tid < thread_num p"
proof (rule scast_below)
  show "unat (scast tid :: 64 word) < thread_num p" using assms(2) by (simp add: id_below_def)
  have "thread_num p \<le> 1073741824" using assms(1) by (simp add: pool_wf_def)
  then show "thread_num p \<le> 2 ^ 63" by simp
qed

lemma schedule_accepts:
  assumes wf: "pool_wf p" and run: "Pool_ScheduleById lk rand f tid p = (Return kErrorNone, p')"
  shows "\<exists>g i steal. f = Some g \<and> i < thread_num p \<and> \<not> stop_flag p \<and>
           p' = push_to i \<lparr>can_steal = steal, fn = Some g\<rparr> p \<and>
           (if tid = - 1 then steal = enable_work_steal p else i = unat tid \<and> \<not> steal)"
proof -
  obtain g where g: "f = Some g" and nostop: "\<not> stop_flag p"
    using run by (cases f) (auto simp: Pool_ScheduleById_def split: if_splits)
  show ?thesis
  proof (cases "tid = - 1")
    case False
    with run g nostop have "id_below tid (thread_num p)"
      "p' = push_to (unat tid) \<lparr>can_steal = False, fn = Some g\<rparr> p"
      by (auto simp: Pool_ScheduleById_def split: if_splits)
    with False g nostop id_below_unat [OF wf] show ?thesis by auto
  next
    case True
    let ?loop = "if enable_work_steal p
      then try_push_loop lk \<lparr>can_steal = True, fn = f\<rparr> 0 (thread_num p * 2) p else None"
    show ?thesis
    proof (cases ?loop)
      case None
      with run g nostop True have "thread_num p \<noteq> 0"
        "p' = push_to (rand mod thread_num p) \<lparr>can_steal = enable_work_steal p, fn = Some g\<rparr> p"
        by (auto simp: Pool_ScheduleById_def split: if_splits)
      then show ?thesis using True g nostop
        by (intro exI [of _ g] exI [of _ "rand mod thread_num p"]
            exI [of _ "enable_work_steal p"]) auto
    next
      case (Some p1)
      then have steal: "enable_work_steal p" by (auto split: if_splits)
      with Some have "0 < thread_num p" by (cases "thread_num p") auto
      moreover have "p' = p1"
        using run g nostop True Some unfolding Pool_ScheduleById_def by auto
      ultimately obtain i where "i < thread_num p"
        "p' = push_to i \<lparr>can_steal = True, fn = Some g\<rparr> p"
        using try_push_loop_spec [OF wf, of "\<lparr>can_steal = True, fn = f\<rparr>" lk 0 "thread_num p * 2" p1]
          Some steal g by (auto simp: callable_def split: if_splits)
      then show ?thesis using True g nostop steal by auto
    qed
  qed
qed

lemma schedule_refuses:
  assumes "fst (Pool_ScheduleById lk rand f tid p) \<noteq> Return kErrorNone"
  shows "snd (Pool_ScheduleById lk rand f tid p) = p"
  using assms by (auto simp: Pool_ScheduleById_def split: if_splits option.splits)

text \<open>The worker's side: a turn runs one queued function, or leaves the pool's work alone.\<close>

lemma steal_loop_spec:
  assumes "pool_wf p" and "0 < thread_num p" and "steal_loop lk wid n k p = (r, p')"
  shows "pool_wf p' \<and> thread_num p' = thread_num p \<and> stop_flag p' = stop_flag p \<and>
         (case r of
            None \<Rightarrow> p' = p
          | Some it \<Rightarrow> callable it \<and> can_steal it \<and> pool_fns p = add_mset (the (fn it)) (pool_fns p'))"
  using assms
proof (induction k arbitrary: n)
  case 0
  then show ?case by auto
next
  case (Suc k)
  let ?i = "(wid + n) mod thread_num p"
  have i: "?i < length (queues p)" using Suc.prems by (simp add: pool_wf_def)
  obtain r1 q where pop: "Queue_TryPopIf (lk n) steal_predicate (queues p ! ?i) = (r1, q)"
    by (cases "Queue_TryPopIf (lk n) steal_predicate (queues p ! ?i)")
  show ?case
  proof (cases r1)
    case None
    then have "set_queue ?i q p = p"
      using pop wq.try_pop_if_none [of steal_predicate "lk n" "queues p ! ?i" q]
      by (simp add: set_queue_def)
    with Suc pop None show ?thesis by simp
  next
    case (Some it)
    then have it: "items (queues p ! ?i) = it # items q" "can_steal it"
      using pop wq.try_pop_if_item [of steal_predicate "lk n" "queues p ! ?i" it q]
      by (auto simp: steal_predicate_def reads_only_def)
    have "\<forall>x \<in> set (items (queues p ! ?i)). callable x"
      using Suc.prems pool_wf_item by (metis i pool_wf_def)
    with it have "callable it" "pool_wf (set_queue ?i q p)"
      using Suc.prems by (auto intro: pool_wf_set_queue)
    with Some Suc.prems pop it pool_fns_pop [OF i it(1)] show ?thesis by auto
  qed
qed

lemma worker_turn_cases:
  assumes wf: "pool_wf p" and wid: "wid < thread_num p"
    and turn: "Pool_worker_turn lk wid p = (r, p')"
  shows "pool_wf p' \<and> thread_num p' = thread_num p \<and> stop_flag p' = stop_flag p \<and>
         (case r of
            Runs f \<Rightarrow> pool_fns p = add_mset f (pool_fns p')
          | Skips \<Rightarrow> False
          | Waits \<Rightarrow> p' = p \<and> items (queues p ! wid) = [] \<and> \<not> stopped (queues p ! wid)
          | Leaves \<Rightarrow> p' = p \<and> items (queues p ! wid) = [] \<and> stopped (queues p ! wid))"
proof -
  obtain st p1 where steal: "(if enable_work_steal p then steal_loop lk wid 0 (thread_num p * 2) p
      else (None, p)) = (st, p1)"
    by (cases "if enable_work_steal p then steal_loop lk wid 0 (thread_num p * 2) p else (None, p)")
  then have st: "pool_wf p1 \<and> thread_num p1 = thread_num p \<and> stop_flag p1 = stop_flag p \<and>
      (case st of None \<Rightarrow> p1 = p
       | Some it \<Rightarrow> callable it \<and> can_steal it \<and> pool_fns p = add_mset (the (fn it)) (pool_fns p1))"
    using steal_loop_spec [OF wf, of lk wid 0 "thread_num p * 2" st p1] wf wid
    by (cases "enable_work_steal p") auto
  show ?thesis
  proof (cases st)
    case (Some it)
    with turn steal st show ?thesis
      by (auto simp: Pool_worker_turn_def callable_def)
  next
    case None
    with st have p1: "p1 = p" by simp
    let ?q = "queues p ! wid"
    have len: "wid < length (queues p)" using wf wid by (simp add: pool_wf_def)
    show ?thesis
    proof (cases "Queue_Pop ?q")
      case None
      with turn steal st \<open>st = None\<close> p1 wq.pop_blocks [of ?q] show ?thesis
        by (auto simp: Pool_worker_turn_def WorkItem_default_def)
    next
      case (Some rq)
      obtain r0 q where rq: "rq = (r0, q)" by (cases rq)
      show ?thesis
      proof (cases r0)
        case None
        with turn steal st \<open>st = None\<close> p1 Some rq wq.pop_done [of ?q q] show ?thesis
          by (auto simp: Pool_worker_turn_def WorkItem_default_def)
      next
        case (Some it)
        then have it: "items ?q = it # items q"
          using wq.pop_item [of ?q it q] \<open>Queue_Pop ?q = Some rq\<close> rq by simp
        then have "callable it" using pool_wf_item [OF wf wid, of it] by simp
        moreover have "pool_wf (set_queue wid q p)"
          using wf it pool_wf_item [OF wf wid] by (intro pool_wf_set_queue) auto
        moreover have "pool_fns p = add_mset (the (fn it)) (pool_fns (set_queue wid q p))"
          using pool_fns_pop [OF len it] .
        moreover have "(r, p') = (case fn it of Some f \<Rightarrow> (Runs f, set_queue wid q p)
            | None \<Rightarrow> (Skips, set_queue wid q p))"
          using turn steal \<open>st = None\<close> p1 \<open>Queue_Pop ?q = Some rq\<close> rq Some
          by (auto simp: Pool_worker_turn_def WorkItem_default_def)
        ultimately show ?thesis by (auto simp: callable_def)
      qed
    qed
  qed
qed

section \<open>Properties\<close>

text \<open>
  Claim C6. \<open>ScheduleById\<close> does what its return value says: with \<open>kErrorNone\<close> the function has been
  queued exactly once and nothing else changed, with an error nothing changed; it throws
  nothing, stops the process only for an explicit thread number that is no worker's (a
  negative one included), and is undefined only on a pool without workers.
\<close>

theorem schedule_by_id_spec:
  assumes "pool_wf p"
  shows "(case Pool_ScheduleById lk rand f tid p of
            (Return kErrorNone, p') \<Rightarrow>
              pool_wf p' \<and> \<not> stop_flag p \<and> f \<noteq> None \<and> pool_fns p' = add_mset (the f) (pool_fns p)
          | (Return kErrorPoolHasStop, p') \<Rightarrow> p' = p \<and> stop_flag p
          | (Return kErrorPoolItemIsNull, p') \<Rightarrow> p' = p \<and> f = None
          | (Throw e, p') \<Rightarrow> False
          | (Abort, p') \<Rightarrow> p' = p \<and> tid \<noteq> - 1 \<and> \<not> id_below tid (thread_num p)
          | (Undefined, p') \<Rightarrow> p' = p \<and> thread_num p = 0)"
proof (cases "Pool_ScheduleById lk rand f tid p")
  case (Pair r p')
  show ?thesis
  proof (cases "r = Return kErrorNone")
    case True
    with Pair schedule_accepts [OF assms, of lk rand f tid p'] obtain g i steal where
      "f = Some g" "i < thread_num p" "\<not> stop_flag p" "p' = push_to i \<lparr>can_steal = steal, fn = Some g\<rparr> p"
      by auto
    with push_to_spec [OF assms, of i "\<lparr>can_steal = steal, fn = Some g\<rparr>"] Pair True show ?thesis
      by (simp add: callable_def)
  next
    case False
    with Pair show ?thesis
      by (auto simp: Pool_ScheduleById_def split: if_splits option.splits)
  qed
qed

definition demo_pool :: "nat pool" where
  "demo_pool = push_to 1 \<lparr>can_steal = True, fn = Some 8\<rparr> (Pool_ctor 4 2 True)"

lemma demo_pool_wf: "pool_wf demo_pool"
proof -
  have "pool_wf (Pool_ctor 4 2 True :: nat pool)" by (rule Pool_ctor_wf) simp_all
  moreover have "1 < thread_num (Pool_ctor 4 2 True :: nat pool)" by (simp add: Pool_ctor_def)
  ultimately show ?thesis
    using push_to_spec [of "Pool_ctor 4 2 True" 1 "\<lparr>can_steal = True, fn = Some (8 :: nat)\<rparr>"]
    by (simp add: demo_pool_def callable_def)
qed

theorem schedule_by_id_spec_witness:
  "fst (Pool_ScheduleById (\<lambda>_. True) 0 (Some 5) 1 demo_pool) = Return kErrorNone \<and>
   pool_fns (snd (Pool_ScheduleById (\<lambda>_. True) 0 (Some 5) 1 demo_pool)) =
     add_mset 5 (pool_fns demo_pool)"
proof -
  have ok: "fst (Pool_ScheduleById (\<lambda>_. True) 0 (Some 5) 1 demo_pool) = Return kErrorNone"
    by (simp add: Pool_ScheduleById_def demo_pool_def push_to_def Pool_ctor_def id_below_def)
  then show ?thesis
    using schedule_by_id_spec [OF demo_pool_wf, where lk = "\<lambda>_. True" and rand = 0
        and f = "Some 5" and tid = 1]
    by (cases "Pool_ScheduleById (\<lambda>_. True) 0 (Some 5) 1 demo_pool") simp
qed

text \<open>
  A turn of a worker never drops or repeats work: when it runs a function, that function
  has left the pool exactly once; when it waits or leaves, the pool is unchanged and the worker's
  own queue is empty; it leaves the loop only if that queue was stopped, and it never meets an item
  without a function.
\<close>

lemma worker_turn_spec:
  assumes "pool_wf p" and "wid < thread_num p"
    and "Pool_worker_turn lk wid p = (r, p')"
  shows "pool_wf p' \<and>
         (case r of
            Runs f \<Rightarrow> pool_fns p = add_mset f (pool_fns p')
          | Skips \<Rightarrow> False
          | Waits \<Rightarrow> p' = p \<and> items (queues p ! wid) = [] \<and> \<not> stopped (queues p ! wid)
          | Leaves \<Rightarrow> p' = p \<and> items (queues p ! wid) = [] \<and> stopped (queues p ! wid))"
  using worker_turn_cases [OF assms] by blast

end
