(* ===== verification/Pool_System.thy ===== *)
theory Pool_System
  imports Thread_Pool
begin

text \<open>
  The thread pool as a concurrent system: workers, submitting threads and the destructor,
  interleaved at the grain of the queue operations (each of which holds its queue's mutex) and of
  the reads and writes of \<open>stop_\<close>. A submission is two steps, because \<open>ScheduleById\<close> tests \<open>stop_\<close>
  first and pushes later; a worker goes through the stealing loop one \<open>TryPopIf\<close> at a time.

  Ghost fields record what was accepted (pushed, so that \<open>ScheduleById\<close> returns \<open>kErrorNone\<close>), what
  was executed, and whether any push happened after the destructor set \<open>stop_\<close>.
\<close>

section \<open>States and steps\<close>

datatype 'f worker = Stealing nat | Popping | Running 'f | Exited

record 'f psys =
  the_pool :: "'f pool"
  workers :: "'f worker list"
  submitting :: "('f \<times> nat option) multiset"
  stopping :: nat
  accepted :: "'f multiset"
  executed :: "'f multiset"
  late_push :: bool

definition worker_start :: "'f pool \<Rightarrow> 'f worker" where
  "worker_start p = (if enable_work_steal p then Stealing 0 else Popping)"

definition psys_init :: "nat \<Rightarrow> nat \<Rightarrow> bool \<Rightarrow> 'f psys" where
  "psys_init hw n steal =
     (let p = Pool_ctor hw n steal
      in \<lparr>the_pool = p, workers = replicate (thread_num p) (worker_start p), submitting = {#},
          stopping = 0, accepted = {#}, executed = {#}, late_push = False\<rparr>)"

text \<open>The item a submission pushes: stealable only without a thread number and with stealing on.\<close>

definition submitted_item :: "'f pool \<Rightarrow> 'f \<Rightarrow> nat option \<Rightarrow> 'f work_item" where
  "submitted_item p f target =
     \<lparr>can_steal = (target = None \<and> enable_work_steal p), fn = Some f\<rparr>"

definition do_push :: "nat \<Rightarrow> 'f \<Rightarrow> nat option \<Rightarrow> 'f psys \<Rightarrow> 'f psys" where
  "do_push i f target s =
     s\<lparr>the_pool := push_to i (submitted_item (the_pool s) f target) (the_pool s),
       submitting := submitting s - {#(f, target)#},
       accepted := add_mset f (accepted s),
       late_push := (late_push s \<or> stop_flag (the_pool s))\<rparr>"

definition set_worker :: "nat \<Rightarrow> 'f worker \<Rightarrow> 'f psys \<Rightarrow> 'f psys" where
  "set_worker w x s = s\<lparr>workers := (workers s)[w := x]\<rparr>"

definition with_queue :: "nat \<Rightarrow> 'f work_item tsq \<Rightarrow> 'f psys \<Rightarrow> 'f psys" where
  "with_queue i q s = s\<lparr>the_pool := set_queue i q (the_pool s)\<rparr>"

inductive psys_step :: "'f psys \<Rightarrow> 'f psys \<Rightarrow> bool" where
  submit_check: "\<not> stop_flag (the_pool s) \<Longrightarrow>
     (\<forall>i. target = Some i \<longrightarrow> i < thread_num (the_pool s)) \<Longrightarrow>
     psys_step s (s\<lparr>submitting := add_mset (f, target) (submitting s)\<rparr>)"
| submit_push: "(f, target) \<in># submitting s \<Longrightarrow> i < thread_num (the_pool s) \<Longrightarrow>
     (\<forall>j. target = Some j \<longrightarrow> i = j) \<Longrightarrow> psys_step s (do_push i f target s)"
| steal_miss: "w < length (workers s) \<Longrightarrow> workers s ! w = Stealing n \<Longrightarrow>
     n < thread_num (the_pool s) * 2 \<Longrightarrow> i = (w + n) mod thread_num (the_pool s) \<Longrightarrow>
     Queue_TryPopIf lock steal_predicate (queues (the_pool s) ! i) = (None, q) \<Longrightarrow>
     psys_step s (set_worker w (Stealing (Suc n)) (with_queue i q s))"
| steal_hit: "w < length (workers s) \<Longrightarrow> workers s ! w = Stealing n \<Longrightarrow>
     n < thread_num (the_pool s) * 2 \<Longrightarrow> i = (w + n) mod thread_num (the_pool s) \<Longrightarrow>
     Queue_TryPopIf lock steal_predicate (queues (the_pool s) ! i) = (Some item, q) \<Longrightarrow>
     fn item = Some f \<Longrightarrow>
     psys_step s (set_worker w (Running f) (with_queue i q s))"
| steal_over: "w < length (workers s) \<Longrightarrow> workers s ! w = Stealing n \<Longrightarrow>
     n = thread_num (the_pool s) * 2 \<Longrightarrow> psys_step s (set_worker w Popping s)"
| pop_item: "w < length (workers s) \<Longrightarrow> workers s ! w = Popping \<Longrightarrow>
     Queue_Pop (queues (the_pool s) ! w) = Some (Some item, q) \<Longrightarrow> fn item = Some f \<Longrightarrow>
     psys_step s (set_worker w (Running f) (with_queue w q s))"
| pop_refused: "w < length (workers s) \<Longrightarrow> workers s ! w = Popping \<Longrightarrow>
     Queue_Pop (queues (the_pool s) ! w) = Some (None, q) \<Longrightarrow>
     psys_step s (set_worker w Exited (with_queue w q s))"
| run_task: "w < length (workers s) \<Longrightarrow> workers s ! w = Running f \<Longrightarrow>
     psys_step s (set_worker w (worker_start (the_pool s)) (s\<lparr>executed := add_mset f (executed s)\<rparr>))"
| set_stop: "psys_step s (s\<lparr>the_pool := (the_pool s)\<lparr>stop_flag := True\<rparr>\<rparr>)"
| stop_queue: "stop_flag (the_pool s) \<Longrightarrow> j = stopping s \<Longrightarrow> j < thread_num (the_pool s) \<Longrightarrow>
     psys_step s ((with_queue j (Queue_Stop (queues (the_pool s) ! j)) s)\<lparr>stopping := Suc j\<rparr>)"

inductive psys_reachable :: "'f psys \<Rightarrow> bool" where
  psys_start: "hw \<le> 2 ^ 30 \<Longrightarrow> n \<le> 2 ^ 30 \<Longrightarrow> psys_reachable (psys_init hw n steal)"
| psys_next: "psys_reachable s \<Longrightarrow> psys_step s t \<Longrightarrow> psys_reachable t"

section \<open>Invariants\<close>

fun running_fn :: "'f worker \<Rightarrow> 'f multiset" where
  "running_fn (Running f) = {#f#}"
| "running_fn _ = {#}"

definition in_flight :: "'f psys \<Rightarrow> 'f multiset" where
  "in_flight s = sum_list (map running_fn (workers s))"

text \<open>Every accepted function is in exactly one place: queued, being run, or run.\<close>

definition conserved :: "'f psys \<Rightarrow> bool" where
  "conserved s \<longleftrightarrow>
     pool_wf (the_pool s) \<and> length (workers s) = thread_num (the_pool s) \<and>
     (\<forall>x \<in># submitting s. \<forall>i. snd x = Some i \<longrightarrow> i < thread_num (the_pool s)) \<and>
     accepted s = pool_fns (the_pool s) + in_flight s + executed s"

text \<open>
  A worker that has left found its queue stopped and empty; only a push after \<open>stop_\<close> can have put
  something there since.
\<close>

definition drained :: "'f psys \<Rightarrow> bool" where
  "drained s \<longleftrightarrow>
     (\<forall>j < thread_num (the_pool s). stopped (queues (the_pool s) ! j) = (j < stopping s)) \<and>
     stopping s \<le> thread_num (the_pool s) \<and>
     (0 < stopping s \<longrightarrow> stop_flag (the_pool s)) \<and>
     (\<forall>w < length (workers s). workers s ! w = Exited \<longrightarrow>
        w < stopping s \<and> (late_push s \<or> items (queues (the_pool s) ! w) = []))"

lemma psys_simps [simp]:
  "the_pool (set_worker w x s) = the_pool s"
  "workers (set_worker w x s) = (workers s)[w := x]"
  "accepted (set_worker w x s) = accepted s"
  "executed (set_worker w x s) = executed s"
  "late_push (set_worker w x s) = late_push s"
  "stopping (set_worker w x s) = stopping s"
  "submitting (set_worker w x s) = submitting s"
  "the_pool (with_queue i q s) = set_queue i q (the_pool s)"
  "workers (with_queue i q s) = workers s"
  "accepted (with_queue i q s) = accepted s"
  "executed (with_queue i q s) = executed s"
  "late_push (with_queue i q s) = late_push s"
  "stopping (with_queue i q s) = stopping s"
  "submitting (with_queue i q s) = submitting s"
  by (simp_all add: set_worker_def with_queue_def)

lemma in_flight_set_worker:
  assumes "w < length (workers s)"
  shows "in_flight (set_worker w x s) + running_fn (workers s ! w) = in_flight s + running_fn x"
  using assms by (simp add: in_flight_def sum_list_map_update)

lemma in_flight_frame [simp]:
  "in_flight (with_queue i q s) = in_flight s"
  "in_flight (s\<lparr>executed := e\<rparr>) = in_flight s"
  "in_flight (s\<lparr>submitting := m\<rparr>) = in_flight s"
  "in_flight (s\<lparr>the_pool := p\<rparr>) = in_flight s"
  "in_flight (s\<lparr>stopping := k\<rparr>) = in_flight s"
  "in_flight (do_push j f t s) = in_flight s"
  by (simp_all add: in_flight_def do_push_def)

lemma running_fn_start [simp]: "running_fn (worker_start p) = {#}"
  by (simp add: worker_start_def)

text \<open>The queue contract at the four results of the workers' operations.\<close>

lemma stolen_none:
  "Queue_TryPopIf lock steal_predicate q0 = (None, q) \<Longrightarrow> q = q0"
  by (rule wq.try_pop_if_none [OF steal_predicate_reads_only])

lemma stolen_item:
  "Queue_TryPopIf lock steal_predicate q0 = (Some item, q) \<Longrightarrow>
     items q0 = item # items q \<and> stopped q = stopped q0"
  using wq.try_pop_if_item [OF steal_predicate_reads_only, of lock q0 item q] by simp

lemmas popped_item = wq.pop_item and popped_none = wq.pop_done

text \<open>A queue that loses its front item: the pool stays well formed and loses that function.\<close>

lemma take_front:
  assumes wf: "pool_wf p" and i: "i < thread_num p"
    and front: "items (queues p ! i) = item # items q" and f: "fn item = Some f"
  shows "pool_wf (set_queue i q p) \<and> pool_fns p = add_mset f (pool_fns (set_queue i q p))"
proof -
  have "i < length (queues p)" using wf i by (simp add: pool_wf_def)
  then have "pool_fns p = add_mset f (pool_fns (set_queue i q p))"
    using pool_fns_pop [OF _ front] f by simp
  moreover have "pool_wf (set_queue i q p)"
    using wf front pool_wf_item [OF wf i] by (intro pool_wf_set_queue) auto
  ultimately show ?thesis by simp
qed

lemma same_items:
  assumes wf: "pool_wf p" and i: "i < thread_num p" and "items q = items (queues p ! i)"
  shows "pool_wf (set_queue i q p) \<and> pool_fns (set_queue i q p) = pool_fns p"
proof -
  have "i < length (queues p)" using wf i by (simp add: pool_wf_def)
  then have "pool_fns (set_queue i q p) = pool_fns p"
    using pool_fns_set_queue [of i p q] assms(3) by (simp add: queue_fns_def)
  moreover have "pool_wf (set_queue i q p)"
    using wf assms(3) pool_wf_item [OF wf i] by (intro pool_wf_set_queue) auto
  ultimately show ?thesis by simp
qed

lemma pool_wf_stop_flag [simp]: "pool_wf (p\<lparr>stop_flag := b\<rparr>) = pool_wf p"
  by (simp add: pool_wf_def)

lemma pool_fns_stop_flag [simp]: "pool_fns (p\<lparr>stop_flag := b\<rparr>) = pool_fns p"
  by (simp add: pool_fns_def)

lemma conserved_init: "hw \<le> 2 ^ 30 \<Longrightarrow> n \<le> 2 ^ 30 \<Longrightarrow> conserved (psys_init hw n steal)"
  using Pool_ctor_wf [of hw n steal]
  by (simp add: conserved_def psys_init_def Let_def Pool_ctor_fns in_flight_def
      sum_list_replicate_0)

lemma conserved_step: "psys_step s t \<Longrightarrow> conserved s \<Longrightarrow> conserved t"
proof (induction rule: psys_step.induct)
  case (submit_push f target s i)
  have "callable (submitted_item (the_pool s) f target)" "fn (submitted_item (the_pool s) f target) = Some f"
    by (simp_all add: callable_def submitted_item_def)
  with submit_push push_to_spec [of "the_pool s" i "submitted_item (the_pool s) f target"]
  show ?case
    by (auto simp: conserved_def do_push_def push_to_def in_flight_def dest: in_diffD)
next
  case (steal_miss w s n i lock q)
  then have "q = queues (the_pool s) ! i"
    by (intro stolen_none)
  moreover have "i < thread_num (the_pool s)" using steal_miss by simp
  ultimately show ?case
    using steal_miss same_items [of "the_pool s" i q]
      in_flight_set_worker [of w "with_queue i q s" "Stealing (Suc n)"]
    by (simp add: conserved_def)
next
  case (steal_hit w s n i lock item q f)
  then have "items (queues (the_pool s) ! i) = item # items q"
    using stolen_item [of lock "queues (the_pool s) ! i" item q] by simp
  moreover have "i < thread_num (the_pool s)" using steal_hit by simp
  ultimately show ?case
    using steal_hit take_front [of "the_pool s" i item q f]
      in_flight_set_worker [of w "with_queue i q s" "Running f"]
    by (simp add: conserved_def)
next
  case (pop_item w s item q f)
  then have "items (queues (the_pool s) ! w) = item # items q"
    using popped_item [of "queues (the_pool s) ! w" item q] by simp
  then show ?case
    using pop_item take_front [of "the_pool s" w item q f]
      in_flight_set_worker [of w "with_queue w q s" "Running f"]
    by (simp add: conserved_def)
next
  case (pop_refused w s q)
  then have "items q = items (queues (the_pool s) ! w)"
    using popped_none [of "queues (the_pool s) ! w" q] by simp
  then show ?case
    using pop_refused same_items [of "the_pool s" w q]
      in_flight_set_worker [of w "with_queue w q s" Exited]
    by (simp add: conserved_def)
next
  case (steal_over w s n)
  then show ?case
    using in_flight_set_worker [of w s Popping] by (simp add: conserved_def)
next
  case (run_task w s f)
  then show ?case
    using in_flight_set_worker [of w "s\<lparr>executed := add_mset f (executed s)\<rparr>" "worker_start (the_pool s)"]
    by (auto simp: conserved_def)
next
  case (stop_queue s j)
  then show ?case
    using same_items [of "the_pool s" j "Queue_Stop (queues (the_pool s) ! j)"]
    by (simp add: conserved_def wq.stop_spec in_flight_def)
qed (auto simp: conserved_def)

lemma reachable_conserved: "psys_reachable s \<Longrightarrow> conserved s"
  by (induction rule: psys_reachable.induct) (auto intro: conserved_init conserved_step)

lemma drained_init: "drained (psys_init hw n steal)"
  by (auto simp: drained_def psys_init_def Let_def worker_start_def Pool_ctor_def Queue_ctor_def)

lemma drained_with_queue:
  assumes "drained s" and "conserved s" and "i < thread_num (the_pool s)"
    and "stopped q = stopped (queues (the_pool s) ! i)"
    and "items (queues (the_pool s) ! i) = [] \<Longrightarrow> items q = []"
  shows "drained (with_queue i q s)"
proof -
  have len: "length (queues (the_pool s)) = thread_num (the_pool s)"
    "length (workers s) = thread_num (the_pool s)"
    using assms(2) by (simp_all add: conserved_def pool_wf_def)
  show ?thesis
    using assms len by (auto simp: drained_def nth_list_update)
qed

lemma drained_set_worker:
  assumes "drained s" and "x \<noteq> Exited"
  shows "drained (set_worker w x s)"
proof (cases "w < length (workers s)")
  case True
  with assms show ?thesis by (auto simp: drained_def nth_list_update split: if_splits)
next
  case False
  with assms show ?thesis by (auto simp: drained_def list_update_beyond)
qed

lemma drained_frame:
  "drained (s\<lparr>submitting := m\<rparr>) = drained s"
  "drained (s\<lparr>executed := e\<rparr>) = drained s"
  by (simp_all add: drained_def)

lemma worker_start_not_exited [simp]: "worker_start p \<noteq> Exited"
  by (simp add: worker_start_def)

lemma drained_step: "psys_step s t \<Longrightarrow> conserved s \<Longrightarrow> drained s \<Longrightarrow> drained t"
proof (induction rule: psys_step.induct)
  case (submit_push f target s i)
  have len: "length (queues (the_pool s)) = thread_num (the_pool s)"
    "length (workers s) = thread_num (the_pool s)"
    using submit_push.prems by (simp_all add: conserved_def pool_wf_def)
  show ?case
    using submit_push len
    by (auto simp: drained_def do_push_def push_to_def nth_list_update wq.push_stopped
        wq.push_contents)
next
  case (steal_miss w s n i lock q)
  then have "q = queues (the_pool s) ! i" "i < thread_num (the_pool s)"
    using stolen_none [of lock "queues (the_pool s) ! i" q] by simp_all
  with steal_miss show ?case by (intro drained_set_worker drained_with_queue) simp_all
next
  case (steal_hit w s n i lock item q f)
  then have "items (queues (the_pool s) ! i) = item # items q"
    "stopped q = stopped (queues (the_pool s) ! i)" "i < thread_num (the_pool s)"
    using stolen_item [of lock "queues (the_pool s) ! i" item q] by simp_all
  with steal_hit show ?case by (intro drained_set_worker drained_with_queue) simp_all
next
  case (pop_item w s item q f)
  then have "items (queues (the_pool s) ! w) = item # items q"
    "stopped q = stopped (queues (the_pool s) ! w)" "w < thread_num (the_pool s)"
    using popped_item [of "queues (the_pool s) ! w" item q] by (simp_all add: conserved_def)
  with pop_item show ?case by (intro drained_set_worker drained_with_queue) simp_all
next
  case (pop_refused w s q)
  then have q: "items (queues (the_pool s) ! w) = []" "stopped (queues (the_pool s) ! w)"
    "q = queues (the_pool s) ! w" "w < thread_num (the_pool s)"
    using popped_none [of "queues (the_pool s) ! w" q] by (simp_all add: conserved_def)
  then have "with_queue w q s = s" by (simp add: with_queue_def set_queue_def)
  with pop_refused q show ?case by (auto simp: drained_def nth_list_update split: if_splits)
next
  case (stop_queue s j)
  then have "length (queues (the_pool s)) = thread_num (the_pool s)"
    "length (workers s) = thread_num (the_pool s)" by (simp_all add: conserved_def pool_wf_def)
  with stop_queue show ?case
    by (auto simp: drained_def nth_list_update wq.stop_spec less_Suc_eq)
qed (auto simp: drained_set_worker drained_frame, simp add: drained_def)

lemma reachable_drained: "psys_reachable s \<Longrightarrow> drained s"
proof (induction rule: psys_reachable.induct)
  case (psys_start hw n steal)
  show ?case by (rule drained_init)
next
  case (psys_next s t)
  then show ?case using drained_step reachable_conserved by blast
qed

section \<open>Shutting down\<close>

text \<open>
  The steps the workers take on their own, and a measure they decrease: every queued item pays for
  the turn that runs it, which ends in a stealing loop of at most \<open>2 * thread_num\<close> attempts.
\<close>

fun worker_cost :: "nat \<Rightarrow> 'f worker \<Rightarrow> nat" where
  "worker_cost n (Stealing k) = (2 * n - k) + 2"
| "worker_cost n Popping = 1"
| "worker_cost n (Running f) = 2 * n + 3"
| "worker_cost n Exited = 0"

definition shutdown_measure :: "'f psys \<Rightarrow> nat" where
  "shutdown_measure s =
     (2 * thread_num (the_pool s) + 4) * size (pool_fns (the_pool s)) +
     sum_list (map (worker_cost (thread_num (the_pool s))) (workers s))"

definition active :: "'f psys \<Rightarrow> nat \<Rightarrow> bool" where
  "active s w \<longleftrightarrow> w < length (workers s) \<and> workers s ! w \<noteq> Exited"

definition worker_step :: "'f psys \<Rightarrow> 'f psys \<Rightarrow> bool" where
  "worker_step s t \<longleftrightarrow> psys_step s t \<and> stopping t = stopping s \<and>
     accepted t = accepted s \<and> submitting t = submitting s \<and> workers t \<noteq> workers s"

lemma cost_set_worker:
  assumes "w < length (workers s)"
  shows "sum_list (map (worker_cost n) ((workers s)[w := x])) + worker_cost n (workers s ! w) =
         sum_list (map (worker_cost n) (workers s)) + worker_cost n x"
  using assms by (rule sum_list_map_update)

lemma cost_start: "worker_cost n (worker_start p) \<le> 2 * n + 2"
  by (simp add: worker_start_def)

lemma worker_step_decreases:
  assumes "worker_step s t" and "conserved s"
  shows "shutdown_measure t < shutdown_measure s"
proof -
  let ?n = "thread_num (the_pool s)"
  from assms(1) have "psys_step s t" and ne: "workers t \<noteq> workers s"
    by (simp_all add: worker_step_def)
  then show ?thesis using assms(2)
  proof (induction rule: psys_step.induct)
    case (steal_miss w s n i lock q)
    then have "q = queues (the_pool s) ! i" "i < thread_num (the_pool s)"
      using stolen_none [of lock "queues (the_pool s) ! i" q] by simp_all
    then have "pool_fns (set_queue i q (the_pool s)) = pool_fns (the_pool s)"
      using steal_miss same_items [of "the_pool s" i q] by (simp add: conserved_def)
    with steal_miss show ?case
      using cost_set_worker [of w s "thread_num (the_pool s)" "Stealing (Suc n)"]
      by (simp add: shutdown_measure_def)
  next
    case (steal_hit w s n i lock item q f)
    then have "items (queues (the_pool s) ! i) = item # items q" "i < thread_num (the_pool s)"
      using stolen_item [of lock "queues (the_pool s) ! i" item q] by simp_all
    then have "pool_fns (the_pool s) = add_mset f (pool_fns (set_queue i q (the_pool s)))"
      using steal_hit take_front [of "the_pool s" i item q f] by (simp add: conserved_def)
    with steal_hit show ?case
      using cost_set_worker [of w s "thread_num (the_pool s)" "Running f"]
      by (simp add: shutdown_measure_def)
  next
    case (steal_over w s n)
    then show ?case
      using cost_set_worker [of w s "thread_num (the_pool s)" Popping]
      by (simp add: shutdown_measure_def)
  next
    case (pop_item w s item q f)
    then have "items (queues (the_pool s) ! w) = item # items q" "w < thread_num (the_pool s)"
      using popped_item [of "queues (the_pool s) ! w" item q] by (simp_all add: conserved_def)
    then have "pool_fns (the_pool s) = add_mset f (pool_fns (set_queue w q (the_pool s)))"
      using pop_item take_front [of "the_pool s" w item q f] by (simp add: conserved_def)
    with pop_item show ?case
      using cost_set_worker [of w s "thread_num (the_pool s)" "Running f"]
      by (simp add: shutdown_measure_def)
  next
    case (pop_refused w s q)
    then have "items q = items (queues (the_pool s) ! w)" "w < thread_num (the_pool s)"
      using popped_none [of "queues (the_pool s) ! w" q] by (simp_all add: conserved_def)
    then have "pool_fns (set_queue w q (the_pool s)) = pool_fns (the_pool s)"
      using pop_refused same_items [of "the_pool s" w q] by (simp add: conserved_def)
    with pop_refused show ?case
      using cost_set_worker [of w s "thread_num (the_pool s)" Exited]
      by (simp add: shutdown_measure_def)
  next
    case (run_task w s f)
    then show ?case
      using cost_set_worker [of w s "thread_num (the_pool s)" "worker_start (the_pool s)"]
        cost_start [of "thread_num (the_pool s)" "the_pool s"]
      by (simp add: shutdown_measure_def)
  qed (simp_all add: do_push_def)
qed

text \<open>A worker of a stopped pool is never blocked.\<close>

lemma callable_Some: "callable it \<Longrightarrow> \<exists>f. fn it = Some f"
  by (auto simp: callable_def)

lemma stealing_bound:
  "psys_reachable s \<Longrightarrow> w < length (workers s) \<Longrightarrow> workers s ! w = Stealing n \<Longrightarrow>
     n \<le> thread_num (the_pool s) * 2"
proof (induction arbitrary: w n rule: psys_reachable.induct)
  case (psys_start hw n steal)
  then show ?case by (auto simp: psys_init_def Let_def worker_start_def split: if_splits)
next
  case (psys_next s t)
  from psys_next.hyps(2) psys_next.prems psys_next.IH show ?case
    by (cases rule: psys_step.cases)
       (auto simp: nth_list_update do_push_def push_to_def worker_start_def split: if_splits)
qed

lemma set_worker_changes:
  "w < length (workers s) \<Longrightarrow> workers s ! w \<noteq> x \<Longrightarrow> (workers s)[w := x] \<noteq> workers s"
  by (metis nth_list_update_eq)

lemma stopped_worker_moves:
  assumes reach: "psys_reachable s" and stop: "stopping s = thread_num (the_pool s)"
    and act: "active s w"
  shows "\<exists>t. worker_step s t"
proof -
  have cons: "conserved s" and dr: "drained s"
    using reach reachable_conserved reachable_drained by auto
  let ?p = "the_pool s"
  have w: "w < length (workers s)" "w < thread_num ?p" and len: "length (queues ?p) = thread_num ?p"
    and wf: "pool_wf ?p"
    using act cons by (simp_all add: active_def conserved_def pool_wf_def)
  note frame = worker_step_def set_worker_changes
  show ?thesis
  proof (cases "workers s ! w")
    case (Stealing n)
    show ?thesis
    proof (cases "n < thread_num ?p * 2")
      case True
      have "Queue_TryPopIf False steal_predicate (queues ?p ! ((w + n) mod thread_num ?p)) =
          (None, queues ?p ! ((w + n) mod thread_num ?p))"
        by (simp add: Queue_TryPopIf_def)
      from psys_step.steal_miss [OF w(1) Stealing True refl this] w Stealing
      show ?thesis by (auto simp: frame)
    next
      case False
      with stealing_bound [OF reach w(1) Stealing] have "n = thread_num ?p * 2" by simp
      from psys_step.steal_over [OF w(1) Stealing this] w Stealing
      show ?thesis by (auto simp: frame)
    qed
  next
    case Popping
    let ?q = "queues ?p ! w"
    have "stopped ?q" using dr w stop by (simp add: drained_def)
    then have pop: "if items ?q = [] then Queue_Pop ?q = Some (None, ?q)
        else \<exists>q'. Queue_Pop ?q = Some (Some (hd (items ?q)), q')"
      by (rule wq.stopped_pop)
    show ?thesis
    proof (cases "items ?q = []")
      case True
      with pop psys_step.pop_refused [OF w(1) Popping, of ?q] w Popping
      show ?thesis by (auto simp: frame)
    next
      case False
      with pop obtain q' where q': "Queue_Pop ?q = Some (Some (hd (items ?q)), q')" by auto
      obtain f where "fn (hd (items ?q)) = Some f"
        using callable_Some pool_wf_item [OF wf w(2)] False by (metis hd_in_set)
      from psys_step.pop_item [OF w(1) Popping q' this] w Popping
      show ?thesis by (auto simp: frame)
    qed
  next
    case (Running f)
    have "workers s ! w \<noteq> worker_start ?p" using Running by (simp add: worker_start_def)
    with psys_step.run_task [OF w(1) Running] w show ?thesis by (auto simp: frame)
  next
    case Exited
    with act show ?thesis by (simp add: active_def)
  qed
qed

section \<open>A pool of two workers, run by hand\<close>

text \<open>
  A pool of two workers without stealing, given by its two queues, its stop flags, its workers and
  the ghost fields: enough to write down a run.
\<close>

definition two_workers ::
  "nat list \<Rightarrow> nat list \<Rightarrow> nat \<Rightarrow> bool \<Rightarrow> nat worker list \<Rightarrow> (nat \<times> nat option) multiset \<Rightarrow>
   nat multiset \<Rightarrow> nat multiset \<Rightarrow> bool \<Rightarrow> nat psys" where
  "two_workers q0 q1 k flag ws sub acc exe late =
     \<lparr>the_pool = \<lparr>thread_num = 2,
        queues = [\<lparr>items = map (\<lambda>f. \<lparr>can_steal = False, fn = Some f\<rparr>) q0, stopped = 0 < k\<rparr>,
                  \<lparr>items = map (\<lambda>f. \<lparr>can_steal = False, fn = Some f\<rparr>) q1, stopped = 1 < k\<rparr>],
        enable_work_steal = False, stop_flag = flag\<rparr>,
      workers = ws, submitting = sub, stopping = k, accepted = acc, executed = exe,
      late_push = late\<rparr>"

lemma two_workers_init: "two_workers [] [] 0 False [Popping, Popping] {#} {#} {#} False = psys_init 4 2 False"
  by (simp add: two_workers_def psys_init_def Pool_ctor_def Queue_ctor_def worker_start_def
      numeral_2_eq_2)

lemmas two_workers_simps =
  two_workers_def set_worker_def with_queue_def set_queue_def do_push_def push_to_def
  submitted_item_def worker_start_def Queue_Push_def Queue_Pop_def Queue_Stop_def

lemma two_submit_check:
  "target = Some i \<Longrightarrow> i < 2 \<Longrightarrow> psys_step (two_workers q0 q1 k False ws sub acc exe late)
     (two_workers q0 q1 k False ws (add_mset (f, target) sub) acc exe late)"
  using psys_step.submit_check [of "two_workers q0 q1 k False ws sub acc exe late" target f]
  by (simp add: two_workers_simps)

lemma two_submit_push:
  "psys_step (two_workers q0 q1 k flag ws (add_mset (f, Some 0) sub) acc exe late)
     (two_workers (q0 @ [f]) q1 k flag ws sub (add_mset f acc) exe (late \<or> flag))"
  "psys_step (two_workers q0 q1 k flag ws (add_mset (f, Some 1) sub) acc exe late)
     (two_workers q0 (q1 @ [f]) k flag ws sub (add_mset f acc) exe (late \<or> flag))"
  using psys_step.submit_push [of f "Some 0" "two_workers q0 q1 k flag ws (add_mset (f, Some 0) sub) acc exe late" 0]
    psys_step.submit_push [of f "Some 1" "two_workers q0 q1 k flag ws (add_mset (f, Some 1) sub) acc exe late" 1]
  by (simp_all add: two_workers_simps)

lemma two_pop:
  "psys_step (two_workers q0 (f # q1) k flag [x, Popping] sub acc exe late)
     (two_workers q0 q1 k flag [x, Running f] sub acc exe late)"
  using psys_step.pop_item [of 1 "two_workers q0 (f # q1) k flag [x, Popping] sub acc exe late"
      "\<lparr>can_steal = False, fn = Some f\<rparr>" _ f]
  by (simp add: two_workers_simps)

lemma two_exit:
  "psys_step (two_workers [] q1 1 flag [Popping, x] sub acc exe late)
     (two_workers [] q1 1 flag [Exited, x] sub acc exe late)"
  "psys_step (two_workers [] q1 2 flag [Popping, x] sub acc exe late)
     (two_workers [] q1 2 flag [Exited, x] sub acc exe late)"
  "psys_step (two_workers q0 [] 2 flag [x, Popping] sub acc exe late)
     (two_workers q0 [] 2 flag [x, Exited] sub acc exe late)"
  using psys_step.pop_refused [of 0 "two_workers [] q1 1 flag [Popping, x] sub acc exe late"]
    psys_step.pop_refused [of 0 "two_workers [] q1 2 flag [Popping, x] sub acc exe late"]
    psys_step.pop_refused [of 1 "two_workers q0 [] 2 flag [x, Popping] sub acc exe late"]
  by (simp_all add: two_workers_simps)

lemma two_run:
  "psys_step (two_workers q0 q1 k flag [x, Running f] sub acc exe late)
     (two_workers q0 q1 k flag [x, Popping] sub acc (add_mset f exe) late)"
  using psys_step.run_task [of 1 "two_workers q0 q1 k flag [x, Running f] sub acc exe late" f]
  by (simp add: two_workers_simps)

lemma two_stop:
  "psys_step (two_workers q0 q1 k flag ws sub acc exe late)
     (two_workers q0 q1 k True ws sub acc exe late)"
  "psys_step (two_workers q0 q1 0 True ws sub acc exe late)
     (two_workers q0 q1 1 True ws sub acc exe late)"
  "psys_step (two_workers q0 q1 1 True ws sub acc exe late)
     (two_workers q0 q1 2 True ws sub acc exe late)"
  using psys_step.set_stop [of "two_workers q0 q1 k flag ws sub acc exe late"]
    psys_step.stop_queue [of "two_workers q0 q1 0 True ws sub acc exe late" 0]
    psys_step.stop_queue [of "two_workers q0 q1 1 True ws sub acc exe late" 1]
  by (simp_all add: two_workers_simps numeral_2_eq_2)

lemma two_workers_fields:
  "thread_num (the_pool (two_workers q0 q1 k flag ws sub acc exe late)) = 2"
  "workers (two_workers q0 q1 k flag ws sub acc exe late) = ws"
  "stopping (two_workers q0 q1 k flag ws sub acc exe late) = k"
  "accepted (two_workers q0 q1 k flag ws sub acc exe late) = acc"
  "executed (two_workers q0 q1 k flag ws sub acc exe late) = exe"
  "late_push (two_workers q0 q1 k flag ws sub acc exe late) = late"
  by (simp_all add: two_workers_def)

text \<open>Task 7 is queued for worker 1, which takes it.\<close>

lemma reach_running:
  "psys_reachable (two_workers [] [] 0 False [Popping, Running 7] {#} {#7#} {#} False)"
proof -
  have "psys_reachable (two_workers [] [] 0 False [Popping, Popping] {#} {#} {#} False)"
    unfolding two_workers_init by (rule psys_start) simp_all
  from psys_next [OF this two_submit_check [of "Some 1" 1]]
  have "psys_reachable (two_workers [] [] 0 False [Popping, Popping] {#(7, Some 1)#} {#} {#} False)"
    by simp
  from psys_next [OF this two_submit_push(2)]
  have "psys_reachable (two_workers [] [7] 0 False [Popping, Popping] {#} {#7#} {#} False)"
    by simp
  from psys_next [OF this two_pop] show ?thesis .
qed

text \<open>Then the destructor stops both queues and both workers leave.\<close>

lemma reach_stopped:
  "psys_reachable (two_workers [] [] 2 True [Popping, Running 7] {#} {#7#} {#} False)"
  using psys_next [OF psys_next [OF psys_next [OF reach_running two_stop(1)] two_stop(2)] two_stop(3)] .

lemma reach_shut_down:
  "psys_reachable (two_workers [] [] 2 True [Exited, Exited] {#} {#7#} {#7#} False)"
  using psys_next [OF psys_next [OF psys_next [OF reach_stopped two_exit(2)] two_run] two_exit(3)] .

text \<open>
  In another run, task 7 calls \<open>ScheduleById\<close> for worker 0; the test of \<open>stop_\<close> succeeds, then the
  destructor stops queue 0, worker 0 leaves, and the push comes after that.
\<close>

lemma reach_stranded:
  "psys_reachable (two_workers [8] [] 2 True [Exited, Exited] {#} {#8, 7#} {#7#} True)"
proof -
  have "psys_reachable (two_workers [] [] 0 False [Popping, Running 7] {#(8, Some 0)#} {#7#} {#} False)"
    using psys_next [OF reach_running two_submit_check [of "Some 0" 0]] by simp
  from psys_next [OF psys_next [OF psys_next [OF this two_stop(1)] two_stop(2)] two_exit(1)]
  have "psys_reachable (two_workers [] [] 1 True [Exited, Running 7] {#(8, Some 0)#} {#7#} {#} False)" .
  from psys_next [OF this two_submit_push(1)]
  have "psys_reachable (two_workers [8] [] 1 True [Exited, Running 7] {#} {#8, 7#} {#} True)"
    by simp
  from psys_next [OF psys_next [OF psys_next [OF this two_run] two_stop(3)] two_exit(3)]
  show ?thesis .
qed

section \<open>Properties\<close>

text \<open>
  Claim C7. Under every interleaving of submitting threads, workers (stealing or not) and the
  destructor, each accepted function is in exactly one place: still queued, being run by one
  worker, or run. So no function runs twice, and none is lost while the pool works.
\<close>

theorem pool_exactly_once:
  assumes "psys_reachable s"
  shows "accepted s = pool_fns (the_pool s) + in_flight s + executed s"
  using reachable_conserved [OF assms] by (simp add: conserved_def)

theorem pool_exactly_once_witness:
  "\<exists>s :: nat psys. psys_reachable s \<and> in_flight s = {#7#} \<and>
     accepted s = pool_fns (the_pool s) + in_flight s + executed s"
proof -
  have "in_flight (two_workers [] [] 0 False [Popping, Running 7] {#} {#7#} {#} False) = {#7#}"
    by (simp add: in_flight_def two_workers_def)
  then show ?thesis using pool_exactly_once [OF reach_running] reach_running by blast
qed

text \<open>
  Claim C8. Shutdown runs everything: in a run in which no function at all is pushed after the destructor
  set \<open>stop_\<close>, once every worker has left its loop, every accepted function has been executed, exactly once.
\<close>

theorem shutdown_drains:
  assumes "psys_reachable s" and "\<not> late_push s" and "\<forall>w < length (workers s). workers s ! w = Exited"
  shows "executed s = accepted s"
proof -
  have cons: "conserved s" and dr: "drained s"
    using assms(1) reachable_conserved reachable_drained by auto
  then have "\<forall>i < length (queues (the_pool s)). queue_fns (queues (the_pool s) ! i) = {#}"
    using assms(2,3) by (auto simp: drained_def conserved_def pool_wf_def queue_fns_def)
  then have "map queue_fns (queues (the_pool s)) = replicate (length (queues (the_pool s))) {#}"
    by (intro nth_equalityI) simp_all
  then have "pool_fns (the_pool s) = {#}"
    by (simp add: pool_fns_def sum_list_replicate_0)
  moreover have "map running_fn (workers s) = replicate (length (workers s)) {#}"
    using assms(3) by (intro nth_equalityI) simp_all
  then have "in_flight s = {#}" by (simp add: in_flight_def sum_list_replicate_0)
  ultimately show ?thesis using cons by (simp add: conserved_def)
qed

theorem shutdown_drains_witness:
  "\<exists>s :: nat psys. psys_reachable s \<and> executed s = accepted s \<and> accepted s = {#7#}"
proof -
  have "\<forall>w < length (workers (two_workers [] [] 2 True [Exited, Exited] {#} {#7#} {#7#} False)).
      workers (two_workers [] [] 2 True [Exited, Exited] {#} {#7#} {#7#} False) ! w = Exited"
    by (simp add: two_workers_fields nth_Cons less_Suc_eq split: nat.splits)
  from shutdown_drains [OF reach_shut_down _ this] reach_shut_down show ?thesis
    by (metis two_workers_fields(4) two_workers_fields(6))
qed

text \<open>
  Claim C9. The destructor's \<open>join\<close> returns: once all queues are stopped, a worker that has not left
  its loop always has a step, and every worker step (which submits nothing) decreases a natural
  number, so only finitely many are left.
\<close>

theorem shutdown_terminates:
  assumes "psys_reachable s" and "stopping s = thread_num (the_pool s)" and "active s w"
  shows "(\<exists>t. worker_step s t) \<and>
         (\<forall>t. worker_step s t \<longrightarrow> shutdown_measure t < shutdown_measure s)"
  using stopped_worker_moves [OF assms] worker_step_decreases
    reachable_conserved [OF assms(1)] by blast

theorem shutdown_terminates_witness:
  "\<exists>s :: nat psys. psys_reachable s \<and> active s 1 \<and> (\<exists>t. worker_step s t)"
proof -
  let ?s = "two_workers [] [] 2 True [Popping, Running 7] {#} {#7#} {#} False"
  have "active ?s 1" "stopping ?s = thread_num (the_pool ?s)"
    by (simp_all add: active_def two_workers_fields)
  with shutdown_terminates [OF reach_stopped] reach_stopped show ?thesis by blast
qed

text \<open>
  Claim C10. A push that races with the destructor is lost: there is a run in which a task of the
  pool submits another one, \<open>ScheduleById\<close> returns \<open>kErrorNone\<close>, all workers leave, and the second
  task is never executed, because \<open>stop_\<close> is tested before and not together with the push. The
  condition on late pushes in the completeness of shutdown cannot be dropped.
\<close>

theorem late_push_is_lost:
  "\<exists>s :: nat psys. psys_reachable s \<and> set (workers s) = {Exited} \<and>
     8 \<in># accepted s \<and> 8 \<notin># executed s \<and> 8 \<in># pool_fns (the_pool s)"
proof -
  let ?s = "two_workers [8] [] 2 True [Exited, Exited] {#} {#8, 7#} {#7#} True"
  have "set (workers ?s) = {Exited}"
    by (simp add: two_workers_fields)
  moreover have "8 \<in># accepted ?s" "8 \<notin># executed ?s"
    by (simp_all add: two_workers_fields)
  moreover have "8 \<in># pool_fns (the_pool ?s)"
    by (simp add: pool_fns_def two_workers_def queue_fns_def)
  ultimately show ?thesis using reach_stranded by blast
qed

end
