(* ===== verification/Executor_Model.thy ===== *)
theory Executor_Model
  imports Thread_Pool
begin

text \<open>
  \<^verbatim>\<open>include/async_simple/executor/executor.hpp\<close> (the interface and the behaviour of its virtual
  functions that are not overridden) and \<^verbatim>\<open>include/async_simple/executor/simple_executor.hpp\<close>
  (the executor over the thread pool). The contract that the futures rely on is the locale
  \<open>executor\<close>; a \<open>Context\<close> is a pointer-sized integer. The IO executor that \<open>SimpleExecutor\<close> owns does
  nothing in a build without AIO and does not occur here.
\<close>

section \<open>The interface\<close>

type_synonym exec_context = "64 word"

definition kNullContext :: exec_context where
  "kNullContext = 0"

record executor_stat =
  pending_task_count :: nat

record schedule_options =
  prompt :: bool

definition ScheduleOptions_default :: schedule_options where
  "ScheduleOptions_default = \<lparr>prompt = True\<rparr>"

text \<open>Calling a \<open>std::function<void()>\<close>: an empty one throws.\<close>

definition call_function :: "('f \<Rightarrow> ('s, unit) action) \<Rightarrow> 'f option \<Rightarrow> ('s, unit) action" where
  "call_function call f = (case f of None \<Rightarrow> throw BadFunctionCall | Some g \<Rightarrow> call g)"

text \<open>What an executor that overrides only \<open>Schedule\<close> (an argument) does.\<close>

definition Executor_CurrentThreadInExecutor :: "('e, bool) action" where
  "Executor_CurrentThreadInExecutor = throw (LogicError ''Not implemented'')"

definition Executor_Stat :: "('e, executor_stat) action" where
  "Executor_Stat = throw (LogicError ''Not implemented'')"

definition Executor_CurrentContextId :: "('e, 64 word) action" where
  "Executor_CurrentContextId = ret 0"

definition Executor_Checkout :: "('e, exec_context) action" where
  "Executor_Checkout = ret kNullContext"

definition Executor_Checkin ::
  "('f option \<Rightarrow> ('e, bool) action) \<Rightarrow> 'f option \<Rightarrow> exec_context \<Rightarrow> schedule_options \<Rightarrow>
     ('e, bool) action" where
  "Executor_Checkin Schedule f ctx options = Schedule f"

text \<open>The overload without options calls the (overridden) one with the default options.\<close>

definition Executor_Checkin_default ::
  "('f option \<Rightarrow> exec_context \<Rightarrow> schedule_options \<Rightarrow> ('e, bool) action) \<Rightarrow>
     'f option \<Rightarrow> exec_context \<Rightarrow> ('e, bool) action" where
  "Executor_Checkin_default Checkin f ctx = Checkin f ctx ScheduleOptions_default"

definition Executor_GetIOExecutor :: "('e, 'io) action" where
  "Executor_GetIOExecutor = throw (LogicError ''Not implemented'')"

lemmas executor_defaults =
  Executor_CurrentThreadInExecutor_def Executor_Stat_def Executor_CurrentContextId_def
  Executor_Checkout_def Executor_Checkin_def Executor_Checkin_default_def
  Executor_GetIOExecutor_def

section \<open>SimpleExecutor\<close>

text \<open>The constant is an \<open>int64_t\<close>, so the 32-bit thread number is sign-extended before the \<open>or\<close>.\<close>

definition kContextMask :: "64 word" where
  "kContextMask = 0x40000000"

definition Simple_ctor :: "nat \<Rightarrow> nat \<Rightarrow> 'f pool" where
  "Simple_ctor hardware_concurrency n = Pool_ctor hardware_concurrency n False"

definition Simple_Schedule ::
  "(nat \<Rightarrow> bool) \<Rightarrow> nat \<Rightarrow> 'f option \<Rightarrow> ('f pool, bool) action" where
  "Simple_Schedule lk rand f =
     bind (Pool_ScheduleById lk rand f (- 1)) (\<lambda>e. ret (e = kErrorNone))"

definition Simple_CurrentThreadInExecutor :: "nat \<Rightarrow> current \<Rightarrow> bool" where
  "Simple_CurrentThreadInExecutor this current \<longleftrightarrow> Pool_GetCurrentId this current \<noteq> - 1"

definition Simple_Stat :: executor_stat where
  "Simple_Stat = \<lparr>pending_task_count = 0\<rparr>"

definition Simple_CurrentContextId :: "nat \<Rightarrow> current \<Rightarrow> 64 word" where
  "Simple_CurrentContextId this current = scast (Pool_GetCurrentId this current)"

definition Simple_Checkout :: "nat \<Rightarrow> current \<Rightarrow> exec_context" where
  "Simple_Checkout this current = (scast (Pool_GetCurrentId this current) OR kContextMask)"

definition Simple_prompt_now :: "nat \<Rightarrow> current \<Rightarrow> exec_context \<Rightarrow> schedule_options \<Rightarrow> bool" where
  "Simple_prompt_now this current ctx options \<longleftrightarrow>
     scast (Pool_GetCurrentId this current) = (ctx AND NOT kContextMask) \<and> prompt options"

definition Simple_Checkin ::
  "('f \<Rightarrow> ('f pool, unit) action) \<Rightarrow> (nat \<Rightarrow> bool) \<Rightarrow> nat \<Rightarrow> nat \<Rightarrow> current \<Rightarrow>
     'f option \<Rightarrow> exec_context \<Rightarrow> schedule_options \<Rightarrow> ('f pool, bool) action" where
  "Simple_Checkin call lk rand this current f ctx options =
     (if Simple_prompt_now this current ctx options then seq (call_function call f) (ret True)
      else bind (Pool_ScheduleById lk rand f (ucast (ctx AND NOT kContextMask)))
             (\<lambda>e. ret (e = kErrorNone)))"

text \<open>What a worker thread stores in its thread-local pair when it starts.\<close>

definition Pool_worker_current :: "nat \<Rightarrow> nat \<Rightarrow> current" where
  "Pool_worker_current this wid = (of_nat wid, Some this)"

lemmas simple_defs =
  Simple_Schedule_def Simple_CurrentThreadInExecutor_def Simple_Stat_def
  Simple_CurrentContextId_def Simple_Checkout_def Simple_Checkin_def

section \<open>The contract of an executor\<close>

text \<open>
  The promise of \<open>Schedule\<close>: true means that the function will be executed (it is owed, once),
  false that it will not be called. \<open>'c\<close> collects whatever else decides the result of a call.
\<close>

primrec schedule_all ::
  "('c \<Rightarrow> 'f option \<Rightarrow> ('e, bool) action) \<Rightarrow> ('c \<times> 'f option) list \<Rightarrow> ('e, bool list) action" where
  "schedule_all sched [] = ret []"
| "schedule_all sched (x # xs) =
     bind (sched (fst x) (snd x)) (\<lambda>b. bind (schedule_all sched xs) (\<lambda>bs. ret (b # bs)))"

primrec accepted_of :: "('c \<times> 'f option) list \<Rightarrow> bool list \<Rightarrow> 'f list" where
  "accepted_of [] bs = []"
| "accepted_of (x # xs) bs =
     (case bs of [] \<Rightarrow> [] | b # bs' \<Rightarrow> (if b then [the (snd x)] else []) @ accepted_of xs bs')"

lemma bind_Return:
  assumes "bind m k s = (Return y, t)"
  obtains x u where "m s = (Return x, u)" "k x u = (Return y, t)"
  using assms by (auto simp: bind_def split: outcome.splits prod.splits)

locale executor =
  fixes wf :: "'e \<Rightarrow> bool"
    and owed :: "'e \<Rightarrow> 'f multiset"
    and schedule :: "'c \<Rightarrow> 'f option \<Rightarrow> ('e, bool) action"
  assumes schedule_true: "wf e \<Longrightarrow> schedule c f e = (Return True, e') \<Longrightarrow>
      wf e' \<and> f \<noteq> None \<and> owed e' = add_mset (the f) (owed e)"
    and schedule_false: "wf e \<Longrightarrow> schedule c f e = (Return False, e') \<Longrightarrow> e' = e"
begin

lemma schedule_owed:
  assumes "wf e" and "schedule c f e = (Return b, e')"
  shows "wf e' \<and> owed e' = owed e + (if b then {#the f#} else {#})"
  using assms schedule_true [of e c f e'] schedule_false [of e c f e'] by (cases b) auto

lemma schedule_all_owed:
  assumes "wf e" and "schedule_all schedule xs e = (Return bs, e')"
  shows "wf e' \<and> owed e' = owed e + mset (accepted_of xs bs)"
  using assms
proof (induction xs arbitrary: e bs)
  case Nil
  then show ?case by (simp add: outcome_simps)
next
  case (Cons x xs)
  from Cons.prems(2) obtain b e1 bs1 where
    run: "schedule (fst x) (snd x) e = (Return b, e1)"
    "schedule_all schedule xs e1 = (Return bs1, e')" and bs: "bs = b # bs1"
    by (auto simp: run_method elim!: bind_Return)
  have "wf e1" "owed e1 = owed e + (if b then {#the (snd x)#} else {#})"
    using schedule_owed [OF Cons.prems(1) run(1)] by simp_all
  with Cons.IH [OF _ run(2)] bs show ?case by simp
qed

end

text \<open>
  The promise of \<open>Checkin\<close> for an executor with several contexts: what is checked in (and not run at
  once) is queued at the context it was checked out from, and nowhere else.
\<close>

locale context_executor = executor wf owed schedule
  for wf :: "'e \<Rightarrow> bool" and owed :: "'e \<Rightarrow> 'f multiset"
    and schedule :: "'c \<Rightarrow> 'f option \<Rightarrow> ('e, bool) action" +
  fixes context_ok :: "'e \<Rightarrow> 'ctx \<Rightarrow> bool"
    and queued_at :: "'ctx \<Rightarrow> 'e \<Rightarrow> 'f list"
    and post :: "'d \<Rightarrow> 'f option \<Rightarrow> 'ctx \<Rightarrow> ('e, bool) action"
  assumes post_true: "wf e \<Longrightarrow> context_ok e x \<Longrightarrow> post d f x e = (Return True, e') \<Longrightarrow>
      wf e' \<and> context_ok e' = context_ok e \<and> f \<noteq> None \<and> owed e' = add_mset (the f) (owed e) \<and>
      queued_at x e' = queued_at x e @ [the f] \<and>
      (\<forall>y. context_ok e y \<and> y \<noteq> x \<longrightarrow> queued_at y e' = queued_at y e)"
    and post_false: "wf e \<Longrightarrow> context_ok e x \<Longrightarrow> post d f x e = (Return False, e') \<Longrightarrow> e' = e"
begin

text \<open>Functions checked in with one context are queued there in the order they were checked in.\<close>

lemma post_all_order:
  assumes "wf e" and "context_ok e x"
    and "schedule_all (\<lambda>d f. post d f x) xs e = (Return bs, e')"
  shows "wf e' \<and> context_ok e' = context_ok e \<and>
         queued_at x e' = queued_at x e @ accepted_of xs bs \<and>
         (\<forall>y. context_ok e y \<and> y \<noteq> x \<longrightarrow> queued_at y e' = queued_at y e)"
  using assms
proof (induction xs arbitrary: e bs)
  case Nil
  then show ?case by (simp add: outcome_simps)
next
  case (Cons p xs)
  from Cons.prems(3) obtain b e1 bs1 where
    run: "post (fst p) (snd p) x e = (Return b, e1)"
    "schedule_all (\<lambda>d f. post d f x) xs e1 = (Return bs1, e')" and bs: "bs = b # bs1"
    by (auto simp: run_method elim!: bind_Return)
  show ?case
  proof (cases b)
    case True
    with run(1) have one: "wf e1" "context_ok e1 = context_ok e"
      "queued_at x e1 = queued_at x e @ [the (snd p)]"
      "\<forall>y. context_ok e y \<and> y \<noteq> x \<longrightarrow> queued_at y e1 = queued_at y e"
      using post_true [OF Cons.prems(1,2), of "fst p" "snd p" e1] by simp_all
    with Cons.IH [OF one(1) _ run(2)] Cons.prems(2) bs True show ?thesis by simp
  next
    case False
    with run(1) have "e1 = e" using post_false [OF Cons.prems(1,2)] by simp
    with Cons.IH [OF Cons.prems(1,2)] run(2) bs False show ?thesis by simp
  qed
qed

end

section \<open>Contexts of the workers\<close>

definition worker_context :: "nat \<Rightarrow> exec_context" where
  "worker_context i = (scast (of_nat i :: 32 word) OR kContextMask)"

lemma Simple_Checkout_worker:
  "Simple_Checkout this (Pool_worker_current this i) = worker_context i"
  by (simp add: Simple_Checkout_def worker_context_def Pool_GetCurrentId_def
      Pool_worker_current_def)

lemma unat_of_nat_32:
  assumes "i < 2 ^ 30"
  shows "unat (of_nat i :: 32 word) = i"
  using assms by (simp add: unsigned_of_nat take_bit_nat_eq_self)

lemma unat_scast_of_nat: "i < 2 ^ 30 \<Longrightarrow> unat (scast (of_nat i :: 32 word) :: 64 word) = i"
  using unat_scast_32_64 [of "of_nat i"] unat_of_nat_32 [of i] by simp

lemma worker_context_clear:
  assumes "i < 2 ^ 30"
  shows "worker_context i AND NOT kContextMask = scast (of_nat i :: 32 word)"
  unfolding worker_context_def kContextMask_def
  using assms by (intro mask_clear) (simp only: unat_scast_of_nat)

lemma worker_context_not_null: "worker_context i \<noteq> kNullContext"
proof
  assume "worker_context i = kNullContext"
  then have "bit (worker_context i) 30 = bit (0 :: 64 word) 30"
    by (simp only: kNullContext_def)
  moreover have "bit (1073741824 :: 64 word) 30" by simp
  ultimately show False
    by (simp only: worker_context_def kContextMask_def bit_or_iff) simp
qed

lemma of_nat_not_minus_one:
  assumes "i < 2 ^ 30"
  shows "(of_nat i :: 32 word) \<noteq> - 1"
proof
  assume "(of_nat i :: 32 word) = - 1"
  then have "unat (of_nat i :: 32 word) = unat (- 1 :: 32 word)" by simp
  then have "i = unat (- 1 :: 32 word)" by (simp only: unat_of_nat_32 [OF assms])
  moreover have "unat (- 1 :: 32 word) = 4294967295"
    by (simp add: unsigned_minus_1_eq_mask mask_eq_exp_minus_1)
  ultimately show False using assms by simp
qed

lemma worker_context_inject:
  assumes "i < 2 ^ 30" and "j < 2 ^ 30" and "worker_context i = worker_context j"
  shows "i = j"
proof -
  have "(scast (of_nat i :: 32 word) :: 64 word) = scast (of_nat j :: 32 word)"
    using worker_context_clear [OF assms(1)] worker_context_clear [OF assms(2)] assms(3) by simp
  then have "unat (scast (of_nat i :: 32 word) :: 64 word) = unat (scast (of_nat j :: 32 word) :: 64 word)"
    by simp
  then show ?thesis by (simp only: unat_scast_of_nat [OF assms(1)] unat_scast_of_nat [OF assms(2)])
qed

lemma worker_below: "pool_wf p \<Longrightarrow> i < thread_num p \<Longrightarrow> i < 2 ^ 30"
  by (simp add: pool_wf_def)

lemma schedule_to_worker:
  assumes "pool_wf p" and "i < thread_num p"
  shows "Pool_ScheduleById lk rand f (of_nat i) p =
           (if f = None then (Return kErrorPoolItemIsNull, p)
            else if stop_flag p then (Return kErrorPoolHasStop, p)
            else (Return kErrorNone, push_to i \<lparr>can_steal = False, fn = f\<rparr> p))"
proof -
  have i: "i < 2 ^ 30" using assms by (rule worker_below)
  have "id_below (of_nat i) (thread_num p)"
    using assms(2) by (simp only: id_below_def unat_scast_of_nat [OF i])
  then show ?thesis
    using of_nat_not_minus_one [OF i] unat_of_nat_32 [OF i]
    by (simp add: Pool_ScheduleById_def)
qed

lemma Simple_Checkin_worker:
  assumes "pool_wf p" and "i < thread_num p"
  shows "Simple_Checkin call lk rand this current f (worker_context i) options p =
           (if Pool_GetCurrentId this current = of_nat i \<and> prompt options
            then seq (call_function call f) (ret True) p
            else if f = None \<or> stop_flag p then (Return False, p)
            else (Return True, push_to i \<lparr>can_steal = False, fn = f\<rparr> p))"
proof -
  have i: "i < 2 ^ 30" using assms by (rule worker_below)
  show ?thesis
    unfolding Simple_Checkin_def Simple_prompt_now_def worker_context_clear [OF i] scast_32_64_inject
      ucast_scast_32_64 run_bind
    using schedule_to_worker [OF assms, of lk rand f] by (auto simp: run_method)
qed

text \<open>A thread that is no worker: its context is no worker's, and checking in there stops the process.\<close>

lemma off_pool_context:
  "(scast (- 1 :: 32 word) OR kContextMask) AND NOT kContextMask = NOT kContextMask"
  by (simp add: kContextMask_def)

lemma off_pool_id:
  "(ucast (NOT kContextMask) :: 32 word) = 0xBFFFFFFF"
  "(- 1 :: 64 word) \<noteq> NOT kContextMask"
  by (simp_all add: kContextMask_def)

section \<open>SimpleExecutor keeps the contract\<close>

definition simple_post ::
  "(('f \<Rightarrow> ('f pool, unit) action) \<times> (nat \<Rightarrow> bool) \<times> nat \<times> nat \<times> current) \<Rightarrow> 'f option \<Rightarrow> nat \<Rightarrow>
     ('f pool, bool) action" where
  "simple_post d f i =
     (case d of (call, lk, rand, this, current) \<Rightarrow>
        Simple_Checkin call lk rand this current f (worker_context i) \<lparr>prompt = False\<rparr>)"

definition queued_fns :: "nat \<Rightarrow> 'f pool \<Rightarrow> 'f list" where
  "queued_fns i p = map (\<lambda>item. the (fn item)) (items (queues p ! i))"

lemma push_to_fields:
  assumes "pool_wf p" and "i < thread_num p"
  shows "queued_fns i (push_to i item p) = queued_fns i p @ [the (fn item)]"
    and "j \<noteq> i \<Longrightarrow> queued_fns j (push_to i item p) = queued_fns j p"
    and "thread_num (push_to i item p) = thread_num p"
    and "stop_flag (push_to i item p) = stop_flag p"
  using assms by (simp_all add: queued_fns_def push_to_def wq.push_contents pool_wf_def)

interpretation simple: context_executor pool_wf pool_fns "\<lambda>(lk, rand). Simple_Schedule lk rand"
  "\<lambda>p i. i < thread_num p" queued_fns simple_post
proof unfold_locales
  fix p p' :: "'f pool" and c :: "(nat \<Rightarrow> bool) \<times> nat" and f
  assume wf: "pool_wf p"
  obtain lk rand where c: "c = (lk, rand)" by (cases c)
  show "pool_wf p' \<and> f \<noteq> None \<and> pool_fns p' = add_mset (the f) (pool_fns p)"
    if "(case c of (lk, rand) \<Rightarrow> Simple_Schedule lk rand) f p = (Return True, p')"
  proof -
    have "Pool_ScheduleById lk rand f (- 1) p = (Return kErrorNone, p')"
      using that c by (auto simp: Simple_Schedule_def run_method elim!: bind_Return)
    from schedule_accepts [OF wf this] push_to_spec [OF wf] show ?thesis
      by (auto simp: callable_def)
  qed
  show "p' = p" if "(case c of (lk, rand) \<Rightarrow> Simple_Schedule lk rand) f p = (Return False, p')"
  proof -
    from that c obtain e where
      "Pool_ScheduleById lk rand f (- 1) p = (Return e, p')" "e \<noteq> kErrorNone"
      by (auto simp: Simple_Schedule_def run_method elim!: bind_Return)
    with schedule_refuses [of lk rand f "- 1" p] show ?thesis by simp
  qed
next
  fix p p' :: "'f pool" and i :: nat and f
    and d :: "('f \<Rightarrow> ('f pool, unit) action) \<times> (nat \<Rightarrow> bool) \<times> nat \<times> nat \<times> current"
  assume wf: "pool_wf p" and i: "i < thread_num p"
  obtain call lk rand this cur where d: "d = (call, lk, rand, this, cur)" by (cases d)
  note run = Simple_Checkin_worker [OF wf i, of call lk rand this cur f "\<lparr>prompt = False\<rparr>"]
  show "pool_wf p' \<and> (\<lambda>i. i < thread_num p') = (\<lambda>i. i < thread_num p) \<and> f \<noteq> None \<and>
      pool_fns p' = add_mset (the f) (pool_fns p) \<and> queued_fns i p' = queued_fns i p @ [the f] \<and>
      (\<forall>y. y < thread_num p \<and> y \<noteq> i \<longrightarrow> queued_fns y p' = queued_fns y p)"
    if "simple_post d f i p = (Return True, p')"
  proof -
    have "f \<noteq> None" "p' = push_to i \<lparr>can_steal = False, fn = f\<rparr> p"
      using that d run by (auto simp: simple_post_def split: if_splits)
    with push_to_spec [OF wf i, of "\<lparr>can_steal = False, fn = f\<rparr>"] push_to_fields [OF wf i]
    show ?thesis by (simp add: callable_def)
  qed
  show "p' = p" if "simple_post d f i p = (Return False, p')"
    using that d run by (auto simp: simple_post_def split: if_splits)
qed

section \<open>Properties\<close>

text \<open>
  Claim C11. \<open>Checkin\<close> brings a function back to the thread that called \<open>Checkout\<close>: the context of a
  worker is never the null context and differs between workers; with it, the function runs at once
  exactly when the caller is on that worker and asked for prompt execution, and otherwise
  it is queued, once and not stealable, on that worker, or refused when the pool stops.
\<close>

theorem checkin_returns_home:
  assumes "pool_wf p" and "i < thread_num p" and "ctx = Simple_Checkout this (Pool_worker_current this i)"
  shows "ctx \<noteq> kNullContext \<and>
    (\<forall>j. j < thread_num p \<and> ctx = Simple_Checkout this (Pool_worker_current this j) \<longrightarrow> j = i) \<and>
    Simple_Checkin call lk rand this current (Some f) ctx options p =
      (if Pool_GetCurrentId this current = of_nat i \<and> prompt options
       then bind (call f) (\<lambda>_. ret True) p
       else if stop_flag p then (Return False, p)
       else (Return True, push_to i \<lparr>can_steal = False, fn = Some f\<rparr> p))"
proof (intro conjI allI impI)
  have i: "i < 2 ^ 30" using assms by (blast intro: worker_below)
  note ctx = assms(3) [unfolded Simple_Checkout_worker]
  show "ctx \<noteq> kNullContext" by (simp add: ctx worker_context_not_null)
  show "j = i" if "j < thread_num p \<and> ctx = Simple_Checkout this (Pool_worker_current this j)" for j
    using that worker_below [OF assms(1), of j] worker_context_inject [OF _ i]
    by (simp add: ctx Simple_Checkout_worker)
  show "Simple_Checkin call lk rand this current (Some f) ctx options p =
      (if Pool_GetCurrentId this current = of_nat i \<and> prompt options
       then bind (call f) (\<lambda>_. ret True) p
       else if stop_flag p then (Return False, p)
       else (Return True, push_to i \<lparr>can_steal = False, fn = Some f\<rparr> p))"
    using Simple_Checkin_worker [OF assms(1,2), of call lk rand this current "Some f" options]
    by (simp add: ctx call_function_def seq_def)
qed

theorem checkin_returns_home_witness:
  "Simple_Checkout 7 (Pool_worker_current 7 1) \<noteq> kNullContext \<and>
   Simple_Checkin (\<lambda>_. ret ()) (\<lambda>_. True) 0 7 Pool_current_init (Some 5)
     (Simple_Checkout 7 (Pool_worker_current 7 1)) ScheduleOptions_default demo_pool =
     (Return True, push_to 1 \<lparr>can_steal = False, fn = Some 5\<rparr> demo_pool)"
proof -
  have "1 < thread_num demo_pool" "\<not> stop_flag demo_pool"
    by (simp_all add: demo_pool_def push_to_def Pool_ctor_def Let_def)
  moreover have "Pool_GetCurrentId 7 Pool_current_init \<noteq> of_nat 1"
    by (simp add: Pool_GetCurrentId_def Pool_current_init_def)
  ultimately show ?thesis
    using checkin_returns_home [OF demo_pool_wf _ refl, where i = 1 and this = 7
        and call = "\<lambda>_. ret ()" and lk = "\<lambda>_. True" and rand = 0
        and current = Pool_current_init and f = 5 and options = ScheduleOptions_default]
    by simp
qed

text \<open>
  Functions checked in with one worker's context, without prompt execution, stay in
  order: that worker's queue grows by exactly the accepted ones, in the order of the calls, and
  no other worker's queue changes.
\<close>

lemma checkin_keeps_order:
  assumes "pool_wf p" and "i < thread_num p"
    and "schedule_all (\<lambda>d f. simple_post d f i) xs p = (Return bs, p')"
  shows "queued_fns i p' = queued_fns i p @ accepted_of xs bs \<and>
         (\<forall>j. j < thread_num p \<and> j \<noteq> i \<longrightarrow> queued_fns j p' = queued_fns j p)"
  using simple.post_all_order [OF assms] by blast

text \<open>
  A context checked out on a thread that is no worker of the pool cannot be checked in:
  unless the pool is stopping (or the function is empty), \<open>Checkin\<close> stops the process on the
  assertion in \<open>ScheduleById\<close>, although the same function could be scheduled without a context.
\<close>

lemma off_pool_context_aborts:
  assumes "pool_wf p" and "\<not> stop_flag p" and "Pool_GetCurrentId this current = - 1"
  shows "Simple_Checkin call lk rand this current (Some f) (Simple_Checkout this current) options p =
           (Abort, p)"
proof -
  have "thread_num p \<le> 1073741824" using assms(1) by (simp add: pool_wf_def)
  moreover have "1073741824 < unat (scast (0xBFFFFFFF :: 32 word) :: 64 word)" by simp
  ultimately have "\<not> id_below 0xBFFFFFFF (thread_num p)" unfolding id_below_def by linarith
  moreover have "(0xBFFFFFFF :: 32 word) \<noteq> - 1" by simp
  ultimately have "Pool_ScheduleById lk rand (Some f) 0xBFFFFFFF p = (Abort, p)"
    using assms(2) by (simp add: Pool_ScheduleById_def)
  then show ?thesis
    unfolding Simple_Checkin_def Simple_prompt_now_def Simple_Checkout_def assms(3) off_pool_context off_pool_id
    by (simp add: off_pool_id run_bind)
qed

end
