(* ===== verification/Count_Event.thy ===== *)
theory Count_Event
  imports Async_Prelude
begin

text \<open>
  \<^verbatim>\<open>include/async_simple/coro/count_event.hpp\<close>: the counter with which \<open>CollectAll\<close> resumes the
  awaiting coroutine after its last input. The count is a \<open>std::size_t\<close> and \<open>fetch_sub\<close> wraps. A
  coroutine handle is an opaque \<open>'h\<close>, null is \<open>None\<close>. \<open>Down\<close> is one atomic \<open>fetch_sub\<close>, followed for
  the one caller that saw 1 by an \<open>exchange\<close> that only it performs, so it is one step of the
  interleaving.
\<close>

section \<open>The event\<close>

record 'h count_event =
  count :: "64 word"
  awaiting_coroutine :: "'h option"

definition CountEvent_ctor :: "64 word \<Rightarrow> 'h count_event" where
  "CountEvent_ctor n = \<lparr>count = n + 1, awaiting_coroutine = None\<rparr>"

text \<open>The new event and what is left of the moved-from one.\<close>

definition CountEvent_move_ctor :: "'h count_event \<Rightarrow> 'h count_event \<times> 'h count_event" where
  "CountEvent_move_ctor other =
     (\<lparr>count = count other, awaiting_coroutine = awaiting_coroutine other\<rparr>,
      \<lparr>count = 0, awaiting_coroutine = None\<rparr>)"

definition SetAwaitingCoroutine :: "'h option \<Rightarrow> 'h count_event \<Rightarrow> 'h count_event" where
  "SetAwaitingCoroutine h ev = ev\<lparr>awaiting_coroutine := h\<rparr>"

definition Down :: "64 word \<Rightarrow> 'h count_event \<Rightarrow> 'h option \<times> 'h count_event" where
  "Down n ev =
     (let old_count = count ev;
          ev' = ev\<lparr>count := old_count - n\<rparr>
      in if old_count = 1 then (awaiting_coroutine ev', ev'\<lparr>awaiting_coroutine := None\<rparr>)
         else (None, ev'))"

definition DownCount :: "64 word \<Rightarrow> 'h count_event \<Rightarrow> 64 word \<times> 'h count_event" where
  "DownCount n ev = (count ev, ev\<lparr>count := count ev - n\<rparr>)"

lemmas count_event_defs =
  CountEvent_ctor_def CountEvent_move_ctor_def SetAwaitingCoroutine_def Down_def DownCount_def

section \<open>Lemmas\<close>

text \<open>The abstract count: how many \<open>Down\<close> calls are still to come.\<close>

definition event_holds :: "nat \<Rightarrow> 'h option \<Rightarrow> 'h count_event \<Rightarrow> bool" where
  "event_holds k h ev \<longleftrightarrow> k < 2 ^ 64 \<and> ev = \<lparr>count = of_nat k, awaiting_coroutine = h\<rparr>"

lemma of_nat_64_eq_1: "k < 2 ^ 64 \<Longrightarrow> (of_nat k :: 64 word) = 1 \<longleftrightarrow> k = 1"
  using of_nat_inverse [of k "1 :: 64 word"] by auto

lemma event_holds_ctor: "unat n + 1 < 2 ^ 64 \<Longrightarrow> event_holds (Suc (unat n)) None (CountEvent_ctor n)"
  by (simp add: event_holds_def CountEvent_ctor_def)

lemma event_holds_set:
  "event_holds k h ev \<Longrightarrow> event_holds k h' (SetAwaitingCoroutine h' ev)"
  by (auto simp: event_holds_def SetAwaitingCoroutine_def)

lemma event_holds_down:
  assumes "event_holds (Suc k) h ev"
  shows "fst (Down 1 ev) = (if k = 0 then h else None)"
    and "event_holds k (if k = 0 then None else h) (snd (Down 1 ev))"
  using assms of_nat_64_eq_1 [of "Suc k"] by (auto simp: event_holds_def Down_def Let_def)

lemma event_holds_down_count:
  assumes "event_holds (Suc k) h ev"
  shows "fst (DownCount 1 ev) = of_nat (Suc k)" and "event_holds k h (snd (DownCount 1 ev))"
  using assms by (auto simp: event_holds_def DownCount_def)

text \<open>Several threads that call \<open>Down\<close>, in the order of their \<open>fetch_sub\<close>s.\<close>

primrec downs :: "nat \<Rightarrow> 'h count_event \<Rightarrow> 'h option list \<times> 'h count_event" where
  "downs 0 ev = ([], ev)"
| "downs (Suc m) ev =
     (case Down 1 ev of (r, ev') \<Rightarrow> case downs m ev' of (rs, ev'') \<Rightarrow> (r # rs, ev''))"

lemma downs_results:
  assumes "event_holds k h ev" and "m \<le> k"
  shows "fst (downs m ev) = map (\<lambda>j. if Suc j = k then h else None) [0..<m]"
  using assms
proof (induction m arbitrary: k h ev)
  case 0
  then show ?case by simp
next
  case (Suc m)
  then obtain k' where k: "k = Suc k'" by (cases k) auto
  obtain r ev' where down: "Down 1 ev = (r, ev')" by (cases "Down 1 ev")
  have r: "r = (if k' = 0 then h else None)" and ev': "event_holds k' (if k' = 0 then None else h) ev'"
    using event_holds_down [of k' h ev] Suc.prems k down by simp_all
  have "fst (downs m ev') = map (\<lambda>j. if Suc j = k' then (if k' = 0 then None else h) else None) [0..<m]"
    using Suc.IH [OF ev'] Suc.prems(2) k by simp
  moreover have "[0..<Suc m] = 0 # map Suc [0..<m]"
    by (simp add: upt_conv_Cons map_Suc_upt del: upt_Suc)
  ultimately show ?case
    using r k down by (auto simp: split_def simp del: upt_Suc)
qed

section \<open>Properties\<close>

text \<open>
  The awaiting coroutine is handed out exactly once, to the last: of the \<open>n + 1\<close> calls of
  \<open>Down\<close> that an event for \<open>n\<close> inputs expects, in whatever order threads make them, the last one
  returns the handle that was set and every other returns null.
\<close>

lemma last_down_resumes:
  assumes "unat n + 1 < 2 ^ 64" and "m \<le> unat n + 1"
  shows "fst (downs m (SetAwaitingCoroutine (Some h) (CountEvent_ctor n))) =
           map (\<lambda>j. if j = unat n then Some h else None) [0..<m]"
proof -
  have "event_holds (Suc (unat n)) (Some h) (SetAwaitingCoroutine (Some h) (CountEvent_ctor n))"
    using event_holds_ctor [OF assms(1)] by (rule event_holds_set)
  from downs_results [OF this, of m] assms(2) show ?thesis by simp
qed

text \<open>
  Only single steps keep that promise: \<open>Down(k)\<close> for \<open>k > 1\<close> tests for a previous count of
  1 and not of \<open>k\<close>, so the call that takes all of the rest at once (\<open>Down(2)\<close> at 2) returns null and
  leaves the handle behind, and the next single step returns null as well.
\<close>

lemma down_many_loses_handle:
  assumes "k = count ev" and "1 < k"
  shows "fst (Down k ev) = None \<and> count (snd (Down k ev)) = 0 \<and>
         awaiting_coroutine (snd (Down k ev)) = awaiting_coroutine ev \<and>
         fst (Down 1 (snd (Down k ev))) = None"
proof -
  have "count ev \<noteq> 1" using assms by auto
  then show ?thesis using assms(1) by (simp add: Down_def Let_def)
qed

end
