(* ===== verification/Collect_All.thy ===== *)
theory Collect_All
  imports Try_Base Count_Event
begin

text \<open>
  \<open>CollectAllAwaiter\<close> of \<^verbatim>\<open>include/async_simple/coro/collect.hpp\<close>: the fork and join of
  \<open>CollectAll\<close> and \<open>CollectAllPara\<close>, as an interleaving of the thread that runs \<open>await_suspend\<close> and
  of the threads on which the inputs finish. An input is a started coroutine that will call its
  callback once, at any time (also before \<open>Start\<close> returns), with the \<open>Try\<close> that \<open>res i\<close> stands for.
  \<open>resumes\<close> records each \<open>resume\<close> of the awaiting coroutine with the outputs it finds then.
\<close>

section \<open>The awaiter\<close>

datatype input_state =
    NotStarted
  | Scheduled \<comment> \<open>handed to the executor, which accepted it\<close>
  | Refused \<comment> \<open>handed to the executor, whose \<open>Schedule\<close> returned false\<close>
  | Started
  | Stored \<comment> \<open>its callback has written the output\<close>
  | Finished

datatype await_phase = InLoop nat | HandleSet | Suspended

record ('v, 'h) collect_all =
  event :: "'h count_event"
  outputs :: "'v try_val list"
  inputs :: "input_state list"
  phase :: await_phase
  resumes :: "('h \<times> 'v try_val list) list"

definition CollectAll_ctor :: "nat \<Rightarrow> ('v, 'h) collect_all" where
  "CollectAll_ctor n =
     \<lparr>event = CountEvent_ctor (of_nat n), outputs = replicate n Nothing,
      inputs = replicate n NotStarted, phase = InLoop 0, resumes = []\<rparr>"

definition CollectAll_await_ready :: "('v, 'h) collect_all \<Rightarrow> bool" where
  "CollectAll_await_ready s \<longleftrightarrow> inputs s = []"

text \<open>One turn of the loop; \<open>accepted\<close> is what \<open>Schedule\<close> returned, which the code ignores.\<close>

definition CollectAll_launch ::
  "bool \<Rightarrow> bool \<Rightarrow> bool \<Rightarrow> nat \<Rightarrow> ('v, 'h) collect_all \<Rightarrow> ('v, 'h) collect_all" where
  "CollectAll_launch para has_executor accepted i s =
     s\<lparr>inputs := (inputs s)[i :=
         (if para \<and> 1 < length (inputs s) \<and> has_executor
          then (if accepted then Scheduled else Refused) else Started)],
       phase := InLoop (Suc i)\<rparr>"

definition CollectAll_set_handle :: "'h \<Rightarrow> ('v, 'h) collect_all \<Rightarrow> ('v, 'h) collect_all" where
  "CollectAll_set_handle h s =
     s\<lparr>event := SetAwaitingCoroutine (Some h) (event s), phase := HandleSet\<rparr>"

text \<open>\<open>Down\<close>, and \<open>resume\<close> on the handle if it returned one.\<close>

definition CollectAll_down :: "('v, 'h) collect_all \<Rightarrow> ('v, 'h) collect_all" where
  "CollectAll_down s =
     (case Down 1 (event s) of
        (None, ev) \<Rightarrow> s\<lparr>event := ev\<rparr>
      | (Some h, ev) \<Rightarrow> s\<lparr>event := ev, resumes := resumes s @ [(h, outputs s)]\<rparr>)"

definition CollectAll_store :: "nat \<Rightarrow> 'v try_val \<Rightarrow> ('v, 'h) collect_all \<Rightarrow> ('v, 'h) collect_all" where
  "CollectAll_store i t s = s\<lparr>outputs := (outputs s)[i := t], inputs := (inputs s)[i := Stored]\<rparr>"

inductive collect_all_step ::
  "bool \<Rightarrow> bool \<Rightarrow> 'h \<Rightarrow> (nat \<Rightarrow> 'v try_val) \<Rightarrow> ('v, 'h) collect_all \<Rightarrow> ('v, 'h) collect_all \<Rightarrow> bool"
  for para has_executor h res where
  launch: "phase s = InLoop i \<Longrightarrow> i < length (inputs s) \<Longrightarrow>
     collect_all_step para has_executor h res s (CollectAll_launch para has_executor accepted i s)"
| set_handle: "phase s = InLoop (length (inputs s)) \<Longrightarrow>
     collect_all_step para has_executor h res s (CollectAll_set_handle h s)"
| own_down: "phase s = HandleSet \<Longrightarrow>
     collect_all_step para has_executor h res s (CollectAll_down (s\<lparr>phase := Suspended\<rparr>))"
| begin_input: "i < length (inputs s) \<Longrightarrow> inputs s ! i = Scheduled \<Longrightarrow>
     collect_all_step para has_executor h res s (s\<lparr>inputs := (inputs s)[i := Started]\<rparr>)"
| store: "i < length (inputs s) \<Longrightarrow> inputs s ! i = Started \<Longrightarrow>
     collect_all_step para has_executor h res s (CollectAll_store i (res i) s)"
| input_down: "i < length (inputs s) \<Longrightarrow> inputs s ! i = Stored \<Longrightarrow>
     collect_all_step para has_executor h res s
       (CollectAll_down (s\<lparr>inputs := (inputs s)[i := Finished]\<rparr>))"

inductive collect_all_reachable ::
  "bool \<Rightarrow> bool \<Rightarrow> 'h \<Rightarrow> (nat \<Rightarrow> 'v try_val) \<Rightarrow> nat \<Rightarrow> ('v, 'h) collect_all \<Rightarrow> bool"
  for para has_executor h res n where
  collect_start: "0 < n \<Longrightarrow> n + 1 < 2 ^ 64 \<Longrightarrow>
     collect_all_reachable para has_executor h res n (CollectAll_ctor n)"
| collect_next: "collect_all_reachable para has_executor h res n s \<Longrightarrow>
     collect_all_step para has_executor h res s t \<Longrightarrow>
     collect_all_reachable para has_executor h res n t"

section \<open>The invariant\<close>

fun cost :: "input_state \<Rightarrow> nat" where
  "cost Finished = 0"
| "cost _ = 1"

text \<open>The \<open>Down\<close> calls still to come: one per input, and one of \<open>await_suspend\<close> itself.\<close>

definition remaining :: "('v, 'h) collect_all \<Rightarrow> nat" where
  "remaining s = sum_list (map cost (inputs s)) + (if phase s = Suspended then 0 else 1)"

definition collect_ok :: "'h \<Rightarrow> (nat \<Rightarrow> 'v try_val) \<Rightarrow> nat \<Rightarrow> ('v, 'h) collect_all \<Rightarrow> bool" where
  "collect_ok h res n s \<longleftrightarrow>
     length (inputs s) = n \<and> length (outputs s) = n \<and>
     event_holds (remaining s)
       (if (\<exists>i. phase s = InLoop i) \<or> remaining s = 0 then None else Some h) (event s) \<and>
     (\<forall>i < n. outputs s ! i =
        (if inputs s ! i = Stored \<or> inputs s ! i = Finished then res i else Nothing)) \<and>
     resumes s = (if remaining s = 0 then [(h, map res [0..<n])] else []) \<and>
     (case phase s of InLoop k \<Rightarrow> k \<le> n \<and> (\<forall>i < n. (inputs s ! i = NotStarted) = (k \<le> i))
      | _ \<Rightarrow> \<forall>i < n. inputs s ! i \<noteq> NotStarted)"

lemma sum_cost_update:
  assumes "i < length xs"
  shows "sum_list (map cost (xs[i := y])) + cost (xs ! i) = sum_list (map cost xs) + cost y"
  using assms by (rule sum_list_map_update)

lemma sum_cost_zero: "sum_list (map cost xs) = 0 \<longleftrightarrow> (\<forall>x \<in> set xs. x = Finished)"
proof -
  have "cost x = 0 \<longleftrightarrow> x = Finished" for x by (cases x) simp_all
  then show ?thesis by simp
qed

lemma sum_cost_le: "sum_list (map cost xs) \<le> length xs"
proof (induction xs)
  case (Cons x xs)
  then show ?case by (cases x) simp_all
qed simp

text \<open>A \<open>Down\<close> of the awaiter when \<open>k\<close> more calls follow.\<close>

lemma down_fields:
  assumes "event_holds (Suc k) h (event s)"
  shows "event_holds k (if k = 0 then None else h) (event (CollectAll_down s))"
    and "resumes (CollectAll_down s) =
           (if k = 0 then resumes s @ (case h of None \<Rightarrow> [] | Some x \<Rightarrow> [(x, outputs s)]) else resumes s)"
    and "outputs (CollectAll_down s) = outputs s" "inputs (CollectAll_down s) = inputs s"
      "phase (CollectAll_down s) = phase s"
  using event_holds_down [OF assms]
  by (cases "k = 0"; cases h; auto simp: CollectAll_down_def split: prod.splits option.splits)+

lemma collect_ok_ctor:
  fixes h :: 'h and res :: "nat \<Rightarrow> 'v try_val"
  assumes "0 < n" and "n + 1 < 2 ^ 64"
  shows "collect_ok h res n (CollectAll_ctor n)"
proof -
  have "unat (of_nat n :: 64 word) = n" using assms(2) by (simp add: unsigned_of_nat take_bit_nat_eq_self)
  then have "event_holds (Suc n) (None :: 'h option) (CountEvent_ctor (of_nat n))"
    using event_holds_ctor [of "of_nat n"] assms(2) by simp
  moreover have "remaining (CollectAll_ctor n :: ('v, 'h) collect_all) = Suc n"
    by (simp add: remaining_def CollectAll_ctor_def map_replicate_const sum_list_replicate)
  ultimately show ?thesis by (simp add: collect_ok_def CollectAll_ctor_def)
qed

lemma collect_ok_launch:
  assumes ok: "collect_ok h res n s" and ph: "phase s = InLoop i" and i: "i < length (inputs s)"
  shows "collect_ok h res n (CollectAll_launch para ex acc i s)"
proof -
  let ?t = "CollectAll_launch para ex acc i s"
  have st: "inputs s ! i = NotStarted" using ok ph i by (simp add: collect_ok_def)
  have "remaining ?t = remaining s"
    using sum_cost_update [OF i, of "inputs ?t ! i"] st i ph
    by (auto simp: CollectAll_launch_def remaining_def)
  with ok ph i st show ?thesis
    by (auto simp: collect_ok_def CollectAll_launch_def nth_list_update)
qed

lemma collect_ok_set_handle:
  assumes ok: "collect_ok h res n s" and ph: "phase s = InLoop (length (inputs s))"
  shows "collect_ok h res n (CollectAll_set_handle h s)"
proof -
  have "remaining (CollectAll_set_handle h s) = remaining s" "0 < remaining s"
    using ph by (simp_all add: CollectAll_set_handle_def remaining_def)
  with ok ph show ?thesis
    by (auto simp: collect_ok_def CollectAll_set_handle_def intro: event_holds_set)
qed

text \<open>When nothing remains, every input is finished and so every output is its result.\<close>

lemma collect_ok_outputs:
  assumes "collect_ok h res n s" and "sum_list (map cost (inputs s)) = 0"
  shows "outputs s = map res [0..<n]"
proof (rule nth_equalityI)
  show "length (outputs s) = length (map res [0..<n])" using assms by (simp add: collect_ok_def)
  fix i assume "i < length (outputs s)"
  then have "i < n" "i < length (inputs s)" using assms(1) by (simp_all add: collect_ok_def)
  moreover from this have "inputs s ! i = Finished"
    using assms(2) unfolding sum_cost_zero by simp
  ultimately show "outputs s ! i = map res [0..<n] ! i"
    using assms(1) by (simp add: collect_ok_def)
qed

lemma collect_ok_own_down:
  assumes ok: "collect_ok h res n s" and ph: "phase s = HandleSet"
  shows "collect_ok h res n (CollectAll_down (s\<lparr>phase := Suspended\<rparr>))"
proof -
  let ?k = "sum_list (map cost (inputs s))"
  have rem: "remaining s = Suc ?k" using ph by (simp add: remaining_def)
  with ok ph have ev: "event_holds (Suc ?k) (Some h) (event (s\<lparr>phase := Suspended\<rparr>))"
    by (simp add: collect_ok_def)
  note d = down_fields [OF ev]
  have "remaining (CollectAll_down (s\<lparr>phase := Suspended\<rparr>)) = ?k" by (simp add: remaining_def d)
  then show ?thesis
    using ok ph rem d collect_ok_outputs [OF ok] by (simp add: collect_ok_def)
qed

lemma collect_ok_input_down:
  assumes ok: "collect_ok h res n s" and i: "i < length (inputs s)" and st: "inputs s ! i = Stored"
  shows "collect_ok h res n (CollectAll_down (s\<lparr>inputs := (inputs s)[i := Finished]\<rparr>))"
proof -
  let ?s = "s\<lparr>inputs := (inputs s)[i := Finished]\<rparr>"
  have rem: "remaining s = Suc (remaining ?s)"
    using sum_cost_update [OF i, of Finished] st by (simp add: remaining_def)
  have loop: "\<exists>i. phase s = InLoop i \<Longrightarrow> 0 < remaining ?s" by (auto simp: remaining_def)
  from ok rem have ev: "event_holds (Suc (remaining ?s))
      (if \<exists>i. phase s = InLoop i then None else Some h) (event ?s)"
    by (simp add: collect_ok_def)
  note d = down_fields [OF ev]
  have rem': "remaining (CollectAll_down ?s) = remaining ?s" by (simp add: remaining_def d)
  have out: "outputs s = map res [0..<n]" if "remaining ?s = 0"
  proof -
    have all: "\<forall>x \<in> set ((inputs s)[i := Finished]). x = Finished"
      using that sum_cost_zero [of "(inputs s)[i := Finished]"] by (simp add: remaining_def)
    have "inputs s ! j = Stored \<or> inputs s ! j = Finished" if "j < n" for j
    proof (cases "j = i")
      case False
      then have "(inputs s)[i := Finished] ! j = inputs s ! j" by simp
      moreover have "j < length ((inputs s)[i := Finished])"
        using ok that by (simp add: collect_ok_def)
      ultimately show ?thesis using all nth_mem by metis
    qed (simp add: st)
    with ok show ?thesis
      by (intro nth_equalityI) (auto simp: collect_ok_def)
  qed
  show ?thesis
  proof (cases "phase s")
    case (InLoop k)
    then show ?thesis
      using ok i st rem loop out d(1)
      by (auto simp: collect_ok_def d(2-) rem' nth_list_update)
  next
    case HandleSet
    then have "0 < remaining ?s" by (simp add: remaining_def)
    with HandleSet show ?thesis
      using ok i st rem out d(1)
      by (auto simp: collect_ok_def d(2-) rem' nth_list_update)
  next
    case Suspended
    then show ?thesis
      using ok i st rem out d(1)
      by (cases "remaining ?s = 0") (auto simp: collect_ok_def d(2-) rem' nth_list_update)
  qed
qed

lemma collect_ok_step: "collect_all_step para ex h res s t \<Longrightarrow> collect_ok h res n s \<Longrightarrow> collect_ok h res n t"
proof (induction rule: collect_all_step.induct)
  case (begin_input i s)
  have "remaining (s\<lparr>inputs := (inputs s)[i := Started]\<rparr>) = remaining s"
    using sum_cost_update [of i "inputs s" Started] begin_input by (simp add: remaining_def)
  with begin_input show ?case
    by (auto simp: collect_ok_def nth_list_update split: await_phase.splits)
next
  case (store i s)
  have "remaining (CollectAll_store i (res i) s) = remaining s"
    using sum_cost_update [of i "inputs s" Stored] store
    by (simp add: remaining_def CollectAll_store_def)
  with store show ?case
    by (auto simp: collect_ok_def CollectAll_store_def nth_list_update split: await_phase.splits)
qed (blast intro: collect_ok_launch collect_ok_set_handle collect_ok_own_down collect_ok_input_down)+

lemma collect_reachable_ok: "collect_all_reachable para ex h res n s \<Longrightarrow> collect_ok h res n s"
  by (induction rule: collect_all_reachable.induct) (blast intro: collect_ok_ctor collect_ok_step)+

section \<open>Termination\<close>

fun weight :: "input_state \<Rightarrow> nat" where
  "weight NotStarted = 4"
| "weight Scheduled = 3"
| "weight Started = 2"
| "weight Stored = 1"
| "weight _ = 0"

fun phase_weight :: "await_phase \<Rightarrow> nat" where
  "phase_weight (InLoop i) = 2"
| "phase_weight HandleSet = 1"
| "phase_weight Suspended = 0"

definition collect_measure :: "('v, 'h) collect_all \<Rightarrow> nat" where
  "collect_measure s = sum_list (map weight (inputs s)) + phase_weight (phase s)"

lemma down_frame [simp]:
  "inputs (CollectAll_down s) = inputs s" "phase (CollectAll_down s) = phase s"
  by (simp_all add: CollectAll_down_def split: prod.splits option.splits)

lemma collect_step_measure:
  assumes "collect_all_step para ex h res s t" and "collect_ok h res n s"
  shows "collect_measure t < collect_measure s"
  using assms
proof (induction rule: collect_all_step.induct)
  case (launch s i acc)
  then have "inputs s ! i = NotStarted" by (simp add: collect_ok_def)
  with launch show ?case
    using sum_list_map_update [of i "inputs s" weight Started]
      sum_list_map_update [of i "inputs s" weight Scheduled]
      sum_list_map_update [of i "inputs s" weight Refused]
    by (simp add: collect_measure_def CollectAll_launch_def)
next
  case (begin_input i s)
  then show ?case
    using sum_list_map_update [of i "inputs s" weight Started] by (simp add: collect_measure_def)
next
  case (store i s)
  then show ?case
    using sum_list_map_update [of i "inputs s" weight Stored]
    by (simp add: collect_measure_def CollectAll_store_def)
next
  case (input_down i s)
  then show ?case
    using sum_list_map_update [of i "inputs s" weight Finished] by (simp add: collect_measure_def)
qed (simp_all add: collect_measure_def CollectAll_set_handle_def)

inductive_cases collect_all_stepE: "collect_all_step para ex h res s t"

lemma collect_resumed_stuck:
  assumes "collect_ok h res n s" and "resumes s \<noteq> []"
  shows "resumes s = [(h, map res [0..<n])] \<and> \<not> collect_all_step para ex h res s t"
proof -
  have rem: "remaining s = 0" using assms by (auto simp: collect_ok_def split: if_splits)
  then have ph: "phase s = Suspended" and fin: "\<forall>x \<in> set (inputs s). x = Finished"
    using sum_cost_zero [of "inputs s"] by (simp_all add: remaining_def split: if_splits)
  have "inputs s ! i = Finished" if "i < length (inputs s)" for i using fin that by simp
  then have "\<not> collect_all_step para ex h res s t"
    using ph by (auto elim!: collect_all_stepE)
  with assms rem show ?thesis by (simp add: collect_ok_def)
qed

text \<open>The stuck states: everything that was accepted has finished.\<close>

lemma collect_stuck:
  assumes ok: "collect_ok h res n s" and stuck: "\<not> (\<exists>t. collect_all_step para ex h res s t)"
    and acc: "Refused \<notin> set (inputs s)"
  shows "resumes s = [(h, map res [0..<n])]"
proof -
  have ph: "phase s = Suspended"
  proof (cases "phase s")
    case (InLoop k)
    with ok have "k < length (inputs s) \<or> k = length (inputs s)" by (auto simp: collect_ok_def)
    with stuck InLoop show ?thesis
      using collect_all_step.launch [of s k para ex h res] collect_all_step.set_handle [of s para ex h res]
      by blast
  next
    case HandleSet
    with stuck show ?thesis using collect_all_step.own_down [of s para ex h res] by blast
  qed simp
  have "inputs s ! i = Finished" if i: "i < length (inputs s)" for i
  proof (cases "inputs s ! i")
    case NotStarted
    with ok ph i show ?thesis by (simp add: collect_ok_def)
  next
    case Refused
    with acc i show ?thesis by (metis nth_mem)
  next
    case Scheduled
    with stuck i show ?thesis using collect_all_step.begin_input [of i s para ex h res] by blast
  next
    case Started
    with stuck i show ?thesis using collect_all_step.store [of i s para ex h res] by blast
  next
    case Stored
    with stuck i show ?thesis using collect_all_step.input_down [of i s para ex h res] by blast
  qed simp
  then have "sum_list (map cost (inputs s)) = 0"
    unfolding sum_cost_zero by (metis in_set_conv_nth)
  with ph have "remaining s = 0" by (simp add: remaining_def)
  with ok show ?thesis by (simp add: collect_ok_def)
qed

lemma refused_stuck:
  assumes "phase s = Suspended" and "inputs s = [Refused, Refused]"
  shows "\<not> collect_all_step para ex h res s t"
  using assms by (auto simp: less_Suc_eq nth_Cons' elim!: collect_all_stepE)

text \<open>A run of two inputs with no executor, in which everything finishes in turn.\<close>

definition demo_collect :: "(nat, string) collect_all" where
  "demo_collect =
     \<lparr>event = \<lparr>count = 0, awaiting_coroutine = None\<rparr>, outputs = [Value 5, Exception None],
      inputs = [Finished, Finished], phase = Suspended,
      resumes = [(''co'', [Value 5, Exception None])]\<rparr>"

definition demo_res :: "nat \<Rightarrow> nat try_val" where
  "demo_res i = (if i = 0 then Value 5 else Exception None)"

lemmas collect_run_simps =
  CollectAll_ctor_def CollectAll_launch_def CollectAll_set_handle_def CollectAll_down_def
  CollectAll_store_def count_event_defs numeral_2_eq_2 demo_res_def

lemma demo_collect_reachable: "collect_all_reachable False True ''co'' demo_res 2 demo_collect"
proof -
  let ?R = "collect_all_reachable False True ''co'' demo_res 2"
  let ?s0 = "CollectAll_ctor 2 :: (nat, string) collect_all"
  let ?s1 = "CollectAll_launch False True True 0 ?s0"
  let ?s2 = "CollectAll_store 0 (demo_res 0) ?s1"
  let ?s3 = "CollectAll_down (?s2\<lparr>inputs := (inputs ?s2)[0 := Finished]\<rparr>)"
  let ?s4 = "CollectAll_launch False True True 1 ?s3"
  let ?s5 = "CollectAll_set_handle ''co'' ?s4"
  let ?s6 = "CollectAll_store 1 (demo_res 1) ?s5"
  let ?s7 = "CollectAll_down (?s6\<lparr>inputs := (inputs ?s6)[1 := Finished]\<rparr>)"
  let ?s8 = "CollectAll_down (?s7\<lparr>phase := Suspended\<rparr>)"
  have "?R ?s0" by (rule collect_start) simp_all
  then have "?R ?s1" by (rule collect_next) (rule collect_all_step.launch; simp add: collect_run_simps)
  then have "?R ?s2" by (rule collect_next) (rule collect_all_step.store; simp add: collect_run_simps)
  then have "?R ?s3" by (rule collect_next) (rule collect_all_step.input_down; simp add: collect_run_simps)
  then have "?R ?s4" by (rule collect_next) (rule collect_all_step.launch; simp add: collect_run_simps)
  then have "?R ?s5" by (rule collect_next) (rule collect_all_step.set_handle; simp add: collect_run_simps)
  then have "?R ?s6" by (rule collect_next) (rule collect_all_step.store; simp add: collect_run_simps)
  then have "?R ?s7" by (rule collect_next) (rule collect_all_step.input_down; simp add: collect_run_simps)
  then have "?R ?s8" by (rule collect_next) (rule collect_all_step.own_down; simp add: collect_run_simps)
  moreover have "?s8 = demo_collect" by (simp add: demo_collect_def collect_run_simps)
  ultimately show ?thesis by simp
qed

section \<open>Properties\<close>

text \<open>
  Claim C12. \<open>CollectAll\<close> resumes the awaiting coroutine at most once, on whatever thread finishes
  last, and then every output is the result of its input, in the order of the inputs, and no
  thread will touch the awaiter any more (the resumed coroutine may destroy it).
\<close>

theorem collect_all_resumes_once:
  assumes "collect_all_reachable para has_executor h res n s" and "resumes s \<noteq> []"
  shows "resumes s = [(h, map res [0..<n])] \<and> (\<forall>t. \<not> collect_all_step para has_executor h res s t)"
  using collect_resumed_stuck [OF collect_reachable_ok [OF assms(1)] assms(2)] by blast

theorem collect_all_resumes_once_witness:
  "resumes demo_collect = [(''co'', [Value 5, Exception None])] \<and>
   \<not> (\<exists>t. collect_all_step False True ''co'' demo_res demo_collect t)"
proof -
  have "resumes demo_collect \<noteq> []" by (simp add: demo_collect_def)
  moreover have "map demo_res [0..<2] = [Value 5, Exception None]"
    by (simp add: demo_res_def upt_rec numeral_2_eq_2)
  ultimately show ?thesis using collect_all_resumes_once [OF demo_collect_reachable] by simp
qed

text \<open>
  \<open>CollectAll\<close> does come to an end: every step decreases a natural number, and a state
  with no further step, in which the executor refused no input, has resumed the coroutine with
  all the results.
\<close>

lemma collect_all_completes:
  assumes "collect_all_reachable para has_executor h res n s"
  shows "(\<forall>t. collect_all_step para has_executor h res s t \<longrightarrow> collect_measure t < collect_measure s) \<and>
    ((\<forall>t. \<not> collect_all_step para has_executor h res s t) \<and> Refused \<notin> set (inputs s) \<longrightarrow>
       resumes s = [(h, map res [0..<n])])"
  using collect_step_measure [OF _ collect_reachable_ok [OF assms]]
    collect_stuck [OF collect_reachable_ok [OF assms]] by blast

text \<open>
  Claim C14. \<open>CollectAllPara\<close> ignores the result of \<open>Schedule\<close>: when the executor refuses the inputs
  (a pool that is stopping), it reaches a state in which nothing can happen any more and the
  awaiting coroutine has not been resumed.
\<close>

theorem collect_all_para_hangs:
  "\<exists>s. collect_all_reachable True True h res 2 s \<and>
     \<not> (\<exists>t. collect_all_step True True h res s t) \<and> resumes s = []"
proof -
  let ?R = "collect_all_reachable True True h res 2"
  let ?s0 = "CollectAll_ctor 2"
  let ?s1 = "CollectAll_launch True True False 0 ?s0"
  let ?s2 = "CollectAll_launch True True False 1 ?s1"
  let ?s3 = "CollectAll_set_handle h ?s2"
  let ?s4 = "CollectAll_down (?s3\<lparr>phase := Suspended\<rparr>)"
  have "?R ?s0" by (rule collect_start) simp_all
  then have "?R ?s1" by (rule collect_next) (rule collect_all_step.launch; simp add: collect_run_simps)
  then have "?R ?s2" by (rule collect_next) (rule collect_all_step.launch; simp add: collect_run_simps)
  then have "?R ?s3" by (rule collect_next) (rule collect_all_step.set_handle; simp add: collect_run_simps)
  then have "?R ?s4" by (rule collect_next) (rule collect_all_step.own_down; simp add: collect_run_simps)
  moreover have fields: "phase ?s4 = Suspended" "inputs ?s4 = [Refused, Refused]" "resumes ?s4 = []"
    by (simp_all add: collect_run_simps)
  moreover have "\<not> collect_all_step True True h res ?s4 t" for t
    using fields(1,2) by (rule refused_stuck)
  ultimately show ?thesis by blast
qed
end
