(* ===== verification/Collect_Any.thy ===== *)
theory Collect_Any
  imports Try_Base Count_Event
begin

text \<open>
  \<open>CollectAnyAwaiter\<close> of \<^verbatim>\<open>include/async_simple/coro/collect.hpp\<close>: the inputs race, the first one
  to count down stores its index and result and resumes the awaiting coroutine. The interleaving
  is modelled as in \<^verbatim>\<open>Collect_All.thy\<close>; the index starts at \<open>static_cast<std::size_t>(-1)\<close>, which is
  also what the loop of \<open>await_suspend\<close> tests. The ghost field \<open>order\<close> lists the inputs in the order
  of their \<open>DownCount\<close>.
\<close>

section \<open>Result objects\<close>

text \<open>
  \<open>CollectAnyResult<T>\<close>: moving from one takes its index away; what is left of the value is what the move
  of a \<open>Try\<close> leaves. In the specialisation for \<open>void\<close>, whose move constructor is implicit, the index is copied.
\<close>

record 'v any_result =
  result_index :: "64 word"
  result_value :: "'v try_val"

definition AnyResult_default :: "'v any_result" where
  "AnyResult_default = \<lparr>result_index = - 1, result_value = Nothing\<rparr>"

definition AnyResult_ctor :: "64 word \<Rightarrow> 'v \<Rightarrow> 'v any_result" where
  "AnyResult_ctor i v = \<lparr>result_index = i, result_value = Value v\<rparr>"

definition AnyResult_move_ctor :: "('v \<Rightarrow> 'v) \<Rightarrow> 'v any_result \<Rightarrow> 'v any_result \<times> 'v any_result" where
  "AnyResult_move_ctor mv other =
     (other, other\<lparr>result_index := - 1, result_value := try_moved mv (result_value other)\<rparr>)"

definition AnyResultVoid_move_ctor :: "'v try_val \<Rightarrow> 'v any_result \<Rightarrow> 'v any_result \<times> 'v any_result" where
  "AnyResultVoid_move_ctor rest other = (other, other\<lparr>result_value := rest\<rparr>)"

text \<open>The value type of the inputs, with what moving leaves of a \<open>T\<close>, or of a \<open>Try<void>\<close>.\<close>

datatype 'v any_type = OfValue "'v \<Rightarrow> 'v" | OfVoid "'v try_val"

fun any_move :: "'v any_type \<Rightarrow> 'v any_result \<Rightarrow> 'v any_result \<times> 'v any_result" where
  "any_move (OfValue mv) r = AnyResult_move_ctor mv r"
| "any_move (OfVoid rest) r = AnyResultVoid_move_ctor rest r"

section \<open>The awaiter\<close>

datatype any_state =
    Waiting
  | Dropped \<comment> \<open>never started: the loop ended first, and its handle went with the local vector, its frame perhaps not\<close>
  | Running
  | First \<comment> \<open>its \<open>DownCount\<close> returned the initial count\<close>
  | Indexed
  | Won
  | Late

datatype any_phase = Looping nat | LoopLeft

record ('v, 'h) collect_any =
  any_event :: "'h count_event"
  index :: "64 word"
  any_value :: "'v try_val"
  any_inputs :: "any_state list"
  any_phase :: any_phase
  any_resumes :: "('h \<times> 64 word \<times> 'v try_val) list"
  any_taken :: "'v any_result option"
  order :: "nat list"

definition CollectAny_start :: "nat \<Rightarrow> ('v, 'h) collect_any" where
  "CollectAny_start n =
     \<lparr>any_event = CountEvent_ctor (of_nat n), index = - 1, any_value = Nothing,
      any_inputs = replicate n Waiting, any_phase = Looping 0, any_resumes = [], any_taken = None, order = []\<rparr>"

text \<open>
  \<open>await_ready\<close>, where \<open>result\<close> is the index of the result if there is one; \<open>await_resume\<close> asserts
  that there is one, which an empty input never gets, and moves it out of the shared object.
\<close>

definition CollectAny_await_ready :: "nat \<Rightarrow> 64 word option \<Rightarrow> bool" where
  "CollectAny_await_ready n result \<longleftrightarrow> n = 0 \<or> (case result of None \<Rightarrow> False | Some i \<Rightarrow> i \<noteq> - 1)"

definition CollectAny_await_resume :: "'v any_type \<Rightarrow> 'v any_result option \<Rightarrow> 'v any_result outcome \<times> 'v any_result option" where
  "CollectAny_await_resume ty result =
     (case result of
        None \<Rightarrow> (Abort, None)
      | Some r \<Rightarrow> (case any_move ty r of (new, rest) \<Rightarrow> (Return new, Some rest)))"

definition CollectAny_launch :: "nat \<Rightarrow> ('v, 'h) collect_any \<Rightarrow> ('v, 'h) collect_any" where
  "CollectAny_launch i s =
     s\<lparr>any_inputs := (any_inputs s)[i := Running], any_phase := Looping (Suc i)\<rparr>"

text \<open>
  The loop ends and the local vector is destroyed with the handles of the inputs that were never started. What becomes of
  their frames is not a matter of this state (\<open>~Lazy\<close> destroys them, \<open>RescheduleLazy\<close> leaves them): see \<^verbatim>\<open>Race_Machine.thy\<close>.
\<close>

definition CollectAny_leave :: "('v, 'h) collect_any \<Rightarrow> ('v, 'h) collect_any" where
  "CollectAny_leave s =
     s\<lparr>any_inputs := map (\<lambda>x. if x = Waiting then Dropped else x) (any_inputs s),
       any_phase := LoopLeft\<rparr>"

text \<open>
  The object that \<open>res\<close> and \<open>result\<close> share. The resumed coroutine moves it out, which takes the index back to \<open>-1\<close> unless
  the value type is \<open>void\<close>: a loop that has not ended by then goes on and starts the other inputs.
\<close>

definition shared_result :: "('v, 'h) collect_any \<Rightarrow> 'v any_result" where
  "shared_result s = \<lparr>result_index = index s, result_value = any_value s\<rparr>"

definition CollectAny_take :: "'v any_type \<Rightarrow> ('v, 'h) collect_any \<Rightarrow> ('v, 'h) collect_any" where
  "CollectAny_take ty s =
     (case CollectAny_await_resume ty (Some (shared_result s)) of
        (Return new, Some rest) \<Rightarrow> s\<lparr>index := result_index rest, any_value := result_value rest, any_taken := Some new\<rparr>
      | _ \<Rightarrow> s)"

text \<open>The callback: \<open>DownCount\<close> and the comparison with \<open>sz + 1\<close>; then the two writes and \<open>resume\<close>.\<close>

definition CollectAny_count :: "nat \<Rightarrow> ('v, 'h) collect_any \<Rightarrow> ('v, 'h) collect_any" where
  "CollectAny_count i s =
     (case DownCount 1 (any_event s) of
        (c, ev) \<Rightarrow>
          s\<lparr>any_event := ev, order := order s @ [i],
            any_inputs := (any_inputs s)[i :=
              (if c = of_nat (length (any_inputs s)) + 1 then First else Late)]\<rparr>)"

definition CollectAny_set_index :: "nat \<Rightarrow> ('v, 'h) collect_any \<Rightarrow> ('v, 'h) collect_any" where
  "CollectAny_set_index i s =
     s\<lparr>index := of_nat i, any_inputs := (any_inputs s)[i := Indexed]\<rparr>"

definition CollectAny_finish ::
  "'h \<Rightarrow> 'v try_val \<Rightarrow> nat \<Rightarrow> ('v, 'h) collect_any \<Rightarrow> ('v, 'h) collect_any" where
  "CollectAny_finish h t i s =
     s\<lparr>any_value := t, any_inputs := (any_inputs s)[i := Won],
       any_resumes := any_resumes s @ [(h, index s, t)]\<rparr>"

inductive collect_any_step ::
  "'v any_type \<Rightarrow> 'h \<Rightarrow> (nat \<Rightarrow> 'v try_val) \<Rightarrow> ('v, 'h) collect_any \<Rightarrow> ('v, 'h) collect_any \<Rightarrow> bool"
  for ty h res where
  launch: "any_phase s = Looping i \<Longrightarrow> i < length (any_inputs s) \<Longrightarrow> index s = - 1 \<Longrightarrow>
     collect_any_step ty h res s (CollectAny_launch i s)"
| leave: "any_phase s = Looping i \<Longrightarrow> \<not> (i < length (any_inputs s) \<and> index s = - 1) \<Longrightarrow>
     collect_any_step ty h res s (CollectAny_leave s)"
| count: "i < length (any_inputs s) \<Longrightarrow> any_inputs s ! i = Running \<Longrightarrow>
     collect_any_step ty h res s (CollectAny_count i s)"
| set_index: "i < length (any_inputs s) \<Longrightarrow> any_inputs s ! i = First \<Longrightarrow>
     collect_any_step ty h res s (CollectAny_set_index i s)"
| finish: "i < length (any_inputs s) \<Longrightarrow> any_inputs s ! i = Indexed \<Longrightarrow>
     collect_any_step ty h res s (CollectAny_finish h (res i) i s)"
| take_result: "any_resumes s \<noteq> [] \<Longrightarrow> any_taken s = None \<Longrightarrow> collect_any_step ty h res s (CollectAny_take ty s)"

inductive collect_any_reachable ::
  "'v any_type \<Rightarrow> 'h \<Rightarrow> (nat \<Rightarrow> 'v try_val) \<Rightarrow> nat \<Rightarrow> ('v, 'h) collect_any \<Rightarrow> bool"
  for ty h res n where
  any_start: "0 < n \<Longrightarrow> n + 1 < 2 ^ 64 \<Longrightarrow> collect_any_reachable ty h res n (CollectAny_start n)"
| any_next: "collect_any_reachable ty h res n s \<Longrightarrow> collect_any_step ty h res s t \<Longrightarrow>
     collect_any_reachable ty h res n t"

inductive_cases collect_any_stepE: "collect_any_step ty h res s t"

section \<open>The invariant\<close>

fun counted :: "any_state \<Rightarrow> bool" where
  "counted First = True"
| "counted Indexed = True"
| "counted Won = True"
| "counted Late = True"
| "counted _ = False"

fun winning :: "any_state \<Rightarrow> bool" where
  "winning Late = False"
| "winning x = counted x"

definition order_ok :: "any_state list \<Rightarrow> nat list \<Rightarrow> bool" where
  "order_ok xs ord \<longleftrightarrow>
     distinct ord \<and> set ord = {i. i < length xs \<and> counted (xs ! i)} \<and>
     (\<forall>i < length xs. winning (xs ! i) \<longrightarrow> ord \<noteq> [] \<and> i = hd ord)"

definition phase_ok :: "any_state list \<Rightarrow> any_phase \<Rightarrow> bool" where
  "phase_ok xs ph \<longleftrightarrow>
     (case ph of
        Looping k \<Rightarrow> k \<le> length xs \<and>
          (\<forall>i < length xs. (xs ! i = Waiting) = (k \<le> i) \<and> xs ! i \<noteq> Dropped)
      | LoopLeft \<Rightarrow> xs ! 0 \<noteq> Dropped \<and> (\<forall>i < length xs. xs ! i \<noteq> Waiting))"

text \<open>What the result looks like while the winner (the head of the order) is in state \<open>x\<close>.\<close>

fun winner_data :: "'h \<Rightarrow> (nat \<Rightarrow> 'v try_val) \<Rightarrow> nat \<Rightarrow> any_state \<Rightarrow> ('v, 'h) collect_any \<Rightarrow> bool" where
  "winner_data h res w First s \<longleftrightarrow> index s = - 1 \<and> any_resumes s = [] \<and> any_taken s = None"
| "winner_data h res w Indexed s \<longleftrightarrow> index s = of_nat w \<and> any_resumes s = [] \<and> any_taken s = None"
| "winner_data h res w Won s \<longleftrightarrow> any_resumes s = [(h, of_nat w, res w)] \<and>
     (case any_taken s of
        None \<Rightarrow> shared_result s = \<lparr>result_index = of_nat w, result_value = res w\<rparr>
      | Some r \<Rightarrow> r = \<lparr>result_index = of_nat w, result_value = res w\<rparr>)"
| "winner_data h res w _ s \<longleftrightarrow> False"

definition any_data :: "'h \<Rightarrow> (nat \<Rightarrow> 'v try_val) \<Rightarrow> ('v, 'h) collect_any \<Rightarrow> bool" where
  "any_data h res s \<longleftrightarrow>
     (case order s of
        [] \<Rightarrow> index s = - 1 \<and> any_resumes s = [] \<and> any_taken s = None
      | w # _ \<Rightarrow> winner_data h res w (any_inputs s ! w) s)"

definition any_ok :: "'h \<Rightarrow> (nat \<Rightarrow> 'v try_val) \<Rightarrow> nat \<Rightarrow> ('v, 'h) collect_any \<Rightarrow> bool" where
  "any_ok h res n s \<longleftrightarrow>
     0 < n \<and> n + 1 < 2 ^ 64 \<and> length (any_inputs s) = n \<and>
     order_ok (any_inputs s) (order s) \<and> phase_ok (any_inputs s) (any_phase s) \<and>
     event_holds (n + 1 - length (order s)) None (any_event s) \<and> any_data h res s"

lemma any_okD:
  assumes "any_ok h res n s"
  shows "0 < n" "n + 1 < 2 ^ 64" "length (any_inputs s) = n"
    "order_ok (any_inputs s) (order s)" "phase_ok (any_inputs s) (any_phase s)"
    "event_holds (n + 1 - length (order s)) None (any_event s)" "any_data h res s"
  using assms unfolding any_ok_def by blast+

lemma order_ok_update:
  assumes "i < length xs" and "counted y = counted (xs ! i)" and "winning y = winning (xs ! i)"
  shows "order_ok (xs[i := y]) ord = order_ok xs ord"
proof -
  have "counted (xs[i := y] ! j) = counted (xs ! j)" "winning (xs[i := y] ! j) = winning (xs ! j)" for j
    using assms by (cases "j = i"; simp)+
  then show ?thesis by (simp add: order_ok_def)
qed

lemma phase_ok_update:
  assumes "i < length xs" and "xs ! i \<noteq> Waiting" and "y \<noteq> Waiting" and "y \<noteq> Dropped"
    and "phase_ok xs ph"
  shows "phase_ok (xs[i := y]) ph"
  using assms by (cases ph) (auto simp: phase_ok_def nth_list_update)

text \<open>The data depends on the state of the first in the order only.\<close>

definition same_data :: "('v, 'h) collect_any \<Rightarrow> ('v, 'h) collect_any \<Rightarrow> bool" where
  "same_data s t \<longleftrightarrow> shared_result t = shared_result s \<and> any_resumes t = any_resumes s \<and> any_taken t = any_taken s"

lemma same_dataD: "same_data s t \<Longrightarrow> index t = index s \<and> any_resumes t = any_resumes s \<and> any_taken t = any_taken s"
  by (simp add: same_data_def shared_result_def)

lemma winner_data_cong:
  assumes "same_data s t"
  shows "winner_data h res w x t = winner_data h res w x s"
proof -
  have "shared_result t = shared_result s" using assms by (simp add: same_data_def)
  with same_dataD [OF assms] show ?thesis by (cases x) (simp_all split: option.split)
qed

lemma any_data_frame:
  assumes "any_data h res s" and "order t = order s" and "same_data s t"
    and "order s \<noteq> [] \<Longrightarrow> any_inputs t ! hd (order s) = any_inputs s ! hd (order s)"
  shows "any_data h res t"
  using assms(1,2,4) winner_data_cong [OF assms(3), of h res] same_dataD [OF assms(3)]
  by (cases "order s") (simp_all add: any_data_def)

lemma order_ok_length:
  assumes "order_ok xs ord"
  shows "length ord \<le> length xs" and "i < length xs \<Longrightarrow> i \<notin> set ord \<Longrightarrow> length ord < length xs"
proof -
  have d: "distinct ord" and sub: "set ord \<subseteq> {..<length xs}"
    using assms by (auto simp: order_ok_def)
  have card: "length ord = card (set ord)" using d by (simp add: distinct_card)
  also have "\<dots> \<le> card {..<length xs}" using sub by (intro card_mono) simp_all
  finally show "length ord \<le> length xs" by simp
  show "length ord < length xs" if "i < length xs" "i \<notin> set ord"
  proof -
    have "set ord \<subset> {..<length xs}" using sub that by auto
    then have "card (set ord) < card {..<length xs}" by (intro psubset_card_mono) simp_all
    with card show ?thesis by simp
  qed
qed

lemma of_nat_64_unat: "k < 2 ^ 64 \<Longrightarrow> unat (of_nat k :: 64 word) = k"
  by (simp add: unsigned_of_nat take_bit_nat_eq_self)

lemma of_nat_not_max:
  assumes "i < n" and "n + 1 < 2 ^ 64"
  shows "(of_nat i :: 64 word) \<noteq> - 1"
proof
  assume "(of_nat i :: 64 word) = - 1"
  then have "unat (of_nat i :: 64 word) = unat (- 1 :: 64 word)" by simp
  moreover have "unat (of_nat i :: 64 word) = i" using assms by (intro of_nat_64_unat) simp
  moreover have "unat (- 1 :: 64 word) = 18446744073709551615"
    by (simp add: unsigned_minus_1_eq_mask mask_eq_exp_minus_1)
  ultimately show False using assms by simp
qed

lemma any_ok_start:
  assumes n: "0 < n" "n + 1 < 2 ^ 64"
  shows "any_ok h res n (CollectAny_start n)"
proof -
  have "unat (of_nat n :: 64 word) = n" using n by (intro of_nat_64_unat) simp
  then have "event_holds (Suc n) None (CountEvent_ctor (of_nat n))"
    using event_holds_ctor [of "of_nat n"] n by simp
  moreover have "order_ok (replicate n Waiting) []" by (auto simp: order_ok_def)
  moreover have "phase_ok (replicate n Waiting) (Looping 0)" by (auto simp: phase_ok_def)
  ultimately show ?thesis
    using n by (simp add: any_ok_def CollectAny_start_def any_data_def)
qed

lemma any_ok_launch:
  assumes ok: "any_ok h res n s" and ph: "any_phase s = Looping i" and i: "i < length (any_inputs s)"
  shows "any_ok h res n (CollectAny_launch i s)"
proof -
  let ?t = "CollectAny_launch i s"
  note okD = any_okD [OF ok]
  have t: "any_inputs ?t = (any_inputs s)[i := Running]" "any_phase ?t = Looping (Suc i)"
    "order ?t = order s" "any_event ?t = any_event s" and same: "same_data s ?t"
    by (simp_all add: CollectAny_launch_def same_data_def shared_result_def)
  have st: "any_inputs s ! i = Waiting" using okD(5) ph i by (simp add: phase_ok_def)
  have "hd (order s) \<noteq> i" if "order s \<noteq> []"
  proof -
    have "hd (order s) \<in> set (order s)" using that by simp
    then have "counted (any_inputs s ! hd (order s))" using okD(4) by (simp add: order_ok_def)
    with st show ?thesis by auto
  qed
  then have "any_data h res ?t" by (intro any_data_frame [OF okD(7) _ same]) (simp_all add: t)
  moreover have "order_ok (any_inputs ?t) (order ?t)"
    using okD(4) order_ok_update [OF i, of Running] st by (simp add: t)
  moreover have "phase_ok (any_inputs ?t) (any_phase ?t)"
    using okD(5) ph i by (auto simp: phase_ok_def t nth_list_update)
  ultimately show ?thesis using okD by (simp add: any_ok_def t)
qed

lemma order_ok_leave:
  "order_ok (map (\<lambda>x. if x = Waiting then Dropped else x) xs) ord = order_ok xs ord"
proof -
  have "counted (if x = Waiting then Dropped else x) = counted x"
    "winning (if x = Waiting then Dropped else x) = winning x" for x
    by simp_all
  then show ?thesis by (auto simp: order_ok_def)
qed

text \<open>While the index is -1 nobody has won, so the loop ends early only after a first launch.\<close>

lemma any_ok_leave:
  assumes ok: "any_ok h res n s" and ph: "any_phase s = Looping i"
    and out: "\<not> (i < length (any_inputs s) \<and> index s = - 1)"
  shows "any_ok h res n (CollectAny_leave s)"
proof -
  let ?t = "CollectAny_leave s"
  note okD = any_okD [OF ok]
  have t: "any_inputs ?t = map (\<lambda>x. if x = Waiting then Dropped else x) (any_inputs s)"
    "any_phase ?t = LoopLeft" "order ?t = order s" "any_event ?t = any_event s" and same: "same_data s ?t"
    by (simp_all add: CollectAny_leave_def same_data_def shared_result_def)
  have "0 < i"
  proof (rule ccontr)
    assume "\<not> 0 < i"
    then have "any_inputs s ! j = Waiting" if "j < n" for j
      using okD(3,5) ph that by (simp add: phase_ok_def)
    then have "set (order s) = {}" using okD(3,4) by (auto simp: order_ok_def)
    then have "order s = []" by simp
    then have "index s = - 1" using okD(7) by (simp add: any_data_def)
    with out okD(1,3) \<open>\<not> 0 < i\<close> show False by simp
  qed
  then have "any_inputs s ! 0 \<noteq> Waiting" "any_inputs s ! 0 \<noteq> Dropped"
    using okD(1,3,5) ph by (auto simp: phase_ok_def)
  then have "phase_ok (any_inputs ?t) (any_phase ?t)"
    using okD(1,3) by (auto simp: phase_ok_def t)
  moreover have "any_data h res ?t"
  proof (intro any_data_frame [OF okD(7) _ same])
    assume "order s \<noteq> []"
    then have "hd (order s) \<in> set (order s)" by simp
    then have "counted (any_inputs s ! hd (order s))" "hd (order s) < length (any_inputs s)"
      using okD(4) by (simp_all add: order_ok_def)
    then show "any_inputs ?t ! hd (order s) = any_inputs s ! hd (order s)" by (auto simp: t)
  qed (simp_all add: t)
  ultimately show ?thesis using okD by (simp add: any_ok_def t order_ok_leave)
qed

lemma any_ok_count:
  assumes ok: "any_ok h res n s" and i: "i < length (any_inputs s)" and st: "any_inputs s ! i = Running"
  shows "any_ok h res n (CollectAny_count i s)"
proof -
  let ?d = "length (order s)" and ?t = "CollectAny_count i s"
  note okD = any_okD [OF ok]
  have fresh: "i \<notin> set (order s)" using okD(4) st by (simp add: order_ok_def)
  then have d: "?d < n" using order_ok_length(2) [OF okD(4) i] okD(3) by simp
  then have "event_holds (Suc (n - ?d)) None (any_event s)"
    using okD(6) by (simp add: Suc_diff_le)
  note ev = event_holds_down_count [OF this]
  obtain c ev' where down: "DownCount 1 (any_event s) = (c, ev')" by (cases "DownCount 1 (any_event s)")
  then have c: "c = of_nat (Suc (n - ?d))" and ev': "event_holds (n - ?d) None ev'"
    using ev by simp_all
  have "c = of_nat (n + 1) \<longleftrightarrow> Suc (n - ?d) = n + 1"
  proof
    assume "c = of_nat (n + 1)"
    then have "unat (of_nat (Suc (n - ?d)) :: 64 word) = unat (of_nat (n + 1) :: 64 word)"
      by (simp only: c)
    then show "Suc (n - ?d) = n + 1"
      using okD(2) of_nat_64_unat [of "Suc (n - ?d)"] of_nat_64_unat [of "n + 1"] by linarith
  qed (simp only: c)
  moreover have "(of_nat (n + 1) :: 64 word) = of_nat (length (any_inputs s)) + 1"
    by (simp add: okD(3))
  ultimately have won: "(c = of_nat (length (any_inputs s)) + 1) = (order s = [])"
    using d by (cases "order s") auto
  have t: "order ?t = order s @ [i]" "any_event ?t = ev'" "any_phase ?t = any_phase s"
    "any_inputs ?t = (any_inputs s)[i := if order s = [] then First else Late]" and same: "same_data s ?t"
    using down won by (simp_all add: CollectAny_count_def same_data_def shared_result_def)
  have "order_ok (any_inputs ?t) (order ?t)"
    using okD(4) i fresh by (cases "order s") (auto simp: order_ok_def t nth_list_update)
  moreover have "phase_ok (any_inputs ?t) (any_phase ?t)"
    unfolding t using i st okD(5) by (intro phase_ok_update) simp_all
  moreover have "any_data h res ?t"
  proof (cases "order s")
    case Nil
    with okD(7) i same_dataD [OF same] show ?thesis by (simp add: any_data_def t)
  next
    case (Cons w ws)
    with fresh have "w \<noteq> i" by auto
    with Cons okD(7) winner_data_cong [OF same, of h res w] show ?thesis
      by (simp add: any_data_def t)
  qed
  ultimately show ?thesis using okD ev' by (simp add: any_ok_def t)
qed

text \<open>The winner's two writes, at its position.\<close>

lemma any_ok_winner:
  assumes ok: "any_ok h res n s" and i: "i < length (any_inputs s)" and st: "winning (any_inputs s ! i)"
  obtains ws where "order s = i # ws"
proof -
  have "order s \<noteq> []" "i = hd (order s)"
    using any_okD(4) [OF ok] i st by (auto simp: order_ok_def)
  with that show thesis by (cases "order s") auto
qed

lemma any_ok_set_index:
  assumes ok: "any_ok h res n s" and i: "i < length (any_inputs s)" and st: "any_inputs s ! i = First"
  shows "any_ok h res n (CollectAny_set_index i s)"
proof -
  let ?t = "CollectAny_set_index i s"
  note okD = any_okD [OF ok]
  obtain ws where ws: "order s = i # ws" using any_ok_winner [OF ok i] st by auto
  have t: "any_inputs ?t = (any_inputs s)[i := Indexed]" "index ?t = of_nat i" "order ?t = order s"
    "any_phase ?t = any_phase s" "any_resumes ?t = any_resumes s" "any_event ?t = any_event s" "any_taken ?t = any_taken s"
    by (simp_all add: CollectAny_set_index_def)
  have "any_data h res ?t" using okD(7) st i by (simp add: any_data_def ws t)
  moreover have "order_ok (any_inputs ?t) (order ?t)"
    using okD(4) order_ok_update [OF i, of Indexed] st by (simp add: t)
  moreover have "phase_ok (any_inputs ?t) (any_phase ?t)"
    unfolding t using i st okD(5) by (intro phase_ok_update) simp_all
  ultimately show ?thesis using okD by (simp add: any_ok_def t)
qed

lemma any_ok_finish:
  assumes ok: "any_ok h res n s" and i: "i < length (any_inputs s)" and st: "any_inputs s ! i = Indexed"
  shows "any_ok h res n (CollectAny_finish h (res i) i s)"
proof -
  let ?t = "CollectAny_finish h (res i) i s"
  note okD = any_okD [OF ok]
  obtain ws where ws: "order s = i # ws" using any_ok_winner [OF ok i] st by auto
  have t: "any_inputs ?t = (any_inputs s)[i := Won]" "index ?t = index s" "order ?t = order s"
    "any_phase ?t = any_phase s" "any_resumes ?t = any_resumes s @ [(h, index s, res i)]"
    "any_event ?t = any_event s" "any_taken ?t = any_taken s" "any_value ?t = res i"
    by (simp_all add: CollectAny_finish_def)
  have "any_data h res ?t" using okD(7) st i by (simp add: any_data_def ws t shared_result_def)
  moreover have "order_ok (any_inputs ?t) (order ?t)"
    using okD(4) order_ok_update [OF i, of Won] st by (simp add: t)
  moreover have "phase_ok (any_inputs ?t) (any_phase ?t)"
    unfolding t using i st okD(5) by (intro phase_ok_update) simp_all
  ultimately show ?thesis using okD by (simp add: any_ok_def t)
qed

text \<open>The resumed coroutine gets the result of the winner, whatever it leaves behind.\<close>

lemma CollectAny_take_fields:
  "any_taken (CollectAny_take ty s) = Some (shared_result s)"
  "any_inputs (CollectAny_take ty s) = any_inputs s" "any_phase (CollectAny_take ty s) = any_phase s"
  "order (CollectAny_take ty s) = order s" "any_event (CollectAny_take ty s) = any_event s"
  "any_resumes (CollectAny_take ty s) = any_resumes s"
proof -
  obtain rest where "any_move ty (shared_result s) = (shared_result s, rest)"
    by (cases ty) (simp_all add: AnyResult_move_ctor_def AnyResultVoid_move_ctor_def)
  then show "any_taken (CollectAny_take ty s) = Some (shared_result s)"
    "any_inputs (CollectAny_take ty s) = any_inputs s" "any_phase (CollectAny_take ty s) = any_phase s"
    "order (CollectAny_take ty s) = order s" "any_event (CollectAny_take ty s) = any_event s"
    "any_resumes (CollectAny_take ty s) = any_resumes s"
    by (simp_all add: CollectAny_take_def CollectAny_await_resume_def)
qed

lemma any_ok_take:
  assumes ok: "any_ok h res n s" and r: "any_resumes s \<noteq> []" and new: "any_taken s = None"
  shows "any_ok h res n (CollectAny_take ty s)"
proof -
  note okD = any_okD [OF ok]
  obtain w ws where ws: "order s = w # ws" using okD(7) r by (cases "order s") (simp_all add: any_data_def)
  with okD(7) r have "any_inputs s ! w = Won" by (cases "any_inputs s ! w") (simp_all add: any_data_def)
  with okD(7) ws new have "any_data h res (CollectAny_take ty s)" by (simp add: any_data_def CollectAny_take_fields)
  then show ?thesis using okD by (simp add: any_ok_def CollectAny_take_fields)
qed

lemma any_ok_step: "collect_any_step ty h res s t \<Longrightarrow> any_ok h res n s \<Longrightarrow> any_ok h res n t"
  by (induction rule: collect_any_step.induct)
    (blast intro: any_ok_launch any_ok_leave any_ok_count any_ok_set_index any_ok_finish any_ok_take)+

lemma any_reachable_ok: "collect_any_reachable ty h res n s \<Longrightarrow> any_ok h res n s"
  by (induction rule: collect_any_reachable.induct) (blast intro: any_ok_start any_ok_step)+

section \<open>Termination\<close>

fun any_weight :: "any_state \<Rightarrow> nat" where
  "any_weight Waiting = 4"
| "any_weight Running = 3"
| "any_weight First = 2"
| "any_weight Indexed = 1"
| "any_weight _ = 0"

definition any_measure :: "('v, 'h) collect_any \<Rightarrow> nat" where
  "any_measure s = sum_list (map any_weight (any_inputs s)) +
     (case any_phase s of Looping i \<Rightarrow> 1 | LoopLeft \<Rightarrow> 0) + (if any_taken s = None then 1 else 0)"

lemma any_weight_drop:
  "sum_list (map any_weight (map (\<lambda>x. if x = Waiting then Dropped else x) xs)) \<le>
     sum_list (map any_weight xs)"
  by (induction xs) auto

lemma any_step_measure:
  assumes "collect_any_step ty h res s t" and "any_ok h res n s"
  shows "any_measure t < any_measure s"
  using assms
proof (induction rule: collect_any_step.induct)
  case (launch s i)
  then have "any_inputs s ! i = Waiting" using any_okD(5) [OF launch.prems] by (simp add: phase_ok_def)
  with launch show ?case
    using sum_list_map_update [of i "any_inputs s" any_weight Running]
    by (simp add: any_measure_def CollectAny_launch_def)
next
  case (leave s i)
  then show ?case
    using any_weight_drop [of "any_inputs s"] by (simp add: any_measure_def CollectAny_leave_def)
next
  case (count i s)
  then show ?case
    using sum_list_map_update [of i "any_inputs s" any_weight First]
      sum_list_map_update [of i "any_inputs s" any_weight Late]
    by (simp add: any_measure_def CollectAny_count_def split: prod.splits)
next
  case (set_index i s)
  then show ?case
    using sum_list_map_update [of i "any_inputs s" any_weight Indexed]
    by (simp add: any_measure_def CollectAny_set_index_def)
next
  case (finish i s)
  then show ?case
    using sum_list_map_update [of i "any_inputs s" any_weight Won]
    by (simp add: any_measure_def CollectAny_finish_def)
next
  case (take_result s)
  then show ?case by (simp add: any_measure_def CollectAny_take_fields)
qed

lemma any_stuck:
  assumes ok: "any_ok h res n s" and stuck: "\<not> (\<exists>t. collect_any_step ty h res s t)"
  shows "any_resumes s \<noteq> []" "any_taken s \<noteq> None"
proof -
  note okD = any_okD [OF ok]
  have ph: "any_phase s = LoopLeft"
  proof (cases "any_phase s")
    case (Looping k)
    with stuck show ?thesis
      using collect_any_step.launch [of s k ty h res] collect_any_step.leave [of s k ty h res] by blast
  qed simp
  have no: "any_inputs s ! i \<notin> {Running, First, Indexed}" if "i < n" for i
    using stuck okD(3) that collect_any_step.count [of i s ty h res]
      collect_any_step.set_index [of i s ty h res] collect_any_step.finish [of i s ty h res] by auto
  have "any_inputs s ! 0 \<notin> {Waiting, Dropped, Running}"
    using okD(1,3,5) ph no [of 0] by (simp add: phase_ok_def)
  then have "counted (any_inputs s ! 0)" by (cases "any_inputs s ! 0") simp_all
  then have "0 \<in> set (order s)" using okD(1,3,4) by (simp add: order_ok_def)
  then obtain w ws where ws: "order s = w # ws" by (cases "order s") auto
  then have "w \<in> set (order s)" by simp
  then have "w < n" using okD(3,4) by (simp add: order_ok_def)
  with no have "any_inputs s ! w \<notin> {Running, First, Indexed}" by blast
  then show resumed: "any_resumes s \<noteq> []"
    using okD(7) by (cases "any_inputs s ! w") (simp_all add: any_data_def ws)
  show "any_taken s \<noteq> None" using stuck collect_any_step.take_result [OF resumed, of ty h res] by blast
qed

lemma any_resumed:
  assumes ok: "any_ok h res n s" and "any_resumes s \<noteq> []"
  shows "\<exists>w. w < n \<and> order s \<noteq> [] \<and> w = hd (order s) \<and> any_resumes s = [(h, of_nat w, res w)] \<and>
           (of_nat w :: 64 word) \<noteq> - 1 \<and>
           (\<forall>r. any_taken s = Some r \<longrightarrow> r = \<lparr>result_index = of_nat w, result_value = res w\<rparr>)"
proof -
  note okD = any_okD [OF ok]
  obtain w ws where ws: "order s = w # ws"
    using okD(7) assms(2) by (cases "order s") (simp_all add: any_data_def)
  then have "w \<in> set (order s)" by simp
  then have w: "w < n" using okD(3,4) by (simp add: order_ok_def)
  have "winner_data h res w (any_inputs s ! w) s" using okD(7) by (simp add: any_data_def ws)
  then have "any_resumes s = [(h, of_nat w, res w)] \<and>
      (\<forall>r. any_taken s = Some r \<longrightarrow> r = \<lparr>result_index = of_nat w, result_value = res w\<rparr>)"
    using assms(2) by (cases "any_inputs s ! w") (auto simp del: not_None_eq)
  with ws w of_nat_not_max [OF w okD(2)] show ?thesis by simp
qed

text \<open>
  Three inputs of which the second counts down first; its result is taken before the loop has ended, and so the third is
  started when the race is over.
\<close>

definition demo_any :: "(nat, string) collect_any" where
  "demo_any =
     \<lparr>any_event = \<lparr>count = 1, awaiting_coroutine = None\<rparr>, index = - 1, any_value = Value 8,
      any_inputs = [Late, Won, Late], any_phase = LoopLeft, any_resumes = [(''co'', 1, Value 8)],
      any_taken = Some \<lparr>result_index = 1, result_value = Value 8\<rparr>, order = [1, 2, 0]\<rparr>"

definition demo_any_res :: "nat \<Rightarrow> nat try_val" where
  "demo_any_res i = Value (7 + i)"

lemmas any_run_simps =
  CollectAny_start_def CollectAny_launch_def CollectAny_leave_def CollectAny_count_def
  CollectAny_set_index_def CollectAny_finish_def CollectAny_take_def CollectAny_await_resume_def shared_result_def
  AnyResult_move_ctor_def AnyResultVoid_move_ctor_def count_event_defs numeral_2_eq_2 numeral_3_eq_3

lemma demo_any_reachable: "collect_any_reachable (OfValue id) ''co'' demo_any_res 3 demo_any"
proof -
  let ?R = "collect_any_reachable (OfValue id) ''co'' demo_any_res 3"
  let ?s0 = "CollectAny_start 3 :: (nat, string) collect_any"
  let ?s1 = "CollectAny_launch 0 ?s0"
  let ?s2 = "CollectAny_launch 1 ?s1"
  let ?s3 = "CollectAny_count 1 ?s2"
  let ?s4 = "CollectAny_set_index 1 ?s3"
  let ?s5 = "CollectAny_finish ''co'' (demo_any_res 1) 1 ?s4"
  let ?s6 = "CollectAny_take (OfValue id) ?s5"
  let ?s7 = "CollectAny_launch 2 ?s6"
  let ?s8 = "CollectAny_count 2 ?s7"
  let ?s9 = "CollectAny_leave ?s8"
  let ?s10 = "CollectAny_count 0 ?s9"
  have "?R ?s0" by (rule any_start) simp_all
  then have "?R ?s1" by (rule any_next) (rule collect_any_step.launch; simp add: any_run_simps)
  then have "?R ?s2" by (rule any_next) (rule collect_any_step.launch; simp add: any_run_simps)
  then have "?R ?s3" by (rule any_next) (rule collect_any_step.count; simp add: any_run_simps)
  then have "?R ?s4" by (rule any_next) (rule collect_any_step.set_index; simp add: any_run_simps)
  then have "?R ?s5" by (rule any_next) (rule collect_any_step.finish; simp add: any_run_simps)
  then have "?R ?s6" by (rule any_next) (rule collect_any_step.take_result; simp add: any_run_simps)
  then have "?R ?s7" by (rule any_next) (rule collect_any_step.launch; simp add: any_run_simps)
  then have "?R ?s8" by (rule any_next) (rule collect_any_step.count; simp add: any_run_simps)
  then have "?R ?s9" by (rule any_next) (rule collect_any_step.leave [of _ 3]; simp add: any_run_simps del: numeral_3_eq_3)
  then have "?R ?s10" by (rule any_next) (rule collect_any_step.count; simp add: any_run_simps)
  moreover have "?s10 = demo_any" by (simp add: demo_any_def demo_any_res_def any_run_simps)
  ultimately show ?thesis by simp
qed

section \<open>Properties\<close>

text \<open>
  Claim C15. \<open>CollectAny\<close> resumes the awaiting coroutine at most once, with the index and the result
  of the input that counted down first, which is what its \<open>co_await\<close> gives it; that index is never the \<open>-1\<close> that stands for
  no result. This holds although moving the result out takes the shared index back to \<open>-1\<close> (except for \<open>void\<close>), so that the loop may
  go on and start inputs after the race has been won.
\<close>

theorem collect_any_first_wins:
  assumes "collect_any_reachable ty h res n s" and "any_resumes s \<noteq> []"
  shows "\<exists>w. w < n \<and> order s \<noteq> [] \<and> w = hd (order s) \<and> any_resumes s = [(h, of_nat w, res w)] \<and>
           (of_nat w :: 64 word) \<noteq> - 1 \<and>
           any_taken s \<in> {None, Some \<lparr>result_index = of_nat w, result_value = res w\<rparr>}"
  using any_resumed [OF any_reachable_ok [OF assms(1)] assms(2)] by (cases "any_taken s") auto

theorem collect_any_first_wins_witness:
  "any_resumes demo_any = [(''co'', of_nat 1, Value 8)] \<and>
   any_taken demo_any = Some \<lparr>result_index = 1, result_value = Value 8\<rparr>"
proof -
  have "any_resumes demo_any \<noteq> []" "order demo_any = [1, 2, 0]" "any_taken demo_any \<noteq> None" by (simp_all add: demo_any_def)
  with collect_any_first_wins [OF demo_any_reachable] show ?thesis
    by (simp add: demo_any_res_def)
qed

text \<open>
  \<open>CollectAny\<close> always delivers a result when there is an input: every step decreases a
  natural number, and a state with no further step has resumed the coroutine.
\<close>

lemma collect_any_completes:
  assumes "collect_any_reachable ty h res n s"
  shows "(\<forall>t. collect_any_step ty h res s t \<longrightarrow> any_measure t < any_measure s) \<and>
    ((\<forall>t. \<not> collect_any_step ty h res s t) \<longrightarrow> any_resumes s \<noteq> [] \<and> any_taken s \<noteq> None)"
  using any_step_measure [OF _ any_reachable_ok [OF assms]] any_stuck [OF any_reachable_ok [OF assms]]
  by blast

end
