(* ===== verification/Local_State.thy ===== *)
theory Local_State
  imports Try_Base Executor_Model
begin

text \<open>
  \<^verbatim>\<open>include/async_simple/sync/local_state.hpp\<close>: the result that a ready future carries itself, with
  the executor it was given. \<open>mv\<close> is the value that moving out of a \<open>T\<close> leaves behind.
\<close>

record 'v local_state =
  ls_try :: "'v try_val"
  ls_executor :: "nat option"

definition Local_empty :: "'v local_state" where
  "Local_empty = \<lparr>ls_try = Nothing, ls_executor = None\<rparr>"

definition Local_of_value :: "'v \<Rightarrow> 'v local_state" where
  "Local_of_value v = \<lparr>ls_try = Value v, ls_executor = None\<rparr>"

definition Local_of_try :: "'v try_val \<Rightarrow> 'v local_state" where
  "Local_of_try t = \<lparr>ls_try = t, ls_executor = None\<rparr>"

text \<open>The new object and what is left of the old one; the tag of a moved-from \<open>Try\<close> stays.\<close>

definition Local_move_ctor :: "('v \<Rightarrow> 'v) \<Rightarrow> 'v local_state \<Rightarrow> 'v local_state \<times> 'v local_state" where
  "Local_move_ctor mv other =
     (\<lparr>ls_try = ls_try other, ls_executor = ls_executor other\<rparr>,
      \<lparr>ls_try = try_moved mv (ls_try other), ls_executor = None\<rparr>)"

text \<open>Move assignment between two objects swaps both members; on itself it does nothing.\<close>

definition Local_move_assign :: "'v local_state \<Rightarrow> 'v local_state \<Rightarrow> 'v local_state \<times> 'v local_state" where
  "Local_move_assign this other = (other, this)"

definition Local_HasResult :: "'v local_state \<Rightarrow> bool" where
  "Local_HasResult s \<longleftrightarrow> try_available (ls_try s)"

definition Local_SetExecutor :: "nat option \<Rightarrow> 'v local_state \<Rightarrow> 'v local_state" where
  "Local_SetExecutor e s = s\<lparr>ls_executor := e\<rparr>"

definition Local_GetExecutor :: "'v local_state \<Rightarrow> nat option" where
  "Local_GetExecutor s = ls_executor s"

definition Local_CurrentThreadInExecutor ::
  "(nat \<Rightarrow> ('w, bool) action) \<Rightarrow> 'v local_state \<Rightarrow> ('w, bool) action" where
  "Local_CurrentThreadInExecutor in_thread s =
     (case ls_executor s of None \<Rightarrow> ret False | Some e \<Rightarrow> in_thread e)"

text \<open>The continuation is called at once, with the \<open>Try\<close> by reference (\<open>call\<close> is that call).\<close>

definition Local_SetContinuation :: "('w, unit) action \<Rightarrow> 'v local_state \<Rightarrow> ('w, unit) action" where
  "Local_SetContinuation call s = seq (ASSERT (try_available (ls_try s))) call"

end
