(* ===== verification/Future_State.thy ===== *)
theory Future_State
  imports Local_State
begin

text \<open>
  \<^verbatim>\<open>include/async_simple/sync/future_state.hpp\<close>: the shared state of a promise and its future. The
  states live in a heap (pointer = position, \<open>None\<close> = deleted), so that a use after the delete
  is undefined in the model too. A \<open>Try\<close> is its three-case abstraction \<open>try_val\<close>, which
  \<^verbatim>\<open>Try_Base.thy\<close> shows to be what the class implements. Counters keep their widths: \<open>state_\<close>,
  \<open>attached_\<close> and \<open>continuation_ref_\<close> are 8 bits wide, \<open>promise_ref_\<close> has 64.

  What is not in the class is a parameter, the record \<open>env\<close>: running a continuation \<open>'k\<close> (which gets
  the \<open>Try\<close> by reference, hence the pointer of the state, or the position of the future, that holds
  it), destroying it, and the virtual functions of the executors. A closure that \<open>ScheduleContinuation\<close> posts owns one
  \<open>ContinuationReference\<close>. \<open>Schedule\<close> and \<open>Checkin\<close> take it by value: their second result says whether
  the executor kept it (then \<open>run_posted\<close> is what happens to it later); a closure that was not kept
  (refused, or run inside \<open>Checkin\<close>, or given up by an exception) is destroyed when the call is over.
\<close>

section \<open>Data\<close>

definition kStart :: "8 word" where "kStart = 0"
definition kOnlyResult :: "8 word" where "kOnlyResult = push_bit 0 1"
definition kOnlyContinuation :: "8 word" where "kOnlyContinuation = push_bit 1 1"
definition kDone :: "8 word" where "kDone = push_bit 5 1"

lemmas state_defs = kStart_def kOnlyResult_def kOnlyContinuation_def kDone_def

record ('v, 'k) future_state =
  fs_state :: "8 word"
  fs_attached :: "8 word"
  fs_continuation_ref :: "8 word"
  fs_promise_ref :: "64 word"
  fs_force_scheduled :: bool
  fs_try :: "'v try_val"
  fs_continuation :: "'k option"
  fs_executor :: "nat option"
  fs_context :: exec_context

definition FutureState_ctor :: "('v, 'k) future_state" where
  "FutureState_ctor =
     \<lparr>fs_state = kStart, fs_attached = 0, fs_continuation_ref = 0, fs_promise_ref = 0,
      fs_force_scheduled = False, fs_try = Nothing, fs_continuation = None, fs_executor = None,
      fs_context = kNullContext\<rparr>"

text \<open>
  The program around the states: the handles are the objects of \<^verbatim>\<open>Future_Handles.thy\<close>, \<open>conts\<close> is
  the bag of live \<open>ContinuationReference\<close> objects (by the state they refer to; a ghost), \<open>rest\<close> is
  everything else.
\<close>

record promise_obj =
  p_shared :: "nat option"
  p_has_future :: bool

record 'v future_obj =
  f_shared :: "nat option"
  f_local :: "'v local_state"

record ('v, 'k, 'x) world =
  heap :: "('v, 'k) future_state option list"
  promises :: "promise_obj option list"
  futures :: "'v future_obj option list"
  conts :: "nat multiset"
  rest :: 'x

record ('v, 'k, 'x) env =
  call_continuation :: "'k \<Rightarrow> nat \<Rightarrow> (('v, 'k, 'x) world, unit) action"
  call_on_local :: "'k \<Rightarrow> nat \<Rightarrow> (('v, 'k, 'x) world, unit) action"
  drop_continuation :: "'k \<Rightarrow> (('v, 'k, 'x) world, unit) action"
  exec_in_thread :: "nat \<Rightarrow> (('v, 'k, 'x) world, bool) action"
  exec_schedule :: "nat \<Rightarrow> nat \<Rightarrow> (('v, 'k, 'x) world, bool \<times> bool) action"
  exec_checkin ::
    "nat \<Rightarrow> nat \<Rightarrow> exec_context \<Rightarrow> schedule_options \<Rightarrow> (('v, 'k, 'x) world, bool \<times> bool) action"
  exec_checkout :: "nat \<Rightarrow> (('v, 'k, 'x) world, exec_context) action"

definition fs_read :: "nat \<Rightarrow> (('v, 'k) future_state \<Rightarrow> 'a) \<Rightarrow> (('v, 'k, 'x) world, 'a) action" where
  "fs_read p f w =
     (if p < length (heap w) then
        (case heap w ! p of None \<Rightarrow> (Undefined, w) | Some s \<Rightarrow> (Return (f s), w))
      else (Undefined, w))"

definition fs_write ::
  "nat \<Rightarrow> (('v, 'k) future_state \<Rightarrow> ('v, 'k) future_state) \<Rightarrow> (('v, 'k, 'x) world, unit) action" where
  "fs_write p g w =
     (if p < length (heap w) then
        (case heap w ! p of
           None \<Rightarrow> (Undefined, w)
         | Some s \<Rightarrow> (Return (), w\<lparr>heap := (heap w)[p := Some (g s)]\<rparr>))
      else (Undefined, w))"

definition fs_delete :: "nat \<Rightarrow> (('v, 'k, 'x) world, unit) action" where
  "fs_delete p = modify (\<lambda>w. w\<lparr>heap := (heap w)[p := None]\<rparr>)"

text \<open>\<open>fetch_add\<close> and \<open>fetch_sub\<close> give back the old value.\<close>

definition fetch ::
  "nat \<Rightarrow> (('v, 'k) future_state \<Rightarrow> 'a) \<Rightarrow> (('v, 'k) future_state \<Rightarrow> ('v, 'k) future_state) \<Rightarrow>
     (('v, 'k, 'x) world, 'a) action" where
  "fetch p f g = bind (fs_read p f) (\<lambda>old. seq (fs_write p g) (ret old))"

text \<open>\<open>compare_exchange_strong\<close>: success, and the value that \<open>expected\<close> holds afterwards.\<close>

definition cas_state :: "nat \<Rightarrow> 8 word \<Rightarrow> 8 word \<Rightarrow> (('v, 'k, 'x) world, bool \<times> 8 word) action" where
  "cas_state p expected desired =
     bind (fs_read p fs_state) (\<lambda>s.
       if s = expected then seq (fs_write p (\<lambda>x. x\<lparr>fs_state := desired\<rparr>)) (ret (True, expected))
       else ret (False, s))"

section \<open>Queries and reference counts\<close>

definition HasResult :: "nat \<Rightarrow> (('v, 'k, 'x) world, bool) action" where
  "HasResult p = bind (fs_read p fs_state) (\<lambda>s. ret ((s AND (kDone OR kOnlyResult)) \<noteq> 0))"

definition HasContinuation :: "nat \<Rightarrow> (('v, 'k, 'x) world, bool) action" where
  "HasContinuation p =
     bind (fs_read p fs_state) (\<lambda>s. ret ((s AND (kDone OR kOnlyContinuation)) \<noteq> 0))"

definition AttachOne :: "nat \<Rightarrow> (('v, 'k, 'x) world, unit) action" where
  "AttachOne p = fs_write p (\<lambda>s. s\<lparr>fs_attached := fs_attached s + 1\<rparr>)"

definition DetachOne :: "nat \<Rightarrow> (('v, 'k, 'x) world, unit) action" where
  "DetachOne p =
     bind (fetch p fs_attached (\<lambda>s. s\<lparr>fs_attached := fs_attached s - 1\<rparr>)) (\<lambda>old.
       seq (ASSERT (1 \<le> old)) (if old = 1 then fs_delete p else ret ()))"

definition AttachPromise :: "nat \<Rightarrow> (('v, 'k, 'x) world, unit) action" where
  "AttachPromise p =
     seq (fs_write p (\<lambda>s. s\<lparr>fs_promise_ref := fs_promise_ref s + 1\<rparr>)) (AttachOne p)"

definition RefContinuation :: "nat \<Rightarrow> (('v, 'k, 'x) world, unit) action" where
  "RefContinuation p = fs_write p (\<lambda>s. s\<lparr>fs_continuation_ref := fs_continuation_ref s + 1\<rparr>)"

definition DerefContinuation ::
  "('v, 'k, 'x) env \<Rightarrow> nat \<Rightarrow> (('v, 'k, 'x) world, unit) action" where
  "DerefContinuation env p =
     bind (fetch p fs_continuation_ref (\<lambda>s. s\<lparr>fs_continuation_ref := fs_continuation_ref s - 1\<rparr>))
       (\<lambda>old. seq (ASSERT (1 \<le> old))
         (if old = 1 then
            bind (fs_read p fs_continuation) (\<lambda>k.
              case k of
                None \<Rightarrow> undef
              | Some f \<Rightarrow> seq (drop_continuation env f)
                                (fs_write p (\<lambda>s. s\<lparr>fs_continuation := None\<rparr>)))
          else ret ()))"

definition Cont_Attach :: "nat \<Rightarrow> (('v, 'k, 'x) world, unit) action" where
  "Cont_Attach p =
     seq (AttachOne p) (seq (RefContinuation p) (modify (\<lambda>w. w\<lparr>conts := add_mset p (conts w)\<rparr>)))"

definition Cont_Detach :: "('v, 'k, 'x) env \<Rightarrow> nat \<Rightarrow> (('v, 'k, 'x) world, unit) action" where
  "Cont_Detach env p =
     seq (DerefContinuation env p)
       (seq (modify (\<lambda>w. w\<lparr>conts := conts w - {#p#}\<rparr>)) (DetachOne p))"

section \<open>Executor, context, forced scheduling\<close>

definition SetExecutor :: "nat \<Rightarrow> nat option \<Rightarrow> (('v, 'k, 'x) world, unit) action" where
  "SetExecutor p e = fs_write p (\<lambda>s. s\<lparr>fs_executor := e\<rparr>)"

definition GetExecutor :: "nat \<Rightarrow> (('v, 'k, 'x) world, nat option) action" where
  "GetExecutor p = fs_read p fs_executor"

definition FS_Checkout :: "('v, 'k, 'x) env \<Rightarrow> nat \<Rightarrow> (('v, 'k, 'x) world, unit) action" where
  "FS_Checkout env p =
     bind (fs_read p fs_executor) (\<lambda>e.
       case e of
         None \<Rightarrow> ret ()
       | Some x \<Rightarrow> bind (exec_checkout env x) (\<lambda>c. fs_write p (\<lambda>s. s\<lparr>fs_context := c\<rparr>)))"

definition SetForceScheduled :: "nat \<Rightarrow> bool \<Rightarrow> (('v, 'k, 'x) world, unit) action" where
  "SetForceScheduled p force =
     bind (fs_read p fs_executor) (\<lambda>e.
       if e = None \<and> force then ret ()
       else fs_write p (\<lambda>s. s\<lparr>fs_force_scheduled := force\<rparr>))"

definition FS_CurrentThreadInExecutor ::
  "('v, 'k, 'x) env \<Rightarrow> nat \<Rightarrow> (('v, 'k, 'x) world, bool) action" where
  "FS_CurrentThreadInExecutor env p =
     bind (fs_read p fs_executor) (\<lambda>e.
       case e of None \<Rightarrow> ret False | Some x \<Rightarrow> exec_in_thread env x)"

section \<open>Running the continuation\<close>

text \<open>\<open>continuation_(std::move(try_value_))\<close>: only a constructed continuation can be called.\<close>

definition invoke :: "('v, 'k, 'x) env \<Rightarrow> nat \<Rightarrow> (('v, 'k, 'x) world, unit) action" where
  "invoke env p =
     bind (fs_read p fs_continuation) (\<lambda>k.
       case k of None \<Rightarrow> undef | Some f \<Rightarrow> call_continuation env f p)"

definition with_guard ::
  "('v, 'k, 'x) env \<Rightarrow> nat \<Rightarrow> (('v, 'k, 'x) world, unit) action \<Rightarrow> (('v, 'k, 'x) world, unit) action" where
  "with_guard env p m = seq (Cont_Attach p) (finally_do m (Cont_Detach env p))"

text \<open>The posted closure: what an executor that accepted it does, once, and then destroys it.\<close>

definition run_posted :: "('v, 'k, 'x) env \<Rightarrow> nat \<Rightarrow> (('v, 'k, 'x) world, unit) action" where
  "run_posted env p = finally_do (invoke env p) (Cont_Detach env p)"

text \<open>The condition is evaluated from left to right and stops early, as in the code.\<close>

definition runs_inline :: "('v, 'k, 'x) env \<Rightarrow> nat \<Rightarrow> bool \<Rightarrow> (('v, 'k, 'x) world, bool) action" where
  "runs_inline env p trigger_by_continuation =
     bind (fs_read p fs_force_scheduled) (\<lambda>force.
       if force then ret False
       else bind (fs_read p fs_executor) (\<lambda>e.
         if e = None \<or> trigger_by_continuation then ret True
         else FS_CurrentThreadInExecutor env p))"

text \<open>
  The posted path. The closure owns the first guard and is destroyed after the call unless the
  executor kept it. A null executor is dereferenced when scheduling was forced and the executor
  reset afterwards.
\<close>

definition post_continuation :: "('v, 'k, 'x) env \<Rightarrow> nat \<Rightarrow> (('v, 'k, 'x) world, bool) action" where
  "post_continuation env p =
     bind (fs_read p (\<lambda>s. (fs_context s, fs_executor s, fs_force_scheduled s))) (\<lambda>(c, e, force).
       case e of
         None \<Rightarrow> undef
       | Some x \<Rightarrow>
           bind
             (try_catch
               (if c = kNullContext then exec_schedule env x p
                else exec_checkin env x p c \<lparr>prompt = (\<not> force)\<rparr>)
               (\<lambda>ex. seq (noexcept (Cont_Detach env p)) (throw ex)))
             (\<lambda>(ok, kept). if kept then ret ok else seq (noexcept (Cont_Detach env p)) (ret ok)))"

definition ScheduleContinuation ::
  "('v, 'k, 'x) env \<Rightarrow> nat \<Rightarrow> bool \<Rightarrow> (('v, 'k, 'x) world, unit) action" where
  "ScheduleContinuation env p trigger_by_continuation =
     bind (fs_read p fs_state) (\<lambda>s.
       seq (LOGIC_ASSERT (s = kDone) ''FutureState is not done'')
         (bind (runs_inline env p trigger_by_continuation) (\<lambda>inline.
            if inline then with_guard env p (invoke env p)
            else seq (Cont_Attach p)
                   (with_guard env p
                     (bind (post_continuation env p) (\<lambda>ok.
                        if ok then ret () else invoke env p))))))"

section \<open>Setting the result and the continuation\<close>

text \<open>The last case of both switches: the transition to \<open>kDone\<close>, or the error after it.\<close>

definition finish_transition ::
  "('v, 'k, 'x) env \<Rightarrow> nat \<Rightarrow> bool \<Rightarrow> 8 word \<Rightarrow> (('v, 'k, 'x) world, unit) action" where
  "finish_transition env p trigger_by_continuation expected =
     bind (cas_state p expected kDone) (\<lambda>(ok, _).
       if ok then ScheduleContinuation env p trigger_by_continuation
       else LOGIC_ASSERT False ''State Transfer Error'')"

definition SetResult ::
  "('v, 'k, 'x) env \<Rightarrow> nat \<Rightarrow> 'v try_val \<Rightarrow> (('v, 'k, 'x) world, unit) action" where
  "SetResult env p v =
     bind (HasResult p) (\<lambda>has.
       seq (LOGIC_ASSERT (\<not> has) ''FutureState already has a result'')
         (seq (fs_write p (\<lambda>s. s\<lparr>fs_try := v\<rparr>))
           (bind (fs_read p fs_state) (\<lambda>s.
              if s = kStart then
                bind (cas_state p s kOnlyResult) (\<lambda>(ok, s').
                  if ok then ret ()
                  else bind (fs_read p fs_state) (\<lambda>now.
                         seq (ASSERT (now = kOnlyContinuation)) (finish_transition env p False s')))
              else if s = kOnlyContinuation then finish_transition env p False s
              else LOGIC_ASSERT False ''State Transfer Error''))))"

definition SetContinuation ::
  "('v, 'k, 'x) env \<Rightarrow> nat \<Rightarrow> 'k \<Rightarrow> (('v, 'k, 'x) world, unit) action" where
  "SetContinuation env p f =
     bind (HasContinuation p) (\<lambda>has.
       seq (LOGIC_ASSERT (\<not> has) ''FutureState already has a continuation'')
         (seq (fs_write p (\<lambda>s. s\<lparr>fs_continuation := Some f\<rparr>))
           (bind (fs_read p fs_state) (\<lambda>s.
              if s = kStart then
                bind (cas_state p s kOnlyContinuation) (\<lambda>(ok, s').
                  if ok then ret ()
                  else bind (fs_read p fs_state) (\<lambda>now.
                         seq (ASSERT (now = kOnlyResult)) (finish_transition env p True s')))
              else if s = kOnlyResult then finish_transition env p True s
              else LOGIC_ASSERT False ''State Transfer Error''))))"

definition DetachPromise :: "('v, 'k, 'x) env \<Rightarrow> nat \<Rightarrow> (('v, 'k, 'x) world, unit) action" where
  "DetachPromise env p =
     bind (fetch p fs_promise_ref (\<lambda>s. s\<lparr>fs_promise_ref := fs_promise_ref s - 1\<rparr>)) (\<lambda>old.
       seq (ASSERT (1 \<le> old))
         (bind (HasResult p) (\<lambda>has.
            seq (if \<not> has \<and> old = 1
                 then SetResult env p (Exception (Some (RuntimeError ''Promise is broken'')))
                 else ret ())
              (DetachOne p))))"

section \<open>Running one step\<close>

definition live :: "('v, 'k, 'x) world \<Rightarrow> nat \<Rightarrow> ('v, 'k) future_state \<Rightarrow> bool" where
  "live w p s \<longleftrightarrow> p < length (heap w) \<and> heap w ! p = Some s"

definition put :: "nat \<Rightarrow> ('v, 'k) future_state \<Rightarrow> ('v, 'k, 'x) world \<Rightarrow> ('v, 'k, 'x) world" where
  "put p s w = w\<lparr>heap := (heap w)[p := Some s]\<rparr>"

lemma live_put [simp]: "live w p s \<Longrightarrow> live (put p t w) p u \<longleftrightarrow> u = t"
  by (auto simp: live_def put_def)

lemma put_put [simp]: "put p t (put p s w) = put p t w"
  by (simp add: put_def)

lemma put_same: "live w p s \<Longrightarrow> put p s w = w"
  by (simp add: live_def put_def) (metis list_update_id world.surjective world.update_convs(1))

lemma live_unique: "live w p s \<Longrightarrow> live w p t \<Longrightarrow> s = t"
  by (simp add: live_def)

lemma put_fields [simp]:
  "rest (put p s w) = rest w" "conts (put p s w) = conts w"
  "promises (put p s w) = promises w" "futures (put p s w) = futures w"
  "length (heap (put p s w)) = length (heap w)"
  by (simp_all add: put_def)

lemma live_frame [simp]:
  "live (w\<lparr>conts := c\<rparr>) p s = live w p s" "live (w\<lparr>rest := x\<rparr>) p s = live w p s"
  "live (w\<lparr>promises := a\<rparr>) p s = live w p s" "live (w\<lparr>futures := b\<rparr>) p s = live w p s"
  by (simp_all add: live_def)

lemma put_frame:
  "put p s (w\<lparr>conts := c\<rparr>) = (put p s w)\<lparr>conts := c\<rparr>"
  "put p s (w\<lparr>rest := x\<rparr>) = (put p s w)\<lparr>rest := x\<rparr>"
  by (simp_all add: put_def)

lemma run_fs_read: "live w p s \<Longrightarrow> fs_read p f w = (Return (f s), w)"
  by (simp add: live_def fs_read_def)

lemma run_fs_write: "live w p s \<Longrightarrow> fs_write p g w = (Return (), put p (g s) w)"
  by (simp add: live_def fs_write_def put_def)

lemma run_fetch: "live w p s \<Longrightarrow> fetch p f g w = (Return (f s), put p (g s) w)"
  by (simp add: fetch_def run_fs_read run_fs_write outcome_simps)

lemma run_cas:
  "live w p s \<Longrightarrow> cas_state p a b w =
     (if fs_state s = a then (Return (True, a), put p (s\<lparr>fs_state := b\<rparr>) w)
      else (Return (False, fs_state s), w))"
  by (simp add: cas_state_def run_fs_read run_fs_write outcome_simps)

lemma freed_undefined:
  assumes "\<not> (\<exists>s. live w p s)"
  shows "fs_read p f w = (Undefined, w)" and "fs_write p g w = (Undefined, w)"
  using assms by (auto simp: live_def fs_read_def fs_write_def split: option.splits)

section \<open>The states\<close>

text \<open>The abstract future: what has arrived so far.\<close>

datatype ('v, 'k) fut = Pending | Resolved "'v try_val" | Awaiting 'k | Completed

definition fs_abs :: "('v, 'k) future_state \<Rightarrow> ('v, 'k) fut" where
  "fs_abs s =
     (if fs_state s = kStart then Pending
      else if fs_state s = kOnlyResult then Resolved (fs_try s)
      else if fs_state s = kOnlyContinuation then Awaiting (the (fs_continuation s))
      else Completed)"

definition fs_wf :: "('v, 'k) future_state \<Rightarrow> bool" where
  "fs_wf s \<longleftrightarrow>
     fs_state s \<in> {kStart, kOnlyResult, kOnlyContinuation, kDone} \<and>
     (fs_state s = kOnlyContinuation \<longrightarrow> fs_continuation s \<noteq> None) \<and>
     (fs_state s \<in> {kStart, kOnlyResult} \<longrightarrow> fs_continuation s = None)"

lemma state_distinct [simp]:
  "kStart \<noteq> kOnlyResult" "kStart \<noteq> kOnlyContinuation" "kStart \<noteq> kDone"
  "kOnlyResult \<noteq> kOnlyContinuation" "kOnlyResult \<noteq> kDone" "kOnlyContinuation \<noteq> kDone"
  "kOnlyResult \<noteq> kStart" "kOnlyContinuation \<noteq> kStart" "kDone \<noteq> kStart"
  "kOnlyContinuation \<noteq> kOnlyResult" "kDone \<noteq> kOnlyResult" "kDone \<noteq> kOnlyContinuation"
  by (simp_all add: state_defs)

lemma state_bits [simp]:
  "kStart AND (kDone OR kOnlyResult) = 0" "kOnlyResult AND (kDone OR kOnlyResult) \<noteq> 0"
  "kOnlyContinuation AND (kDone OR kOnlyResult) = 0" "kDone AND (kDone OR kOnlyResult) \<noteq> 0"
  "kStart AND (kDone OR kOnlyContinuation) = 0" "kOnlyResult AND (kDone OR kOnlyContinuation) = 0"
  "kOnlyContinuation AND (kDone OR kOnlyContinuation) \<noteq> 0"
  "kDone AND (kDone OR kOnlyContinuation) \<noteq> 0"
  "kOnlyResult \<noteq> 0" "kOnlyContinuation \<noteq> 0" "kDone \<noteq> 0"
  by (simp_all add: state_defs)

lemma fs_wfE:
  assumes "fs_wf s"
  obtains
    (Pending) "fs_state s = kStart" "fs_abs s = Pending" "fs_continuation s = None"
  | (Resolved) "fs_state s = kOnlyResult" "fs_abs s = Resolved (fs_try s)" "fs_continuation s = None"
  | (Awaiting) k where "fs_state s = kOnlyContinuation" "fs_abs s = Awaiting k" "fs_continuation s = Some k"
  | (Completed) "fs_state s = kDone" "fs_abs s = Completed"
  using assms by (auto simp: fs_wf_def fs_abs_def)

lemma HasResult_spec:
  assumes "live w p s" and "fs_wf s"
  shows "HasResult p w = (Return (case fs_abs s of Resolved v \<Rightarrow> True | Completed \<Rightarrow> True | _ \<Rightarrow> False), w)"
  using assms(2)
  by (cases rule: fs_wfE) (simp_all add: HasResult_def run_fs_read [OF assms(1)] outcome_simps)

lemma HasContinuation_spec:
  assumes "live w p s" and "fs_wf s"
  shows "HasContinuation p w =
    (Return (case fs_abs s of Awaiting k \<Rightarrow> True | Completed \<Rightarrow> True | _ \<Rightarrow> False), w)"
  using assms(2)
  by (cases rule: fs_wfE) (simp_all add: HasContinuation_def run_fs_read [OF assms(1)] outcome_simps)

text \<open>The two setters against the abstract future.\<close>

lemma SetResult_cases:
  assumes live: "live w p s" and wf: "fs_wf s"
  shows "SetResult env p v w =
    (case fs_abs s of
       Pending \<Rightarrow> (Return (), put p (s\<lparr>fs_try := v, fs_state := kOnlyResult\<rparr>) w)
     | Awaiting k \<Rightarrow> ScheduleContinuation env p False (put p (s\<lparr>fs_try := v, fs_state := kDone\<rparr>) w)
     | _ \<Rightarrow> (Throw (LogicError ''FutureState already has a result''), w))"
proof -
  have live1: "live (put p (s\<lparr>fs_try := v\<rparr>) w) p (s\<lparr>fs_try := v\<rparr>)" using live by simp
  note run = HasResult_spec [OF live wf] run_fs_write [OF live] run_fs_read [OF live1]
    run_cas [OF live1] outcome_simps
  from wf show ?thesis
    by (cases rule: fs_wfE) (simp_all add: SetResult_def finish_transition_def run)
qed

lemma SetContinuation_cases:
  assumes live: "live w p s" and wf: "fs_wf s"
  shows "SetContinuation env p k w =
    (case fs_abs s of
       Pending \<Rightarrow> (Return (), put p (s\<lparr>fs_continuation := Some k, fs_state := kOnlyContinuation\<rparr>) w)
     | Resolved v \<Rightarrow>
         ScheduleContinuation env p True (put p (s\<lparr>fs_continuation := Some k, fs_state := kDone\<rparr>) w)
     | _ \<Rightarrow> (Throw (LogicError ''FutureState already has a continuation''), w))"
proof -
  have live1: "live (put p (s\<lparr>fs_continuation := Some k\<rparr>) w) p (s\<lparr>fs_continuation := Some k\<rparr>)"
    using live by simp
  note run = HasContinuation_spec [OF live wf] run_fs_write [OF live] run_fs_read [OF live1]
    run_cas [OF live1] outcome_simps
  from wf show ?thesis
    by (cases rule: fs_wfE) (simp_all add: SetContinuation_def finish_transition_def run)
qed

section \<open>Guards\<close>

lemma byte_facts:
  fixes a :: "8 word"
  assumes "1 \<le> unat a" and "unat a < 254"
  shows "a \<noteq> 0" "a + 1 \<noteq> 0" "a + 2 \<noteq> 0" "a + 1 \<noteq> 1" "a + 2 \<noteq> 1" "1 \<le> a" "1 \<le> a + 1" "1 \<le> a + 2"
    "unat (a + 1) = unat a + 1" "unat (a + 2) = unat a + 2"
proof -
  have u1: "unat (a + 1) = unat a + 1"
    using assms by (simp add: unat_word_ariths(1))
  have u2: "unat (a + 2) = unat a + 2"
    using assms by (simp add: unat_word_ariths(1))
  show "unat (a + 1) = unat a + 1" "unat (a + 2) = unat a + 2" by (fact u1, fact u2)
  show "a \<noteq> 0" using assms(1) by auto
  show "a + 1 \<noteq> 0" using u1 by (metis add_is_0 one_neq_zero unat_0)
  show "a + 2 \<noteq> 0" using u2 by (metis add_is_0 zero_neq_numeral unat_0)
  show "a + 1 \<noteq> 1" using assms(1) by auto
  show "a + 2 \<noteq> 1" using u2 assms(1) by (metis One_nat_def add_2_eq_Suc' nat.inject old.nat.distinct(1) unat_1)
  show "1 \<le> a" "1 \<le> a + 1" "1 \<le> a + 2"
    using u1 u2 assms(1) by (simp_all add: word_le_nat_alt)
qed

text \<open>A state that is referenced and can take two more references without overflow.\<close>

definition roomy :: "('v, 'k) future_state \<Rightarrow> bool" where
  "roomy s \<longleftrightarrow> 1 \<le> unat (fs_attached s) \<and> unat (fs_attached s) < 254"

definition guarded :: "('v, 'k) future_state \<Rightarrow> ('v, 'k) future_state" where
  "guarded s = s\<lparr>fs_attached := fs_attached s + 1, fs_continuation_ref := fs_continuation_ref s + 1\<rparr>"

lemma run_Cont_Attach:
  assumes "live w p s"
  shows "Cont_Attach p w = (Return (), (put p (guarded s) w)\<lparr>conts := add_mset p (conts w)\<rparr>)"
proof -
  have "live (put p (s\<lparr>fs_attached := fs_attached s + 1\<rparr>) w) p (s\<lparr>fs_attached := fs_attached s + 1\<rparr>)"
    using assms by simp
  from run_fs_write [OF this] run_fs_write [OF assms] show ?thesis
    by (simp add: Cont_Attach_def AttachOne_def RefContinuation_def outcome_simps guarded_def)
qed

text \<open>The destructor of a reference that is not the last one.\<close>

lemma run_Cont_Detach_shared:
  assumes live: "live w p t" and r: "fs_continuation_ref t = 2" and a: "fs_attached t = a + 2"
    and room: "1 \<le> unat a" "unat a < 254"
  shows "Cont_Detach env p w =
    (Return (), (put p (t\<lparr>fs_continuation_ref := 1, fs_attached := a + 1\<rparr>) w)\<lparr>conts := conts w - {#p#}\<rparr>)"
proof -
  let ?t1 = "t\<lparr>fs_continuation_ref := 1\<rparr>"
  have l1: "live (put p ?t1 w) p ?t1" "live ((put p ?t1 w)\<lparr>conts := conts w - {#p#}\<rparr>) p ?t1"
    using live by simp_all
  have "DerefContinuation env p w = (Return (), put p ?t1 w)"
    using r by (simp add: DerefContinuation_def run_fetch [OF live] outcome_simps)
  moreover have "DetachOne p ((put p ?t1 w)\<lparr>conts := conts w - {#p#}\<rparr>) =
      (Return (), (put p (t\<lparr>fs_continuation_ref := 1, fs_attached := a + 1\<rparr>) w)\<lparr>conts := conts w - {#p#}\<rparr>)"
    using byte_facts [OF room] a
    by (simp add: DetachOne_def run_fetch [OF l1(2)] outcome_simps put_frame add.commute)
  ultimately show ?thesis by (simp add: Cont_Detach_def outcome_simps)
qed

text \<open>
  The destructor of the last reference destroys the continuation; \<open>drop\<close> is what that does to the
  rest of the program, and must leave this state alone.
\<close>

lemma run_Cont_Detach_last:
  assumes live: "live w p t" and r: "fs_continuation_ref t = 1" and a: "fs_attached t = a + 1"
    and room: "1 \<le> unat a" "unat a < 254" and k: "fs_continuation t = Some f"
    and drop: "drop_continuation env f (put p (t\<lparr>fs_continuation_ref := 0\<rparr>) w) =
      (Return (), (put p (t\<lparr>fs_continuation_ref := 0\<rparr>) w)\<lparr>rest := x\<rparr>)"
  shows "Cont_Detach env p w =
    (Return (), (put p (t\<lparr>fs_continuation_ref := 0, fs_continuation := None, fs_attached := a\<rparr>) w)
       \<lparr>rest := x, conts := conts w - {#p#}\<rparr>)"
proof -
  let ?t1 = "t\<lparr>fs_continuation_ref := 0\<rparr>" and ?t2 = "t\<lparr>fs_continuation_ref := 0, fs_continuation := None\<rparr>"
  let ?w2 = "(put p ?t2 w)\<lparr>rest := x\<rparr>"
  have l1: "live (put p ?t1 w) p ?t1" "live ((put p ?t1 w)\<lparr>rest := x\<rparr>) p ?t1"
    "live (?w2\<lparr>conts := conts w - {#p#}\<rparr>) p ?t2"
    using live by simp_all
  have "DerefContinuation env p w = (Return (), ?w2)"
    using r k drop
    by (simp add: DerefContinuation_def run_fetch [OF live] run_fs_read [OF l1(1)]
        run_fs_write [OF l1(2)] outcome_simps put_frame)
  moreover have "DetachOne p (?w2\<lparr>conts := conts w - {#p#}\<rparr>) =
      (Return (), (put p (t\<lparr>fs_continuation_ref := 0, fs_continuation := None, fs_attached := a\<rparr>) w)
        \<lparr>rest := x, conts := conts w - {#p#}\<rparr>)"
    using byte_facts [OF room] a
    by (simp add: DetachOne_def run_fetch [OF l1(3)] outcome_simps put_frame)
  moreover have "conts ?w2 = conts w" by simp
  ultimately show ?thesis by (simp add: Cont_Detach_def outcome_simps)
qed

section \<open>Delivering the result\<close>

text \<open>
  What continuations and executors may do: a continuation that is called is logged, returns or
  throws (if \<open>may_throw\<close>) and leaves the shared states alone, as does its destructor; an executor keeps the closure,
  refuses it, or (only in \<open>Checkin\<close> and only when asked for prompt execution) runs it at once.
  \<open>calls\<close> is the log of the calls, \<open>posted\<close> the bag of closures the executors hold.
\<close>

definition ends :: "bool \<Rightarrow> unit outcome \<Rightarrow> bool" where
  "ends may_throw r \<longleftrightarrow> r = Return () \<or> may_throw \<and> (\<exists>e. r = Throw e)"

lemma guarded_fields:
  "fs_continuation (guarded t) = fs_continuation t" "fs_try (guarded t) = fs_try t"
  "fs_continuation_ref (guarded t) = fs_continuation_ref t + 1"
  "fs_attached (guarded t) = fs_attached t + 1" "fs_executor (guarded t) = fs_executor t"
  "fs_context (guarded t) = fs_context t" "fs_force_scheduled (guarded t) = fs_force_scheduled t"
  by (simp_all add: guarded_def)

text \<open>A normal form for the worlds of these proofs: one state, the references and the rest.\<close>

definition mk ::
  "nat \<Rightarrow> ('v, 'k) future_state \<Rightarrow> nat multiset \<Rightarrow> 'x \<Rightarrow> ('v, 'k, 'x) world \<Rightarrow> ('v, 'k, 'x) world" where
  "mk p s c x w = w\<lparr>heap := (heap w)[p := Some s], conts := c, rest := x\<rparr>"

lemma mk_simps [simp]:
  "mk p s c x (mk p t d y w) = mk p s c x w"
  "put p s (mk p t d y w) = mk p s d y w"
  "(mk p s c x w)\<lparr>rest := y\<rparr> = mk p s c y w"
  "(mk p s c x w)\<lparr>conts := d\<rparr> = mk p s d x w"
  "conts (mk p s c x w) = c" "rest (mk p s c x w) = x"
  "promises (mk p s c x w) = promises w" "futures (mk p s c x w) = futures w"
  by (simp_all add: mk_def put_def)

lemma live_mk [simp]: "live w p s \<Longrightarrow> live (mk p t c x w) p u \<longleftrightarrow> u = t"
  by (auto simp: live_def mk_def)

lemma put_mk: "put p s w = mk p s (conts w) (rest w) w"
  by (simp add: put_def mk_def)

lemma mk_same: "live w p s \<Longrightarrow> mk p s (conts w) (rest w) w = w"
  using put_same [of w p s] by (simp add: put_mk)

lemma rest_mk: "live w p s \<Longrightarrow> w\<lparr>rest := x\<rparr> = mk p s (conts w) x w"
  using mk_same [of w p s] by (metis mk_simps(3))

lemma mk_Cont_Attach:
  "live w p s \<Longrightarrow> Cont_Attach p w = (Return (), mk p (guarded s) (add_mset p (conts w)) (rest w) w)"
  by (simp add: run_Cont_Attach put_mk)

text \<open>The state between two guards: from the second back to the first, and from the first to none.\<close>

definition unguarded :: "('v, 'k) future_state \<Rightarrow> ('v, 'k) future_state" where
  "unguarded t = t\<lparr>fs_continuation := None\<rparr>"

lemma mk_Cont_Detach_shared:
  assumes live: "live w p (guarded (guarded t))" and r: "fs_continuation_ref t = 0" and room: "roomy t"
  shows "Cont_Detach env p w = (Return (), mk p (guarded t) (conts w - {#p#}) (rest w) w)"
proof -
  have "(guarded (guarded t))\<lparr>fs_continuation_ref := 1, fs_attached := fs_attached t + 1\<rparr> = guarded t"
    using r by (cases t) (simp add: guarded_def)
  moreover have "fs_continuation_ref (guarded (guarded t)) = 2"
    "fs_attached (guarded (guarded t)) = fs_attached t + 2"
    using r by (simp_all add: guarded_fields)
  ultimately show ?thesis
    using run_Cont_Detach_shared [OF live, of "fs_attached t" env] room
    by (simp add: roomy_def put_mk)
qed

lemma mk_Cont_Detach_last:
  assumes live: "live w p (guarded t)" and r: "fs_continuation_ref t = 0" and room: "roomy t"
    and k: "fs_continuation t = Some f"
    and drop: "drop_continuation env f (mk p ((guarded t)\<lparr>fs_continuation_ref := 0\<rparr>) (conts w) (rest w) w) =
      (Return (), mk p ((guarded t)\<lparr>fs_continuation_ref := 0\<rparr>) (conts w) x w)"
  shows "Cont_Detach env p w = (Return (), mk p (unguarded t) (conts w - {#p#}) x w)"
proof -
  have "(guarded t)\<lparr>fs_continuation_ref := 0, fs_continuation := None, fs_attached := fs_attached t\<rparr> =
      unguarded t"
    using r by (cases t) (simp add: guarded_def unguarded_def)
  moreover have "fs_continuation_ref (guarded t) = 1" "fs_attached (guarded t) = fs_attached t + 1"
    using r by (simp_all add: guarded_fields)
  ultimately show ?thesis
    using run_Cont_Detach_last [OF live, of "fs_attached t" f env x] room k drop
    by (simp add: roomy_def put_mk guarded_fields)
qed

locale delivery =
  fixes env :: "('v, 'k, 'x) env"
    and may_throw :: bool
    and good :: "'x \<Rightarrow> bool"
    and context_ok :: "exec_context \<Rightarrow> bool"
    and calls :: "'x \<Rightarrow> ('k \<times> 'v try_val) list"
    and posted :: "'x \<Rightarrow> nat multiset"
  assumes call: "good (rest w) \<Longrightarrow> live w p s \<Longrightarrow>
      \<exists>r x. call_continuation env k p w = (r, w\<lparr>rest := x\<rparr>) \<and> ends may_throw r \<and>
        calls x = calls (rest w) @ [(k, fs_try s)] \<and> posted x = posted (rest w) \<and> good x"
    and drop: "good (rest w) \<Longrightarrow> \<exists>x. drop_continuation env k w = (Return (), w\<lparr>rest := x\<rparr>) \<and>
        calls x = calls (rest w) \<and> posted x = posted (rest w) \<and> good x"
    and in_thread: "good (rest w) \<Longrightarrow> \<exists>b x. exec_in_thread env e w = (Return b, w\<lparr>rest := x\<rparr>) \<and>
        calls x = calls (rest w) \<and> posted x = posted (rest w) \<and> good x"
    and sched: "good (rest w) \<Longrightarrow> \<exists>b x. exec_schedule env e p w = (Return (b, b), w\<lparr>rest := x\<rparr>) \<and>
        calls x = calls (rest w) \<and> good x \<and>
        posted x = (if b then add_mset p (posted (rest w)) else posted (rest w))"
    and checkin: "good (rest w) \<Longrightarrow> context_ok c \<Longrightarrow> \<exists>x. calls x = calls (rest w) \<and> good x \<and>
      (posted x = add_mset p (posted (rest w)) \<and>
         exec_checkin env e p c opts w = (Return (True, True), w\<lparr>rest := x\<rparr>) \<or>
       posted x = posted (rest w) \<and>
         exec_checkin env e p c opts w = (Return (False, False), w\<lparr>rest := x\<rparr>) \<or>
       posted x = posted (rest w) \<and> prompt opts \<and>
         exec_checkin env e p c opts w = bind (invoke env p) (\<lambda>_. ret (True, False)) (w\<lparr>rest := x\<rparr>))"
begin

lemma run_invoke:
  assumes "good (rest w)" and "live w p t" and "fs_continuation t = Some k"
  obtains r x where "invoke env p w = (r, w\<lparr>rest := x\<rparr>)" "ends may_throw r"
    "calls x = calls (rest w) @ [(k, fs_try t)]" "posted x = posted (rest w)" "good x"
  using call [OF assms(1,2), of k] assms(3)
  by (auto simp: invoke_def run_fs_read [OF assms(2)] outcome_simps)

lemma run_detach_last:
  assumes "good (rest w)" and "live w p (guarded t)" and "fs_continuation_ref t = 0" and "roomy t"
    and "fs_continuation t = Some f"
  obtains x where "Cont_Detach env p w = (Return (), mk p (unguarded t) (conts w - {#p#}) x w)"
    "calls x = calls (rest w)" "posted x = posted (rest w)" "good x"
proof -
  let ?w = "mk p ((guarded t)\<lparr>fs_continuation_ref := 0\<rparr>) (conts w) (rest w) w"
  obtain x where x: "drop_continuation env f ?w = (Return (), ?w\<lparr>rest := x\<rparr>)"
    "calls x = calls (rest w)" "posted x = posted (rest w)" "good x"
    using drop [of ?w f] assms(1) by auto
  with mk_Cont_Detach_last [OF assms(2-)] that show thesis by simp
qed

text \<open>Running the closure, here or later: one call, and the state is left without continuation.\<close>

lemma run_closure:
  assumes good: "good (rest w)" and live: "live w p (guarded t)" and r: "fs_continuation_ref t = 0" and room: "roomy t"
    and k: "fs_continuation t = Some k"
  obtains rr x where "run_posted env p w = (rr, mk p (unguarded t) (conts w - {#p#}) x w)"
    "ends may_throw rr" "calls x = calls (rest w) @ [(k, fs_try t)]" "posted x = posted (rest w)" "good x"
proof -
  have k': "fs_continuation (guarded t) = Some k" using k by (simp add: guarded_fields)
  obtain rr x where inv: "invoke env p w = (rr, w\<lparr>rest := x\<rparr>)" "ends may_throw rr"
    "calls x = calls (rest w) @ [(k, fs_try t)]" "posted x = posted (rest w)" "good x"
    using run_invoke [OF good live k'] by (auto simp: guarded_fields)
  have "good (rest (w\<lparr>rest := x\<rparr>))" "live (w\<lparr>rest := x\<rparr>) p (guarded t)" using live inv by simp_all
  from run_detach_last [OF this r room k] obtain y where det:
    "Cont_Detach env p (w\<lparr>rest := x\<rparr>) =
      (Return (), mk p (unguarded t) (conts w - {#p#}) y (w\<lparr>rest := x\<rparr>))"
    "calls y = calls x" "posted y = posted x" "good y" by auto
  have "mk p (unguarded t) (conts w - {#p#}) y (w\<lparr>rest := x\<rparr>) = mk p (unguarded t) (conts w - {#p#}) y w"
    by (simp add: mk_def)
  then have "run_posted env p w = (rr, mk p (unguarded t) (conts w - {#p#}) y w)"
    using inv(1,2) det(1) by (auto simp: run_posted_def outcome_simps ends_def)
  with that inv det show thesis by simp
qed

lemma run_here:
  assumes good: "good (rest w)" and live: "live w p t" and r: "fs_continuation_ref t = 0" and room: "roomy t"
    and k: "fs_continuation t = Some k"
  obtains rr x where "with_guard env p (invoke env p) w = (rr, mk p (unguarded t) (conts w) x w)"
    "ends may_throw rr" "calls x = calls (rest w) @ [(k, fs_try t)]" "posted x = posted (rest w)" "good x"
proof -
  let ?w = "mk p (guarded t) (add_mset p (conts w)) (rest w) w"
  have "good (rest ?w)" "live ?w p (guarded t)" using live good by simp_all
  from run_closure [OF this r room k] that show thesis
    by (auto simp: with_guard_def run_posted_def mk_Cont_Attach [OF live] outcome_simps)
qed

end

text \<open>
  How a delivery of the result in \<open>t\<close> to \<open>k\<close> can end: called here (once), or posted (once) with the
  state kept alive by the closure's reference.
\<close>

definition delivered ::
  "('x \<Rightarrow> bool) \<Rightarrow> ('x \<Rightarrow> ('k \<times> 'v try_val) list) \<Rightarrow> ('x \<Rightarrow> nat multiset) \<Rightarrow> nat \<Rightarrow> 'k \<Rightarrow> ('v, 'k) future_state \<Rightarrow>
     ('v, 'k, 'x) world \<Rightarrow> ('v, 'k, 'x) world \<Rightarrow> bool" where
  "delivered good calls posted p k t w w' \<longleftrightarrow>
     (\<exists>x. w' = mk p (unguarded t) (conts w) x w \<and> good x \<and>
        calls x = calls (rest w) @ [(k, fs_try t)] \<and> posted x = posted (rest w))"

definition handed_over ::
  "('x \<Rightarrow> bool) \<Rightarrow> ('x \<Rightarrow> ('k \<times> 'v try_val) list) \<Rightarrow> ('x \<Rightarrow> nat multiset) \<Rightarrow> nat \<Rightarrow> ('v, 'k) future_state \<Rightarrow>
     ('v, 'k, 'x) world \<Rightarrow> ('v, 'k, 'x) world \<Rightarrow> bool" where
  "handed_over good calls posted p t w w' \<longleftrightarrow>
     (\<exists>x. w' = mk p (guarded t) (add_mset p (conts w)) x w \<and> good x \<and>
        calls x = calls (rest w) \<and> posted x = add_mset p (posted (rest w)))"

context delivery
begin

text \<open>The call of the executor, with the two guards held.\<close>

lemma run_post:
  assumes good: "good (rest w)" and live: "live w p (guarded (guarded t))" and r: "fs_continuation_ref t = 0" and room: "roomy t"
    and k: "fs_continuation t = Some k" and e: "fs_executor t = Some e"
    and c: "fs_context t = kNullContext \<or> context_ok (fs_context t)"
  obtains
    (kept) x where "post_continuation env p w = (Return True, w\<lparr>rest := x\<rparr>)"
      "calls x = calls (rest w)" "posted x = add_mset p (posted (rest w))" "good x"
  | (refused) x where "post_continuation env p w = (Return False, mk p (guarded t) (conts w - {#p#}) x w)"
      "calls x = calls (rest w)" "posted x = posted (rest w)" "good x"
  | (ran) rr x where "post_continuation env p w = (rr, mk p (guarded t) (conts w - {#p#}) x w)"
      "rr = Return True \<or> may_throw \<and> (\<exists>ex. rr = Throw ex)"
      "calls x = calls (rest w) @ [(k, fs_try t)]" "posted x = posted (rest w)" "good x"
proof -
  let ?c = "fs_context t" and ?o = "\<lparr>prompt = (\<not> fs_force_scheduled t)\<rparr>"
  let ?m = "if ?c = kNullContext then exec_schedule env e p else exec_checkin env e p ?c ?o"
  have post: "post_continuation env p w =
      bind (try_catch ?m (\<lambda>ex. seq (noexcept (Cont_Detach env p)) (throw ex)))
        (\<lambda>(ok, kept). if kept then ret ok else seq (noexcept (Cont_Detach env p)) (ret ok)) w"
    using e by (simp add: post_continuation_def run_fs_read [OF live] guarded_fields outcome_simps)
  have detach: "Cont_Detach env p (w\<lparr>rest := x\<rparr>) = (Return (), mk p (guarded t) (conts w - {#p#}) x w)" for x
    using mk_Cont_Detach_shared [of "w\<lparr>rest := x\<rparr>" p t env] live r room by (simp add: mk_def)
  have "\<exists>x. calls x = calls (rest w) \<and> good x \<and>
      (posted x = add_mset p (posted (rest w)) \<and> ?m w = (Return (True, True), w\<lparr>rest := x\<rparr>) \<or>
       posted x = posted (rest w) \<and> ?m w = (Return (False, False), w\<lparr>rest := x\<rparr>) \<or>
       posted x = posted (rest w) \<and> ?m w = bind (invoke env p) (\<lambda>_. ret (True, False)) (w\<lparr>rest := x\<rparr>))"
  proof (cases "?c = kNullContext")
    case True
    obtain b x where "exec_schedule env e p w = (Return (b, b), w\<lparr>rest := x\<rparr>)" "calls x = calls (rest w)"
      "posted x = (if b then add_mset p (posted (rest w)) else posted (rest w))" "good x"
      using sched [OF good, of e p] by blast
    with True show ?thesis by (cases b) auto
  next
    case False
    with checkin [OF good, of ?c p e ?o] c show ?thesis by auto
  qed
  then obtain x where x: "calls x = calls (rest w)" "good x" and
    "posted x = add_mset p (posted (rest w)) \<and> ?m w = (Return (True, True), w\<lparr>rest := x\<rparr>) \<or>
     posted x = posted (rest w) \<and> ?m w = (Return (False, False), w\<lparr>rest := x\<rparr>) \<or>
     posted x = posted (rest w) \<and> ?m w = bind (invoke env p) (\<lambda>_. ret (True, False)) (w\<lparr>rest := x\<rparr>)"
    by blast
  then consider "posted x = add_mset p (posted (rest w))" "?m w = (Return (True, True), w\<lparr>rest := x\<rparr>)"
    | "posted x = posted (rest w)" "?m w = (Return (False, False), w\<lparr>rest := x\<rparr>)"
    | "posted x = posted (rest w)" "?m w = bind (invoke env p) (\<lambda>_. ret (True, False)) (w\<lparr>rest := x\<rparr>)"
    by blast
  then show thesis
  proof cases
    case 1
    with x show thesis by (intro kept) (simp_all add: post run_bind run_try_catch run_method)
  next
    case 2
    with x show thesis
      by (intro refused [of x]) (simp_all add: post outcome_simps detach)
  next
    case 3
    have g: "good (rest (w\<lparr>rest := x\<rparr>))" using x by simp
    have l: "live (w\<lparr>rest := x\<rparr>) p (guarded (guarded t))" using live by simp
    have k': "fs_continuation (guarded (guarded t)) = Some k" using k by (simp add: guarded_fields)
    obtain r y where inv: "invoke env p (w\<lparr>rest := x\<rparr>) = (r, w\<lparr>rest := y\<rparr>)" "ends may_throw r"
      "calls y = calls x @ [(k, fs_try t)]" "posted y = posted x" "good y"
      using run_invoke [OF g l k'] by (auto simp: guarded_fields)
    show thesis
    proof (cases "r = Return ()")
      case True
      with 3 inv x show thesis
        by (intro ran [of "Return True" y]) (simp_all add: post run_bind run_try_catch run_seq
            run_noexcept run_method detach)
    next
      case False
      then obtain ex where "r = Throw ex" "may_throw" using inv(2) by (auto simp: ends_def)
      with 3 inv x show thesis
        by (intro ran [of "Throw ex" y]) (simp_all add: post run_bind run_try_catch run_seq
            run_noexcept run_method detach)
    qed
  qed
qed

text \<open>The whole posted path, from the first guard on.\<close>

lemma run_post_path:
  assumes good: "good (rest w)" and live: "live w p t" and r: "fs_continuation_ref t = 0" and room: "roomy t"
    and k: "fs_continuation t = Some k" and e: "fs_executor t = Some e"
    and c: "fs_context t = kNullContext \<or> context_ok (fs_context t)"
  shows "\<exists>rr w'. seq (Cont_Attach p) (with_guard env p
      (bind (post_continuation env p) (\<lambda>ok. if ok then ret () else invoke env p))) w = (rr, w') \<and>
    ends may_throw rr \<and> (delivered good calls posted p k t w w' \<or> handed_over good calls posted p t w w')"
proof -
  let ?c = "add_mset p (conts w)"
  let ?w2 = "mk p (guarded (guarded t)) (add_mset p ?c) (rest w) w"
  let ?m = "bind (post_continuation env p) (\<lambda>ok. if ok then ret () else invoke env p)"
  have l1: "live (mk p (guarded t) ?c (rest w) w) p (guarded t)" and
    l2: "good (rest ?w2)" "live ?w2 p (guarded (guarded t))" using live good by simp_all
  have start: "seq (Cont_Attach p) (with_guard env p ?m) w = finally_do ?m (Cont_Detach env p) ?w2"
    by (simp add: with_guard_def run_seq run_bind mk_Cont_Attach [OF live] mk_Cont_Attach [OF l1])
  show ?thesis
  proof (rule run_post [OF l2 r room k e c])
    fix x assume post: "post_continuation env p ?w2 = (Return True, ?w2\<lparr>rest := x\<rparr>)"
      and x: "calls x = calls (rest ?w2)" "posted x = add_mset p (posted (rest ?w2))" "good x"
    have "live (?w2\<lparr>rest := x\<rparr>) p (guarded (guarded t))" using live by simp
    from mk_Cont_Detach_shared [OF this r room]
    have "finally_do ?m (Cont_Detach env p) ?w2 = (Return (), mk p (guarded t) ?c x w)"
      using post by (simp add: outcome_simps)
    with start x show ?thesis by (auto simp: handed_over_def ends_def)
  next
    fix x assume post: "post_continuation env p ?w2 =
        (Return False, mk p (guarded t) (conts ?w2 - {#p#}) x ?w2)"
      and x: "calls x = calls (rest ?w2)" "posted x = posted (rest ?w2)" "good x"
    let ?w3 = "mk p (guarded t) ?c x w"
    have "finally_do ?m (Cont_Detach env p) ?w2 = run_posted env p ?w3"
      using post by (simp add: run_finally_do run_bind run_posted_def)
    moreover have "good (rest ?w3)" "live ?w3 p (guarded t)" using live x by simp_all
    from run_closure [OF this r room k] obtain rr y where
      "run_posted env p ?w3 = (rr, mk p (unguarded t) (conts w) y w)" "ends may_throw rr"
      "calls y = calls x @ [(k, fs_try t)]" "posted y = posted x" "good y" by auto
    ultimately show ?thesis using start x by (auto simp: delivered_def)
  next
    fix rr x assume post: "post_continuation env p ?w2 = (rr, mk p (guarded t) (conts ?w2 - {#p#}) x ?w2)"
      and rr: "rr = Return True \<or> may_throw \<and> (\<exists>ex. rr = Throw ex)"
      and x: "calls x = calls (rest ?w2) @ [(k, fs_try t)]" "posted x = posted (rest ?w2)" "good x"
    let ?w3 = "mk p (guarded t) ?c x w"
    have "good (rest ?w3)" "live ?w3 p (guarded t)" using live x by simp_all
    from run_detach_last [OF this r room k] obtain y where det:
      "Cont_Detach env p ?w3 = (Return (), mk p (unguarded t) (conts w) y w)"
      "calls y = calls x" "posted y = posted x" "good y" by auto
    have "\<exists>r'. ends may_throw r' \<and> finally_do ?m (Cont_Detach env p) ?w2 = (r', mk p (unguarded t) (conts w) y w)"
      using rr post det by (auto simp: outcome_simps ends_def)
    with start x det show ?thesis by (auto simp: delivered_def)
  qed
qed

lemma run_here_delivers:
  assumes "good (rest w)" and "live w p t" and "fs_continuation_ref t = 0" and "roomy t" and "fs_continuation t = Some k"
  shows "\<exists>rr w'. with_guard env p (invoke env p) w = (rr, w') \<and> ends may_throw rr \<and> delivered good calls posted p k t w w'"
  using run_here [OF assms] by (metis delivered_def)

lemma delivered_rest:
  assumes "calls x = calls (rest w)" and "posted x = posted (rest w)"
  shows "delivered good calls posted p k t (w\<lparr>rest := x\<rparr>) w' = delivered good calls posted p k t w w'"
    and "handed_over good calls posted p t (w\<lparr>rest := x\<rparr>) w' = handed_over good calls posted p t w w'"
  using assms by (simp_all add: delivered_def handed_over_def mk_def)

lemma schedule_delivers:
  assumes good: "good (rest w)" and live: "live w p t" and done_t: "fs_state t = kDone" and r: "fs_continuation_ref t = 0"
    and room: "roomy t" and k: "fs_continuation t = Some k"
    and force: "fs_force_scheduled t \<longrightarrow> fs_executor t \<noteq> None"
    and c: "fs_context t = kNullContext \<or> context_ok (fs_context t)"
  shows "\<exists>rr w'. ScheduleContinuation env p trig w = (rr, w') \<and> ends may_throw rr \<and>
    (delivered good calls posted p k t w w' \<or>
     handed_over good calls posted p t w w' \<and> fs_executor t \<noteq> None \<and> (trig \<longrightarrow> fs_force_scheduled t))"
proof -
  let ?go = "\<lambda>inline. if inline then with_guard env p (invoke env p)
    else seq (Cont_Attach p) (with_guard env p
      (bind (post_continuation env p) (\<lambda>ok. if ok then ret () else invoke env p)))"
  have sched: "ScheduleContinuation env p trig w = bind (runs_inline env p trig) ?go w"
    using done_t by (simp add: ScheduleContinuation_def run_fs_read [OF live] outcome_simps)
  show ?thesis
  proof (cases "\<not> fs_force_scheduled t \<and> (fs_executor t = None \<or> trig)")
    case True
    then have "runs_inline env p trig w = (Return True, w)"
      by (simp add: runs_inline_def run_fs_read [OF live] outcome_simps)
    with sched run_here_delivers [OF good live r room k] show ?thesis by (auto simp: run_bind)
  next
    case False
    then obtain e where e: "fs_executor t = Some e" using force by auto
    show ?thesis
    proof (cases "fs_force_scheduled t")
      case True
      then have "runs_inline env p trig w = (Return False, w)"
        by (simp add: runs_inline_def run_fs_read [OF live] outcome_simps)
      then have "ScheduleContinuation env p trig w = ?go False w"
        by (simp add: sched run_bind)
      with run_post_path [OF good live r room k e c] True e show ?thesis by auto
    next
      case no: False
      obtain b x where x: "exec_in_thread env e w = (Return b, w\<lparr>rest := x\<rparr>)"
        "calls x = calls (rest w)" "posted x = posted (rest w)" "good x"
        using in_thread [OF good, of e] by blast
      have l: "good (rest (w\<lparr>rest := x\<rparr>))" "live (w\<lparr>rest := x\<rparr>) p t" using live x by simp_all
      have "runs_inline env p trig w = (Return b, w\<lparr>rest := x\<rparr>)"
        using False no e x(1) by (simp add: runs_inline_def FS_CurrentThreadInExecutor_def
            run_fs_read [OF live] run_bind run_method)
      then have "ScheduleContinuation env p trig w = ?go b (w\<lparr>rest := x\<rparr>)"
        by (simp add: sched run_bind)
      with run_post_path [OF l r room k e c] run_here_delivers [OF l r room k]
        delivered_rest [OF x(2,3)] False no e show ?thesis by (cases b) auto
    qed
  qed
qed

text \<open>Setting the result after the continuation, and the continuation after the result.\<close>

lemma set_result_delivers:
  fixes v :: "'v try_val"
  assumes good: "good (rest w)" and live: "live w p s" and wf: "fs_wf s" and abs: "fs_abs s = Awaiting k"
    and r: "fs_continuation_ref s = 0" and room: "roomy s"
    and force: "fs_force_scheduled s \<longrightarrow> fs_executor s \<noteq> None"
    and c: "fs_context s = kNullContext \<or> context_ok (fs_context s)"
  defines "t \<equiv> s\<lparr>fs_try := v, fs_state := kDone\<rparr>"
  shows "\<exists>rr w'. SetResult env p v w = (rr, w') \<and> ends may_throw rr \<and>
    (delivered good calls posted p k t w w' \<or> handed_over good calls posted p t w w' \<and> fs_executor s \<noteq> None)"
proof -
  let ?w = "put p t w"
  have t: "good (rest ?w)" "live ?w p t" "fs_state t = kDone" "fs_continuation_ref t = 0" "roomy t"
    "fs_continuation t = Some k" "fs_force_scheduled t \<longrightarrow> fs_executor t \<noteq> None"
    "fs_context t = kNullContext \<or> context_ok (fs_context t)" "fs_executor t = fs_executor s"
    using good live r room force wf abs c by (auto simp: t_def roomy_def fs_wf_def fs_abs_def split: if_splits)
  have "SetResult env p v w = ScheduleContinuation env p False ?w"
    using abs by (simp add: SetResult_cases [OF live wf] t_def)
  moreover have "delivered good calls posted p k t ?w w' = delivered good calls posted p k t w w'"
    "handed_over good calls posted p t ?w w' = handed_over good calls posted p t w w'" for w'
    by (simp_all add: delivered_def handed_over_def put_mk)
  ultimately show ?thesis using schedule_delivers [OF t(1-8), of False] t(9) by simp
qed

lemma set_continuation_delivers:
  fixes k :: 'k
  assumes good: "good (rest w)" and live: "live w p s" and wf: "fs_wf s" and abs: "fs_abs s = Resolved v"
    and r: "fs_continuation_ref s = 0" and room: "roomy s"
    and force: "fs_force_scheduled s \<longrightarrow> fs_executor s \<noteq> None"
    and c: "fs_context s = kNullContext \<or> context_ok (fs_context s)"
  defines "t \<equiv> s\<lparr>fs_continuation := Some k, fs_state := kDone\<rparr>"
  shows "\<exists>rr w'. SetContinuation env p k w = (rr, w') \<and> ends may_throw rr \<and>
    (delivered good calls posted p k t w w' \<or> handed_over good calls posted p t w w' \<and> fs_force_scheduled s)"
proof -
  let ?w = "put p t w"
  have t: "good (rest ?w)" "live ?w p t" "fs_state t = kDone" "fs_continuation_ref t = 0" "roomy t"
    "fs_continuation t = Some k" "fs_force_scheduled t \<longrightarrow> fs_executor t \<noteq> None"
    "fs_context t = kNullContext \<or> context_ok (fs_context t)" "fs_force_scheduled t = fs_force_scheduled s"
    using good live r room force c by (auto simp: t_def roomy_def)
  have "SetContinuation env p k w = ScheduleContinuation env p True ?w"
    using abs by (simp add: SetContinuation_cases [OF live wf] t_def)
  moreover have "delivered good calls posted p k t ?w w' = delivered good calls posted p k t w w'"
    "handed_over good calls posted p t ?w w' = handed_over good calls posted p t w w'" for w'
    by (simp_all add: delivered_def handed_over_def put_mk)
  ultimately show ?thesis using schedule_delivers [OF t(1-8), of True] t(9) by auto
qed

end

end
