(* ===== verification/Future_Delivery.thy ===== *)
theory Future_Delivery
  imports Future_State
begin

text \<open>
  The shared state on top of the thread pool: the environment of \<^verbatim>\<open>Future_State.thy\<close> in which the
  executors are the \<open>SimpleExecutor\<close> of \<^verbatim>\<open>Executor_Model.thy\<close>, so that a posted continuation is an
  item of a worker's queue, and continuations are user functions that are logged and may throw.
\<close>

section \<open>The environment\<close>

record ('v, 'k) sys =
  sys_pool :: "nat pool"
  sys_calls :: "('k \<times> 'v try_val) list"

definition on_pool :: "(nat pool, 'a) action \<Rightarrow> (('v, 'k, ('v, 'k) sys) world, 'a) action" where
  "on_pool m w =
     (case m (sys_pool (rest w)) of
        (r, p) \<Rightarrow> (r, w\<lparr>rest := (rest w)\<lparr>sys_pool := p\<rparr>\<rparr>))"

definition log_call ::
  "('k \<Rightarrow> 'v try_val \<Rightarrow> exn option) \<Rightarrow> 'k \<Rightarrow> nat \<Rightarrow> (('v, 'k, ('v, 'k) sys) world, unit) action" where
  "log_call throws k p =
     bind (fs_read p fs_try) (\<lambda>v.
       seq (modify (\<lambda>w. w\<lparr>rest := (rest w)\<lparr>sys_calls := sys_calls (rest w) @ [(k, v)]\<rparr>\<rparr>))
         (case throws k v of None \<Rightarrow> ret () | Some e \<Rightarrow> throw e))"

definition log_call_on_local ::
  "('k \<Rightarrow> 'v try_val \<Rightarrow> exn option) \<Rightarrow> 'k \<Rightarrow> nat \<Rightarrow> (('v, 'k, ('v, 'k) sys) world, unit) action" where
  "log_call_on_local throws k l w =
     (if l < length (futures w) then
        (case futures w ! l of
           None \<Rightarrow> (Undefined, w)
         | Some f \<Rightarrow>
             (case throws k (ls_try (f_local f)) of None \<Rightarrow> Return () | Some e \<Rightarrow> Throw e,
              w\<lparr>rest := (rest w)\<lparr>sys_calls := sys_calls (rest w) @ [(k, ls_try (f_local f))]\<rparr>\<rparr>))
      else (Undefined, w))"

definition run_closure_now ::
  "('k \<Rightarrow> 'v try_val \<Rightarrow> exn option) \<Rightarrow> nat \<Rightarrow> (('v, 'k, ('v, 'k) sys) world, unit) action" where
  "run_closure_now throws p =
     bind (fs_read p fs_continuation) (\<lambda>k.
       case k of None \<Rightarrow> undef | Some f \<Rightarrow> log_call throws f p)"

text \<open>
  The executor calls made by one thread, whose thread-local pair is \<open>current\<close>; \<open>lk\<close> and \<open>rand\<close> are the
  pool's lock and random choices. What the pool accepted it has kept.
\<close>

definition simple_env ::
  "('k \<Rightarrow> 'v try_val \<Rightarrow> exn option) \<Rightarrow> (nat \<Rightarrow> bool) \<Rightarrow> nat \<Rightarrow> nat \<Rightarrow> current \<Rightarrow>
     ('v, 'k, ('v, 'k) sys) env" where
  "simple_env throws lk rand this current =
     \<lparr>call_continuation = log_call throws,
      call_on_local = log_call_on_local throws,
      drop_continuation = (\<lambda>k. ret ()),
      exec_in_thread = (\<lambda>e. ret (Simple_CurrentThreadInExecutor this current)),
      exec_schedule = (\<lambda>e p. bind (on_pool (Simple_Schedule lk rand (Some p))) (\<lambda>ok. ret (ok, ok))),
      exec_checkin = (\<lambda>e p c options.
        if Simple_prompt_now this current c options
        then bind (run_closure_now throws p) (\<lambda>_. ret (True, False))
        else bind (on_pool (Simple_Checkin (\<lambda>_. undef) lk rand this current (Some p) c \<lparr>prompt = False\<rparr>))
               (\<lambda>ok. ret (ok, ok))),
      exec_checkout = (\<lambda>e. ret (Simple_Checkout this current))\<rparr>"

lemma simple_env_fields:
  "call_continuation (simple_env throws lk rand this current) = log_call throws"
  "drop_continuation (simple_env throws lk rand this current) = (\<lambda>k. ret ())"
  "invoke (simple_env throws lk rand this current) p = run_closure_now throws p"
  by (simp_all add: simple_env_def invoke_def run_closure_now_def cong: option.case_cong)

section \<open>It keeps the contract of a delivery\<close>

definition sys_good :: "nat \<Rightarrow> ('v, 'k) sys \<Rightarrow> bool" where
  "sys_good n x \<longleftrightarrow> pool_wf (sys_pool x) \<and> thread_num (sys_pool x) = n \<and> 0 < n"

definition sys_context :: "nat \<Rightarrow> exec_context \<Rightarrow> bool" where
  "sys_context n c \<longleftrightarrow> (\<exists>i < n. c = worker_context i)"

definition sys_posted :: "('v, 'k) sys \<Rightarrow> nat multiset" where
  "sys_posted x = pool_fns (sys_pool x)"

lemma Simple_Schedule_total:
  assumes wf: "pool_wf p" and n: "0 < thread_num p"
  shows "\<exists>b p'. Simple_Schedule lk rand (Some f) p = (Return b, p') \<and> pool_wf p' \<and>
    thread_num p' = thread_num p \<and> pool_fns p' = (if b then add_mset f (pool_fns p) else pool_fns p)"
proof -
  have "\<exists>e p'. Pool_ScheduleById lk rand (Some f) (- 1) p = (Return e, p')"
    using n by (simp add: Pool_ScheduleById_def split: option.split)
  then obtain e p' where run: "Pool_ScheduleById lk rand (Some f) (- 1) p = (Return e, p')" by blast
  then have sched: "Simple_Schedule lk rand (Some f) p = (Return (e = kErrorNone), p')"
    by (simp add: Simple_Schedule_def outcome_simps)
  have "pool_wf p' \<and> pool_fns p' = pool_fns p + (if e = kErrorNone then {#f#} else {#})"
    using simple.schedule_owed [OF wf, of "(lk, rand)" "Some f" "e = kErrorNone" p'] sched by simp
  moreover have "thread_num p' = thread_num p"
  proof (cases "e = kErrorNone")
    case True
    with schedule_accepts [OF wf, of lk rand "Some f" "- 1" p'] run show ?thesis
      by (auto simp: push_to_def)
  next
    case False
    with schedule_refuses [of lk rand "Some f" "- 1" p] run show ?thesis by simp
  qed
  ultimately show ?thesis using sched by auto
qed


lemma log_call_run:
  assumes "live w p s"
  shows "\<exists>r. log_call throws k p w =
      (r, w\<lparr>rest := (rest w)\<lparr>sys_calls := sys_calls (rest w) @ [(k, fs_try s)]\<rparr>\<rparr>) \<and> ends (\<exists>k v. throws k v \<noteq> None) r"
  by (cases "throws k (fs_try s)")
    (auto simp: log_call_def run_fs_read [OF assms] outcome_simps ends_def)

lemma sys_good_pool:
  "sys_good n x \<Longrightarrow> pool_wf p \<Longrightarrow> thread_num p = thread_num (sys_pool x) \<Longrightarrow>
   sys_good n (x\<lparr>sys_pool := p\<rparr>)"
  by (simp add: sys_good_def)

interpretation simple_delivery: delivery "simple_env throws lk rand this current"
  "\<exists>k v. throws k v \<noteq> None" "sys_good n"
  "sys_context n" sys_calls sys_posted
  for throws :: "'k \<Rightarrow> 'v try_val \<Rightarrow> exn option" and lk rand this current n
proof unfold_locales
  fix w :: "('v, 'k, ('v, 'k) sys) world" and p s k
  assume good: "sys_good n (rest w)" and live: "live w p s"
  show "\<exists>r x. call_continuation (simple_env throws lk rand this current) k p w = (r, w\<lparr>rest := x\<rparr>) \<and>
      ends (\<exists>k v. throws k v \<noteq> None) r \<and> sys_calls x = sys_calls (rest w) @ [(k, fs_try s)] \<and>
      sys_posted x = sys_posted (rest w) \<and> sys_good n x"
  proof -
    let ?x = "(rest w)\<lparr>sys_calls := sys_calls (rest w) @ [(k, fs_try s)]\<rparr>"
    obtain r where "log_call throws k p w = (r, w\<lparr>rest := ?x\<rparr>)" "ends (\<exists>k v. throws k v \<noteq> None) r"
      using log_call_run [OF live, of throws k] by blast
    with good show ?thesis
      by (intro exI [of _ r] exI [of _ ?x])
        (simp add: simple_env_fields sys_posted_def sys_good_def)
  qed
next
  fix w :: "('v, 'k, ('v, 'k) sys) world" and k
  assume good: "sys_good n (rest w)"
  show "\<exists>x. drop_continuation (simple_env throws lk rand this current) k w = (Return (), w\<lparr>rest := x\<rparr>) \<and>
      sys_calls x = sys_calls (rest w) \<and> sys_posted x = sys_posted (rest w) \<and> sys_good n x"
    using good by (intro exI [of _ "rest w"]) (simp add: simple_env_fields run_method)
next
  fix w :: "('v, 'k, ('v, 'k) sys) world" and e
  assume good: "sys_good n (rest w)"
  show "\<exists>b x. exec_in_thread (simple_env throws lk rand this current) e w = (Return b, w\<lparr>rest := x\<rparr>) \<and>
      sys_calls x = sys_calls (rest w) \<and> sys_posted x = sys_posted (rest w) \<and> sys_good n x"
    using good
    by (intro exI [of _ "Simple_CurrentThreadInExecutor this current"] exI [of _ "rest w"])
      (simp add: simple_env_def run_method)
next
  fix w :: "('v, 'k, ('v, 'k) sys) world" and e p
  assume good: "sys_good n (rest w)"
  then obtain b q where "Simple_Schedule lk rand (Some p) (sys_pool (rest w)) = (Return b, q)"
    "pool_wf q" "thread_num q = thread_num (sys_pool (rest w))"
    "pool_fns q = (if b then add_mset p (pool_fns (sys_pool (rest w))) else pool_fns (sys_pool (rest w)))"
    using Simple_Schedule_total [of "sys_pool (rest w)" lk rand p] by (auto simp: sys_good_def)
  with good show "\<exists>b x. exec_schedule (simple_env throws lk rand this current) e p w =
        (Return (b, b), w\<lparr>rest := x\<rparr>) \<and>
      sys_calls x = sys_calls (rest w) \<and> sys_good n x \<and>
      sys_posted x = (if b then add_mset p (sys_posted (rest w)) else sys_posted (rest w))"
    by (intro exI [of _ b] exI [of _ "(rest w)\<lparr>sys_pool := q\<rparr>"])
      (simp add: simple_env_def on_pool_def run_bind run_method sys_posted_def sys_good_def)
next
  fix w :: "('v, 'k, ('v, 'k) sys) world" and e p c opts
  assume good: "sys_good n (rest w)" and ctx: "sys_context n c"
  let ?env = "simple_env throws lk rand this current" and ?p = "sys_pool (rest w)"
  from ctx obtain i where i: "i < n" "c = worker_context i" by (auto simp: sys_context_def)
  with good have wf: "pool_wf ?p" "i < thread_num ?p" by (simp_all add: sys_good_def)
  let ?q = "push_to i \<lparr>can_steal = False, fn = Some p\<rparr> ?p"
  have post: "Simple_Checkin (\<lambda>_. undef) lk rand this current (Some p) c \<lparr>prompt = False\<rparr> ?p =
      (if stop_flag ?p then (Return False, ?p) else (Return True, ?q))"
    using Simple_Checkin_worker [OF wf, of "\<lambda>_. undef" lk rand this current "Some p" "\<lparr>prompt = False\<rparr>"] i
    by simp
  have q: "pool_wf ?q" "pool_fns ?q = add_mset p (pool_fns ?p)" "thread_num ?q = thread_num ?p"
    using push_to_spec [OF wf, of "\<lparr>can_steal = False, fn = Some p\<rparr>"] push_to_fields [OF wf]
    by (simp_all add: callable_def)
  have same: "w\<lparr>rest := rest w\<rparr> = w" "(rest w)\<lparr>sys_pool := ?p\<rparr> = rest w" by simp_all
  show "\<exists>x. sys_calls x = sys_calls (rest w) \<and> sys_good n x \<and>
      (sys_posted x = add_mset p (sys_posted (rest w)) \<and>
         exec_checkin ?env e p c opts w = (Return (True, True), w\<lparr>rest := x\<rparr>) \<or>
       sys_posted x = sys_posted (rest w) \<and>
         exec_checkin ?env e p c opts w = (Return (False, False), w\<lparr>rest := x\<rparr>) \<or>
       sys_posted x = sys_posted (rest w) \<and> prompt opts \<and>
         exec_checkin ?env e p c opts w = bind (invoke ?env p) (\<lambda>_. ret (True, False)) (w\<lparr>rest := x\<rparr>))"
  proof (cases "Simple_prompt_now this current c opts")
    case True
    then have "exec_checkin ?env e p c opts w = bind (invoke ?env p) (\<lambda>_. ret (True, False)) (w\<lparr>rest := rest w\<rparr>)"
      by (simp add: simple_env_fields same) (simp add: simple_env_def)
    moreover have "prompt opts" using True by (simp add: Simple_prompt_now_def)
    ultimately show ?thesis using good by blast
  next
    case no: False
    show ?thesis
    proof (cases "stop_flag ?p")
      case True
      with no post good show ?thesis
        by (intro exI [of _ "rest w"]) (simp add: simple_env_def on_pool_def run_bind run_method)
    next
      case False
      with no post good q show ?thesis
        by (intro exI [of _ "(rest w)\<lparr>sys_pool := ?q\<rparr>"])
          (simp add: simple_env_def on_pool_def run_bind run_method sys_posted_def sys_good_def)
    qed
  qed
qed


section \<open>Properties\<close>

text \<open>
  Claim C17. The continuation runs exactly once, with the result: setting the result of a future that
  awaits it, on any executor state, either calls the continuation here, once, with that result, and
  destroys it, or posts exactly one closure that keeps the state alive; whether the continuation
  throws or not, the references are balanced and nothing else changes.
\<close>

theorem result_delivered_once:
  assumes "sys_good n (rest w)" and "live w p s" and "fs_wf s" and "fs_abs s = Awaiting k"
    and "fs_continuation_ref s = 0" and "roomy s"
    and "fs_force_scheduled s \<longrightarrow> fs_executor s \<noteq> None"
    and "fs_context s = kNullContext \<or> sys_context n (fs_context s)"
    and "t = s\<lparr>fs_try := v, fs_state := kDone\<rparr>"
  shows "\<exists>r x. ends (\<exists>k v. throws k v \<noteq> None) r \<and> sys_good n x \<and>
    (SetResult (simple_env throws lk rand this current) p v w = (r, mk p (unguarded t) (conts w) x w) \<and>
       sys_calls x = sys_calls (rest w) @ [(k, v)] \<and> sys_posted x = sys_posted (rest w) \<or>
     SetResult (simple_env throws lk rand this current) p v w =
         (r, mk p (guarded t) (add_mset p (conts w)) x w) \<and>
       sys_calls x = sys_calls (rest w) \<and> sys_posted x = add_mset p (sys_posted (rest w)) \<and>
       fs_executor s \<noteq> None)"
  using simple_delivery.set_result_delivers [OF assms(1-8), of throws lk rand this current v] assms(9)
  unfolding delivered_def handed_over_def by auto

definition demo_world ::
  "(nat, string) future_state \<Rightarrow> (nat, string, (nat, string) sys) world" where
  "demo_world s =
     \<lparr>heap = [Some s], promises = [], futures = [], conts = {#},
      rest = \<lparr>sys_pool = demo_pool, sys_calls = []\<rparr>\<rparr>"

text \<open>A future with executor 0 that waits for its result; one that has it; one that has been posted.\<close>

definition demo_awaiting :: "(nat, string) future_state" where
  "demo_awaiting = FutureState_ctor\<lparr>fs_state := kOnlyContinuation, fs_attached := 2, fs_promise_ref := 1,
     fs_continuation := Some ''k'', fs_executor := Some 0\<rparr>"

definition demo_resolved :: "(nat, string) future_state" where
  "demo_resolved = FutureState_ctor\<lparr>fs_state := kOnlyResult, fs_attached := 2, fs_promise_ref := 1,
     fs_try := Value 5, fs_executor := Some 0\<rparr>"

lemma demo_world_fields:
  "live (demo_world s) 0 s" "sys_good 2 (rest (demo_world s))" "conts (demo_world s) = {#}"
  "sys_calls (rest (demo_world s)) = []"
  using demo_pool_wf
  by (simp_all add: demo_world_def live_def sys_good_def)
    (simp add: demo_pool_def push_to_def Pool_ctor_def Let_def)

lemmas demo_state_simps =
  demo_awaiting_def demo_resolved_def FutureState_ctor_def fs_wf_def fs_abs_def roomy_def

text \<open>On a thread that is no worker the continuation of \<open>demo_awaiting\<close> is posted.\<close>

theorem result_delivered_once_witness:
  "\<exists>r x. ends False r \<and>
    (SetResult (simple_env (\<lambda>_ _. None) (\<lambda>_. True) 0 7 Pool_current_init) 0 (Value 5)
         (demo_world demo_awaiting) =
       (r, mk 0 (unguarded (demo_awaiting\<lparr>fs_try := Value 5, fs_state := kDone\<rparr>)) {#} x
             (demo_world demo_awaiting)) \<and> sys_calls x = [(''k'', Value 5)] \<or>
     SetResult (simple_env (\<lambda>_ _. None) (\<lambda>_. True) 0 7 Pool_current_init) 0 (Value 5)
         (demo_world demo_awaiting) =
       (r, mk 0 (guarded (demo_awaiting\<lparr>fs_try := Value 5, fs_state := kDone\<rparr>)) {#0#} x
             (demo_world demo_awaiting)) \<and> sys_calls x = [])"
proof -
  have "fs_wf demo_awaiting" "fs_abs demo_awaiting = Awaiting ''k''"
    "fs_continuation_ref demo_awaiting = 0" "roomy demo_awaiting"
    "fs_force_scheduled demo_awaiting \<longrightarrow> fs_executor demo_awaiting \<noteq> None"
    "fs_context demo_awaiting = kNullContext \<or> sys_context 2 (fs_context demo_awaiting)"
    by (simp_all add: demo_state_simps)
  from result_delivered_once [OF demo_world_fields(2) demo_world_fields(1) this refl,
      of "\<lambda>_ _. None" "\<lambda>_. True" 0 7 Pool_current_init "Value 5"]
  show ?thesis by (auto simp: demo_world_fields)
qed

text \<open>
  Claim C18. The same from the other side: setting the continuation of a future that has its result.
  It runs on the calling thread, unless forced scheduling was asked for.
\<close>

theorem continuation_delivered_once:
  assumes "sys_good n (rest w)" and "live w p s" and "fs_wf s" and "fs_abs s = Resolved v"
    and "fs_continuation_ref s = 0" and "roomy s"
    and "fs_force_scheduled s \<longrightarrow> fs_executor s \<noteq> None"
    and "fs_context s = kNullContext \<or> sys_context n (fs_context s)"
    and "t = s\<lparr>fs_continuation := Some k, fs_state := kDone\<rparr>"
  shows "\<exists>r x. ends (\<exists>k v. throws k v \<noteq> None) r \<and> sys_good n x \<and>
    (SetContinuation (simple_env throws lk rand this current) p k w =
         (r, mk p (unguarded t) (conts w) x w) \<and>
       sys_calls x = sys_calls (rest w) @ [(k, v)] \<and> sys_posted x = sys_posted (rest w) \<or>
     SetContinuation (simple_env throws lk rand this current) p k w =
         (r, mk p (guarded t) (add_mset p (conts w)) x w) \<and>
       sys_calls x = sys_calls (rest w) \<and> sys_posted x = add_mset p (sys_posted (rest w)) \<and>
       fs_force_scheduled s)"
proof -
  have "fs_try s = v" using assms(3,4) by (auto simp: fs_abs_def split: if_splits)
  then show ?thesis
    using simple_delivery.set_continuation_delivers [OF assms(1-8), of throws lk rand this current k]
      assms(9)
    unfolding delivered_def handed_over_def by auto
qed

theorem continuation_delivered_once_witness:
  "\<exists>r x. ends False r \<and>
     SetContinuation (simple_env (\<lambda>_ _. None) (\<lambda>_. True) 0 7 Pool_current_init) 0 ''k''
         (demo_world demo_resolved) =
       (r, mk 0 (unguarded (demo_resolved\<lparr>fs_continuation := Some ''k'', fs_state := kDone\<rparr>)) {#} x
             (demo_world demo_resolved)) \<and> sys_calls x = [(''k'', Value 5)]"
proof -
  have d: "fs_wf demo_resolved" "fs_abs demo_resolved = Resolved (Value 5)"
    "fs_continuation_ref demo_resolved = 0" "roomy demo_resolved"
    "fs_force_scheduled demo_resolved \<longrightarrow> fs_executor demo_resolved \<noteq> None"
    "fs_context demo_resolved = kNullContext \<or> sys_context 2 (fs_context demo_resolved)"
    by (simp_all add: demo_state_simps)
  have "\<not> fs_force_scheduled demo_resolved" by (simp add: demo_state_simps)
  with continuation_delivered_once [OF demo_world_fields(2) demo_world_fields(1) d refl,
      of "\<lambda>_ _. None" "\<lambda>_. True" 0 7 Pool_current_init "''k''"]
  show ?thesis by (auto simp: demo_world_fields)
qed

text \<open>
  The posted closure completes the delivery: when the executor runs it, the continuation is
  called once with the stored result, and the state is left exactly as an immediate delivery leaves it.
\<close>

lemma posted_closure_delivers:
  assumes "sys_good n (rest w)" and "live w p (guarded t)" and "fs_continuation_ref t = 0"
    and "roomy t" and "fs_continuation t = Some k"
  shows "\<exists>r x. run_posted (simple_env throws lk rand this current) p w =
      (r, mk p (unguarded t) (conts w - {#p#}) x w) \<and> ends (\<exists>k v. throws k v \<noteq> None) r \<and> sys_good n x \<and>
    sys_calls x = sys_calls (rest w) @ [(k, fs_try t)] \<and> sys_posted x = sys_posted (rest w)"
  using simple_delivery.run_closure [OF assms, of throws lk rand this current] by blast

text \<open>
  Claim C19. Without an executor, and with no forced scheduling, it does not matter which side comes first: setting the result and then
  the continuation has the same outcome and the same effects, down to those of the continuation
  itself, as setting the continuation and then the result.
\<close>

theorem set_order_irrelevant:
  assumes "live w p s" and "fs_wf s" and "fs_abs s = Pending"
    and "fs_executor s = None" and "\<not> fs_force_scheduled s"
  shows "seq (SetResult env p v) (SetContinuation env p k) w =
         seq (SetContinuation env p k) (SetResult env p v) w"
proof -
  let ?r = "s\<lparr>fs_try := v, fs_state := kOnlyResult\<rparr>"
  let ?c = "s\<lparr>fs_continuation := Some k, fs_state := kOnlyContinuation\<rparr>"
  let ?t = "s\<lparr>fs_try := v, fs_continuation := Some k, fs_state := kDone\<rparr>"
  have start: "fs_state s = kStart" using assms(2,3) by (cases rule: fs_wfE) simp_all
  have wf: "fs_wf ?r" "fs_abs ?r = Resolved v" "fs_wf ?c" "fs_abs ?c = Awaiting k"
    using assms(2) start by (simp_all add: fs_wf_def fs_abs_def)
  have lv: "live (put p ?r w) p ?r" "live (put p ?c w) p ?c" "live (put p ?t w) p ?t"
    using assms(1) by simp_all
  have "seq (SetResult env p v) (SetContinuation env p k) w =
      ScheduleContinuation env p True (put p ?t w)"
    using assms(3) by (simp add: run_seq run_bind SetResult_cases [OF assms(1,2)]
        SetContinuation_cases [OF lv(1) wf(1)] wf(2))
  moreover have "seq (SetContinuation env p k) (SetResult env p v) w =
      ScheduleContinuation env p False
        (put p (s\<lparr>fs_continuation := Some k, fs_try := v, fs_state := kDone\<rparr>) w)"
    using assms(3) by (simp add: run_seq run_bind SetContinuation_cases [OF assms(1,2)]
        SetResult_cases [OF lv(2) wf(3)] wf(4))
  moreover have "s\<lparr>fs_continuation := Some k, fs_try := v, fs_state := kDone\<rparr> = ?t"
    by (cases s) simp
  ultimately have "seq (SetContinuation env p k) (SetResult env p v) w =
      ScheduleContinuation env p False (put p ?t w)"
    "seq (SetResult env p v) (SetContinuation env p k) w =
      ScheduleContinuation env p True (put p ?t w)"
    by (simp_all only:)
  moreover have "runs_inline env p trig (put p ?t w) = (Return True, put p ?t w)" for trig
    using assms(4,5) by (simp add: runs_inline_def run_fs_read [OF lv(3)] outcome_simps)
  ultimately show ?thesis
    by (simp add: ScheduleContinuation_def run_fs_read [OF lv(3)] outcome_simps)
qed

theorem set_order_irrelevant_witness:
  "seq (SetResult (simple_env (\<lambda>_ _. None) (\<lambda>_. True) 0 7 Pool_current_init) 0 (Value 5))
     (SetContinuation (simple_env (\<lambda>_ _. None) (\<lambda>_. True) 0 7 Pool_current_init) 0 ''k'')
     (demo_world FutureState_ctor) =
   seq (SetContinuation (simple_env (\<lambda>_ _. None) (\<lambda>_. True) 0 7 Pool_current_init) 0 ''k'')
     (SetResult (simple_env (\<lambda>_ _. None) (\<lambda>_. True) 0 7 Pool_current_init) 0 (Value 5))
     (demo_world FutureState_ctor)"
  by (rule set_order_irrelevant [OF demo_world_fields(1)]) (simp_all add: demo_state_simps)

text \<open>
  A future takes one result and one continuation: a second one is refused with
  \<open>std::logic_error\<close> and changes nothing, whatever the executor.
\<close>

lemma second_set_refused:
  assumes "live w p s" and "fs_wf s"
  shows "(fs_abs s = Completed \<or> fs_abs s = Resolved u \<longrightarrow>
      SetResult env p v w = (Throw (LogicError ''FutureState already has a result''), w)) \<and>
    (fs_abs s = Completed \<or> fs_abs s = Awaiting j \<longrightarrow>
      SetContinuation env p k w = (Throw (LogicError ''FutureState already has a continuation''), w))"
  using SetResult_cases [OF assms, of env v] SetContinuation_cases [OF assms, of env k] by auto

end
