(* ===== verification/Future_Race.thy ===== *)
theory Future_Race
  imports Future_Delivery
begin

text \<open>
  \<open>SetResult\<close> and \<open>SetContinuation\<close> called by different threads, interleaved at every access to
  \<open>state_\<close>, \<open>try_value_\<close> and \<open>continuation_\<close>. The two methods are mirror images, so one thread program
  serves both: \<open>Res v\<close> sets the result, \<open>Con k\<close> the continuation. \<open>deliveries\<close> records what
  \<open>ScheduleContinuation\<close> finds when it is reached; its own behaviour is in \<^verbatim>\<open>Future_State.thy\<close>.
  The interleaving is sequentially consistent (the weaker orderings of the code are not modelled).
\<close>

section \<open>Threads\<close>

datatype ('v, 'k) side = Res "'v try_val" | Con 'k

datatype pc =
    Check
  | Write
  | Load
  | Exchange \<comment> \<open>\<open>state\<close> is \<open>kStart\<close>\<close>
  | Verify "8 word" \<comment> \<open>the exchange failed and left this value in \<open>state\<close>\<close>
  | Finish "8 word" \<comment> \<open>the transition to \<open>kDone\<close> from this value\<close>
  | Deliver
  | Returned
  | Thrown
  | Aborted

record ('v, 'k) shared =
  sh_state :: "8 word"
  sh_try :: "'v try_val"
  sh_continuation :: "'k option"
  deliveries :: "('k option \<times> 'v try_val) list"

fun mine :: "('v, 'k) side \<Rightarrow> 8 word" where
  "mine (Res v) = kOnlyResult"
| "mine (Con k) = kOnlyContinuation"

fun theirs :: "('v, 'k) side \<Rightarrow> 8 word" where
  "theirs (Res v) = kOnlyContinuation"
| "theirs (Con k) = kOnlyResult"

fun store :: "('v, 'k) side \<Rightarrow> ('v, 'k) shared \<Rightarrow> ('v, 'k) shared" where
  "store (Res v) s = s\<lparr>sh_try := v\<rparr>"
| "store (Con k) s = s\<lparr>sh_continuation := Some k\<rparr>"

text \<open>One atomic step of a thread; the last three program counters have none.\<close>

fun thread_step :: "('v, 'k) side \<Rightarrow> pc \<Rightarrow> ('v, 'k) shared \<Rightarrow> pc \<times> ('v, 'k) shared" where
  "thread_step x Check s =
     (if (sh_state s AND (kDone OR mine x)) \<noteq> 0 then Thrown else Write, s)"
| "thread_step x Write s = (Load, store x s)"
| "thread_step x Load s =
     (if sh_state s = kStart then Exchange
      else if sh_state s = theirs x then Finish (sh_state s)
      else Thrown, s)"
| "thread_step x Exchange s =
     (if sh_state s = kStart then (Returned, s\<lparr>sh_state := mine x\<rparr>)
      else (Verify (sh_state s), s))"
| "thread_step x (Verify e) s = (if sh_state s = theirs x then Finish e else Aborted, s)"
| "thread_step x (Finish e) s =
     (if sh_state s = e then (Deliver, s\<lparr>sh_state := kDone\<rparr>) else (Thrown, s))"
| "thread_step x Deliver s =
     (Returned, s\<lparr>deliveries := deliveries s @ [(sh_continuation s, sh_try s)]\<rparr>)"
| "thread_step x q s = (q, s)"

fun ended :: "pc \<Rightarrow> bool" where
  "ended Returned = True"
| "ended Thrown = True"
| "ended Aborted = True"
| "ended _ = False"

record ('v, 'k) race =
  memory :: "('v, 'k) shared"
  threads :: "(('v, 'k) side \<times> pc) list"

inductive race_step :: "('v, 'k) race \<Rightarrow> ('v, 'k) race \<Rightarrow> bool" where
  step: "i < length (threads s) \<Longrightarrow> threads s ! i = (x, q) \<Longrightarrow> \<not> ended q \<Longrightarrow>
     thread_step x q (memory s) = (q', m) \<Longrightarrow>
     race_step s (s\<lparr>memory := m, threads := (threads s)[i := (x, q')]\<rparr>)"

text \<open>A fresh shared state and any number of callers.\<close>

definition race_init :: "('v, 'k) side list \<Rightarrow> ('v, 'k) race" where
  "race_init xs =
     \<lparr>memory = \<lparr>sh_state = kStart, sh_try = Nothing, sh_continuation = None, deliveries = []\<rparr>,
      threads = map (\<lambda>x. (x, Check)) xs\<rparr>"

inductive race_reachable :: "('v, 'k) side list \<Rightarrow> ('v, 'k) race \<Rightarrow> bool" for xs where
  race_start: "race_reachable xs (race_init xs)"
| race_next: "race_reachable xs s \<Longrightarrow> race_step s t \<Longrightarrow> race_reachable xs t"

inductive_cases race_stepE: "race_step s t"

section \<open>Any number of callers\<close>

text \<open>
  What a thread knows at each point. \<open>wrote\<close>: the value on its side of the memory comes from a caller
  of that side (not necessarily from itself).
\<close>

fun wrote :: "('v, 'k) side list \<Rightarrow> ('v, 'k) side \<Rightarrow> ('v, 'k) shared \<Rightarrow> bool" where
  "wrote xs (Res v) s \<longleftrightarrow> Res (sh_try s) \<in> set xs"
| "wrote xs (Con k) s \<longleftrightarrow> (\<exists>j. sh_continuation s = Some j \<and> Con j \<in> set xs)"

definition wrote_res :: "('v, 'k) side list \<Rightarrow> ('v, 'k) shared \<Rightarrow> bool" where
  "wrote_res xs s \<longleftrightarrow> Res (sh_try s) \<in> set xs"

definition wrote_con :: "('v, 'k) side list \<Rightarrow> ('v, 'k) shared \<Rightarrow> bool" where
  "wrote_con xs s \<longleftrightarrow> (\<exists>j. sh_continuation s = Some j \<and> Con j \<in> set xs)"

lemma wrote_sides: "wrote xs x s = (case x of Res v \<Rightarrow> wrote_res xs s | Con k \<Rightarrow> wrote_con xs s)"
  by (cases x) (simp_all add: wrote_res_def wrote_con_def)

fun knows :: "('v, 'k) side list \<Rightarrow> ('v, 'k) shared \<Rightarrow> ('v, 'k) side \<times> pc \<Rightarrow> bool" where
  "knows xs s (x, Check) \<longleftrightarrow> x \<in> set xs"
| "knows xs s (x, Write) \<longleftrightarrow> x \<in> set xs"
| "knows xs s (x, Verify e) \<longleftrightarrow> wrote xs x s \<and> (e = theirs x \<or> sh_state s = mine x \<or> sh_state s = kDone)"
| "knows xs s (x, Finish e) \<longleftrightarrow> wrote xs x s \<and> e = theirs x"
| "knows xs s (x, Deliver) \<longleftrightarrow> wrote xs x s \<and> sh_state s = kDone"
| "knows xs s (x, Thrown) \<longleftrightarrow> True"
| "knows xs s (x, q) \<longleftrightarrow> wrote xs x s"

definition memory_ok :: "('v, 'k) side list \<Rightarrow> ('v, 'k) shared \<Rightarrow> bool" where
  "memory_ok xs s \<longleftrightarrow>
     sh_state s \<in> {kStart, kOnlyResult, kOnlyContinuation, kDone} \<and>
     (sh_state s = kOnlyResult \<longrightarrow> wrote_res xs s) \<and>
     (sh_state s = kOnlyContinuation \<longrightarrow> wrote_con xs s) \<and>
     (sh_state s = kDone \<longrightarrow> wrote_res xs s \<and> wrote_con xs s) \<and>
     (\<forall>d \<in> set (deliveries s). \<exists>k v. d = (Some k, v) \<and> Con k \<in> set xs \<and> Res v \<in> set xs)"

definition about_to_deliver :: "('v, 'k) side \<times> pc \<Rightarrow> nat" where
  "about_to_deliver t = (if snd t = Deliver then 1 else 0)"

definition race_ok :: "('v, 'k) side list \<Rightarrow> ('v, 'k) race \<Rightarrow> bool" where
  "race_ok xs s \<longleftrightarrow>
     memory_ok xs (memory s) \<and> list_all (knows xs (memory s)) (threads s) \<and>
     length (deliveries (memory s)) + sum_list (map about_to_deliver (threads s)) =
       (if sh_state (memory s) = kDone then 1 else 0)"

text \<open>
  A step of one thread, seen by the others: written sides stay written, and the state moves only from
  \<open>kStart\<close> to one side, and from there to \<open>kDone\<close>.
\<close>

definition moves_to :: "('v, 'k) side list \<Rightarrow> ('v, 'k) shared \<Rightarrow> ('v, 'k) shared \<Rightarrow> bool" where
  "moves_to xs s m \<longleftrightarrow>
     (wrote_res xs s \<longrightarrow> wrote_res xs m) \<and> (wrote_con xs s \<longrightarrow> wrote_con xs m) \<and>
     (sh_state m = sh_state s \<or> sh_state s = kStart \<or> sh_state m = kDone)"

lemmas wrote_defs = wrote_res_def wrote_con_def

lemma store_wrote:
  assumes "x \<in> set xs"
  shows "wrote xs x (store x s)" "sh_state (store x s) = sh_state s"
    "deliveries (store x s) = deliveries s"
    "wrote_res xs s \<Longrightarrow> wrote_res xs (store x s)" "wrote_con xs s \<Longrightarrow> wrote_con xs (store x s)"
proof -
  show "wrote xs x (store x s)" by (cases x) (use assms in simp_all)
  show "sh_state (store x s) = sh_state s" "deliveries (store x s) = deliveries s" by (cases x; simp)+
  show "wrote_res xs s \<Longrightarrow> wrote_res xs (store x s)" "wrote_con xs s \<Longrightarrow> wrote_con xs (store x s)"
    by (cases x; use assms in \<open>simp add: wrote_defs\<close>)+
qed

lemma wrote_frame [simp]:
  "wrote_res xs (s\<lparr>sh_state := e\<rparr>) = wrote_res xs s" "wrote_con xs (s\<lparr>sh_state := e\<rparr>) = wrote_con xs s"
  "wrote_res xs (s\<lparr>deliveries := d\<rparr>) = wrote_res xs s" "wrote_con xs (s\<lparr>deliveries := d\<rparr>) = wrote_con xs s"
  by (simp_all add: wrote_defs)

lemma wrote_frame' [simp]:
  "wrote xs x (s\<lparr>sh_state := e\<rparr>) = wrote xs x s" "wrote xs x (s\<lparr>deliveries := d\<rparr>) = wrote xs x s"
  by (cases x; simp)+

lemma sides_distinct [simp]:
  "mine x \<noteq> kStart" "mine x \<noteq> kDone" "theirs x \<noteq> kStart" "theirs x \<noteq> kDone" "mine x \<noteq> theirs x"
  "theirs x \<noteq> mine x"
  by (cases x; simp)+

lemma knows_stable:
  assumes "moves_to xs s m" and "knows xs s t"
  shows "knows xs m t"
proof -
  obtain x q where t: "t = (x, q)" by (cases t)
  have w: "wrote xs x s \<Longrightarrow> wrote xs x m"
    using assms(1) by (cases x) (simp_all add: wrote_sides moves_to_def del: wrote.simps)
  have st: "sh_state m = sh_state s \<or> sh_state s = kStart \<or> sh_state m = kDone"
    using assms(1) by (simp add: moves_to_def)
  show ?thesis
  proof (cases q)
    case (Verify e)
    have "sh_state s = mine x \<or> sh_state s = kDone \<Longrightarrow> sh_state m = mine x \<or> sh_state m = kDone"
      using st sides_distinct(1) [of x] by (elim disjE) simp_all
    with assms(2) w show ?thesis unfolding t Verify knows.simps by blast
  next
    case Deliver
    have "sh_state s = kDone \<Longrightarrow> sh_state m = kDone" using st by (elim disjE) simp_all
    with assms(2) w show ?thesis unfolding t Deliver knows.simps by blast
  qed (use assms(2) w in \<open>simp_all add: t\<close>)
qed

text \<open>What the state says about the two sides, from the point of view of \<open>x\<close>.\<close>

lemma memory_ok_side:
  assumes "memory_ok xs s"
  shows "sh_state s = kStart \<or> sh_state s = mine x \<or> sh_state s = theirs x \<or> sh_state s = kDone"
    and "sh_state s = theirs x \<Longrightarrow> wrote xs x s \<Longrightarrow> wrote_res xs s \<and> wrote_con xs s"
  using assms by (cases x; auto simp: memory_ok_def wrote_sides simp del: wrote.simps)+

lemma memory_ok_exchange:
  assumes "memory_ok xs s" and "wrote xs x s"
  shows "memory_ok xs (s\<lparr>sh_state := mine x\<rparr>)"
  using assms by (cases x) (auto simp: memory_ok_def wrote_sides simp del: wrote.simps)

lemma memory_ok_finish:
  assumes "memory_ok xs s" and "wrote_res xs s \<and> wrote_con xs s"
  shows "memory_ok xs (s\<lparr>sh_state := kDone\<rparr>)"
  using assms by (auto simp: memory_ok_def)

lemma memory_ok_store:
  assumes "memory_ok xs s" and "x \<in> set xs"
  shows "memory_ok xs (store x s)"
  using assms store_wrote [OF assms(2), of s] by (auto simp: memory_ok_def)

lemma memory_ok_deliver:
  assumes "memory_ok xs s" and "sh_state s = kDone"
  shows "memory_ok xs (s\<lparr>deliveries := deliveries s @ [(sh_continuation s, sh_try s)]\<rparr>)"
  using assms by (auto simp: memory_ok_def wrote_defs)

lemma moves_to_refl [simp]: "moves_to xs s s"
  by (simp add: moves_to_def)

text \<open>One step of a thread keeps all of it, and the account of deliveries balanced.\<close>

lemma thread_step_ok:
  assumes mem: "memory_ok xs s" and kn: "knows xs s (x, q)" and q: "\<not> ended q"
    and step: "thread_step x q s = (q', m)"
  shows "memory_ok xs m \<and> moves_to xs s m \<and> knows xs m (x, q') \<and>
    length (deliveries m) + about_to_deliver (x, q') + (if sh_state s = kDone then 1 else 0) =
    length (deliveries s) + about_to_deliver (x, q) + (if sh_state m = kDone then 1 else 0)"
proof (cases q)
  case Check
  with step mem kn show ?thesis
    by (auto simp: about_to_deliver_def split: if_splits)
next
  case Write
  with step kn have "x \<in> set xs" "q' = Load" "m = store x s" by simp_all
  with mem Write show ?thesis
    by (simp add: about_to_deliver_def store_wrote moves_to_def memory_ok_store)
next
  case Load
  with step mem kn show ?thesis
    by (auto simp: about_to_deliver_def split: if_splits)
next
  case Exchange
  show ?thesis
  proof (cases "sh_state s = kStart")
    case True
    with step kn Exchange mem show ?thesis
      by (auto simp: about_to_deliver_def memory_ok_exchange moves_to_def)
  next
    case False
    with step kn Exchange mem memory_ok_side(1) [OF mem, of x] show ?thesis
      by (auto simp: about_to_deliver_def)
  qed
next
  case (Verify e)
  with step kn mem show ?thesis
    by (auto simp: about_to_deliver_def split: if_splits)
next
  case (Finish e)
  show ?thesis
  proof (cases "sh_state s = e")
    case True
    with step kn Finish mem memory_ok_side(2) [OF mem, of x] show ?thesis
      by (auto simp: about_to_deliver_def memory_ok_finish moves_to_def)
  next
    case False
    with step kn Finish mem show ?thesis by (auto simp: about_to_deliver_def)
  qed
next
  case Deliver
  with step kn mem show ?thesis
    by (auto simp: about_to_deliver_def memory_ok_deliver moves_to_def)
qed (use q in simp_all)

lemma race_ok_init: "race_ok xs (race_init xs)"
  by (simp add: race_ok_def race_init_def memory_ok_def list_all_iff about_to_deliver_def o_def)

lemma race_ok_step:
  assumes "race_step s t" and ok: "race_ok xs s"
  shows "race_ok xs t"
proof -
  from assms(1) obtain i x q q' m where
    i: "i < length (threads s)" "threads s ! i = (x, q)" "\<not> ended q" and
    step: "thread_step x q (memory s) = (q', m)" and
    t: "t = s\<lparr>memory := m, threads := (threads s)[i := (x, q')]\<rparr>"
    by (auto elim: race_stepE)
  have kn: "knows xs (memory s) (x, q)"
    using ok i by (metis list_all_length race_ok_def)
  have mem: "memory_ok xs (memory s)" using ok by (simp add: race_ok_def)
  note one = thread_step_ok [OF mem kn i(3) step]
  have "list_all (knows xs m) (threads s)"
    using ok one knows_stable [of xs "memory s" m] by (auto simp: race_ok_def list_all_iff)
  then have "list_all (knows xs m) ((threads s)[i := (x, q')])"
    using one i(1) by (simp add: list_all_length nth_list_update)
  moreover have "length (deliveries m) + sum_list (map about_to_deliver ((threads s)[i := (x, q')])) =
      (if sh_state m = kDone then 1 else 0)"
    using sum_list_map_update [OF i(1), of about_to_deliver "(x, q')"] ok one i(2)
    by (simp add: race_ok_def)
  ultimately show ?thesis using one by (simp add: race_ok_def t)
qed

lemma race_reachable_ok: "race_reachable xs s \<Longrightarrow> race_ok xs s"
  by (induction rule: race_reachable.induct) (blast intro: race_ok_init race_ok_step)+

section \<open>One result and one continuation\<close>

fun undecided :: "pc \<Rightarrow> bool" where
  "undecided Check = True"
| "undecided Write = True"
| "undecided Load = True"
| "undecided Exchange = True"
| "undecided _ = False"

lemma undecided_not_ended: "undecided q \<Longrightarrow> \<not> ended q"
  by (cases q) simp_all

definition two_pcs :: "8 word \<Rightarrow> pc \<Rightarrow> pc \<Rightarrow> bool" where
  "two_pcs st q1 q2 \<longleftrightarrow>
     st = kStart \<and> undecided q1 \<and> undecided q2 \<or>
     st = kOnlyResult \<and> q1 = Returned \<and> (undecided q2 \<or> q2 = Verify kOnlyResult \<or> q2 = Finish kOnlyResult) \<or>
     st = kOnlyContinuation \<and> q2 = Returned \<and>
       (undecided q1 \<or> q1 = Verify kOnlyContinuation \<or> q1 = Finish kOnlyContinuation) \<or>
     st = kDone \<and> (q1 = Returned \<and> q2 = Deliver \<or> q1 = Deliver \<and> q2 = Returned \<or>
                  q1 = Returned \<and> q2 = Returned)"

definition two_ok :: "'v try_val \<Rightarrow> 'k \<Rightarrow> ('v, 'k) race \<Rightarrow> bool" where
  "two_ok v k s \<longleftrightarrow>
     (\<exists>q1 q2. threads s = [(Res v, q1), (Con k, q2)] \<and> two_pcs (sh_state (memory s)) q1 q2)"

lemma two_pcs_first:
  assumes "two_pcs (sh_state s) q1 q2" and "\<not> ended q1" and "thread_step (Res v) q1 s = (q, m)"
  shows "two_pcs (sh_state m) q q2"
  using assms by (cases q1) (auto simp: two_pcs_def split: if_splits)

lemma two_pcs_second:
  assumes "two_pcs (sh_state s) q1 q2" and "\<not> ended q2" and "thread_step (Con k) q2 s = (q, m)"
  shows "two_pcs (sh_state m) q1 q"
  using assms by (cases q2) (auto simp: two_pcs_def split: if_splits)

lemma two_ok_step:
  assumes "race_step s t" and "two_ok v k s"
  shows "two_ok v k t"
proof -
  from assms(2) obtain q1 q2 where th: "threads s = [(Res v, q1), (Con k, q2)]"
    and pcs: "two_pcs (sh_state (memory s)) q1 q2" by (auto simp: two_ok_def)
  from assms(1) obtain i x q q' m where
    i: "i < length (threads s)" "threads s ! i = (x, q)" "\<not> ended q" and
    step: "thread_step x q (memory s) = (q', m)" and
    t: "t = s\<lparr>memory := m, threads := (threads s)[i := (x, q')]\<rparr>"
    by (auto elim: race_stepE)
  consider "i = 0" | "i = 1" using i(1) th by fastforce
  then show ?thesis
  proof cases
    case 1
    with i th have "x = Res v" "q = q1" by simp_all
    with two_pcs_first [OF pcs, of v q' m] i step 1 show ?thesis by (simp add: two_ok_def t th)
  next
    case 2
    with i th have "x = Con k" "q = q2" by simp_all
    with two_pcs_second [OF pcs, of k q' m] i step 2 show ?thesis by (simp add: two_ok_def t th)
  qed
qed

lemma race_reachable_two: "race_reachable [Res v, Con k] s \<Longrightarrow> two_ok v k s"
proof (induction rule: race_reachable.induct)
  case race_start
  show ?case by (simp add: two_ok_def race_init_def two_pcs_def)
qed (rule two_ok_step)

fun rank :: "pc \<Rightarrow> nat" where
  "rank Check = 7"
| "rank Write = 6"
| "rank Load = 5"
| "rank Exchange = 4"
| "rank (Verify e) = 3"
| "rank (Finish e) = 2"
| "rank Deliver = 1"
| "rank _ = 0"

definition race_measure :: "('v, 'k) race \<Rightarrow> nat" where
  "race_measure s = sum_list (map (\<lambda>t. rank (snd t)) (threads s))"

lemma thread_step_rank: "thread_step x q s = (q', m) \<Longrightarrow> \<not> ended q \<Longrightarrow> rank q' < rank q"
  by (cases q) (auto split: if_splits)

lemma race_step_measure:
  assumes "race_step s t"
  shows "race_measure t < race_measure s"
proof -
  from assms obtain i x q q' m where
    i: "i < length (threads s)" "threads s ! i = (x, q)" "\<not> ended q" and
    step: "thread_step x q (memory s) = (q', m)" and
    t: "t = s\<lparr>memory := m, threads := (threads s)[i := (x, q')]\<rparr>"
    by (auto elim: race_stepE)
  show ?thesis
    using sum_list_map_update [OF i(1), of "\<lambda>t. rank (snd t)" "(x, q')"] thread_step_rank [OF step i(3)] i(2)
    by (simp add: race_measure_def t)
qed

text \<open>A scheduler, to build interleavings: thread \<open>i\<close> makes its next step, if it has one.\<close>

definition race_do :: "('v, 'k) race \<Rightarrow> nat \<Rightarrow> ('v, 'k) race" where
  "race_do s i =
     (if i < length (threads s) then
        (case threads s ! i of (x, q) \<Rightarrow>
           case thread_step x q (memory s) of (q', m) \<Rightarrow>
             s\<lparr>memory := m, threads := (threads s)[i := (x, q')]\<rparr>)
      else s)"

lemma race_do_reachable:
  assumes "race_reachable xs s"
  shows "race_reachable xs (race_do s i)"
proof (cases "i < length (threads s)")
  case True
  obtain x q where t: "threads s ! i = (x, q)" by (cases "threads s ! i")
  obtain q' m where st: "thread_step x q (memory s) = (q', m)" by (cases "thread_step x q (memory s)")
  show ?thesis
  proof (cases "ended q")
    case False
    have "race_do s i = s\<lparr>memory := m, threads := (threads s)[i := (x, q')]\<rparr>"
      using True t st by (simp add: race_do_def)
    with race_next [OF assms race_step.step [OF True t False st]] show ?thesis by simp
  next
    case ended: True
    then have "q' = q" "m = memory s" using st by (cases q; simp)+
    moreover have "(threads s)[i := (x, q)] = threads s" using t by (metis list_update_id)
    ultimately have "race_do s i = s" using True t st by (simp add: race_do_def)
    with assms show ?thesis by simp
  qed
next
  case False
  with assms show ?thesis by (simp add: race_do_def)
qed

lemma race_run_reachable: "race_reachable xs s \<Longrightarrow> race_reachable xs (foldl race_do s is)"
  by (induction "is" arbitrary: s) (simp_all add: race_do_reachable)

section \<open>The thread program is the method\<close>

text \<open>A thread that is not interrupted; seven steps are enough, one per rank.\<close>

fun alone :: "nat \<Rightarrow> ('v, 'k) side \<Rightarrow> pc \<Rightarrow> ('v, 'k) shared \<Rightarrow> pc \<times> ('v, 'k) shared" where
  "alone 0 x q s = (q, s)"
| "alone (Suc n) x q s = (case thread_step x q s of (q', s') \<Rightarrow> alone n x q' s')"

definition shared_of :: "('v, 'k) future_state \<Rightarrow> ('v, 'k) shared" where
  "shared_of s = \<lparr>sh_state = fs_state s, sh_try = fs_try s, sh_continuation = fs_continuation s,
     deliveries = []\<rparr>"

lemma numeral_7_Suc: "(7 :: nat) = Suc (Suc (Suc (Suc (Suc (Suc (Suc 0))))))"
  by simp

lemma alone_result:
  assumes "fs_wf s"
  shows "alone 7 (Res v) Check (shared_of s) =
    (case fs_abs s of
       Pending \<Rightarrow> (Returned, shared_of (s\<lparr>fs_try := v, fs_state := kOnlyResult\<rparr>))
     | Awaiting k \<Rightarrow> (Returned, (shared_of (s\<lparr>fs_try := v, fs_state := kDone\<rparr>))\<lparr>deliveries := [(Some k, v)]\<rparr>)
     | _ \<Rightarrow> (Thrown, shared_of s))"
  using assms by (cases rule: fs_wfE) (simp_all add: numeral_7_Suc shared_of_def)

lemma alone_continuation:
  assumes "fs_wf s"
  shows "alone 7 (Con k) Check (shared_of s) =
    (case fs_abs s of
       Pending \<Rightarrow> (Returned, shared_of (s\<lparr>fs_continuation := Some k, fs_state := kOnlyContinuation\<rparr>))
     | Resolved v \<Rightarrow> (Returned,
         (shared_of (s\<lparr>fs_continuation := Some k, fs_state := kDone\<rparr>))\<lparr>deliveries := [(Some k, v)]\<rparr>)
     | _ \<Rightarrow> (Thrown, shared_of s))"
  using assms by (cases rule: fs_wfE) (simp_all add: numeral_7_Suc shared_of_def)

section \<open>Properties\<close>

text \<open>
  Claim C23. However many threads set results and continuations of one future at the same time, at most
  one continuation is ever run, and with a result that some caller did set.
\<close>

theorem race_at_most_once:
  assumes "race_reachable xs s"
  shows "length (deliveries (memory s)) \<le> 1 \<and>
    (\<forall>d \<in> set (deliveries (memory s)). \<exists>k v. d = (Some k, v) \<and> Con k \<in> set xs \<and> Res v \<in> set xs)"
proof -
  have "memory_ok xs (memory s)" "length (deliveries (memory s)) +
      sum_list (map about_to_deliver (threads s)) = (if sh_state (memory s) = kDone then 1 else 0)"
    using race_reachable_ok [OF assms] by (simp_all add: race_ok_def)
  then show ?thesis by (auto simp: memory_ok_def split: if_splits)
qed

definition demo_race :: "(nat, string) race" where
  "demo_race = foldl race_do (race_init [Res (Value 5), Con ''k''])
     [0, 1, 0, 1, 0, 1, 1, 0, 0, 0, 0]"

lemma demo_race_reachable: "race_reachable [Res (Value 5), Con ''k''] demo_race"
  unfolding demo_race_def by (rule race_run_reachable [OF race_start])

lemma demo_race_end:
  "threads demo_race = [(Res (Value 5), Returned), (Con ''k'', Returned)]"
  "deliveries (memory demo_race) = [(Some ''k'', Value 5)]"
  by (simp_all add: demo_race_def race_init_def race_do_def)

theorem race_at_most_once_witness:
  "length (deliveries (memory demo_race)) \<le> 1 \<and> deliveries (memory demo_race) \<noteq> []"
  using race_at_most_once [OF demo_race_reachable] by (simp add: demo_race_end)

text \<open>
  Claim C24. With one thread that sets the result and one that sets the continuation, neither call fails
  in any interleaving, every step brings them closer to the end, and when both have returned the
  continuation has been run exactly once, with the result.
\<close>

theorem race_exactly_once:
  fixes v :: "'v try_val" and k :: 'k
  assumes "race_reachable [Res v, Con k] s"
  shows "Thrown \<notin> snd ` set (threads s) \<and> Aborted \<notin> snd ` set (threads s) \<and>
    (\<forall>t. race_step s t \<longrightarrow> race_measure t < race_measure s) \<and>
    (list_all (\<lambda>t. ended (snd t)) (threads s) \<longrightarrow> deliveries (memory s) = [(Some k, v)])"
proof -
  obtain q1 q2 where th: "threads s = [(Res v, q1), (Con k, q2)]"
    and pcs: "two_pcs (sh_state (memory s)) q1 q2"
    using race_reachable_two [OF assms] by (auto simp: two_ok_def)
  have ok: "memory_ok [Res v, Con k] (memory s)"
    "length (deliveries (memory s)) + (about_to_deliver (Res v :: ('v, 'k) side, q1) + about_to_deliver (Con k :: ('v, 'k) side, q2)) =
      (if sh_state (memory s) = kDone then 1 else 0)"
    using race_reachable_ok [OF assms] unfolding race_ok_def th by (auto split: if_splits)
  have "deliveries (memory s) = [(Some k, v)]" if "ended q1" "ended q2"
  proof -
    have "length (deliveries (memory s)) = 1"
      using pcs ok(2) that by (auto simp: two_pcs_def about_to_deliver_def dest: undecided_not_ended)
    then obtain d where "deliveries (memory s) = [d]"
      by (metis One_nat_def length_0_conv length_Suc_conv)
    with ok(1) show ?thesis by (auto simp: memory_ok_def)
  qed
  with pcs th show ?thesis
    using race_step_measure by (auto simp: two_pcs_def)
qed

theorem race_exactly_once_witness:
  "threads demo_race = [(Res (Value 5), Returned), (Con ''k'', Returned)] \<and>
   deliveries (memory demo_race) = [(Some ''k'', Value 5)]"
  using race_exactly_once [OF demo_race_reachable] by (simp add: demo_race_end)

text \<open>
  Claim C25. Two threads that set results at the same time are not both told: instead of the
  \<open>std::logic_error\<close> that a second \<open>SetResult\<close> gets in sequence, the loser can stop the process on
  the assertion, after overwriting \<open>try_value_\<close>, so that the continuation is run with the loser's result.
\<close>

theorem racing_results:
  "\<exists>s. race_reachable [Res u, Res v, Con k] s \<and>
     threads s = [(Res u, Returned), (Res v, Aborted), (Con k, Returned)] \<and>
     deliveries (memory s) = [(Some k, v)]"
proof -
  let ?s = "foldl race_do (race_init [Res u, Res v, Con k]) [0, 0, 1, 1, 0, 1, 0, 1, 1, 2, 2, 2, 2, 2]"
  have "race_reachable [Res u, Res v, Con k] ?s" by (rule race_run_reachable [OF race_start])
  moreover have "threads ?s = [(Res u, Returned), (Res v, Aborted), (Con k, Returned)]"
    "deliveries (memory ?s) = [(Some k, v)]"
    by (simp_all add: race_init_def race_do_def numeral_2_eq_2)
  ultimately show ?thesis by blast
qed

text \<open>
  The interleaved thread program refines the method: a thread that runs \<open>SetResult\<close> without
  interruption ends as the method of \<^verbatim>\<open>Future_State.thy\<close> does. It returns with the same memory,
  reaches \<open>ScheduleContinuation\<close> in the same state, or throws and leaves the memory alone.
\<close>

lemma thread_refines_method:
  assumes "live w p s" and "fs_wf s"
  shows "\<exists>q m. alone 7 (Res v) Check (shared_of s) = (q, m) \<and>
    (case fs_abs s of
       Pending \<Rightarrow> \<exists>t. SetResult env p v w = (Return (), put p t w) \<and> q = Returned \<and> m = shared_of t
     | Awaiting k \<Rightarrow> \<exists>t. SetResult env p v w = ScheduleContinuation env p False (put p t w) \<and>
         q = Returned \<and> m = (shared_of t)\<lparr>deliveries := [(Some k, v)]\<rparr>
     | _ \<Rightarrow> (\<exists>e. SetResult env p v w = (Throw e, w)) \<and> q = Thrown \<and> m = shared_of s)"
  using SetResult_cases [OF assms, of env v] alone_result [OF assms(2), of v]
  by (auto split: fut.splits)

end
