(* ===== verification/Future_Handles.thy ===== *)
theory Future_Handles
  imports Future_Delivery
begin

text \<open>
  \<^verbatim>\<open>include/async_simple/sync/promise.hpp\<close> and the handle part of
  \<^verbatim>\<open>include/async_simple/sync/future.hpp\<close>: constructors, destructors, moves and the members that
  forward to the shared state. Promise and future objects live at positions of two lists of the
  world; a destroyed object is \<open>None\<close> and using it is undefined. \<open>Wait\<close>, \<open>Get\<close>, \<open>Via\<close> and the \<open>Then\<close>
  family are not here.
\<close>

section \<open>Objects\<close>

definition promise_read :: "nat \<Rightarrow> (('v, 'k, 'x) world, promise_obj) action" where
  "promise_read l w =
     (if l < length (promises w) then
        (case promises w ! l of None \<Rightarrow> (Undefined, w) | Some x \<Rightarrow> (Return x, w))
      else (Undefined, w))"

definition promise_set :: "nat \<Rightarrow> promise_obj option \<Rightarrow> (('v, 'k, 'x) world, unit) action" where
  "promise_set l x = modify (\<lambda>w. w\<lparr>promises := (promises w)[l := x]\<rparr>)"

definition promise_new :: "promise_obj \<Rightarrow> (('v, 'k, 'x) world, nat) action" where
  "promise_new x w = (Return (length (promises w)), w\<lparr>promises := promises w @ [Some x]\<rparr>)"

definition future_read :: "nat \<Rightarrow> (('v, 'k, 'x) world, 'v future_obj) action" where
  "future_read l w =
     (if l < length (futures w) then
        (case futures w ! l of None \<Rightarrow> (Undefined, w) | Some x \<Rightarrow> (Return x, w))
      else (Undefined, w))"

definition future_set :: "nat \<Rightarrow> 'v future_obj option \<Rightarrow> (('v, 'k, 'x) world, unit) action" where
  "future_set l x = modify (\<lambda>w. w\<lparr>futures := (futures w)[l := x]\<rparr>)"

definition future_new :: "'v future_obj \<Rightarrow> (('v, 'k, 'x) world, nat) action" where
  "future_new x w = (Return (length (futures w)), w\<lparr>futures := futures w @ [Some x]\<rparr>)"

definition heap_new :: "(('v, 'k, 'x) world, nat) action" where
  "heap_new w = (Return (length (heap w)), w\<lparr>heap := heap w @ [Some FutureState_ctor]\<rparr>)"

text \<open>A call through \<open>shared_state_\<close>: undefined when the pointer is null.\<close>

definition through :: "nat option \<Rightarrow> (nat \<Rightarrow> (('v, 'k, 'x) world, 'a) action) \<Rightarrow> (('v, 'k, 'x) world, 'a) action" where
  "through p m = (case p of None \<Rightarrow> undef | Some q \<Rightarrow> m q)"

section \<open>Promise\<close>

definition Promise_ctor :: "(('v, 'k, 'x) world, nat) action" where
  "Promise_ctor =
     bind heap_new (\<lambda>p. seq (AttachPromise p) (promise_new \<lparr>p_shared = Some p, p_has_future = False\<rparr>))"

text \<open>The body of the destructor, which copy assignment also runs; then the object is gone.\<close>

definition Promise_dtor_body :: "('v, 'k, 'x) env \<Rightarrow> nat \<Rightarrow> (('v, 'k, 'x) world, unit) action" where
  "Promise_dtor_body env l =
     bind (promise_read l) (\<lambda>x.
       case p_shared x of None \<Rightarrow> ret () | Some p \<Rightarrow> noexcept (DetachPromise env p))"

definition Promise_dtor :: "('v, 'k, 'x) env \<Rightarrow> nat \<Rightarrow> (('v, 'k, 'x) world, unit) action" where
  "Promise_dtor env l = seq (Promise_dtor_body env l) (promise_set l None)"

definition Promise_copy_ctor :: "nat \<Rightarrow> (('v, 'k, 'x) world, nat) action" where
  "Promise_copy_ctor other =
     bind (promise_read other) (\<lambda>x. seq (through (p_shared x) AttachPromise) (promise_new x))"

definition Promise_copy_assign ::
  "('v, 'k, 'x) env \<Rightarrow> nat \<Rightarrow> nat \<Rightarrow> (('v, 'k, 'x) world, unit) action" where
  "Promise_copy_assign env this other =
     (if this \<noteq> other then
        seq (Promise_dtor_body env this)
          (bind (promise_read other) (\<lambda>x.
             seq (promise_set this (Some x)) (through (p_shared x) AttachPromise)))
      else ret ())"

definition p_null :: promise_obj where
  "p_null = \<lparr>p_shared = None, p_has_future = False\<rparr>"

definition Promise_move_ctor :: "nat \<Rightarrow> (('v, 'k, 'x) world, nat) action" where
  "Promise_move_ctor other =
     bind (promise_read other) (\<lambda>x. seq (promise_set other (Some p_null)) (promise_new x))"

definition Promise_move_assign :: "nat \<Rightarrow> nat \<Rightarrow> (('v, 'k, 'x) world, unit) action" where
  "Promise_move_assign this other =
     bind (promise_read other) (\<lambda>x.
       seq (promise_set other (Some p_null))
         (bind (promise_read this) (\<lambda>_. promise_set this (Some x))))"

definition Promise_Valid :: "promise_obj \<Rightarrow> bool" where
  "Promise_Valid x \<longleftrightarrow> p_shared x \<noteq> None"

section \<open>Future\<close>

definition Future_of_state :: "nat option \<Rightarrow> (('v, 'k, 'x) world, nat) action" where
  "Future_of_state p =
     seq (case p of None \<Rightarrow> ret () | Some q \<Rightarrow> AttachOne q)
       (future_new \<lparr>f_shared = p, f_local = Local_empty\<rparr>)"

definition Future_of_try :: "'v try_val \<Rightarrow> (('v, 'k, 'x) world, nat) action" where
  "Future_of_try t = future_new \<lparr>f_shared = None, f_local = Local_of_try t\<rparr>"

definition Future_dtor :: "nat \<Rightarrow> (('v, 'k, 'x) world, unit) action" where
  "Future_dtor l =
     seq (bind (future_read l) (\<lambda>x. case f_shared x of None \<Rightarrow> ret () | Some p \<Rightarrow> DetachOne p))
       (future_set l None)"

definition Future_move_ctor :: "('v \<Rightarrow> 'v) \<Rightarrow> nat \<Rightarrow> (('v, 'k, 'x) world, nat) action" where
  "Future_move_ctor mv other =
     bind (future_read other) (\<lambda>x.
       case Local_move_ctor mv (f_local x) of
         (new, left) \<Rightarrow>
           seq (future_set other (Some \<lparr>f_shared = None, f_local = left\<rparr>))
             (future_new \<lparr>f_shared = f_shared x, f_local = new\<rparr>))"

definition Future_move_assign :: "nat \<Rightarrow> nat \<Rightarrow> (('v, 'k, 'x) world, unit) action" where
  "Future_move_assign this other =
     (if this \<noteq> other then
        bind (future_read this) (\<lambda>t. bind (future_read other) (\<lambda>x.
          case Local_move_assign (f_local t) (f_local x) of
            (l1, l2) \<Rightarrow>
              seq (future_set other (Some \<lparr>f_shared = None, f_local = l2\<rparr>))
                (future_set this (Some \<lparr>f_shared = f_shared x, f_local = l1\<rparr>))))
      else ret ())"

definition Future_Valid :: "'v future_obj \<Rightarrow> bool" where
  "Future_Valid x \<longleftrightarrow> f_shared x \<noteq> None \<or> Local_HasResult (f_local x)"

definition Future_HasResult :: "nat \<Rightarrow> (('v, 'k, 'x) world, bool) action" where
  "Future_HasResult l =
     bind (future_read l) (\<lambda>x.
       if Local_HasResult (f_local x) then ret True else through (f_shared x) HasResult)"

text \<open>\<open>GetTry\<close> gives a reference; the model gives what is there. \<open>Value\<close> then asks that \<open>Try\<close>.\<close>

definition Future_GetTry :: "nat \<Rightarrow> (('v, 'k, 'x) world, 'v try_val) action" where
  "Future_GetTry l =
     bind (future_read l) (\<lambda>x.
       seq (LOGIC_ASSERT (Future_Valid x) ''Future is broken'')
         (bind (Future_HasResult l) (\<lambda>has.
            seq (LOGIC_ASSERT has ''Future is not ready'')
              (case f_shared x of
                 Some p \<Rightarrow> fs_read p fs_try
               | None \<Rightarrow> ret (ls_try (f_local x))))))"

definition Future_Value :: "nat \<Rightarrow> (('v, 'k, 'x) world, 'v) action" where
  "Future_Value l = bind (Future_GetTry l) (\<lambda>t w. (try_value t, w))"

definition Future_SetExecutor :: "nat \<Rightarrow> nat option \<Rightarrow> (('v, 'k, 'x) world, unit) action" where
  "Future_SetExecutor l e =
     bind (future_read l) (\<lambda>x.
       case f_shared x of
         Some p \<Rightarrow> SetExecutor p e
       | None \<Rightarrow> future_set l (Some (x\<lparr>f_local := Local_SetExecutor e (f_local x)\<rparr>)))"

definition Future_GetExecutor :: "nat \<Rightarrow> (('v, 'k, 'x) world, nat option) action" where
  "Future_GetExecutor l =
     bind (future_read l) (\<lambda>x.
       case f_shared x of
         Some p \<Rightarrow> GetExecutor p
       | None \<Rightarrow> ret (Local_GetExecutor (f_local x)))"

definition Future_SetContinuation ::
  "('v, 'k, 'x) env \<Rightarrow> nat \<Rightarrow> 'k \<Rightarrow> (('v, 'k, 'x) world, unit) action" where
  "Future_SetContinuation env l k =
     bind (future_read l) (\<lambda>x.
       seq (ASSERT (Future_Valid x))
         (case f_shared x of
            Some p \<Rightarrow> SetContinuation env p k
          | None \<Rightarrow> Local_SetContinuation (call_on_local env k l) (f_local x)))"

definition Future_CurrentThreadInExecutor ::
  "('v, 'k, 'x) env \<Rightarrow> nat \<Rightarrow> (('v, 'k, 'x) world, bool) action" where
  "Future_CurrentThreadInExecutor env l =
     bind (future_read l) (\<lambda>x.
       seq (ASSERT (Future_Valid x))
         (case f_shared x of
            Some p \<Rightarrow> FS_CurrentThreadInExecutor env p
          | None \<Rightarrow> Local_CurrentThreadInExecutor (exec_in_thread env) (f_local x)))"

section \<open>Promise members that use the state\<close>

definition Promise_GetFuture :: "nat \<Rightarrow> (('v, 'k, 'x) world, nat) action" where
  "Promise_GetFuture l =
     bind (promise_read l) (\<lambda>x.
       seq (LOGIC_ASSERT (Promise_Valid x) ''Promise is broken'')
         (seq (LOGIC_ASSERT (\<not> p_has_future x) ''Promise already has a future'')
           (seq (promise_set l (Some (x\<lparr>p_has_future := True\<rparr>)))
             (Future_of_state (p_shared x)))))"

definition Promise_Checkout :: "('v, 'k, 'x) env \<Rightarrow> nat \<Rightarrow> (('v, 'k, 'x) world, unit) action" where
  "Promise_Checkout env l =
     bind (promise_read l) (\<lambda>x. case p_shared x of None \<Rightarrow> ret () | Some p \<Rightarrow> FS_Checkout env p)"

definition Promise_ForceScheduled :: "nat \<Rightarrow> (('v, 'k, 'x) world, unit) action" where
  "Promise_ForceScheduled l =
     bind (promise_read l) (\<lambda>x. case p_shared x of None \<Rightarrow> ret () | Some p \<Rightarrow> SetForceScheduled p True)"

definition Promise_SetTry ::
  "('v, 'k, 'x) env \<Rightarrow> nat \<Rightarrow> 'v try_val \<Rightarrow> (('v, 'k, 'x) world, unit) action" where
  "Promise_SetTry env l t =
     bind (promise_read l) (\<lambda>x.
       seq (LOGIC_ASSERT (Promise_Valid x) ''Promise is broken'')
         (through (p_shared x) (\<lambda>p. SetResult env p t)))"

definition Promise_SetException ::
  "('v, 'k, 'x) env \<Rightarrow> nat \<Rightarrow> exception_ptr \<Rightarrow> (('v, 'k, 'x) world, unit) action" where
  "Promise_SetException env l e = Promise_SetTry env l (Exception e)"

definition Promise_SetValue :: "('v, 'k, 'x) env \<Rightarrow> nat \<Rightarrow> 'v \<Rightarrow> (('v, 'k, 'x) world, unit) action" where
  "Promise_SetValue env l v = Promise_SetTry env l (Value v)"

end
