(* ===== verification/Handle_Safety.thy ===== *)
theory Handle_Safety
  imports Future_Handles
begin

text \<open>
  Memory safety of the promise and future handles. The counters of a shared state are compared with
  the objects that really hold it: promises, futures and posted closures. \<open>world_ok\<close> says that they
  agree, so that a state is deleted exactly when its last holder is gone; every operation a
  client may perform keeps it, on any thread, next to the workers of the pool that run the
  posted closures.
\<close>

section \<open>Who holds a state\<close>

definition p_points :: "nat \<Rightarrow> promise_obj option \<Rightarrow> nat" where
  "p_points q x = (case x of None \<Rightarrow> 0 | Some ob \<Rightarrow> of_bool (p_shared ob = Some q))"

definition f_points :: "nat \<Rightarrow> 'v future_obj option \<Rightarrow> nat" where
  "f_points q x = (case x of None \<Rightarrow> 0 | Some ob \<Rightarrow> of_bool (f_shared ob = Some q))"

definition prefs :: "promise_obj option list \<Rightarrow> nat \<Rightarrow> nat" where
  "prefs ps q = sum_list (map (p_points q) ps)"

definition frefs :: "'v future_obj option list \<Rightarrow> nat \<Rightarrow> nat" where
  "frefs fs q = sum_list (map (f_points q) fs)"

definition holders :: "('v, 'k, 'x) world \<Rightarrow> nat \<Rightarrow> nat" where
  "holders w q = prefs (promises w) q + frefs (futures w) q + count (conts w) q"

lemma p_points_simps [simp]:
  "p_points q None = 0" "p_points q (Some ob) = of_bool (p_shared ob = Some q)"
  by (simp_all add: p_points_def)

lemma f_points_simps [simp]:
  "f_points q None = 0" "f_points q (Some ob) = of_bool (f_shared ob = Some q)"
  by (simp_all add: f_points_def)

lemma prefs_append [simp]: "prefs (ps @ [x]) q = prefs ps q + p_points q x"
  by (simp add: prefs_def)

lemma frefs_append [simp]: "frefs (fs @ [x]) q = frefs fs q + f_points q x"
  by (simp add: frefs_def)

lemma prefs_update: "l < length ps \<Longrightarrow> prefs (ps[l := x]) q + p_points q (ps ! l) = prefs ps q + p_points q x"
  by (simp add: prefs_def sum_list_map_update)

lemma frefs_update: "l < length fs \<Longrightarrow> frefs (fs[l := x]) q + f_points q (fs ! l) = frefs fs q + f_points q x"
  by (simp add: frefs_def sum_list_map_update)

lemma prefs_member: "l < length ps \<Longrightarrow> p_points q (ps ! l) \<le> prefs ps q"
  using elem_le_sum_list [of l "map (p_points q) ps"] by (simp add: prefs_def)

lemma frefs_member: "l < length fs \<Longrightarrow> f_points q (fs ! l) \<le> frefs fs q"
  using elem_le_sum_list [of l "map (f_points q) fs"] by (simp add: frefs_def)

section \<open>The invariant\<close>

text \<open>A state with \<open>a\<close> holders, \<open>pr\<close> of them promises and \<open>c\<close> of them posted closures.\<close>

definition state_ok :: "nat \<Rightarrow> nat \<Rightarrow> nat \<Rightarrow> nat \<Rightarrow> ('v, 'k) future_state \<Rightarrow> bool" where
  "state_ok n a pr c s \<longleftrightarrow>
     fs_wf s \<and> (fs_force_scheduled s \<longrightarrow> fs_executor s \<noteq> None) \<and>
     (fs_context s = kNullContext \<or> sys_context n (fs_context s)) \<and>
     fs_attached s = of_nat a \<and> fs_promise_ref s = of_nat pr \<and> fs_continuation_ref s = of_nat c \<and>
     c \<le> 1 \<and> (c = 1 \<longrightarrow> fs_state s = kDone \<and> fs_continuation s \<noteq> None)"

definition resolved :: "('v, 'k) future_state \<Rightarrow> bool" where
  "resolved s \<longleftrightarrow> fs_state s = kOnlyResult \<or> fs_state s = kDone"

text \<open>A state without promises has its result: nobody could set it any more.\<close>

definition slot_fits :: "nat \<Rightarrow> nat \<Rightarrow> nat \<Rightarrow> nat \<Rightarrow> ('v, 'k) future_state option \<Rightarrow> bool" where
  "slot_fits n a pr c h \<longleftrightarrow>
     (case h of
        None \<Rightarrow> a = 0
      | Some s \<Rightarrow> 0 < a \<and> state_ok n a pr c s \<and> (pr = 0 \<longrightarrow> resolved s))"

lemma slot_fits_simps [simp]:
  "slot_fits n a pr c None \<longleftrightarrow> a = 0"
  "slot_fits n a pr c (Some s) \<longleftrightarrow> 0 < a \<and> state_ok n a pr c s \<and> (pr = 0 \<longrightarrow> resolved s)"
  by (simp_all add: slot_fits_def)

definition slot_ok :: "nat \<Rightarrow> ('v, 'k, 'x) world \<Rightarrow> nat \<Rightarrow> bool" where
  "slot_ok n w p \<longleftrightarrow>
     (if p < length (heap w)
      then slot_fits n (holders w p) (prefs (promises w) p) (count (conts w) p) (heap w ! p)
      else holders w p = 0)"

definition world_ok :: "nat \<Rightarrow> ('v, 'k, ('v, 'k) sys) world \<Rightarrow> bool" where
  "world_ok n w \<longleftrightarrow> sys_good n (rest w) \<and> conts w = sys_posted (rest w) \<and> (\<forall>p. slot_ok n w p)"

definition roomy_world :: "('v, 'k, 'x) world \<Rightarrow> bool" where
  "roomy_world w \<longleftrightarrow> list_all (\<lambda>p. holders w p \<le> 250) [0..<length (heap w)]"

lemma roomy_worldD: "roomy_world w \<Longrightarrow> p < length (heap w) \<Longrightarrow> holders w p \<le> 250"
  by (simp add: roomy_world_def list_all_iff)

lemma held_live:
  assumes "slot_ok n w p" and "0 < holders w p"
  obtains s where "live w p s" "state_ok n (holders w p) (prefs (promises w) p) (count (conts w) p) s"
    "prefs (promises w) p = 0 \<longrightarrow> resolved s" "p < length (heap w)"
  using assms by (auto simp: slot_ok_def slot_fits_def live_def split: if_splits option.splits)

text \<open>A step that touches one state leaves the others as they are.\<close>

lemma slot_ok_frame:
  assumes "slot_ok n w q"
    and "q < length (heap w') \<longleftrightarrow> q < length (heap w)" and "q < length (heap w) \<Longrightarrow> heap w' ! q = heap w ! q"
    and "prefs (promises w') q = prefs (promises w) q" and "frefs (futures w') q = frefs (futures w) q"
    and "count (conts w') q = count (conts w) q"
  shows "slot_ok n w' q"
proof -
  have "holders w' q = holders w q" using assms(4-6) by (simp add: holders_def)
  with assms(1-3,4,6) show ?thesis
    by (cases "q < length (heap w)") (simp_all add: slot_ok_def)
qed

text \<open>The continuations that were accepted and not called yet, and those that were called.\<close>

definition waiting :: "('v, 'k) future_state option \<Rightarrow> 'k multiset" where
  "waiting h =
     (case h of
        None \<Rightarrow> {#}
      | Some s \<Rightarrow>
          if fs_state s = kOnlyContinuation \<or> fs_continuation_ref s \<noteq> 0
          then (case fs_continuation s of None \<Rightarrow> {#} | Some k \<Rightarrow> {#k#})
          else {#})"

definition outstanding :: "('v, 'k, 'x) world \<Rightarrow> 'k multiset" where
  "outstanding w = sum_list (map waiting (heap w))"

definition called :: "('v, 'k) sys \<Rightarrow> 'k multiset" where
  "called x = mset (map fst (sys_calls x))"

section \<open>The operations of the shared state\<close>

lemma byte_of_nat:
  assumes "1 \<le> a" and "a \<le> 255"
  shows "(of_nat a :: 8 word) = 1 \<longleftrightarrow> a = 1" and "1 \<le> (of_nat a :: 8 word)"
    and "(of_nat a :: 8 word) - 1 = of_nat (a - 1)" and "unat (of_nat a :: 8 word) = a"
proof -
  show u: "unat (of_nat a :: 8 word) = a"
    using assms by (simp add: unat_of_nat)
  show "(of_nat a :: 8 word) = 1 \<longleftrightarrow> a = 1"
    using u by (metis of_nat_1 unat_1)
  show "1 \<le> (of_nat a :: 8 word)"
    using u assms by (simp add: word_le_nat_alt)
  show "(of_nat a :: 8 word) - 1 = of_nat (a - 1)"
    using assms by (simp add: of_nat_diff)
qed

lemma long_of_nat:
  assumes "1 \<le> a" and "a \<le> 255"
  shows "(of_nat a :: 64 word) = 1 \<longleftrightarrow> a = 1" and "1 \<le> (of_nat a :: 64 word)"
    and "(of_nat a :: 64 word) - 1 = of_nat (a - 1)"
proof -
  have u: "unat (of_nat a :: 64 word) = a"
    using assms by (simp add: unat_of_nat)
  show "(of_nat a :: 64 word) = 1 \<longleftrightarrow> a = 1"
    using u by (metis of_nat_1 unat_1)
  show "1 \<le> (of_nat a :: 64 word)"
    using u assms by (simp add: word_le_nat_alt)
  show "(of_nat a :: 64 word) - 1 = of_nat (a - 1)"
    using assms by (simp add: of_nat_diff)
qed

lemma state_ok_roomy:
  "state_ok n a pr c s \<Longrightarrow> 1 \<le> a \<Longrightarrow> a \<le> 253 \<Longrightarrow> roomy s"
  by (simp add: state_ok_def roomy_def byte_of_nat(4))

section \<open>Steps\<close>

text \<open>
  Continuations that do not throw. An operation on the state \<open>p\<close> leaves it with \<open>a\<close> holders, \<open>pr\<close>
  of them promises and \<open>c\<close> of them closures, plus the closure that it may post (\<open>d\<close>), and accepts
  the continuations \<open>D\<close>.
\<close>

abbreviation quiet_env ::
  "(nat \<Rightarrow> bool) \<Rightarrow> nat \<Rightarrow> nat \<Rightarrow> current \<Rightarrow> ('v, 'k, ('v, 'k) sys) env" where
  "quiet_env \<equiv> simple_env (\<lambda>_ _. None)"

definition well_ended :: "unit outcome \<Rightarrow> bool" where
  "well_ended r \<longleftrightarrow> r = Return () \<or> (\<exists>m. r = Throw (LogicError m))"

definition stepped ::
  "nat \<Rightarrow> nat \<Rightarrow> nat \<Rightarrow> nat \<Rightarrow> nat \<Rightarrow> 'k multiset \<Rightarrow> ('v, 'k, ('v, 'k) sys) world \<Rightarrow>
     ('v, 'k, ('v, 'k) sys) world \<Rightarrow> bool" where
  "stepped n p a pr c D w w' \<longleftrightarrow>
     (\<exists>h x d. w' = w\<lparr>heap := (heap w)[p := h], conts := conts w + d, rest := x\<rparr> \<and> sys_good n x \<and>
        sys_posted x = sys_posted (rest w) + d \<and> (d = {#} \<or> d = {#p#}) \<and>
        slot_fits n (a + size d) pr (c + size d) h \<and>
        waiting h + called x = waiting (heap w ! p) + called (rest w) + D)"

lemma steppedI:
  assumes "w' = mk p t (conts w + d) x w" and "sys_good n x"
    and "sys_posted x = sys_posted (rest w) + d" and "d = {#} \<or> d = {#p#}"
    and "slot_fits n (a + size d) pr (c + size d) (Some t)"
    and "waiting (Some t) + called x = waiting (Some s) + called (rest w) + D" and "live w p s"
  shows "stepped n p a pr c D w w'"
  unfolding stepped_def
  using assms by (intro exI [of _ "Some t"] exI [of _ x] exI [of _ d]) (simp add: mk_def live_def)

lemma stepped_put:
  assumes "live w p s" and "state_ok n a pr c t" and "pr = 0 \<longrightarrow> resolved t" and "sys_good n (rest w)"
    and "1 \<le> a" and "waiting (Some t) = waiting (Some s) + D"
  shows "stepped n p a pr c D w (put p t w)"
  by (rule steppedI [of _ p t w "{#}" "rest w" n a pr c s D]) (use assms in \<open>simp_all add: put_mk\<close>)

lemma stepped_same:
  assumes "live w p s" and "state_ok n a pr c s" and "pr = 0 \<longrightarrow> resolved s" and "sys_good n (rest w)"
    and "1 \<le> a"
  shows "stepped n p a pr c {#} w w"
  using stepped_put [OF assms, of "{#}"] put_same [OF assms(1)] by simp

lemma stepped_frame:
  assumes "stepped n p a pr c D w w'"
  shows "stepped n p a pr c D (w\<lparr>promises := ps, futures := fs\<rparr>) (w'\<lparr>promises := ps, futures := fs\<rparr>)"
proof -
  obtain h x d where "w' = w\<lparr>heap := (heap w)[p := h], conts := conts w + d, rest := x\<rparr>" and r: "sys_good n x"
    "sys_posted x = sys_posted (rest w) + d" "d = {#} \<or> d = {#p#}" "slot_fits n (a + size d) pr (c + size d) h"
    "waiting h + called x = waiting (heap w ! p) + called (rest w) + D"
    using assms unfolding stepped_def by blast
  then have "w'\<lparr>promises := ps, futures := fs\<rparr> = (w\<lparr>promises := ps, futures := fs\<rparr>)
      \<lparr>heap := (heap (w\<lparr>promises := ps, futures := fs\<rparr>))[p := h],
       conts := conts (w\<lparr>promises := ps, futures := fs\<rparr>) + d, rest := x\<rparr>" by simp
  with r show ?thesis unfolding stepped_def by fastforce
qed

lemma stepped_handles:
  "stepped n p a pr c D w w' \<Longrightarrow> promises w' = promises w \<and> futures w' = futures w"
  by (auto simp: stepped_def)

text \<open>
  Such a step ends in a good world if \<open>a\<close>, \<open>pr\<close> and \<open>c\<close> are what really holds the state before it, and
  no continuation is lost.
\<close>

lemma world_ok_stepped:
  assumes step: "stepped n p a pr c D w w'" and p: "p < length (heap w)"
    and others: "\<And>q. q \<noteq> p \<Longrightarrow> slot_ok n w q" and posted: "conts w = sys_posted (rest w)"
    and held: "holders w p = a" "prefs (promises w) p = pr" "count (conts w) p = c"
  shows "world_ok n w'" and "outstanding w' + called (rest w') = outstanding w + called (rest w) + D"
proof -
  obtain h x d where w': "w' = w\<lparr>heap := (heap w)[p := h], conts := conts w + d, rest := x\<rparr>" and r: "sys_good n x"
    "sys_posted x = sys_posted (rest w) + d" "d = {#} \<or> d = {#p#}"
    and h: "slot_fits n (a + size d) pr (c + size d) h"
    and sum: "waiting h + called x = waiting (heap w ! p) + called (rest w) + D"
    using step unfolding stepped_def by blast
  have d: "count d p = size d" "q \<noteq> p \<Longrightarrow> count d q = 0" for q using r(3) by auto
  have "holders w' p = a + size d" "prefs (promises w') p = pr" "count (conts w') p = c + size d"
    using held d by (simp_all add: w' holders_def)
  with h p have "slot_ok n w' p" by (simp add: slot_ok_def w')
  moreover have "slot_ok n w' q" if "q \<noteq> p" for q
    by (rule slot_ok_frame [OF others [OF that]]) (use that d in \<open>simp_all add: w'\<close>)
  ultimately have "slot_ok n w' q" for q by (cases "q = p") simp_all
  with r posted show "world_ok n w'" by (simp add: world_ok_def w')
  have "outstanding w' + waiting (heap w ! p) = outstanding w + waiting h"
    using sum_list_map_update [OF p, of waiting h] by (simp add: outstanding_def w')
  moreover have "called (rest w') = called x" by (simp add: w')
  ultimately have "outstanding w' + called (rest w') + waiting (heap w ! p) =
      outstanding w + called (rest w) + D + waiting (heap w ! p)"
    using sum by (simp add: ac_simps)
  then show "outstanding w' + called (rest w') = outstanding w + called (rest w) + D" by simp
qed

section \<open>The operations as steps\<close>

lemma state_ok_guarded:
  assumes "state_ok n a pr 0 t" and "fs_state t = kDone" and "fs_continuation t = Some k"
  shows "state_ok n (a + 1) pr 1 (guarded t)" and "state_ok n a pr 0 (unguarded t)"
    and "waiting (Some (guarded t)) = {#k#}" and "waiting (Some (unguarded t)) = {#}"
    and "resolved (guarded t)" and "resolved (unguarded t)"
  using assms by (auto simp: state_ok_def guarded_def unguarded_def fs_wf_def waiting_def resolved_def)

lemma delivery_stepped:
  assumes ok: "state_ok n a pr 0 t" "fs_state t = kDone" "fs_continuation t = Some k" and a: "1 \<le> a"
    and live: "live w p s" and sum: "{#k#} = waiting (Some s) + D"
    and "delivered (sys_good n) sys_calls sys_posted p k t w w' \<or>
      handed_over (sys_good n) sys_calls sys_posted p t w w'"
  shows "stepped n p a pr 0 D w w'"
  using assms(7)
proof
  assume "delivered (sys_good n) sys_calls sys_posted p k t w w'"
  then obtain x where x: "w' = mk p (unguarded t) (conts w) x w" "sys_good n x"
    "sys_posted x = sys_posted (rest w)" "sys_calls x = sys_calls (rest w) @ [(k, fs_try t)]"
    by (auto simp: delivered_def)
  then have "called x = called (rest w) + {#k#}" by (simp add: called_def)
  then have "waiting (Some (unguarded t)) + called x = waiting (Some s) + called (rest w) + D"
    using state_ok_guarded(4) [OF ok] by (simp add: sum ac_simps)
  with state_ok_guarded [OF ok] a live x show ?thesis
    by (intro steppedI [of _ p "unguarded t" w "{#}" x]) simp_all
next
  assume "handed_over (sys_good n) sys_calls sys_posted p t w w'"
  then obtain x where x: "w' = mk p (guarded t) (add_mset p (conts w)) x w" "sys_good n x"
    "sys_posted x = add_mset p (sys_posted (rest w))" "sys_calls x = sys_calls (rest w)"
    by (auto simp: handed_over_def)
  then have "waiting (Some (guarded t)) + called x = waiting (Some s) + called (rest w) + D"
    unfolding state_ok_guarded(3) [OF ok] sum by (simp add: called_def ac_simps)
  with state_ok_guarded [OF ok] live x show ?thesis
    by (intro steppedI [of _ p "guarded t" w "{#p#}" x]) simp_all
qed


lemma run_AttachOne:
  assumes good: "sys_good n (rest w)" and live: "live w p s" and ok: "state_ok n a pr c s"
    and "pr = 0 \<longrightarrow> resolved s"
  shows "\<exists>w'. AttachOne p w = (Return (), w') \<and> stepped n p (a + 1) pr c {#} w w'"
proof -
  let ?t = "s\<lparr>fs_attached := fs_attached s + 1\<rparr>"
  have "state_ok n (a + 1) pr c ?t" "pr = 0 \<longrightarrow> resolved ?t" "waiting (Some ?t) = waiting (Some s)"
    using ok assms(4) by (simp_all add: state_ok_def fs_wf_def resolved_def waiting_def)
  then have "stepped n p (a + 1) pr c {#} w (put p ?t w)"
    using good by (intro stepped_put [OF live]) simp_all
  then show ?thesis by (simp add: AttachOne_def run_fs_write [OF live])
qed

lemma run_AttachPromise:
  assumes good: "sys_good n (rest w)" and live: "live w p s" and ok: "state_ok n a pr c s"
  shows "\<exists>w'. AttachPromise p w = (Return (), w') \<and> stepped n p (a + 1) (pr + 1) c {#} w w'"
proof -
  let ?s = "s\<lparr>fs_promise_ref := fs_promise_ref s + 1\<rparr>"
  let ?t = "?s\<lparr>fs_attached := fs_attached ?s + 1\<rparr>"
  have live1: "live (put p ?s w) p ?s" using live by simp
  have "state_ok n (a + 1) (pr + 1) c ?t" "waiting (Some ?t) = waiting (Some s)"
    using ok by (simp_all add: state_ok_def fs_wf_def waiting_def)
  then have "stepped n p (a + 1) (pr + 1) c {#} w (put p ?t w)"
    using good by (intro stepped_put [OF live]) simp_all
  moreover have "AttachPromise p w = (Return (), put p ?t w)"
    by (simp add: AttachPromise_def AttachOne_def run_fs_write [OF live] run_fs_write [OF live1] outcome_simps)
  ultimately show ?thesis by blast
qed

lemma run_SetResult:
  assumes good: "sys_good n (rest w)" and live: "live w p s" and ok: "state_ok n a pr c s"
    and a: "1 \<le> a" "a \<le> 253" and set: "pr \<noteq> 0 \<or> \<not> resolved s"
  shows "\<exists>r w'. SetResult (quiet_env lk rand this current) p v w = (r, w') \<and> well_ended r \<and>
    (\<not> resolved s \<longrightarrow> r = Return ()) \<and> stepped n p a pr c {#} w w'"
proof -
  have wf: "fs_wf s" using ok by (simp add: state_ok_def)
  then show ?thesis
  proof (cases rule: fs_wfE)
    case Pending
    let ?t = "s\<lparr>fs_try := v, fs_state := kOnlyResult\<rparr>"
    have "state_ok n a pr c ?t" "pr = 0 \<longrightarrow> resolved ?t" "waiting (Some ?t) = waiting (Some s) + {#}"
      using ok Pending by (auto simp: state_ok_def fs_wf_def resolved_def waiting_def)
    then have "stepped n p a pr c {#} w (put p ?t w)"
      using good a(1) by (intro stepped_put [OF live])
    with Pending show ?thesis by (simp add: SetResult_cases [OF live wf] well_ended_def)
  next
    case (Awaiting k)
    let ?t = "s\<lparr>fs_try := v, fs_state := kDone\<rparr>"
    have c: "c = 0" using ok Awaiting by (auto simp: state_ok_def)
    have t: "state_ok n a pr 0 ?t" "fs_state ?t = kDone" "fs_continuation ?t = Some k"
      "{#k#} = waiting (Some s) + {#}"
      using ok Awaiting c by (auto simp: state_ok_def fs_wf_def waiting_def)
    have "fs_continuation_ref s = 0" "fs_force_scheduled s \<longrightarrow> fs_executor s \<noteq> None"
      "fs_context s = kNullContext \<or> sys_context n (fs_context s)"
      using ok c by (simp_all add: state_ok_def)
    from simple_delivery.set_result_delivers [OF good live wf Awaiting(2) this(1)
        state_ok_roomy [OF ok a] this(2,3), of "\<lambda>_ _. None" lk rand this current v]
    obtain r w' where "SetResult (quiet_env lk rand this current) p v w = (r, w')" "r = Return ()"
      "delivered (sys_good n) sys_calls sys_posted p k ?t w w' \<or>
        handed_over (sys_good n) sys_calls sys_posted p ?t w w'"
      by (auto simp: ends_def)
    with delivery_stepped [OF t(1-3) a(1) live t(4)] c show ?thesis by (auto simp: well_ended_def)
  qed (use stepped_same [OF live ok _ good a(1)] set in
      \<open>simp_all add: SetResult_cases [OF live wf] well_ended_def resolved_def\<close>)
qed

lemma run_SetContinuation:
  assumes good: "sys_good n (rest w)" and live: "live w p s" and ok: "state_ok n a pr c s"
    and pr: "pr = 0 \<longrightarrow> resolved s" and a: "1 \<le> a" "a \<le> 253"
  shows "\<exists>r w'. SetContinuation (quiet_env lk rand this current) p k w = (r, w') \<and> well_ended r \<and>
    stepped n p a pr c (if r = Return () then {#k#} else {#}) w w'"
proof -
  have wf: "fs_wf s" using ok by (simp add: state_ok_def)
  then show ?thesis
  proof (cases rule: fs_wfE)
    case Pending
    let ?t = "s\<lparr>fs_continuation := Some k, fs_state := kOnlyContinuation\<rparr>"
    have "state_ok n a pr c ?t" "pr = 0 \<longrightarrow> resolved ?t" "waiting (Some ?t) = waiting (Some s) + {#k#}"
      using ok Pending pr by (auto simp: state_ok_def fs_wf_def resolved_def waiting_def)
    then have "stepped n p a pr c {#k#} w (put p ?t w)"
      using good a(1) by (intro stepped_put [OF live])
    with Pending show ?thesis by (simp add: SetContinuation_cases [OF live wf] well_ended_def)
  next
    case Resolved
    let ?t = "s\<lparr>fs_continuation := Some k, fs_state := kDone\<rparr>"
    have c: "c = 0" using ok Resolved by (auto simp: state_ok_def)
    have t: "state_ok n a pr 0 ?t" "fs_state ?t = kDone" "fs_continuation ?t = Some k"
      "{#k#} = waiting (Some s) + {#k#}"
      using ok Resolved c by (auto simp: state_ok_def fs_wf_def waiting_def)
    have "fs_continuation_ref s = 0" "fs_force_scheduled s \<longrightarrow> fs_executor s \<noteq> None"
      "fs_context s = kNullContext \<or> sys_context n (fs_context s)"
      using ok c by (simp_all add: state_ok_def)
    from simple_delivery.set_continuation_delivers [OF good live wf Resolved(2) this(1)
        state_ok_roomy [OF ok a] this(2,3), of "\<lambda>_ _. None" lk rand this current k]
    obtain r w' where "SetContinuation (quiet_env lk rand this current) p k w = (r, w')" "r = Return ()"
      "delivered (sys_good n) sys_calls sys_posted p k ?t w w' \<or>
        handed_over (sys_good n) sys_calls sys_posted p ?t w w'"
      by (auto simp: ends_def)
    with delivery_stepped [OF t(1-3) a(1) live t(4)] c show ?thesis by (auto simp: well_ended_def)
  qed (use stepped_same [OF live ok pr good a(1)] in
      \<open>simp_all add: SetContinuation_cases [OF live wf] well_ended_def\<close>)
qed

text \<open>Giving up one reference: the last one deletes the state.\<close>

lemma run_DetachOne:
  assumes live: "live w p s" and ok: "state_ok n a pr c s" and a: "1 \<le> a" "a \<le> 255"
  shows "a = 1 \<Longrightarrow> DetachOne p w = (Return (), w\<lparr>heap := (heap w)[p := None]\<rparr>)"
    and "a \<noteq> 1 \<Longrightarrow> \<exists>t. DetachOne p w = (Return (), put p t w) \<and> state_ok n (a - 1) pr c t \<and>
      resolved t = resolved s \<and> waiting (Some t) = waiting (Some s)"
proof -
  let ?s = "s\<lparr>fs_attached := fs_attached s - 1\<rparr>"
  have at: "fs_attached s = of_nat a" using ok by (simp add: state_ok_def)
  note run = DetachOne_def run_fetch [OF live] outcome_simps at byte_of_nat [OF a] fs_delete_def
  show "DetachOne p w = (Return (), w\<lparr>heap := (heap w)[p := None]\<rparr>)" if "a = 1"
    using that a(1) by (simp add: run) (simp add: put_def)
  show "\<exists>t. DetachOne p w = (Return (), put p t w) \<and> state_ok n (a - 1) pr c t \<and>
      resolved t = resolved s \<and> waiting (Some t) = waiting (Some s)" if "a \<noteq> 1"
    using that ok
    by (intro exI [of _ ?s])
      (simp add: run, simp add: state_ok_def fs_wf_def byte_of_nat(3) [OF a] resolved_def waiting_def)
qed

text \<open>After another step of the same state, which may have posted a closure.\<close>

lemma detach_stepped:
  assumes step: "stepped n p a pr c {#} w w1" and p: "p < length (heap w)" and a: "a \<le> 253"
    and held: "pr + c < a"
  shows "\<exists>w'. DetachOne p w1 = (Return (), w') \<and> stepped n p (a - 1) pr c {#} w w'"
proof -
  obtain h x d where w1: "w1 = w\<lparr>heap := (heap w)[p := h], conts := conts w + d, rest := x\<rparr>" and x: "sys_good n x"
    "sys_posted x = sys_posted (rest w) + d" and d: "d = {#} \<or> d = {#p#}"
    and h: "slot_fits n (a + size d) pr (c + size d) h"
    and sum: "waiting h + called x = waiting (heap w ! p) + called (rest w) + {#}"
    using step unfolding stepped_def by blast
  then obtain t where t: "h = Some t" "state_ok n (a + size d) pr (c + size d) t" "pr = 0 \<longrightarrow> resolved t"
    using held by (cases h) auto
  let ?a = "a + size d"
  have live: "live w1 p t" using p t by (simp add: live_def w1)
  have b: "1 \<le> ?a" "?a \<le> 255" using a d held by auto
  note detach = run_DetachOne [OF live t(2) b]
  show ?thesis
  proof (cases "?a = 1")
    case True
    with held d have "a = 1" "d = {#}" "pr = 0" "c = 0" by auto
    then have "waiting (Some t) = {#}" using t by (auto simp: waiting_def resolved_def state_ok_def)
    then have "stepped n p (a - 1) pr c {#} w (w1\<lparr>heap := (heap w1)[p := None]\<rparr>)"
      unfolding stepped_def using x sum t(1) \<open>a = 1\<close> \<open>d = {#}\<close>
      by (intro exI [of _ None] exI [of _ x] exI [of _ "{#}"]) (simp add: w1 waiting_def)
    with detach(1) [OF True] show ?thesis by blast
  next
    case False
    with detach(2) obtain u where u: "DetachOne p w1 = (Return (), put p u w1)"
      "state_ok n (?a - 1) pr (c + size d) u" "resolved u = resolved t" "waiting (Some u) = waiting (Some t)"
      by blast
    have sz: "a - 1 + size d = ?a - 1" "0 < ?a - 1" using held False by simp_all
    have "put p u w1 = w\<lparr>heap := (heap w)[p := Some u], conts := conts w + d, rest := x\<rparr>"
      by (simp add: w1 put_def)
    moreover have "slot_fits n (a - 1 + size d) pr (c + size d) (Some u)"
      unfolding sz(1) slot_fits_simps using u t(3) sz(2) by blast
    moreover have "waiting (Some u) + called x = waiting (heap w ! p) + called (rest w) + {#}"
      using sum u(4) t(1) by simp
    ultimately have "stepped n p (a - 1) pr c {#} w (put p u w1)"
      unfolding stepped_def using x d by blast
    with u(1) show ?thesis by blast
  qed
qed


lemma stepped_from:
  assumes "stepped n p a pr c D v w'" and "v = w\<lparr>heap := (heap w)[p := h], rest := x\<rparr>"
    and "sys_posted x = sys_posted (rest w)" and "p < length (heap w)"
    and "waiting h + called x = waiting (heap w ! p) + called (rest w)"
  shows "stepped n p a pr c D w w'"
proof -
  obtain g y d where w': "w' = v\<lparr>heap := (heap v)[p := g], conts := conts v + d, rest := y\<rparr>" "sys_good n y"
    "sys_posted y = sys_posted (rest v) + d" "d = {#} \<or> d = {#p#}" "slot_fits n (a + size d) pr (c + size d) g"
    "waiting g + called y = waiting (heap v ! p) + called (rest v) + D"
    using assms(1) unfolding stepped_def by blast
  have "w' = w\<lparr>heap := (heap w)[p := g], conts := conts w + d, rest := y\<rparr>"
    by (simp add: w'(1) assms(2))
  moreover have "waiting g + called y = waiting (heap w ! p) + called (rest w) + D"
    using w'(6) assms(4,5) by (simp add: assms(2))
  moreover have "sys_posted y = sys_posted (rest w) + d" using w'(3) assms(3) by (simp add: assms(2))
  ultimately show ?thesis unfolding stepped_def using w'(2,4,5) by blast
qed

text \<open>The destructor of a promise, and the run of a posted closure.\<close>

lemma run_DetachPromise:
  assumes good: "sys_good n (rest w)" and live: "live w p s" and ok: "state_ok n a pr c s"
    and res: "pr = 0 \<longrightarrow> resolved s" and a: "a \<le> 253" and pr: "1 \<le> pr" "pr + c \<le> a"
  shows "\<exists>w'. DetachPromise (quiet_env lk rand this current) p w = (Return (), w') \<and>
    stepped n p (a - 1) (pr - 1) c {#} w w'"
proof -
  let ?env = "quiet_env lk rand this current :: ('v, 'k, ('v, 'k) sys) env"
  let ?s = "s\<lparr>fs_promise_ref := fs_promise_ref s - 1\<rparr>" and ?broken = "Exception (Some (RuntimeError ''Promise is broken''))"
  let ?w = "put p ?s w"
  have pr_s: "fs_promise_ref s = of_nat pr" using ok by (simp add: state_ok_def)
  have "pr \<le> 255" "1 \<le> a" using a pr by simp_all
  note long = long_of_nat [OF pr(1) this(1)]
  have p: "p < length (heap w)" "heap w ! p = Some s" using live by (simp_all add: live_def)
  have s1: "live ?w p ?s" "state_ok n a (pr - 1) c ?s" "sys_good n (rest ?w)"
    using live ok good long by (simp_all add: state_ok_def fs_wf_def)
  have wf: "fs_wf ?s" using s1(2) unfolding state_ok_def by blast
  have has: "HasResult p ?w = (Return (resolved ?s), ?w)"
    using HasResult_spec [OF s1(1) wf] wf
    by (cases rule: fs_wfE [OF wf]) (simp_all add: resolved_def)
  have "\<exists>w1. (if \<not> resolved ?s \<and> pr = 1 then SetResult ?env p ?broken else ret ()) ?w = (Return (), w1) \<and>
      stepped n p a (pr - 1) c {#} ?w w1"
  proof (cases "\<not> resolved ?s \<and> pr = 1")
    case True
    with run_SetResult [OF s1(3,1,2) \<open>1 \<le> a\<close> a, of lk rand this current ?broken] show ?thesis by auto
  next
    case False
    then have "pr - 1 = 0 \<longrightarrow> resolved ?s" using pr(1) by auto
    with False show ?thesis using stepped_same [OF s1(1,2) _ s1(3) \<open>1 \<le> a\<close>] by (auto simp: run_method)
  qed
  then obtain w1 where w1: "(if \<not> resolved ?s \<and> pr = 1 then SetResult ?env p ?broken else ret ()) ?w = (Return (), w1)"
    "stepped n p a (pr - 1) c {#} ?w w1" by blast
  have held: "p < length (heap ?w)" "pr - 1 + c < a" using p pr by simp_all
  from detach_stepped [OF w1(2) held(1) a held(2)] obtain w' where
    w': "DetachOne p w1 = (Return (), w')" "stepped n p (a - 1) (pr - 1) c {#} ?w w'" by blast
  have "?w = w\<lparr>heap := (heap w)[p := Some ?s], rest := rest w\<rparr>" by (simp add: put_def)
  then have "stepped n p (a - 1) (pr - 1) c {#} w w'"
    by (rule stepped_from [OF w'(2)]) (simp_all add: p waiting_def)
  moreover have "DetachPromise ?env p w = (Return (), w')"
    using w1(1) w'(1) has long by (simp add: DetachPromise_def run_fetch [OF live] outcome_simps pr_s)
  ultimately show ?thesis by blast
qed

lemma run_posted_stepped:
  assumes good: "sys_good n (rest w)" and live: "live w p s" and ok: "state_ok n a pr 1 s"
    and a: "a \<le> 253" "pr < a"
  shows "\<exists>w'. run_posted (quiet_env lk rand this current) p w = (Return (), w') \<and>
    stepped n p (a - 1) pr 0 {#} (w\<lparr>conts := conts w - {#p#}\<rparr>) w'"
proof -
  let ?env = "quiet_env lk rand this current :: ('v, 'k, ('v, 'k) sys) env"
  let ?w0 = "w\<lparr>conts := conts w - {#p#}\<rparr>"
  obtain k where k: "fs_continuation s = Some k" using ok by (auto simp: state_ok_def)
  let ?x = "(rest w)\<lparr>sys_calls := sys_calls (rest w) @ [(k, fs_try s)]\<rparr>"
  let ?s1 = "s\<lparr>fs_continuation_ref := 0\<rparr>" and ?s2 = "s\<lparr>fs_continuation_ref := 0, fs_continuation := None\<rparr>"
  let ?w1 = "w\<lparr>rest := ?x\<rparr>"
  let ?w2 = "(put p ?s2 ?w1)\<lparr>conts := conts w - {#p#}\<rparr>"
  have p: "p < length (heap w)" "heap w ! p = Some s" using live by (simp_all add: live_def)
  have l1: "live ?w1 p s" "live (put p ?s1 ?w1) p ?s1" "live ?w2 p ?s2" using live by simp_all
  have "invoke ?env p w = (Return (), ?w1)"
    using k by (simp add: simple_env_fields run_closure_now_def log_call_def run_fs_read [OF live] outcome_simps)
  moreover have "DerefContinuation ?env p ?w1 = (Return (), put p ?s2 ?w1)"
    using ok k by (simp add: DerefContinuation_def run_fetch [OF l1(1)] run_fs_read [OF l1(2)]
        run_fs_write [OF l1(2)] simple_env_fields outcome_simps state_ok_def)
  ultimately have run: "invoke ?env p w = (Return (), ?w1)"
    "DerefContinuation ?env p ?w1 = (Return (), put p ?s2 ?w1)" by blast+
  have s2: "state_ok n a pr 0 ?s2" "pr = 0 \<longrightarrow> resolved ?s2" "sys_good n (rest ?w2)" "1 \<le> a"
    using ok good a by (auto simp: state_ok_def fs_wf_def sys_good_def resolved_def)
  have "p < length (heap ?w2)" "pr + 0 < a" using p a by simp_all
  from detach_stepped [OF stepped_same [OF l1(3) s2] this(1) a(1) this(2)] obtain w' where
    w': "DetachOne p ?w2 = (Return (), w')" "stepped n p (a - 1) pr 0 {#} ?w2 w'" by blast
  have eq: "?w2 = ?w0\<lparr>heap := (heap ?w0)[p := Some ?s2], rest := ?x\<rparr>" by (simp add: put_def)
  have sum: "waiting (Some ?s2) + called ?x = waiting (heap ?w0 ! p) + called (rest ?w0)"
    using ok k p by (simp add: waiting_def called_def state_ok_def)
  have "stepped n p (a - 1) pr 0 {#} ?w0 w'"
    by (rule stepped_from [OF w'(2) eq _ _ sum]) (simp_all add: p sys_posted_def)
  moreover have "run_posted ?env p w = (Return (), w')"
    using run w'(1) by (simp add: run_posted_def Cont_Detach_def outcome_simps)
  ultimately show ?thesis by blast
qed

end
