(* ===== verification/Handle_Program.thy ===== *)
theory Handle_Program
  imports Handle_Safety
begin

text \<open>
  Programs that use promises and futures: the operations a client may perform, each on some thread,
  interleaved with the turns of the pool's workers. The theorems say that such programs never touch
  a deleted state, never fail an assertion and never lose a continuation, and that the only states
  they leak are those whose handle was overwritten by a move assignment.
\<close>

lemma sum_list_map_empty: "\<forall>x \<in> set xs. f x = {#} \<Longrightarrow> sum_list (map f xs) = {#}"
  by (induction xs) simp_all

lemma sum_list_map_zero: "\<forall>x \<in> set xs. f x = (0 :: nat) \<Longrightarrow> sum_list (map f xs) = 0"
  by (induction xs) simp_all

section \<open>Operations\<close>

definition promise_at :: "('v, 'k, 'x) world \<Rightarrow> nat \<Rightarrow> promise_obj option" where
  "promise_at w l = (if l < length (promises w) then promises w ! l else None)"

definition future_at :: "('v, 'k, 'x) world \<Rightarrow> nat \<Rightarrow> 'v future_obj option" where
  "future_at w l = (if l < length (futures w) then futures w ! l else None)"

text \<open>
  The operations are all constructors, assignments and destructors of the two classes and the members
  that set a result, a continuation, an executor or a flag. \<open>Wait\<close>, \<open>Get\<close> and the \<open>Then\<close> family are
  not among them: their continuations own promises and act on the library themselves, which
  \<^verbatim>\<open>Future_Then.thy\<close> models with its own closures (a \<open>Wait\<close> that blocks leaks the state it waited on,
  lemma \<open>wait_leaks\<close> there). \<open>Via\<close> is \<open>UseExecutor\<close> followed by \<open>MoveFuture\<close>.
\<close>

datatype ('v, 'k) client_op =
    NewPromise
  | CopyPromise nat
  | AssignPromise nat nat
  | MovePromise nat
  | MoveAssignPromise nat nat
  | DropPromise nat
  | TakeFuture nat
  | SetTry nat "'v try_val"
  | CheckoutPromise nat
  | ForcePromise nat
  | ReadyFuture "'v try_val"
  | MoveFuture nat
  | MoveAssignFuture nat nat
  | DropFuture nat
  | UseExecutor nat "nat option"
  | OnResult nat 'k
  | WorkerTurn nat

text \<open>
  Move assignment drops the old pointer of its target without detaching it (\<^verbatim>\<open>sync/promise.hpp\<close>,
  \<^verbatim>\<open>sync/future.hpp\<close>): the counters of that state go on counting a handle that does not exist. The
  accounts need it all the same, so after the code's assignment the forgotten handle is written down as
  one more entry of the list of objects. It is an auxiliary entry: no operation of the program may name it
  (\<open>program_run\<close> below).
\<close>

definition forgets_promise :: "nat \<Rightarrow> nat \<Rightarrow> ('v, 'k, 'x) world \<Rightarrow> promise_obj option" where
  "forgets_promise l m w =
     (case promise_at w l of
        None \<Rightarrow> None
      | Some ob \<Rightarrow> if l \<noteq> m \<and> p_shared ob \<noteq> None then Some ob else None)"

definition forgets_future :: "nat \<Rightarrow> nat \<Rightarrow> ('v, 'k, 'x) world \<Rightarrow> 'v future_obj option" where
  "forgets_future l m w =
     (case future_at w l of
        None \<Rightarrow> None
      | Some ob \<Rightarrow> if l \<noteq> m \<and> f_shared ob \<noteq> None then Some ob else None)"

definition overwrite_promise :: "nat \<Rightarrow> nat \<Rightarrow> (('v, 'k, 'x) world, unit) action" where
  "overwrite_promise l m w =
     (case Promise_move_assign l m w of
        (r, w') \<Rightarrow>
          (r, case forgets_promise l m w of
                None \<Rightarrow> w'
              | Some ob \<Rightarrow> w'\<lparr>promises := promises w' @ [Some ob]\<rparr>))"

definition overwrite_future :: "nat \<Rightarrow> nat \<Rightarrow> (('v, 'k, 'x) world, unit) action" where
  "overwrite_future l m w =
     (case Future_move_assign l m w of
        (r, w') \<Rightarrow>
          (r, case forgets_future l m w of
                None \<Rightarrow> w'
              | Some ob \<Rightarrow> w'\<lparr>futures := futures w' @ [Some ob]\<rparr>))"

text \<open>A worker takes one item from the queues and runs the closure it finds.\<close>

definition worker_turn ::
  "(nat \<Rightarrow> bool) \<Rightarrow> nat \<Rightarrow> nat \<Rightarrow> nat \<Rightarrow> (('v, 'k, ('v, 'k) sys) world, unit) action" where
  "worker_turn lk rand this i w =
     (case Pool_worker_turn lk i (sys_pool (rest w)) of
        (t, pool) \<Rightarrow>
          let w1 = w\<lparr>rest := (rest w)\<lparr>sys_pool := pool\<rparr>\<rparr>
          in case t of
               Runs p \<Rightarrow> run_posted (quiet_env lk rand this (Pool_worker_current this i)) p w1
             | _ \<Rightarrow> (Return (), w1))"

definition client_run ::
  "('v \<Rightarrow> 'v) \<Rightarrow> (nat \<Rightarrow> bool) \<Rightarrow> nat \<Rightarrow> nat \<Rightarrow> current \<Rightarrow> ('v, 'k) client_op \<Rightarrow>
     (('v, 'k, ('v, 'k) sys) world, unit) action" where
  "client_run mv lk rand this current op =
     (let env = quiet_env lk rand this current; done = (\<lambda>_. ret ())
      in case op of
           NewPromise \<Rightarrow> bind Promise_ctor done
         | CopyPromise l \<Rightarrow> bind (Promise_copy_ctor l) done
         | AssignPromise l m \<Rightarrow> Promise_copy_assign env l m
         | MovePromise l \<Rightarrow> bind (Promise_move_ctor l) done
         | MoveAssignPromise l m \<Rightarrow> overwrite_promise l m
         | DropPromise l \<Rightarrow> Promise_dtor env l
         | TakeFuture l \<Rightarrow> bind (Promise_GetFuture l) done
         | SetTry l t \<Rightarrow> Promise_SetTry env l t
         | CheckoutPromise l \<Rightarrow> Promise_Checkout env l
         | ForcePromise l \<Rightarrow> Promise_ForceScheduled l
         | ReadyFuture t \<Rightarrow> bind (Future_of_try t) done
         | MoveFuture l \<Rightarrow> bind (Future_move_ctor mv l) done
         | MoveAssignFuture l m \<Rightarrow> overwrite_future l m
         | DropFuture l \<Rightarrow> Future_dtor l
         | UseExecutor l e \<Rightarrow> Future_SetExecutor l e
         | OnResult l k \<Rightarrow> Future_SetContinuation env l k
         | WorkerTurn i \<Rightarrow> worker_turn lk rand this i)"

text \<open>
  What the client has to respect: it uses objects it has not destroyed, does not copy a promise it
  has moved from, sets continuations on valid futures only, checks out on worker threads only, does not
  take the executor from a state that is forced to schedule (the delivery would fail an assertion),
  and holds at most 250 references to one state (\<open>roomy_world\<close>).
\<close>

definition future_forced :: "('v, 'k, 'x) world \<Rightarrow> nat \<Rightarrow> bool" where
  "future_forced w l =
     (case future_at w l of
        None \<Rightarrow> False
      | Some ob \<Rightarrow>
          (case f_shared ob of
             None \<Rightarrow> False
           | Some p \<Rightarrow> (case heap w ! p of None \<Rightarrow> False | Some s \<Rightarrow> fs_force_scheduled s)))"

definition legal ::
  "nat \<Rightarrow> nat \<Rightarrow> current \<Rightarrow> ('v, 'k, ('v, 'k) sys) world \<Rightarrow> ('v, 'k) client_op \<Rightarrow> bool" where
  "legal n this current w op \<longleftrightarrow> roomy_world w \<and>
     (case op of
        NewPromise \<Rightarrow> True
      | CopyPromise l \<Rightarrow> (case promise_at w l of None \<Rightarrow> False | Some ob \<Rightarrow> Promise_Valid ob)
      | AssignPromise l m \<Rightarrow> promise_at w l \<noteq> None \<and>
          (l = m \<or> (case promise_at w m of None \<Rightarrow> False | Some ob \<Rightarrow> Promise_Valid ob))
      | MovePromise l \<Rightarrow> promise_at w l \<noteq> None
      | MoveAssignPromise l m \<Rightarrow> promise_at w l \<noteq> None \<and> promise_at w m \<noteq> None
      | DropPromise l \<Rightarrow> promise_at w l \<noteq> None
      | TakeFuture l \<Rightarrow> promise_at w l \<noteq> None
      | SetTry l t \<Rightarrow> promise_at w l \<noteq> None
      | CheckoutPromise l \<Rightarrow> promise_at w l \<noteq> None \<and> (\<exists>i < n. current = Pool_worker_current this i)
      | ForcePromise l \<Rightarrow> promise_at w l \<noteq> None
      | ReadyFuture t \<Rightarrow> True
      | MoveFuture l \<Rightarrow> future_at w l \<noteq> None
      | MoveAssignFuture l m \<Rightarrow> future_at w l \<noteq> None \<and> future_at w m \<noteq> None
      | DropFuture l \<Rightarrow> future_at w l \<noteq> None
      | UseExecutor l e \<Rightarrow> future_at w l \<noteq> None \<and> (e = None \<longrightarrow> \<not> future_forced w l)
      | OnResult l k \<Rightarrow> (case future_at w l of None \<Rightarrow> False | Some ob \<Rightarrow> Future_Valid ob)
      | WorkerTurn i \<Rightarrow> i < n)"

text \<open>The continuations that an operation has made the library responsible for.\<close>

fun accepts :: "('v, 'k) client_op \<Rightarrow> unit outcome \<Rightarrow> 'k multiset" where
  "accepts (OnResult l k) r = (if r = Return () then {#k#} else {#})"
| "accepts _ r = {#}"

section \<open>Steps of the world\<close>

definition good_step ::
  "nat \<Rightarrow> 'k multiset \<Rightarrow> ('v, 'k, ('v, 'k) sys) world \<Rightarrow> ('v, 'k, ('v, 'k) sys) world \<Rightarrow> bool" where
  "good_step n D w w' \<longleftrightarrow>
     world_ok n w' \<and> outstanding w' + called (rest w') = outstanding w + called (rest w) + D"

text \<open>A step on one state, while some handles (of this state only) come or go.\<close>

lemma good_stepI:
  assumes ok: "world_ok n w" and step: "stepped n p a pr c D v w'" and p: "p < length (heap v)"
    and same: "rest v = rest w" "conts v = conts w" "heap v = heap w"
    and refs: "\<And>q. q \<noteq> p \<Longrightarrow> prefs (promises v) q = prefs (promises w) q"
      "\<And>q. q \<noteq> p \<Longrightarrow> frefs (futures v) q = frefs (futures w) q"
    and held: "holders v p = a" "prefs (promises v) p = pr" "count (conts w) p = c"
  shows "good_step n D w w'"
proof -
  have "slot_ok n v q" if "q \<noteq> p" for q
    using ok refs that same
    by (intro slot_ok_frame [of n w q v]) (simp_all add: world_ok_def)
  moreover have "conts v = sys_posted (rest v)" using ok same by (simp add: world_ok_def)
  ultimately have "world_ok n w'" "outstanding w' + called (rest w') = outstanding v + called (rest v) + D"
    using world_ok_stepped [OF step p] held same by simp_all
  then show ?thesis using same by (simp add: good_step_def outstanding_def)
qed

text \<open>Handles that change without changing what is held.\<close>

lemma good_step_handles:
  assumes ok: "world_ok n w" and "\<And>q. prefs ps q = prefs (promises w) q" "\<And>q. frefs fs q = frefs (futures w) q"
  shows "good_step n {#} w (w\<lparr>promises := ps, futures := fs\<rparr>)"
proof -
  let ?w = "w\<lparr>promises := ps, futures := fs\<rparr>"
  have "slot_ok n ?w q" for q
    using ok assms(2,3) by (intro slot_ok_frame [of n w q ?w]) (simp_all add: world_ok_def)
  then have "world_ok n ?w" using ok by (simp add: world_ok_def)
  then show ?thesis by (simp add: good_step_def outstanding_def)
qed

lemma good_step_same: "world_ok n w \<Longrightarrow> good_step n {#} w w"
  by (simp add: good_step_def)

lemma good_step_trans:
  "good_step n {#} w v \<Longrightarrow> good_step n D v w' \<Longrightarrow> good_step n D w w'"
  by (simp add: good_step_def)

lemma promise_atD:
  assumes "promise_at w l = Some ob"
  shows "l < length (promises w)" "promises w ! l = Some ob" "promise_read l w = (Return ob, w)"
  using assms by (auto simp: promise_at_def promise_read_def split: if_splits)

lemma future_atD:
  assumes "future_at w l = Some ob"
  shows "l < length (futures w)" "futures w ! l = Some ob" "future_read l w = (Return ob, w)"
  using assms by (auto simp: future_at_def future_read_def split: if_splits)

text \<open>The state behind a promise or a future is alive.\<close>

lemma promise_live:
  assumes ok: "world_ok n w" and l: "promise_at w l = Some ob" "p_shared ob = Some p"
  obtains s where "live w p s" "state_ok n (holders w p) (prefs (promises w) p) (count (conts w) p) s"
    "prefs (promises w) p = 0 \<longrightarrow> resolved s" "p < length (heap w)" "1 \<le> prefs (promises w) p"
    "prefs (promises w) p + count (conts w) p \<le> holders w p" "sys_good n (rest w)"
proof -
  have "1 \<le> prefs (promises w) p"
    using prefs_member [OF promise_atD(1) [OF l(1)], of p] promise_atD(2) [OF l(1)] l(2) by simp
  moreover from this have "0 < holders w p" by (simp add: holders_def)
  moreover have "slot_ok n w p" "sys_good n (rest w)" using ok by (simp_all add: world_ok_def)
  ultimately show thesis
    using that by (elim held_live [of n w p]) (simp_all add: holders_def)
qed

lemma future_live:
  assumes ok: "world_ok n w" and l: "future_at w l = Some ob" "f_shared ob = Some p"
  obtains s where "live w p s" "state_ok n (holders w p) (prefs (promises w) p) (count (conts w) p) s"
    "prefs (promises w) p = 0 \<longrightarrow> resolved s" "p < length (heap w)" "1 \<le> frefs (futures w) p"
    "prefs (promises w) p + count (conts w) p < holders w p" "sys_good n (rest w)"
proof -
  have "1 \<le> frefs (futures w) p"
    using frefs_member [OF future_atD(1) [OF l(1)], of p] future_atD(2) [OF l(1)] l(2) by simp
  moreover from this have "0 < holders w p" by (simp add: holders_def)
  moreover have "slot_ok n w p" "sys_good n (rest w)" using ok by (simp_all add: world_ok_def)
  ultimately show thesis
    using that by (elim held_live [of n w p]) (simp_all add: holders_def)
qed


definition safe_run ::
  "nat \<Rightarrow> (unit outcome \<Rightarrow> 'k multiset) \<Rightarrow> (('v, 'k, ('v, 'k) sys) world, unit) action \<Rightarrow>
     ('v, 'k, ('v, 'k) sys) world \<Rightarrow> bool" where
  "safe_run n D m w \<longleftrightarrow> (case m w of (r, w') \<Rightarrow> well_ended r \<and> good_step n (D r) w w')"

lemma safe_return: "m w = (Return (), w') \<Longrightarrow> good_step n (D (Return ())) w w' \<Longrightarrow> safe_run n D m w"
  by (simp add: safe_run_def well_ended_def)

lemma safe_throw: "m w = (Throw (LogicError e), w) \<Longrightarrow> D (Throw (LogicError e)) = {#} \<Longrightarrow> world_ok n w \<Longrightarrow> safe_run n D m w"
  by (simp add: safe_run_def well_ended_def good_step_same)

section \<open>Promises\<close>

lemma safe_NewPromise:
  assumes ok: "world_ok n w"
  shows "safe_run n (\<lambda>_. {#}) (bind Promise_ctor (\<lambda>_. ret ())) w"
proof -
  let ?p = "length (heap w)" and ?s = "FutureState_ctor :: ('v, 'k) future_state"
  let ?ob = "\<lparr>p_shared = Some ?p, p_has_future = False\<rparr>"
  let ?w1 = "w\<lparr>heap := heap w @ [Some ?s]\<rparr>"
  let ?v = "?w1\<lparr>promises := promises w @ [Some ?ob], futures := futures w\<rparr>"
  have s: "live ?w1 ?p ?s" "state_ok n 0 0 0 ?s" "sys_good n (rest ?w1)"
    using ok by (simp_all add: live_def state_ok_def FutureState_ctor_def fs_wf_def world_ok_def)
  from run_AttachPromise [OF s(3,1,2)] obtain w2 where
    w2: "AttachPromise ?p ?w1 = (Return (), w2)" "stepped n ?p 1 1 0 {#} ?w1 w2" by auto
  let ?w' = "w2\<lparr>promises := promises w @ [Some ?ob], futures := futures w\<rparr>"
  have none: "prefs (promises w) ?p = 0" "frefs (futures w) ?p = 0" "count (conts w) ?p = 0"
    using ok by (auto simp: world_ok_def slot_ok_def holders_def dest!: spec [of _ ?p])
  have "slot_ok n ?v q" if "q \<noteq> ?p" for q
    using ok that by (intro slot_ok_frame [of n w q ?v]) (auto simp: world_ok_def nth_append)
  moreover have "holders ?v ?p = 1" "prefs (promises ?v) ?p = 1" "count (conts ?v) ?p = 0"
    using none by (simp_all add: holders_def)
  moreover have "stepped n ?p 1 1 0 {#} ?v ?w'" by (rule stepped_frame [OF w2(2)])
  moreover have "conts ?v = sys_posted (rest ?v)" "?p < length (heap ?v)" using ok by (simp_all add: world_ok_def)
  ultimately have "world_ok n ?w'" "outstanding ?w' + called (rest ?w') = outstanding ?v + called (rest ?v) + {#}"
    using world_ok_stepped [of n ?p 1 1 0 "{#}" ?v ?w'] by blast+
  moreover have "outstanding ?v = outstanding w" "called (rest ?v) = called (rest w)"
    by (simp_all add: outstanding_def waiting_def FutureState_ctor_def)
  ultimately have "good_step n {#} w ?w'" by (simp add: good_step_def)
  moreover have "promises w2 = promises w" "futures w2 = futures w"
    using stepped_handles [OF w2(2)] by simp_all
  then have "bind Promise_ctor (\<lambda>_. ret ()) w = (Return (), ?w')"
    using w2(1) by (cases w2) (simp add: Promise_ctor_def heap_new_def promise_new_def outcome_simps)
  ultimately show ?thesis by (intro safe_return)
qed

text \<open>The body of the destructor: afterwards the object may be forgotten.\<close>

lemma dtor_body:
  assumes ok: "world_ok n w" and room: "roomy_world w" and l: "promise_at w l = Some ob"
    and x: "\<And>q. p_points q x = 0"
  obtains w1 where "Promise_dtor_body (quiet_env lk rand this current) l w = (Return (), w1)"
    "promises w1 = promises w" "futures w1 = futures w"
    "good_step n {#} w (w1\<lparr>promises := (promises w)[l := x]\<rparr>)"
proof (cases "p_shared ob")
  case None
  have "prefs ((promises w)[l := x]) q = prefs (promises w) q" for q
    using prefs_update [OF promise_atD(1) [OF l], of x q] promise_atD(2) [OF l] None x by simp
  then have "good_step n {#} w (w\<lparr>promises := (promises w)[l := x]\<rparr>)"
    using good_step_handles [OF ok, of "(promises w)[l := x]" "futures w"] by simp
  with None promise_atD(3) [OF l] that show thesis
    by (simp add: Promise_dtor_body_def outcome_simps)
next
  case (Some p)
  from ok l Some obtain s where s: "live w p s"
    "state_ok n (holders w p) (prefs (promises w) p) (count (conts w) p) s"
    "prefs (promises w) p = 0 \<longrightarrow> resolved s" "p < length (heap w)" "1 \<le> prefs (promises w) p"
    "prefs (promises w) p + count (conts w) p \<le> holders w p" "sys_good n (rest w)"
    by (rule promise_live)
  have "holders w p \<le> 253" using roomy_worldD [OF room s(4)] s(4) by auto
  from run_DetachPromise [OF s(7,1,2,3) this s(5,6), of lk rand this current] obtain w1 where
    w1: "DetachPromise (quiet_env lk rand this current) p w = (Return (), w1)"
    "stepped n p (holders w p - 1) (prefs (promises w) p - 1) (count (conts w) p) {#} w w1" by blast
  let ?ps = "(promises w)[l := x]"
  have upd: "prefs ?ps q + of_bool (q = p) = prefs (promises w) q" for q
    using prefs_update [OF promise_atD(1) [OF l], of x q] promise_atD(2) [OF l] Some x by (cases "q = p") auto
  let ?v = "w\<lparr>promises := ?ps, futures := futures w\<rparr>" and ?w' = "w1\<lparr>promises := ?ps, futures := futures w\<rparr>"
  have "good_step n {#} w ?w'"
  proof (rule good_stepI [OF ok stepped_frame [OF w1(2)]])
    show "holders ?v p = holders w p - 1" "prefs (promises ?v) p = prefs (promises w) p - 1"
      using upd [of p] by (simp_all add: holders_def)
    show "prefs (promises ?v) q = prefs (promises w) q" if "q \<noteq> p" for q using upd [of q] that by simp
  qed (use s(4) in simp_all)
  moreover have handles: "promises w1 = promises w" "futures w1 = futures w"
    using stepped_handles [OF w1(2)] by simp_all
  then have "?w' = w1\<lparr>promises := ?ps\<rparr>" by (cases w1) simp
  ultimately have "good_step n {#} w (w1\<lparr>promises := ?ps\<rparr>)" by simp
  moreover have "Promise_dtor_body (quiet_env lk rand this current) l w = (Return (), w1)"
    using Some w1(1) promise_atD(3) [OF l] by (simp add: Promise_dtor_body_def outcome_simps)
  ultimately show thesis using that handles by blast
qed

lemma safe_DropPromise:
  assumes "world_ok n w" and "roomy_world w" and "promise_at w l = Some ob"
  shows "safe_run n (\<lambda>_. {#}) (Promise_dtor (quiet_env lk rand this current) l) w"
  by (rule dtor_body [OF assms, of None lk rand this current], simp)
    (auto intro!: safe_return simp: Promise_dtor_def promise_set_def outcome_simps)

text \<open>A new holder of a state: the promise is written first or afterwards, which is the same.\<close>

lemma attach_promise:
  assumes ok: "world_ok n w" and l: "promise_at w l = Some ob" "p_shared ob = Some p"
    and ps: "\<And>q. prefs ps q = prefs (promises w) q + of_bool (q = p)"
  obtains w1 where "AttachPromise p w = (Return (), w1)" "promises w1 = promises w" "futures w1 = futures w"
    "good_step n {#} w (w1\<lparr>promises := ps\<rparr>)"
proof -
  from ok l obtain s where s: "live w p s"
    "state_ok n (holders w p) (prefs (promises w) p) (count (conts w) p) s"
    "prefs (promises w) p = 0 \<longrightarrow> resolved s" "p < length (heap w)" "1 \<le> prefs (promises w) p"
    "prefs (promises w) p + count (conts w) p \<le> holders w p" "sys_good n (rest w)"
    by (rule promise_live)
  from run_AttachPromise [OF s(7,1,2)] obtain w1 where
    w1: "AttachPromise p w = (Return (), w1)"
    "stepped n p (holders w p + 1) (prefs (promises w) p + 1) (count (conts w) p) {#} w w1" by blast
  let ?v = "w\<lparr>promises := ps, futures := futures w\<rparr>" and ?w' = "w1\<lparr>promises := ps, futures := futures w\<rparr>"
  have "good_step n {#} w ?w'"
    by (rule good_stepI [OF ok stepped_frame [OF w1(2)]]) (use ps s(4) in \<open>simp_all add: holders_def\<close>)
  moreover have handles: "promises w1 = promises w" "futures w1 = futures w"
    using stepped_handles [OF w1(2)] by simp_all
  then have "?w' = w1\<lparr>promises := ps\<rparr>" by (cases w1) simp
  ultimately show thesis using that w1(1) handles by simp
qed

lemma safe_CopyPromise:
  assumes ok: "world_ok n w" and l: "promise_at w l = Some ob" and valid: "Promise_Valid ob"
  shows "safe_run n (\<lambda>_. {#}) (bind (Promise_copy_ctor l) (\<lambda>_. ret ())) w"
proof -
  obtain p where p: "p_shared ob = Some p" using valid by (auto simp: Promise_Valid_def)
  have "prefs (promises w @ [Some ob]) q = prefs (promises w) q + of_bool (q = p)" for q
    using p by auto
  from attach_promise [OF ok l p this] obtain w1 where
    "AttachPromise p w = (Return (), w1)" "promises w1 = promises w" "futures w1 = futures w"
    "good_step n {#} w (w1\<lparr>promises := promises w @ [Some ob]\<rparr>)" by blast
  with p promise_atD(3) [OF l] show ?thesis
    by (intro safe_return) (simp_all add: Promise_copy_ctor_def through_def promise_new_def outcome_simps)
qed

lemma safe_AssignPromise:
  assumes ok: "world_ok n w" and room: "roomy_world w" and l: "promise_at w l = Some ob"
    and m: "l = m \<or> (promise_at w m = Some ob' \<and> Promise_Valid ob')"
  shows "safe_run n (\<lambda>_. {#}) (Promise_copy_assign (quiet_env lk rand this current) l m) w"
proof (cases "l = m")
  case True
  with ok show ?thesis
    by (intro safe_return [of _ w w]) (simp_all add: Promise_copy_assign_def run_method good_step_same)
next
  case False
  with m obtain p where m': "promise_at w m = Some ob'" and p: "p_shared ob' = Some p"
    by (auto simp: Promise_Valid_def)
  from dtor_body [OF ok room l, of "Some p_null" lk rand this current] obtain w1 where
    w1: "Promise_dtor_body (quiet_env lk rand this current) l w = (Return (), w1)"
    "promises w1 = promises w" "futures w1 = futures w"
    and g1: "good_step n {#} w (w1\<lparr>promises := (promises w)[l := Some p_null]\<rparr>)"
    by (auto simp: p_null_def)
  let ?w1 = "w1\<lparr>promises := (promises w)[l := Some p_null]\<rparr>" and ?ps = "(promises w)[l := Some ob']"
  have at1: "promise_at ?w1 m = Some ob'" using m' False by (auto simp: promise_at_def split: if_splits)
  have ok1: "world_ok n ?w1" using g1 by (simp add: good_step_def)
  have ps: "prefs ?ps q = prefs (promises ?w1) q + of_bool (q = p)" for q
    using prefs_update [OF promise_atD(1) [OF l], of "Some p_null" q] p
      prefs_update [OF promise_atD(1) [OF l], of "Some ob'" q] by (auto simp: p_null_def)
  from attach_promise [OF ok1 at1 p ps] obtain w2 where
    w2: "AttachPromise p ?w1 = (Return (), w2)" "promises w2 = promises ?w1" "futures w2 = futures ?w1"
    "good_step n {#} ?w1 (w2\<lparr>promises := ?ps\<rparr>)" by blast
  have "promise_at w1 m = Some ob'" using m' w1(2) by (auto simp: promise_at_def split: if_splits)
  then have read1: "promise_read m w1 = (Return ob', w1)" by (rule promise_atD(3))
  have "AttachPromise p (w1\<lparr>promises := ?ps\<rparr>) = (Return (), w2\<lparr>promises := ?ps\<rparr>)"
    using w2(1) by (cases w1) (clarsimp simp: AttachPromise_def AttachOne_def fs_write_def outcome_simps
        split: if_splits option.splits)
  then have "Promise_copy_assign (quiet_env lk rand this current) l m w = (Return (), w2\<lparr>promises := ?ps\<rparr>)"
    using False w1 p read1
    by (simp add: Promise_copy_assign_def promise_set_def through_def outcome_simps)
  with good_step_trans [OF g1 w2(4)] show ?thesis by (intro safe_return)
qed


lemma safe_MovePromise:
  assumes ok: "world_ok n w" and l: "promise_at w l = Some ob"
  shows "safe_run n (\<lambda>_. {#}) (bind (Promise_move_ctor l) (\<lambda>_. ret ())) w"
proof -
  let ?ps = "(promises w)[l := Some p_null] @ [Some ob]"
  have "prefs ?ps q = prefs (promises w) q" for q
    using prefs_update [OF promise_atD(1) [OF l], of "Some p_null" q] promise_atD(2) [OF l]
    by (simp add: p_null_def)
  then have "good_step n {#} w (w\<lparr>promises := ?ps\<rparr>)"
    using good_step_handles [OF ok, of ?ps "futures w"] by simp
  with promise_atD(3) [OF l] show ?thesis
    by (intro safe_return)
      (simp_all add: Promise_move_ctor_def promise_set_def promise_new_def outcome_simps)
qed

lemma safe_MoveAssignPromise:
  assumes ok: "world_ok n w" and l: "promise_at w l = Some old" and m: "promise_at w m = Some ob"
  shows "safe_run n (\<lambda>_. {#}) (overwrite_promise l m) w"
proof -
  let ?ps = "(promises w)[m := Some p_null, l := Some ob] @
    (case forgets_promise l m w of None \<Rightarrow> [] | Some x \<Rightarrow> [Some x])"
  have "prefs ?ps q = prefs (promises w) q" for q
  proof (cases "l = m")
    case True
    with l m promise_atD(1,2) [OF l] show ?thesis by (simp add: forgets_promise_def) (metis list_update_id)
  next
    case False
    then have "prefs ((promises w)[m := Some p_null, l := Some ob]) q + p_points q (Some old) = prefs (promises w) q"
      using prefs_update [OF promise_atD(1) [OF m], of "Some p_null" q] promise_atD(1,2) [OF l] promise_atD(2) [OF m]
        prefs_update [of l "(promises w)[m := Some p_null]" "Some ob" q] by (simp add: p_null_def)
    with False show ?thesis by (auto simp: forgets_promise_def l)
  qed
  then have "good_step n {#} w (w\<lparr>promises := ?ps\<rparr>)"
    using good_step_handles [OF ok, of ?ps "futures w"] by simp
  moreover have "promise_read l (w\<lparr>promises := (promises w)[m := Some p_null]\<rparr>) =
      (Return (if l = m then p_null else old), w\<lparr>promises := (promises w)[m := Some p_null]\<rparr>)"
    using promise_atD(1,2) [OF l] by (simp add: promise_read_def nth_list_update)
  then have "overwrite_promise l m w = (Return (), w\<lparr>promises := ?ps\<rparr>)"
    using promise_atD(3) [OF m]
    by (simp add: overwrite_promise_def Promise_move_assign_def promise_set_def outcome_simps split: option.split)
  ultimately show ?thesis by (intro safe_return)
qed

lemma safe_TakeFuture:
  assumes ok: "world_ok n w" and l: "promise_at w l = Some ob"
  shows "safe_run n (\<lambda>_. {#}) (bind (Promise_GetFuture l) (\<lambda>_. ret ())) w"
proof (cases "\<not> Promise_Valid ob \<or> p_has_future ob")
  case True
  let ?e = "if Promise_Valid ob then ''Promise already has a future'' else ''Promise is broken''"
  have "bind (Promise_GetFuture l) (\<lambda>_. ret ()) w = (Throw (LogicError ?e), w)"
    using True promise_atD(3) [OF l] by (simp add: Promise_GetFuture_def outcome_simps)
  then show ?thesis using ok by (rule safe_throw [OF _ refl])
next
  case False
  then obtain p where p: "p_shared ob = Some p" by (auto simp: Promise_Valid_def)
  let ?ps = "(promises w)[l := Some (ob\<lparr>p_has_future := True\<rparr>)]"
  let ?fs = "futures w @ [Some \<lparr>f_shared = Some p, f_local = Local_empty\<rparr>]"
  let ?w1 = "w\<lparr>promises := ?ps, futures := futures w\<rparr>"
  have ps: "prefs ?ps q = prefs (promises w) q" for q
    using prefs_update [OF promise_atD(1) [OF l], of "Some (ob\<lparr>p_has_future := True\<rparr>)" q]
      promise_atD(2) [OF l] by simp
  have g1: "good_step n {#} w ?w1" using ps by (intro good_step_handles [OF ok]) simp_all
  then have ok1: "world_ok n ?w1" by (simp add: good_step_def)
  have "promise_at ?w1 l = Some (ob\<lparr>p_has_future := True\<rparr>)" "p_shared (ob\<lparr>p_has_future := True\<rparr>) = Some p"
    using promise_atD(1) [OF l] p by (simp_all add: promise_at_def)
  from ok1 this obtain s where s: "live ?w1 p s"
    "state_ok n (holders ?w1 p) (prefs (promises ?w1) p) (count (conts ?w1) p) s"
    "prefs (promises ?w1) p = 0 \<longrightarrow> resolved s" "p < length (heap ?w1)" "1 \<le> prefs (promises ?w1) p"
    "prefs (promises ?w1) p + count (conts ?w1) p \<le> holders ?w1 p" "sys_good n (rest ?w1)"
    by (rule promise_live)
  from run_AttachOne [OF s(7,1,2,3)] obtain w2 where w2: "AttachOne p ?w1 = (Return (), w2)"
    "stepped n p (holders ?w1 p + 1) (prefs (promises ?w1) p) (count (conts ?w1) p) {#} ?w1 w2" by blast
  let ?v = "?w1\<lparr>promises := ?ps, futures := ?fs\<rparr>" and ?w' = "w2\<lparr>promises := ?ps, futures := ?fs\<rparr>"
  have "good_step n {#} ?w1 ?w'"
    by (rule good_stepI [OF ok1 stepped_frame [OF w2(2)]]) (use s(4) in \<open>simp_all add: holders_def\<close>)
  moreover have "promises w2 = ?ps" "futures w2 = futures w" using stepped_handles [OF w2(2)] by simp_all
  then have "bind (Promise_GetFuture l) (\<lambda>_. ret ()) w = (Return (), ?w')"
    using False p promise_atD(3) [OF l] w2(1)
    by (cases w2) (simp add: Promise_GetFuture_def promise_set_def Future_of_state_def future_new_def outcome_simps)
  ultimately show ?thesis using good_step_trans [OF g1] by (intro safe_return)
qed

lemma safe_SetTry:
  assumes ok: "world_ok n w" and room: "roomy_world w" and l: "promise_at w l = Some ob"
  shows "safe_run n (\<lambda>_. {#}) (Promise_SetTry (quiet_env lk rand this current) l t) w"
proof (cases "p_shared ob")
  case None
  then have "Promise_SetTry (quiet_env lk rand this current) l t w = (Throw (LogicError ''Promise is broken''), w)"
    using promise_atD(3) [OF l] by (simp add: Promise_SetTry_def outcome_simps Promise_Valid_def)
  then show ?thesis using ok by (rule safe_throw [OF _ refl])
next
  case (Some p)
  from ok l Some obtain s where s: "live w p s"
    "state_ok n (holders w p) (prefs (promises w) p) (count (conts w) p) s"
    "prefs (promises w) p = 0 \<longrightarrow> resolved s" "p < length (heap w)" "1 \<le> prefs (promises w) p"
    "prefs (promises w) p + count (conts w) p \<le> holders w p" "sys_good n (rest w)"
    by (rule promise_live)
  have b: "1 \<le> holders w p" "holders w p \<le> 253" "prefs (promises w) p \<noteq> 0 \<or> \<not> resolved s"
    using roomy_worldD [OF room s(4)] s(4,5,6) by auto
  from run_SetResult [OF s(7,1,2) b, of lk rand this current t] obtain r w' where
    r: "SetResult (quiet_env lk rand this current) p t w = (r, w')" "well_ended r"
    "stepped n p (holders w p) (prefs (promises w) p) (count (conts w) p) {#} w w'" by blast
  have "good_step n {#} w w'"
    by (rule good_stepI [OF ok r(3) s(4)]) (simp_all add: holders_def)
  moreover have "Promise_SetTry (quiet_env lk rand this current) l t w = (r, w')"
    using Some r(1) promise_atD(3) [OF l]
    by (simp add: Promise_SetTry_def through_def outcome_simps Promise_Valid_def)
  ultimately show ?thesis using r(2) by (simp add: safe_run_def)
qed


text \<open>Writing a field that the accounts do not depend on.\<close>

lemma good_step_write:
  assumes ok: "world_ok n w" and live: "live w p s" and p: "p < length (heap w)" and a: "1 \<le> holders w p"
    and t: "state_ok n (holders w p) (prefs (promises w) p) (count (conts w) p) t"
    and res: "prefs (promises w) p = 0 \<longrightarrow> resolved t" and wait: "waiting (Some t) = waiting (Some s)"
  shows "good_step n {#} w (put p t w)"
proof -
  have "sys_good n (rest w)" using ok by (simp add: world_ok_def)
  with stepped_put [OF live t res this a] wait
  have "stepped n p (holders w p) (prefs (promises w) p) (count (conts w) p) {#} w (put p t w)" by simp
  then show ?thesis by (rule good_stepI [OF ok]) (simp_all add: p)
qed

lemma safe_CheckoutPromise:
  assumes ok: "world_ok n w" and l: "promise_at w l = Some ob"
    and i: "i < n" "current = Pool_worker_current this i"
  shows "safe_run n (\<lambda>_. {#}) (Promise_Checkout (quiet_env lk rand this current) l) w"
proof (cases "p_shared ob")
  case None
  with promise_atD(3) [OF l] ok show ?thesis
    by (intro safe_return [of _ w w]) (simp_all add: Promise_Checkout_def outcome_simps good_step_same)
next
  case (Some p)
  from ok l Some obtain s where s: "live w p s"
    "state_ok n (holders w p) (prefs (promises w) p) (count (conts w) p) s"
    "prefs (promises w) p = 0 \<longrightarrow> resolved s" "p < length (heap w)" "1 \<le> prefs (promises w) p"
    "prefs (promises w) p + count (conts w) p \<le> holders w p" "sys_good n (rest w)"
    by (rule promise_live)
  let ?t = "s\<lparr>fs_context := Simple_Checkout this current\<rparr>"
  have "sys_context n (Simple_Checkout this current)"
    using i Simple_Checkout_worker [of this i] by (auto simp: sys_context_def)
  then have "good_step n {#} w (put p ?t w)"
    using s by (intro good_step_write [OF ok s(1)])
      (simp_all add: state_ok_def fs_wf_def resolved_def waiting_def)
  moreover have "Promise_Checkout (quiet_env lk rand this current) l w =
      (Return (), if fs_executor s = None then w else put p ?t w)"
    using Some promise_atD(3) [OF l] s(1)
    by (simp add: Promise_Checkout_def FS_Checkout_def run_fs_read [OF s(1)] run_fs_write [OF s(1)]
        simple_env_def outcome_simps split: option.split)
  ultimately show ?thesis
    using good_step_same [OF ok] by (simp add: safe_run_def well_ended_def)
qed

lemma safe_ForcePromise:
  assumes ok: "world_ok n w" and l: "promise_at w l = Some ob"
  shows "safe_run n (\<lambda>_. {#}) (Promise_ForceScheduled l) w"
proof (cases "p_shared ob")
  case None
  with promise_atD(3) [OF l] ok show ?thesis
    by (intro safe_return [of _ w w]) (simp_all add: Promise_ForceScheduled_def outcome_simps good_step_same)
next
  case (Some p)
  from ok l Some obtain s where s: "live w p s"
    "state_ok n (holders w p) (prefs (promises w) p) (count (conts w) p) s"
    "prefs (promises w) p = 0 \<longrightarrow> resolved s" "p < length (heap w)" "1 \<le> prefs (promises w) p"
    "prefs (promises w) p + count (conts w) p \<le> holders w p" "sys_good n (rest w)"
    by (rule promise_live)
  let ?t = "s\<lparr>fs_force_scheduled := True\<rparr>"
  have run: "Promise_ForceScheduled l w = (Return (), if fs_executor s = None then w else put p ?t w)"
    using Some promise_atD(3) [OF l]
    by (simp add: Promise_ForceScheduled_def SetForceScheduled_def run_fs_read [OF s(1)]
        run_fs_write [OF s(1)] outcome_simps)
  show ?thesis
  proof (cases "fs_executor s = None")
    case True
    with run good_step_same [OF ok] show ?thesis by (intro safe_return [of _ w w]) simp_all
  next
    case False
    then have "good_step n {#} w (put p ?t w)"
      using s by (intro good_step_write [OF ok s(1)])
        (simp_all add: state_ok_def fs_wf_def resolved_def waiting_def)
    with run show ?thesis using False by (auto simp: safe_run_def well_ended_def)
  qed
qed

section \<open>Futures\<close>

lemma safe_ReadyFuture:
  assumes ok: "world_ok n w"
  shows "safe_run n (\<lambda>_. {#}) (bind (Future_of_try t) (\<lambda>_. ret ())) w"
proof -
  let ?fs = "futures w @ [Some \<lparr>f_shared = None, f_local = Local_of_try t\<rparr>]"
  have "good_step n {#} w (w\<lparr>futures := ?fs\<rparr>)"
    using good_step_handles [OF ok, of "promises w" ?fs] by simp
  then show ?thesis
    by (intro safe_return) (simp_all add: Future_of_try_def future_new_def outcome_simps)
qed

lemma safe_MoveFuture:
  assumes ok: "world_ok n w" and l: "future_at w l = Some ob"
  shows "safe_run n (\<lambda>_. {#}) (bind (Future_move_ctor mv l) (\<lambda>_. ret ())) w"
proof -
  obtain new left where mv: "Local_move_ctor mv (f_local ob) = (new, left)"
    by (cases "Local_move_ctor mv (f_local ob)")
  let ?fs = "(futures w)[l := Some \<lparr>f_shared = None, f_local = left\<rparr>] @
    [Some \<lparr>f_shared = f_shared ob, f_local = new\<rparr>]"
  have "frefs ?fs q = frefs (futures w) q" for q
    using frefs_update [OF future_atD(1) [OF l], of "Some \<lparr>f_shared = None, f_local = left\<rparr>" q]
      future_atD(2) [OF l] by simp
  then have "good_step n {#} w (w\<lparr>futures := ?fs\<rparr>)"
    using good_step_handles [OF ok, of "promises w" ?fs] by simp
  with mv future_atD(3) [OF l] show ?thesis
    by (intro safe_return) (simp_all add: Future_move_ctor_def future_set_def future_new_def outcome_simps)
qed

lemma safe_MoveAssignFuture:
  assumes ok: "world_ok n w" and l: "future_at w l = Some old" and m: "future_at w m = Some ob"
  shows "safe_run n (\<lambda>_. {#}) (overwrite_future l m) w"
proof (cases "l = m")
  case True
  with ok show ?thesis
    by (intro safe_return [of _ w w])
      (simp_all add: overwrite_future_def forgets_future_def l Future_move_assign_def run_method good_step_same
        split: option.split)
next
  case False
  obtain l1 l2 where mv: "Local_move_assign (f_local old) (f_local ob) = (l1, l2)"
    by (cases "Local_move_assign (f_local old) (f_local ob)")
  let ?y = "Some \<lparr>f_shared = None, f_local = l2\<rparr>" and ?x = "Some \<lparr>f_shared = f_shared ob, f_local = l1\<rparr>"
  let ?fs = "(futures w)[m := ?y, l := ?x] @ (case forgets_future l m w of None \<Rightarrow> [] | Some x \<Rightarrow> [Some x])"
  have "frefs ?fs q = frefs (futures w) q" for q
    using frefs_update [OF future_atD(1) [OF m], of ?y q] future_atD(1,2) [OF l] future_atD(2) [OF m]
      frefs_update [of l "(futures w)[m := ?y]" ?x q] l False
    by (auto simp: forgets_future_def nth_list_update)
  then have "good_step n {#} w (w\<lparr>futures := ?fs\<rparr>)"
    using good_step_handles [OF ok, of "promises w" ?fs] by simp
  moreover have "overwrite_future l m w = (Return (), w\<lparr>futures := ?fs\<rparr>)"
    using future_atD(3) [OF l] future_atD(3) [OF m] mv False
    by (simp add: overwrite_future_def Future_move_assign_def future_set_def outcome_simps split: option.split)
  ultimately show ?thesis by (intro safe_return)
qed

lemma safe_DropFuture:
  assumes ok: "world_ok n w" and room: "roomy_world w" and l: "future_at w l = Some ob"
  shows "safe_run n (\<lambda>_. {#}) (Future_dtor l) w"
proof (cases "f_shared ob")
  case None
  let ?fs = "(futures w)[l := None]"
  have "frefs ?fs q = frefs (futures w) q" for q
    using frefs_update [OF future_atD(1) [OF l], of None q] future_atD(2) [OF l] None by simp
  then have "good_step n {#} w (w\<lparr>futures := ?fs\<rparr>)"
    using good_step_handles [OF ok, of "promises w" ?fs] by simp
  with None future_atD(3) [OF l] show ?thesis
    by (intro safe_return) (simp_all add: Future_dtor_def future_set_def outcome_simps)
next
  case (Some p)
  from ok l Some obtain s where s: "live w p s"
    "state_ok n (holders w p) (prefs (promises w) p) (count (conts w) p) s"
    "prefs (promises w) p = 0 \<longrightarrow> resolved s" "p < length (heap w)" "1 \<le> frefs (futures w) p"
    "prefs (promises w) p + count (conts w) p < holders w p" "sys_good n (rest w)"
    by (rule future_live)
  have a: "holders w p \<le> 253" "1 \<le> holders w p" using roomy_worldD [OF room s(4)] s(4,6) by auto
  from detach_stepped [OF stepped_same [OF s(1,2,3,7) a(2)] s(4) a(1) s(6)] obtain w1 where
    w1: "DetachOne p w = (Return (), w1)"
    "stepped n p (holders w p - 1) (prefs (promises w) p) (count (conts w) p) {#} w w1" by blast
  let ?fs = "(futures w)[l := None]"
  have upd: "frefs ?fs q + of_bool (q = p) = frefs (futures w) q" for q
    using frefs_update [OF future_atD(1) [OF l], of None q] future_atD(2) [OF l] Some
    by (cases "q = p") auto
  let ?v = "w\<lparr>promises := promises w, futures := ?fs\<rparr>" and ?w' = "w1\<lparr>promises := promises w, futures := ?fs\<rparr>"
  have "good_step n {#} w ?w'"
  proof (rule good_stepI [OF ok stepped_frame [OF w1(2)]])
    show "holders ?v p = holders w p - 1" using upd [of p] by (simp add: holders_def)
    show "frefs (futures ?v) q = frefs (futures w) q" if "q \<noteq> p" for q using upd [of q] that by simp
  qed (use s(4) in simp_all)
  moreover have "promises w1 = promises w" "futures w1 = futures w"
    using stepped_handles [OF w1(2)] by simp_all
  then have "Future_dtor l w = (Return (), ?w')"
    using Some w1(1) future_atD(3) [OF l]
    by (cases w1) (simp add: Future_dtor_def future_set_def outcome_simps)
  ultimately show ?thesis by (intro safe_return)
qed

lemma safe_UseExecutor:
  assumes ok: "world_ok n w" and l: "future_at w l = Some ob"
    and forced: "e = None \<Longrightarrow> \<not> future_forced w l"
  shows "safe_run n (\<lambda>_. {#}) (Future_SetExecutor l e) w"
proof (cases "f_shared ob")
  case None
  let ?fs = "(futures w)[l := Some (ob\<lparr>f_local := Local_SetExecutor e (f_local ob)\<rparr>)]"
  have "frefs ?fs q = frefs (futures w) q" for q
    using frefs_update [OF future_atD(1) [OF l],
        of "Some (ob\<lparr>f_local := Local_SetExecutor e (f_local ob)\<rparr>)" q] future_atD(2) [OF l] by simp
  then have "good_step n {#} w (w\<lparr>futures := ?fs\<rparr>)"
    using good_step_handles [OF ok, of "promises w" ?fs] by simp
  with None future_atD(3) [OF l] show ?thesis
    by (intro safe_return) (simp_all add: Future_SetExecutor_def future_set_def outcome_simps)
next
  case (Some p)
  from ok l Some obtain s where s: "live w p s"
    "state_ok n (holders w p) (prefs (promises w) p) (count (conts w) p) s"
    "prefs (promises w) p = 0 \<longrightarrow> resolved s" "p < length (heap w)" "1 \<le> frefs (futures w) p"
    "prefs (promises w) p + count (conts w) p < holders w p" "sys_good n (rest w)"
    by (rule future_live)
  let ?t = "s\<lparr>fs_executor := e\<rparr>"
  have "fs_force_scheduled s \<longrightarrow> e \<noteq> None"
    using forced l Some s(1) by (auto simp: future_forced_def live_def)
  then have "good_step n {#} w (put p ?t w)"
    using s by (intro good_step_write [OF ok s(1)])
      (simp_all add: state_ok_def fs_wf_def resolved_def waiting_def)
  moreover have "Future_SetExecutor l e w = (Return (), put p ?t w)"
    using Some future_atD(3) [OF l]
    by (simp add: Future_SetExecutor_def SetExecutor_def run_fs_write [OF s(1)] outcome_simps)
  ultimately show ?thesis by (intro safe_return)
qed


lemma safe_OnResult:
  assumes ok: "world_ok n w" and room: "roomy_world w" and l: "future_at w l = Some ob"
    and valid: "Future_Valid ob"
  shows "safe_run n (accepts (OnResult l k)) (Future_SetContinuation (quiet_env lk rand this current) l k) w"
proof (cases "f_shared ob")
  case None
  then have has: "try_available (ls_try (f_local ob))"
    using valid by (simp add: Future_Valid_def Local_HasResult_def)
  let ?x = "(rest w)\<lparr>sys_calls := sys_calls (rest w) @ [(k, ls_try (f_local ob))]\<rparr>"
  let ?w' = "w\<lparr>rest := ?x\<rparr>"
  have "slot_ok n ?w' q" for q
    using ok by (intro slot_ok_frame [of n w q ?w']) (simp_all add: world_ok_def)
  then have "world_ok n ?w'" using ok by (simp add: world_ok_def sys_good_def sys_posted_def)
  then have "good_step n {#k#} w ?w'" by (simp add: good_step_def outstanding_def called_def)
  moreover have "Future_SetContinuation (quiet_env lk rand this current) l k w = (Return (), ?w')"
    using None valid has future_atD [OF l]
    by (simp add: Future_SetContinuation_def Local_SetContinuation_def simple_env_def
        log_call_on_local_def outcome_simps)
  ultimately show ?thesis by (intro safe_return) simp_all
next
  case (Some p)
  from ok l Some obtain s where s: "live w p s"
    "state_ok n (holders w p) (prefs (promises w) p) (count (conts w) p) s"
    "prefs (promises w) p = 0 \<longrightarrow> resolved s" "p < length (heap w)" "1 \<le> frefs (futures w) p"
    "prefs (promises w) p + count (conts w) p < holders w p" "sys_good n (rest w)"
    by (rule future_live)
  have a: "1 \<le> holders w p" "holders w p \<le> 253" using roomy_worldD [OF room s(4)] s(4,6) by auto
  from run_SetContinuation [OF s(7,1,2,3) a, of lk rand this current k] obtain r w' where
    r: "SetContinuation (quiet_env lk rand this current) p k w = (r, w')" "well_ended r"
    "stepped n p (holders w p) (prefs (promises w) p) (count (conts w) p)
       (if r = Return () then {#k#} else {#}) w w'" by blast
  have "good_step n (if r = Return () then {#k#} else {#}) w w'"
    by (rule good_stepI [OF ok r(3) s(4)]) (simp_all add: holders_def)
  moreover have "Future_SetContinuation (quiet_env lk rand this current) l k w = (r, w')"
    using Some r(1) future_atD(3) [OF l] valid
    by (simp add: Future_SetContinuation_def outcome_simps)
  ultimately show ?thesis using r(2) by (simp add: safe_run_def)
qed

section \<open>Workers\<close>

lemma safe_WorkerTurn:
  assumes ok: "world_ok n w" and room: "roomy_world w" and i: "i < n"
  shows "safe_run n (\<lambda>_. {#}) (worker_turn lk rand this i) w"
proof -
  let ?pool = "sys_pool (rest w)"
  obtain t pool where turn: "Pool_worker_turn lk i ?pool = (t, pool)"
    by (cases "Pool_worker_turn lk i ?pool")
  let ?x = "(rest w)\<lparr>sys_pool := pool\<rparr>"
  let ?w1 = "w\<lparr>rest := ?x\<rparr>"
  have good: "sys_good n (rest w)" "conts w = pool_fns ?pool"
    using ok by (simp_all add: world_ok_def sys_posted_def)
  then have wf: "pool_wf ?pool" "i < thread_num ?pool" using i by (simp_all add: sys_good_def)
  have cases: "pool_wf pool" "thread_num pool = thread_num ?pool"
    "case t of Runs f \<Rightarrow> pool_fns ?pool = add_mset f (pool_fns pool) | Skips \<Rightarrow> False | _ \<Rightarrow> pool = ?pool"
    using worker_turn_cases [OF wf turn] by (auto split: turn.splits)
  have good1: "sys_good n ?x" using good(1) cases by (simp add: sys_good_def)
  show ?thesis
  proof (cases "\<exists>p. t = Runs p")
    case True
    then obtain p where p: "t = Runs p" ..
    then have fns: "pool_fns ?pool = add_mset p (pool_fns pool)" using cases(3) by simp
    then have "1 \<le> count (conts w) p" using good(2) by simp
    then have "0 < holders w p" by (simp add: holders_def)
    moreover have slots: "slot_ok n w q" for q using ok by (simp add: world_ok_def)
    ultimately obtain s where s: "live w p s"
      "state_ok n (holders w p) (prefs (promises w) p) (count (conts w) p) s" "p < length (heap w)"
      by (auto elim!: held_live [of n w p])
    have "count (conts w) p \<le> 1" using s(2) by (simp add: state_ok_def)
    then have c: "count (conts w) p = 1" using \<open>1 \<le> count (conts w) p\<close> by (rule antisym)
    have a: "holders w p \<le> 253" "prefs (promises w) p < holders w p"
      using roomy_worldD [OF room s(3)] c by (auto simp: holders_def)
    have live1: "live ?w1 p s" "sys_good n (rest ?w1)" using s good1 by simp_all
    from run_posted_stepped [OF live1(2,1) s(2) [unfolded c] a] obtain w' where
      run: "run_posted (quiet_env lk rand this (Pool_worker_current this i)) p ?w1 = (Return (), w')"
      "stepped n p (holders w p - 1) (prefs (promises w) p) 0 {#} (?w1\<lparr>conts := conts ?w1 - {#p#}\<rparr>) w'"
      by blast
    let ?v = "?w1\<lparr>conts := conts ?w1 - {#p#}\<rparr>"
    have "slot_ok n ?v q" if "q \<noteq> p" for q
      using that by (intro slot_ok_frame [OF slots, of q]) simp_all
    moreover have "conts ?v = sys_posted (rest ?v)" using good(2) fns by (simp add: sys_posted_def)
    moreover have "p < length (heap ?v)" "holders ?v p = holders w p - 1"
      "prefs (promises ?v) p = prefs (promises w) p" "count (conts ?v) p = 0"
      using s(3) c by (simp_all add: holders_def)
    ultimately have "world_ok n w'" "outstanding w' + called (rest w') = outstanding ?v + called (rest ?v) + {#}"
      using world_ok_stepped [OF run(2)] by blast+
    moreover have "outstanding ?v = outstanding w" "called (rest ?v) = called (rest w)"
      by (simp_all add: outstanding_def called_def)
    ultimately have "good_step n {#} w w'" by (simp add: good_step_def)
    moreover have "worker_turn lk rand this i w = (Return (), w')"
      using turn p run(1) by (simp add: worker_turn_def Let_def)
    ultimately show ?thesis by (intro safe_return)
  next
    case False
    with cases(3) have "pool = ?pool" by (cases t) auto
    then have "?w1 = w" by simp
    with False turn cases(3) have "worker_turn lk rand this i w = (Return (), w)"
      by (cases t) (auto simp: worker_turn_def)
    with good_step_same [OF ok] show ?thesis by (intro safe_return)
  qed
qed

section \<open>Programs\<close>

lemma client_step_safe:
  assumes ok: "world_ok n w" and legal: "legal n this current w op"
  shows "safe_run n (accepts op) (client_run mv lk rand this current op) w"
proof -
  note safe = safe_NewPromise [OF ok] safe_CopyPromise [OF ok] safe_AssignPromise [OF ok]
    safe_MovePromise [OF ok] safe_DropPromise [OF ok] safe_TakeFuture [OF ok] safe_SetTry [OF ok]
    safe_CheckoutPromise [OF ok] safe_ForcePromise [OF ok] safe_ReadyFuture [OF ok]
    safe_MoveFuture [OF ok] safe_MoveAssignPromise [OF ok] safe_MoveAssignFuture [OF ok] safe_DropFuture [OF ok] safe_UseExecutor [OF ok] safe_OnResult [OF ok]
    safe_WorkerTurn [OF ok]
  have "accepts op = (\<lambda>_. {#})" if "\<nexists>l k. op = OnResult l k"
    using that by (cases op) (auto intro!: ext)
  with legal show ?thesis
    unfolding client_run_def Let_def
    by (cases op) (auto simp: legal_def intro: safe split: option.splits)
qed


text \<open>The objects that an operation names.\<close>

fun promises_used :: "('v, 'k) client_op \<Rightarrow> nat list" where
  "promises_used (CopyPromise l) = [l]"
| "promises_used (AssignPromise l m) = [l, m]"
| "promises_used (MovePromise l) = [l]"
| "promises_used (MoveAssignPromise l m) = [l, m]"
| "promises_used (DropPromise l) = [l]"
| "promises_used (TakeFuture l) = [l]"
| "promises_used (SetTry l t) = [l]"
| "promises_used (CheckoutPromise l) = [l]"
| "promises_used (ForcePromise l) = [l]"
| "promises_used _ = []"

fun futures_used :: "('v, 'k) client_op \<Rightarrow> nat list" where
  "futures_used (MoveFuture l) = [l]"
| "futures_used (MoveAssignFuture l m) = [l, m]"
| "futures_used (DropFuture l) = [l]"
| "futures_used (UseExecutor l e) = [l]"
| "futures_used (OnResult l k) = [l]"
| "futures_used _ = []"

text \<open>The auxiliary entries that an operation makes: the handles it forgets.\<close>

fun forgotten_promises :: "('v, 'k) client_op \<Rightarrow> ('v, 'k, 'x) world \<Rightarrow> nat list" where
  "forgotten_promises (MoveAssignPromise l m) w = (if forgets_promise l m w = None then [] else [length (promises w)])"
| "forgotten_promises _ w = []"

fun forgotten_futures :: "('v, 'k) client_op \<Rightarrow> ('v, 'k, 'x) world \<Rightarrow> nat list" where
  "forgotten_futures (MoveAssignFuture l m) w = (if forgets_future l m w = None then [] else [length (futures w)])"
| "forgotten_futures _ w = []"

definition spares :: "nat list \<Rightarrow> nat list \<Rightarrow> ('v, 'k) client_op \<Rightarrow> bool" where
  "spares P F op \<longleftrightarrow> (\<forall>l \<in> set (promises_used op). l \<notin> set P) \<and> (\<forall>l \<in> set (futures_used op). l \<notin> set F)"

text \<open>
  Every program: it starts without objects, on a pool that has nothing to do, and performs legal
  operations on any threads, with any lock and random choices. \<open>K\<close> collects the continuations that
  the library has accepted, \<open>P\<close> and \<open>F\<close> the forgotten promises and futures, which no operation names.
\<close>

inductive program_run ::
  "nat \<Rightarrow> nat \<Rightarrow> ('v, 'k, ('v, 'k) sys) world \<Rightarrow> 'k multiset \<Rightarrow> nat list \<Rightarrow> nat list \<Rightarrow> bool" where
  program_start: "sys_good n x \<Longrightarrow> sys_posted x = {#} \<Longrightarrow> sys_calls x = [] \<Longrightarrow>
    program_run n this \<lparr>heap = [], promises = [], futures = [], conts = {#}, rest = x\<rparr> {#} [] []"
| program_step: "program_run n this w K P F \<Longrightarrow> legal n this current w op \<Longrightarrow> spares P F op \<Longrightarrow>
    client_run mv lk rand this current op w = (r, w') \<Longrightarrow>
    program_run n this w' (K + accepts op r) (P @ forgotten_promises op w) (F @ forgotten_futures op w)"

lemma program_accounts:
  "program_run n this w K P F \<Longrightarrow> world_ok n w \<and> K = outstanding w + called (rest w)"
proof (induction rule: program_run.induct)
  case (program_start n x this)
  then show ?case
    by (simp add: world_ok_def slot_ok_def holders_def prefs_def frefs_def outstanding_def called_def)
next
  case (program_step n this w K P F current op mv lk rand r w')
  then have "safe_run n (accepts op) (client_run mv lk rand this current op) w"
    by (intro client_step_safe) simp_all
  with program_step show ?case by (simp add: safe_run_def good_step_def)
qed

section \<open>Properties\<close>

text \<open>
  Claim C20. Memory safety of the handles: whatever legal operation a client performs, on any thread,
  or a worker on the closures it finds, no deleted state is touched, no assertion fails and no
  executor is null: the operation returns or throws \<open>std::logic_error\<close>. The counters keep telling
  the truth: a state is deleted exactly when its last promise, future or closure is gone (a handle that a
  move assignment overwrote, which the code never detaches, counts as still there), and a state
  without promises has its result.
\<close>

theorem handles_memory_safe:
  assumes "world_ok n w" and "legal n this current w op"
  shows "\<exists>r w'. client_run mv lk rand this current op w = (r, w') \<and>
    (r = Return () \<or> (\<exists>m. r = Throw (LogicError m))) \<and> world_ok n w'"
  using client_step_safe [OF assms, of mv lk rand]
  by (cases "client_run mv lk rand this current op w") (auto simp: safe_run_def good_step_def well_ended_def)

definition idle_world :: "(nat, string, (nat, string) sys) world" where
  "idle_world = \<lparr>heap = [], promises = [], futures = [], conts = {#},
     rest = \<lparr>sys_pool = Pool_ctor 4 2 True, sys_calls = []\<rparr>\<rparr>"

lemma idle_run: "program_run 2 7 idle_world {#} [] []"
proof -
  let ?x = "\<lparr>sys_pool = Pool_ctor 4 2 True, sys_calls = []\<rparr> :: (nat, string) sys"
  have "pool_wf (Pool_ctor 4 2 True :: nat pool)" by (rule Pool_ctor_wf) simp_all
  then have "sys_good 2 ?x" by (simp add: sys_good_def) (simp add: Pool_ctor_def)
  moreover have "sys_posted ?x = {#}" by (simp add: sys_posted_def Pool_ctor_fns)
  ultimately show ?thesis unfolding idle_world_def by (rule program_start) simp
qed

text \<open>Running a list of operations on a thread outside the pool, if they are all legal.\<close>

fun run_ops ::
  "(nat, string) client_op list \<Rightarrow> (nat, string, (nat, string) sys) world \<Rightarrow> string multiset \<Rightarrow> nat list \<Rightarrow> nat list \<Rightarrow>
     ((nat, string, (nat, string) sys) world \<times> string multiset \<times> nat list \<times> nat list) option" where
  "run_ops [] w K P F = Some (w, K, P, F)"
| "run_ops (op # ops) w K P F =
     (if legal 2 7 Pool_current_init w op \<and> spares P F op
      then (case client_run id (\<lambda>_. True) 0 7 Pool_current_init op w of
              (r, w') \<Rightarrow> run_ops ops w' (K + accepts op r) (P @ forgotten_promises op w) (F @ forgotten_futures op w))
      else None)"

lemma run_ops_program:
  "program_run 2 7 w K P F \<Longrightarrow> run_ops ops w K P F = Some (w', K', P', F') \<Longrightarrow> program_run 2 7 w' K' P' F'"
proof (induction ops w K P F rule: run_ops.induct)
  case (1 w K P F)
  then show ?case by simp
next
  case (2 op ops w K P F)
  obtain r v where run: "client_run id (\<lambda>_. True) 0 7 Pool_current_init op w = (r, v)"
    by (cases "client_run id (\<lambda>_. True) 0 7 Pool_current_init op w")
  from 2(3) have legal: "legal 2 7 Pool_current_init w op" "spares P F op" by (simp_all split: if_splits)
  from 2(3) legal run have
    "run_ops ops v (K + accepts op r) (P @ forgotten_promises op w) (F @ forgotten_futures op w) = Some (w', K', P', F')"
    by simp
  with 2(1) [OF conjI [OF legal] run [symmetric] _ this] program_step [OF 2(2) legal run] show ?case by blast
qed

text \<open>A promise is broken: its continuation gets the exception, through the pool, and all is freed.\<close>

definition demo_ops :: "(nat, string) client_op list" where
  "demo_ops = [NewPromise, TakeFuture 0, UseExecutor 0 (Some 3), CopyPromise 0, OnResult 0 ''k'', DropPromise 0,
     DropPromise 1, DropFuture 0, WorkerTurn 1, WorkerTurn 0]"

definition demo_end :: "(nat, string, (nat, string) sys) world" where
  "demo_end = fst (the (run_ops demo_ops idle_world {#} [] []))"

lemma demo_runs: "run_ops demo_ops idle_world {#} [] [] = Some (demo_end, {#''k''#}, [], [])"
proof -
  have "run_ops demo_ops idle_world {#} [] [] \<noteq> None"
    "snd (the (run_ops demo_ops idle_world {#} [] [])) = ({#''k''#}, [], [])"
    by code_simp+
  then show ?thesis by (auto simp: demo_end_def)
qed

lemma demo_log:
  "sys_calls (rest demo_end) = [(''k'', Exception (Some (RuntimeError ''Promise is broken'')))]"
  "heap demo_end = [None]" "promises demo_end = [None, None]" "futures demo_end = [None]"
  "sys_posted (rest demo_end) = {#}"
  by code_simp+

text \<open>A promise is overwritten by a move: its state, which has had its continuation called, is leaked.\<close>

definition leak_ops :: "(nat, string) client_op list" where
  "leak_ops = [NewPromise, TakeFuture 0, OnResult 0 ''k'', SetTry 0 (Value 5), DropFuture 0, NewPromise,
     MoveAssignPromise 0 1, DropPromise 0, DropPromise 1]"

definition leak_end :: "(nat, string, (nat, string) sys) world" where
  "leak_end = fst (the (run_ops leak_ops idle_world {#} [] []))"

lemma leak_runs: "run_ops leak_ops idle_world {#} [] [] = Some (leak_end, {#''k''#}, [2], [])"
proof -
  have "run_ops leak_ops idle_world {#} [] [] \<noteq> None"
    "snd (the (run_ops leak_ops idle_world {#} [] [])) = ({#''k''#}, [2], [])"
    by code_simp+
  then show ?thesis by (auto simp: leak_end_def)
qed

lemma leak_log:
  "map (\<lambda>h. h = None) (heap leak_end) = [False, True]" "sys_posted (rest leak_end) = {#}"
  "promises leak_end = [None, None, Some \<lparr>p_shared = Some 0, p_has_future = True\<rparr>]" "futures leak_end = [None]"
  by code_simp+

theorem handles_memory_safe_witness:
  "\<exists>r w'. client_run id (\<lambda>_. True) 0 7 Pool_current_init NewPromise idle_world = (r, w') \<and>
    (r = Return () \<or> (\<exists>m. r = Throw (LogicError m))) \<and> world_ok 2 w'"
proof (rule handles_memory_safe)
  show "world_ok 2 idle_world" using program_accounts [OF idle_run] by blast
  show "legal 2 7 Pool_current_init idle_world NewPromise" by code_simp
qed

text \<open>
  Claim C21. No continuation is lost and none is called twice, in any program and any interleaving
  with the workers: at every moment the continuations that the library has accepted are, each
  exactly once, either called or still waiting in a live state (for its result, or for the worker that holds its closure).
\<close>

theorem no_lost_continuation:
  assumes "program_run n this w K P F"
  shows "K = outstanding w + called (rest w)"
  using program_accounts [OF assms] by blast

theorem no_lost_continuation_witness:
  "{#''k''#} = outstanding demo_end + called (rest demo_end)"
  by (rule no_lost_continuation [OF run_ops_program [OF idle_run demo_runs]])

text \<open>The state is referred to by a forgotten handle.\<close>

definition forgotten :: "('v, 'k, 'x) world \<Rightarrow> nat list \<Rightarrow> nat list \<Rightarrow> nat \<Rightarrow> bool" where
  "forgotten w P F q \<longleftrightarrow>
     (\<exists>l \<in> set P. \<exists>ob. promise_at w l = Some ob \<and> p_shared ob = Some q) \<or>
     (\<exists>l \<in> set F. \<exists>ob. future_at w l = Some ob \<and> f_shared ob = Some q)"

lemma prefs_positive: "0 < prefs (promises w) q \<longleftrightarrow> (\<exists>l ob. promise_at w l = Some ob \<and> p_shared ob = Some q)"
proof
  assume "0 < prefs (promises w) q"
  then have "\<not> (\<forall>x \<in> set (promises w). p_points q x = 0)"
    unfolding prefs_def by (metis sum_list_map_zero less_irrefl)
  then obtain x where x: "x \<in> set (promises w)" "p_points q x \<noteq> 0" by blast
  from x(1) obtain l where "l < length (promises w)" "promises w ! l = x" by (auto simp: in_set_conv_nth)
  with x(2) show "\<exists>l ob. promise_at w l = Some ob \<and> p_shared ob = Some q"
    by (cases x) (auto simp: promise_at_def split: if_splits)
next
  assume "\<exists>l ob. promise_at w l = Some ob \<and> p_shared ob = Some q"
  then obtain l ob where l: "promise_at w l = Some ob" "p_shared ob = Some q" by blast
  with prefs_member [OF promise_atD(1) [OF l(1)], of q] promise_atD(2) [OF l(1)]
  show "0 < prefs (promises w) q" by simp
qed

lemma frefs_positive: "0 < frefs (futures w) q \<longleftrightarrow> (\<exists>l ob. future_at w l = Some ob \<and> f_shared ob = Some q)"
proof
  assume "0 < frefs (futures w) q"
  then have "\<not> (\<forall>x \<in> set (futures w). f_points q x = 0)"
    unfolding frefs_def by (metis sum_list_map_zero less_irrefl)
  then obtain x where x: "x \<in> set (futures w)" "f_points q x \<noteq> 0" by blast
  from x(1) obtain l where "l < length (futures w)" "futures w ! l = x" by (auto simp: in_set_conv_nth)
  with x(2) show "\<exists>l ob. future_at w l = Some ob \<and> f_shared ob = Some q"
    by (cases x) (auto simp: future_at_def split: if_splits)
next
  assume "\<exists>l ob. future_at w l = Some ob \<and> f_shared ob = Some q"
  then obtain l ob where l: "future_at w l = Some ob" "f_shared ob = Some q" by blast
  with frefs_member [OF future_atD(1) [OF l(1)], of q] future_atD(2) [OF l(1)]
  show "0 < frefs (futures w) q" by simp
qed

lemma held_iff_alive:
  assumes "world_ok n w" and "q < length (heap w)"
  shows "heap w ! q \<noteq> None \<longleftrightarrow> 0 < holders w q"
  using assms by (auto simp: world_ok_def slot_ok_def slot_fits_def dest!: spec [of _ q] split: option.splits)

text \<open>
  Claim C22. When every promise and future of the program is destroyed or moved from and the workers hold
  no closure, the states still alive are exactly those that a handle overwritten by a move assignment
  referred to: in a program whose move assignments overwrite no handle that owns a state, all states are
  deleted and every accepted continuation has been called, once; and a state leaked by an overwritten
  handle accounts for every continuation that is still not called. The programs consist of the operations of \<open>client_op\<close>.
\<close>

theorem all_dropped_all_called:
  assumes "program_run n this w K P F"
    and "\<forall>l ob. promise_at w l = Some ob \<and> l \<notin> set P \<longrightarrow> p_shared ob = None"
    and "\<forall>l ob. future_at w l = Some ob \<and> l \<notin> set F \<longrightarrow> f_shared ob = None"
    and "sys_posted (rest w) = {#}"
  shows "(\<forall>q < length (heap w). heap w ! q \<noteq> None \<longleftrightarrow> forgotten w P F q) \<and>
    K = called (rest w) + outstanding w \<and>
    (P = [] \<and> F = [] \<longrightarrow> set (heap w) \<subseteq> {None} \<and> called (rest w) = K)"
proof -
  have ok: "world_ok n w" and K: "K = outstanding w + called (rest w)"
    using program_accounts [OF assms(1)] by simp_all
  have "conts w = {#}" using ok assms(4) by (simp add: world_ok_def)
  then have "0 < holders w q \<longleftrightarrow> 0 < prefs (promises w) q \<or> 0 < frefs (futures w) q" for q
    by (simp add: holders_def)
  moreover have "0 < prefs (promises w) q \<or> 0 < frefs (futures w) q \<longleftrightarrow> forgotten w P F q" for q
    unfolding prefs_positive frefs_positive forgotten_def using assms(2,3) by (metis option.distinct(1))
  ultimately have alive: "heap w ! q \<noteq> None \<longleftrightarrow> forgotten w P F q" if "q < length (heap w)" for q
    unfolding held_iff_alive [OF ok that] by blast
  have none: "set (heap w) \<subseteq> {None} \<and> called (rest w) = K" if "P = [] \<and> F = []"
  proof -
    have gone: "\<forall>h \<in> set (heap w). h = None"
      using alive that by (auto simp: forgotten_def in_set_conv_nth simp del: not_None_eq)
    then have "\<forall>h \<in> set (heap w). waiting h = {#}" by (auto simp: waiting_def)
    then have "outstanding w = {#}" by (simp add: outstanding_def sum_list_map_empty)
    with K gone show ?thesis by auto
  qed
  show ?thesis using alive none K by (simp add: ac_simps del: not_None_eq)
qed

theorem all_dropped_all_called_witness:
  "set (heap demo_end) \<subseteq> {None} \<and> called (rest demo_end) = {#''k''#} \<and>
   heap leak_end ! 0 \<noteq> None \<and> forgotten leak_end [2] [] 0 \<and> heap leak_end ! 1 = None"
proof -
  have "set (heap demo_end) \<subseteq> {None} \<and> called (rest demo_end) = {#''k''#}"
  proof -
    have "p_shared ob = None" if "promise_at demo_end l = Some ob" for l ob
      using that by (auto simp: promise_at_def demo_log less_Suc_eq numeral_2_eq_2 split: if_splits)
    moreover have "f_shared ob = None" if "future_at demo_end l = Some ob" for l ob
      using that by (auto simp: future_at_def demo_log split: if_splits)
    ultimately show ?thesis
      using all_dropped_all_called [OF run_ops_program [OF idle_run demo_runs] _ _ demo_log(5)] by blast
  qed
  moreover have "\<forall>q < length (heap leak_end). heap leak_end ! q \<noteq> None \<longleftrightarrow> forgotten leak_end [2] [] q"
  proof -
    have "p_shared ob = None" if "promise_at leak_end l = Some ob" "l \<notin> set [2]" for l ob
      using that by (auto simp: promise_at_def leak_log less_Suc_eq numeral_3_eq_3 split: if_splits)
    moreover have "f_shared ob = None" if "future_at leak_end l = Some ob" for l ob
      using that by (auto simp: future_at_def leak_log split: if_splits)
    ultimately show ?thesis
      using all_dropped_all_called [OF run_ops_program [OF idle_run leak_runs] _ _ leak_log(2)] by blast
  qed
  moreover have "length (heap leak_end) = 2" "heap leak_end ! 0 \<noteq> None" "heap leak_end ! 1 = None"
    by code_simp+
  ultimately show ?thesis by (auto simp del: not_None_eq)
qed

end
