(* ===== verification/Future_Then.thy ===== *)
theory Future_Then
  imports Future_Handles
begin

text \<open>
  \<open>ThenTry\<close>, \<open>ThenValue\<close>, \<open>Wait\<close>, \<open>Get\<close>, \<open>Via\<close> of \<^verbatim>\<open>include/async_simple/sync/future.hpp\<close> and the functions of
  \<^verbatim>\<open>sync/future_helper.hpp\<close>. A continuation is now data: the function object that the library builds,
  with the promise that it captured; calling one may resolve the next future and so call the next
  continuation, inside the first call. The environment that interprets the function objects is indexed
  by the depth of that nesting: \<open>then_env n\<close> allows \<open>n\<close> calls inside each other.
\<close>

section \<open>Function objects\<close>

text \<open>
  \<open>User\<close> is a continuation of the program itself. The others are the lambdas of the two \<open>ThenImpl\<close> (with
  the location of the captured promise, \<open>R::is_try\<close>, and the user's callback, which gives a value or the
  location of a future) and the lambdas that forward a result to a captured promise.
\<close>

datatype 'v closure =
    User nat
  | ThenFn nat bool "'v try_val \<Rightarrow> 'v outcome"
  | ThenFutureFn nat bool "'v try_val \<Rightarrow> nat outcome"
  | SetPromise nat

type_synonym ('v, 'x) tworld = "('v, 'v closure, 'x) world"
type_synonym ('v, 'x) tenv = "('v, 'v closure, 'x) env"

definition give :: "'a outcome \<Rightarrow> ('s, 'a) action" where
  "give r s = (r, s)"

text \<open>
  \<open>SetContinuation\<close> takes the function object over unless its first assertion fails; then the object is
  destroyed by the caller.
\<close>

definition pass_closure :: "('v, 'x) tenv \<Rightarrow> nat \<Rightarrow> 'v closure \<Rightarrow> (('v, 'x) tworld, unit) action" where
  "pass_closure env l c =
     bind (future_read l) (\<lambda>x.
       case f_shared x of
         None \<Rightarrow> finally_do (Future_SetContinuation env l c) (drop_continuation env c)
       | Some p \<Rightarrow>
           bind (HasContinuation p) (\<lambda>has.
             if has then finally_do (Future_SetContinuation env l c) (drop_continuation env c)
             else Future_SetContinuation env l c))"

text \<open>The lambda of the \<open>ThenImpl\<close> whose callback gives a value, called with the \<open>Try\<close> \<open>t\<close>.\<close>

definition run_then :: "('v, 'x) tenv \<Rightarrow> nat \<Rightarrow> bool \<Rightarrow> ('v try_val \<Rightarrow> 'v outcome) \<Rightarrow> 'v try_val \<Rightarrow> (('v, 'x) tworld, unit) action" where
  "run_then env l is_try f t =
     (if \<not> is_try \<and> try_has_exception t
      then bind (give (try_get_exception t)) (\<lambda>e. Promise_SetException env l e)
      else bind (give (try_of_outcome (f t))) (\<lambda>r. Promise_SetTry env l r))"

text \<open>The other one: the future that the callback gives gets a continuation that forwards its result.\<close>

definition run_then_future ::
  "('v, 'x) tenv \<Rightarrow> nat \<Rightarrow> bool \<Rightarrow> ('v try_val \<Rightarrow> nat outcome) \<Rightarrow> 'v try_val \<Rightarrow> (('v, 'x) tworld, unit) action" where
  "run_then_future env l is_try f t =
     (if \<not> is_try \<and> try_has_exception t
      then bind (give (try_get_exception t)) (\<lambda>e. Promise_SetException env l e)
      else
        try_catch
          (bind (give (f t)) (\<lambda>f2.
             finally_do (bind (Promise_move_ctor l) (\<lambda>pm. pass_closure env f2 (SetPromise pm))) (Future_dtor f2)))
          (\<lambda>e. Promise_SetException env l (Some e)))"

definition call_closure :: "('v, 'x) tenv \<Rightarrow> ('v, 'x) tenv \<Rightarrow> 'v closure \<Rightarrow> 'v try_val \<Rightarrow> (('v, 'x) tworld, unit) action \<Rightarrow>
    (('v, 'x) tworld, unit) action" where
  "call_closure base env c t user =
     (case c of
        User k \<Rightarrow> user
      | ThenFn l is_try f \<Rightarrow> run_then env l is_try f t
      | ThenFutureFn l is_try f \<Rightarrow> run_then_future env l is_try f t
      | SetPromise l \<Rightarrow> Promise_SetTry env l t)"

text \<open>Destroying a function object destroys the promise that it captured.\<close>

definition drop_closure :: "('v, 'x) tenv \<Rightarrow> ('v, 'x) tenv \<Rightarrow> 'v closure \<Rightarrow> (('v, 'x) tworld, unit) action" where
  "drop_closure base env c =
     (case c of
        User k \<Rightarrow> drop_continuation base c
      | ThenFn l is_try f \<Rightarrow> Promise_dtor env l
      | ThenFutureFn l is_try f \<Rightarrow> Promise_dtor env l
      | SetPromise l \<Rightarrow> Promise_dtor env l)"

primrec then_env :: "nat \<Rightarrow> ('v, 'x) tenv \<Rightarrow> ('v, 'x) tenv" where
  "then_env 0 base =
     base\<lparr>call_continuation := (\<lambda>c p. undef), call_on_local := (\<lambda>c l. undef), drop_continuation := (\<lambda>c. undef)\<rparr>"
| "then_env (Suc n) base =
     base\<lparr>call_continuation := (\<lambda>c p. bind (fs_read p fs_try) (\<lambda>t.
            call_closure base (then_env n base) c t (call_continuation base c p))),
          call_on_local := (\<lambda>c l. bind (future_read l) (\<lambda>x.
            call_closure base (then_env n base) c (ls_try (f_local x)) (call_on_local base c l))),
          drop_continuation := drop_closure base (then_env n base)\<rparr>"

section \<open>Then\<close>

text \<open>
  \<open>ThenImpl\<close> on the future at \<open>l\<close>. A future that carries its result calls the callback at once; otherwise a
  new promise is captured by the lambda, and the new future inherits the executor. When setting the
  continuation throws, the new future is destroyed on the way out.
\<close>

definition then_shared ::
  "('v, 'x) tenv \<Rightarrow> nat \<Rightarrow> nat \<Rightarrow> (nat \<Rightarrow> 'v closure) \<Rightarrow> (('v, 'x) tworld, nat) action" where
  "then_shared env l p mk_closure =
     bind Promise_ctor (\<lambda>promise.
     bind (Promise_GetFuture promise) (\<lambda>new_future.
     bind (GetExecutor p) (\<lambda>e.
       seq (Future_SetExecutor new_future e)
         (try_catch
           (finally_do
             (bind (Promise_move_ctor promise) (\<lambda>captured. seq (pass_closure env l (mk_closure captured)) (ret new_future)))
             (Promise_dtor env promise))
           (\<lambda>ex. seq (noexcept (Future_dtor new_future)) (throw ex))))))"

definition ThenImpl ::
  "('v, 'x) tenv \<Rightarrow> bool \<Rightarrow> nat \<Rightarrow> ('v try_val \<Rightarrow> 'v outcome) \<Rightarrow> (('v, 'x) tworld, nat) action" where
  "ThenImpl env is_try l f =
     bind (future_read l) (\<lambda>x.
       seq (LOGIC_ASSERT (Future_Valid x) ''Future is broken'')
         (case f_shared x of
            None \<Rightarrow>
              bind (give (try_of_outcome (f (ls_try (f_local x))))) (\<lambda>t.
                bind (Future_of_try t) (\<lambda>n. seq (Future_SetExecutor n (Local_GetExecutor (f_local x))) (ret n)))
          | Some p \<Rightarrow> then_shared env l p (\<lambda>q. ThenFn q is_try f)))"

definition ThenImpl_future ::
  "('v, 'x) tenv \<Rightarrow> bool \<Rightarrow> nat \<Rightarrow> ('v try_val \<Rightarrow> nat outcome) \<Rightarrow> (('v, 'x) tworld, nat) action" where
  "ThenImpl_future env is_try l f =
     bind (future_read l) (\<lambda>x.
       seq (LOGIC_ASSERT (Future_Valid x) ''Future is broken'')
         (case f_shared x of
            None \<Rightarrow>
              try_catch
                (bind (give (f (ls_try (f_local x)))) (\<lambda>n.
                   bind (Future_GetExecutor n) (\<lambda>e.
                     if e = None then seq (Future_SetExecutor n (Local_GetExecutor (f_local x))) (ret n) else ret n)))
                (\<lambda>e. Future_of_try (Exception (Some e)))
          | Some p \<Rightarrow> then_shared env l p (\<lambda>q. ThenFutureFn q is_try f)))"

text \<open>\<open>ThenValue\<close> wraps the callback into one that takes a \<open>Try\<close>, whose exception the call of \<open>Value\<close> throws.\<close>

definition on_value :: "('v \<Rightarrow> 'r outcome) \<Rightarrow> 'v try_val \<Rightarrow> 'r outcome" where
  "on_value f t = bind_outcome (try_value t) f"

definition Future_ThenTry :: "('v, 'x) tenv \<Rightarrow> nat \<Rightarrow> ('v try_val \<Rightarrow> 'v outcome) \<Rightarrow> (('v, 'x) tworld, nat) action" where
  "Future_ThenTry env l f = ThenImpl env True l f"

definition Future_ThenValue :: "('v, 'x) tenv \<Rightarrow> nat \<Rightarrow> ('v \<Rightarrow> 'v outcome) \<Rightarrow> (('v, 'x) tworld, nat) action" where
  "Future_ThenValue env l f = ThenImpl env True l (on_value f)"

section \<open>Wait, Get and Via\<close>

text \<open>
  \<open>Wait\<close> up to the semaphore, and after it: \<open>None\<close> when the result is there already, otherwise the future
  that will be moved into this one when the semaphore is released.
\<close>

definition Future_Wait_begin :: "('v, 'x) tenv \<Rightarrow> nat \<Rightarrow> (('v, 'x) tworld, nat option) action" where
  "Future_Wait_begin env l =
     bind (future_read l) (\<lambda>x.
       seq (LOGIC_ASSERT (Future_Valid x) ''Future is borken'')
         (bind (Future_HasResult l) (\<lambda>has.
            if has then ret None
            else
              bind (Future_CurrentThreadInExecutor env l) (\<lambda>inside.
                seq (ASSERT (\<not> inside))
                  (bind Promise_ctor (\<lambda>promise.
                   bind (Promise_GetFuture promise) (\<lambda>future.
                     seq (through (f_shared x) (\<lambda>p. SetExecutor p None))
                       (try_catch
                         (finally_do
                           (bind (Promise_move_ctor promise) (\<lambda>captured.
                              seq (pass_closure env l (SetPromise captured)) (ret (Some future))))
                           (Promise_dtor env promise))
                         (\<lambda>ex. seq (noexcept (Future_dtor future)) (throw ex))))))))))"

definition Future_Wait_end :: "nat \<Rightarrow> nat option \<Rightarrow> (('v, 'x) tworld, unit) action" where
  "Future_Wait_end l r =
     (case r of
        None \<Rightarrow> ret ()
      | Some future \<Rightarrow>
          seq (Future_move_assign l future)
            (seq (bind (future_read l) (\<lambda>x. bind (through (f_shared x) HasResult) (\<lambda>has. ASSERT has)))
              (Future_dtor future)))"

definition Future_Via :: "('v \<Rightarrow> 'v) \<Rightarrow> nat \<Rightarrow> nat option \<Rightarrow> (('v, 'x) tworld, nat) action" where
  "Future_Via mv l e = seq (Future_SetExecutor l e) (Future_move_ctor mv l)"

definition MakeReadyFuture :: "'v try_val \<Rightarrow> (('v, 'x) tworld, nat) action" where
  "MakeReadyFuture t = Future_of_try t"

definition Future_Get_end :: "nat \<Rightarrow> nat option \<Rightarrow> (('v, 'x) tworld, 'v) action" where
  "Future_Get_end l r = seq (Future_Wait_end l r) (Future_Value l)"

section \<open>Calling and destroying one function object\<close>

text \<open>A callback that gives a value or throws.\<close>

definition callback :: "('v try_val \<Rightarrow> exn + 'v) \<Rightarrow> 'v try_val \<Rightarrow> 'v outcome" where
  "callback g t = (case g t of Inl e \<Rightarrow> Throw e | Inr v \<Rightarrow> Return v)"

definition try_result :: "exn + 'v \<Rightarrow> 'v try_val" where
  "try_result r = (case r of Inl e \<Rightarrow> Exception (Some e) | Inr v \<Rightarrow> Value v)"

lemma callback_result: "try_of_outcome (callback g t) = Return (try_result (g t))"
  by (simp add: callback_def try_result_def try_of_outcome_def split: sum.split)

text \<open>A state that has no executor and can be referenced twice more.\<close>

definition calm :: "('v, 'k) future_state \<Rightarrow> bool" where
  "calm s \<longleftrightarrow> fs_continuation_ref s = 0 \<and> roomy s \<and> \<not> fs_force_scheduled s \<and> fs_executor s = None"

lemma sched_inline:
  assumes "live w p t" and "fs_state t = kDone" and "calm t"
  shows "ScheduleContinuation env p trig w = with_guard env p (invoke env p) w"
  using assms(2,3)
  by (simp add: ScheduleContinuation_def run_fs_read [OF assms(1)] outcome_simps runs_inline_def calm_def)

text \<open>Destroying the last reference, when destroying the continuation leaves this state alone.\<close>

lemma run_Cont_Detach_drop:
  assumes live: "live w p t" and r: "fs_continuation_ref t = 1" and a: "fs_attached t = a + 1"
    and room: "1 \<le> unat a" "unat a < 254" and k: "fs_continuation t = Some f"
    and drop: "drop_continuation env f (put p (t\<lparr>fs_continuation_ref := 0\<rparr>) w) = (Return (), w')"
    and live': "live w' p (t\<lparr>fs_continuation_ref := 0\<rparr>)"
  shows "Cont_Detach env p w =
    (Return (), (put p (t\<lparr>fs_continuation_ref := 0, fs_continuation := None, fs_attached := a\<rparr>) w')
       \<lparr>conts := conts w' - {#p#}\<rparr>)"
proof -
  let ?t1 = "t\<lparr>fs_continuation_ref := 0\<rparr>" and ?t2 = "t\<lparr>fs_continuation_ref := 0, fs_continuation := None\<rparr>"
  have l: "live (put p ?t1 w) p ?t1" "live ((put p ?t2 w')\<lparr>conts := conts w' - {#p#}\<rparr>) p ?t2"
    using live live' by simp_all
  have "DerefContinuation env p w = (Return (), put p ?t2 w')"
    using r k drop
    by (simp add: DerefContinuation_def run_fetch [OF live] run_fs_read [OF l(1)] run_fs_write [OF live'] outcome_simps)
  then show ?thesis
    using byte_facts [OF room] a
    by (simp add: Cont_Detach_def DetachOne_def run_fetch [OF l(2)] outcome_simps put_frame)
qed

text \<open>Destroying a promise whose state has its result.\<close>

definition released :: "('v, 'k) future_state \<Rightarrow> ('v, 'k) future_state option" where
  "released t =
     (if fs_attached t = 1 then None
      else Some (t\<lparr>fs_promise_ref := fs_promise_ref t - 1, fs_attached := fs_attached t - 1\<rparr>))"

lemma run_Promise_dtor:
  assumes l: "l < length (promises w)" "promises w ! l = Some ob" "p_shared ob = Some p"
    and live: "live w p t" and wf: "fs_wf t" and has: "fs_state t = kOnlyResult \<or> fs_state t = kDone"
    and ref: "1 \<le> fs_promise_ref t" "1 \<le> fs_attached t"
  shows "Promise_dtor env l w =
    (Return (), w\<lparr>heap := (heap w)[p := released t], promises := (promises w)[l := None]\<rparr>)"
proof -
  let ?t = "t\<lparr>fs_promise_ref := fs_promise_ref t - 1\<rparr>"
  let ?w = "put p ?t w"
  have l1: "live ?w p ?t" using live by simp
  have "fs_wf ?t" "fs_abs ?t = fs_abs t" using wf by (simp_all add: fs_wf_def fs_abs_def)
  moreover have "fs_abs t = Resolved (fs_try t) \<or> fs_abs t = Completed" using has by (auto simp: fs_abs_def)
  ultimately have "HasResult p ?w = (Return True, ?w)" using HasResult_spec [OF l1] by auto
  moreover have "DetachOne p ?w = (Return (), w\<lparr>heap := (heap w)[p := released t]\<rparr>)"
    using ref
    by (simp add: DetachOne_def run_fetch [OF l1] outcome_simps fs_delete_def released_def) (simp add: put_def)
  ultimately have "DetachPromise env p w = (Return (), w\<lparr>heap := (heap w)[p := released t]\<rparr>)"
    using ref by (simp add: DetachPromise_def run_fetch [OF live] outcome_simps)
  with l show ?thesis
    by (simp add: Promise_dtor_def Promise_dtor_body_def promise_read_def promise_set_def outcome_simps)
qed

section \<open>Chains\<close>

text \<open>
  A chain of callbacks: the state \<open>p\<close> waits with the lambda of \<open>ThenTry\<close> whose promise, at \<open>l\<close>, belongs to
  the next state, and so on; the last state is pending and has a holder besides its promise.
\<close>

type_synonym 'v link = "nat \<times> ('v try_val \<Rightarrow> exn + 'v) \<times> nat"

fun linked :: "('v, 'x) tworld \<Rightarrow> nat \<Rightarrow> 'v link list \<Rightarrow> bool" where
  "linked w p [] \<longleftrightarrow> (\<exists>s. live w p s \<and> calm s \<and> fs_state s = kStart \<and> fs_continuation s = None)"
| "linked w p ((l, g, q) # cs) \<longleftrightarrow>
     (\<exists>s. live w p s \<and> calm s \<and> fs_state s = kOnlyContinuation \<and> fs_continuation s = Some (ThenFn l True (callback g))) \<and>
     (\<exists>ob. l < length (promises w) \<and> promises w ! l = Some ob \<and> p_shared ob = Some q) \<and>
     (\<exists>t. live w q t \<and> 1 \<le> fs_promise_ref t \<and> (cs = [] \<longrightarrow> fs_attached t \<noteq> 1)) \<and> linked w q cs"

definition link_states :: "nat \<Rightarrow> 'v link list \<Rightarrow> nat list" where
  "link_states p cs = p # map (\<lambda>(l, g, q). q) cs"

definition link_promises :: "'v link list \<Rightarrow> nat list" where
  "link_promises cs = map fst cs"

fun chain_result :: "'v link list \<Rightarrow> 'v try_val \<Rightarrow> 'v try_val" where
  "chain_result [] v = v"
| "chain_result ((l, g, q) # cs) v = chain_result cs (try_result (g v))"

text \<open>What resolving the first state leaves in it, and what stays as it was.\<close>

definition settled :: "'v link list \<Rightarrow> 'v try_val \<Rightarrow> ('v, 'v closure) future_state \<Rightarrow> ('v, 'v closure) future_state" where
  "settled cs v s =
     (if cs = [] then s\<lparr>fs_try := v, fs_state := kOnlyResult\<rparr>
      else s\<lparr>fs_try := v, fs_state := kDone, fs_continuation := None\<rparr>)"

definition changes_only :: "nat list \<Rightarrow> nat list \<Rightarrow> ('v, 'x) tworld \<Rightarrow> ('v, 'x) tworld \<Rightarrow> bool" where
  "changes_only ps ls w w' \<longleftrightarrow>
     length (heap w') = length (heap w) \<and> length (promises w') = length (promises w) \<and>
     (\<forall>i. i \<notin> set ps \<longrightarrow> heap w' ! i = heap w ! i) \<and> (\<forall>l. l \<notin> set ls \<longrightarrow> promises w' ! l = promises w ! l) \<and>
     futures w' = futures w \<and> conts w' = conts w \<and> rest w' = rest w"

lemma linked_cong:
  "linked w p cs \<Longrightarrow> length (heap w') = length (heap w) \<Longrightarrow> promises w' = promises w \<Longrightarrow>
   (\<And>i. i \<in> set (link_states p cs) \<Longrightarrow> heap w' ! i = heap w ! i) \<Longrightarrow> linked w' p cs"
  by (induction cs arbitrary: p) (auto simp: link_states_def live_def)

lemma changes_only_live: "changes_only ps ls w w' \<Longrightarrow> i \<notin> set ps \<Longrightarrow> live w' i s = live w i s"
  by (auto simp: changes_only_def live_def)

lemma then_env_call:
  assumes "live w p t" and "l < length (promises w)" and "promises w ! l = Some ob" and "p_shared ob = Some q"
  shows "call_continuation (then_env (Suc n) base) (ThenFn l True (callback g)) p w =
    SetResult (then_env n base) q (try_result (g (fs_try t))) w"
  using assms(2-) by (simp add: run_fs_read [OF assms(1)] outcome_simps call_closure_def run_then_def give_def
      callback_result Promise_SetTry_def promise_read_def Promise_Valid_def through_def)

lemma unat_pred_bounds:
  fixes a :: "8 word"
  assumes "1 \<le> unat a" and "unat a < 254" and "a \<noteq> 1"
  shows "1 \<le> unat (a - 1)" and "unat (a - 1) < 254"
proof -
  have "unat a \<noteq> 1" using assms(3) by (metis unat_1 word_unat_eq_iff)
  moreover have "unat (a - 1) = unat a - 1" using assms(1) by (intro unat_minus_one) auto
  ultimately show "1 \<le> unat (a - 1)" "unat (a - 1) < 254" using assms by simp_all
qed

lemma calm_guard:
  assumes "calm s"
  shows "fs_continuation_ref (guarded s) = 1" "fs_attached (guarded s) = fs_attached s + 1"
    "1 \<le> unat (fs_attached s)" "unat (fs_attached s) < 254" "1 \<le> fs_attached s"
  using assms byte_facts(6) by (auto simp: calm_def roomy_def guarded_fields)

text \<open>
  The call of one lambda under its guard, when resolving the next state runs the rest of the chain
  (\<open>inner\<close>): afterwards the lambda and its promise are gone, and so is the next state if nobody else holds it.
\<close>

definition resolves :: "('v, 'x) tenv \<Rightarrow> nat \<Rightarrow> 'v link list \<Rightarrow> ('v, 'v closure) future_state \<Rightarrow> ('v, 'x) tworld \<Rightarrow> 'v try_val \<Rightarrow> bool" where
  "resolves env p cs s w v \<longleftrightarrow>
     (\<exists>w'. SetResult env p v w = (Return (), w') \<and> changes_only (link_states p cs) (link_promises cs) w w' \<and>
        live w' p (settled cs v s) \<and>
        (\<exists>t. live w' (last (link_states p cs)) t \<and> fs_state t = kOnlyResult \<and> fs_try t = chain_result cs v \<and>
          (cs \<noteq> [] \<longrightarrow> calm t \<and> fs_continuation t = None)))"

lemma call_in_guard:
  assumes t: "live w p t" "calm t" "fs_continuation t = Some (ThenFn l True (callback g))"
    and ob: "l < length (promises w)" "promises w ! l = Some ob" "p_shared ob = Some q"
    and sq: "live w q sq" "1 \<le> fs_promise_ref sq" "cs = [] \<longrightarrow> fs_attached sq \<noteq> 1" and linked_q: "linked w q cs"
    and dist: "p \<notin> set (link_states q cs)" "distinct (link_states q cs)" "l \<notin> set (link_promises cs)"
    and inner: "\<And>w v. linked w q cs \<Longrightarrow> live w q sq \<Longrightarrow> resolves (then_env m base) q cs sq w v"
  shows "\<exists>w'. with_guard (then_env (Suc m) base) p (invoke (then_env (Suc m) base) p) w = (Return (), w') \<and>
    changes_only (p # link_states q cs) (l # link_promises cs) w w' \<and> live w' p (t\<lparr>fs_continuation := None\<rparr>) \<and>
    (\<exists>u. live w' (last (link_states q cs)) u \<and> fs_state u = kOnlyResult \<and> fs_try u = chain_result cs (try_result (g (fs_try t))) \<and>
      calm u \<and> fs_continuation u = None)"
proof -
  let ?env = "then_env (Suc m) base" and ?r = "try_result (g (fs_try t))"
  define w1 where "w1 = mk p (guarded t) (add_mset p (conts w)) (rest w) w"
  have live1: "live w1 p (guarded t)" using t(1) by (simp add: w1_def)
  have w1: "promises w1 = promises w" "futures w1 = futures w" "conts w1 = add_mset p (conts w)" "rest w1 = rest w"
    "length (heap w1) = length (heap w)" "\<And>i. i \<noteq> p \<Longrightarrow> heap w1 ! i = heap w ! i"
    by (auto simp: w1_def mk_def)
  have go: "with_guard ?env p (invoke ?env p) w = finally_do (invoke ?env p) (Cont_Detach ?env p) w1"
    by (simp add: with_guard_def run_seq run_bind mk_Cont_Attach [OF t(1)] w1_def)
  have "heap w1 ! i = heap w ! i" if "i \<in> set (link_states q cs)" for i using that dist(1) w1(6) by metis
  then have "linked w1 q cs" using w1(1,5) by (intro linked_cong [OF linked_q])
  moreover have "live w1 q sq" using sq(1) w1(5,6) dist(1) by (auto simp: live_def link_states_def)
  ultimately obtain w2 last_t where run2: "SetResult (then_env m base) q ?r w1 = (Return (), w2)"
    and only2: "changes_only (link_states q cs) (link_promises cs) w1 w2" and q2: "live w2 q (settled cs ?r sq)"
    and last2: "live w2 (last (link_states q cs)) last_t" "fs_state last_t = kOnlyResult" "fs_try last_t = chain_result cs ?r"
      "cs \<noteq> [] \<longrightarrow> calm last_t \<and> fs_continuation last_t = None"
    using inner [of w1 ?r] unfolding resolves_def by blast
  have inv: "invoke ?env p w1 = (Return (), w2)"
    using then_env_call [OF live1, of l ob q m base g] ob w1(1) t(3) run2
    by (simp add: invoke_def run_fs_read [OF live1] outcome_simps guarded_fields)
  have live2: "live w2 p (guarded t)" using live1 changes_only_live [OF only2 dist(1)] by simp
  let ?g0 = "(guarded t)\<lparr>fs_continuation_ref := 0\<rparr>"
  define w3 where "w3 = put p ?g0 w2"
  have pq: "p \<noteq> q" using dist(1) by (simp add: link_states_def)
  have q3: "live w3 q (settled cs ?r sq)" using q2 pq by (simp add: w3_def live_def put_def)
  have l3: "l < length (promises w3)" "promises w3 ! l = Some ob"
    using ob only2 dist(3) w1(1) by (simp_all add: w3_def changes_only_def)
  have calm_q: "calm sq" "cs = [] \<longrightarrow> fs_continuation sq = None"
    using linked_q sq(1) by (cases cs; auto simp: live_def)+
  let ?h = "released (settled cs ?r sq)"
  have "Promise_dtor (then_env m base) l w3 = (Return (), w3\<lparr>heap := (heap w3)[q := ?h], promises := (promises w3)[l := None]\<rparr>)"
    using calm_q sq(2) calm_guard(5) [of sq]
    by (intro run_Promise_dtor [OF l3 ob(3) q3]) (auto simp: settled_def fs_wf_def)
  then have drop: "drop_continuation ?env (ThenFn l True (callback g)) w3 =
      (Return (), w3\<lparr>heap := (heap w3)[q := ?h], promises := (promises w3)[l := None]\<rparr>)"
    by (simp add: drop_closure_def)
  define w4 where "w4 = w3\<lparr>heap := (heap w3)[q := ?h], promises := (promises w3)[l := None]\<rparr>"
  have live4: "live w4 p ?g0" using live2 pq by (simp add: w4_def w3_def live_def put_def)
  define w5 where "w5 = (put p (t\<lparr>fs_continuation := None\<rparr>) w4)\<lparr>conts := conts w4 - {#p#}\<rparr>"
  have "(guarded t)\<lparr>fs_continuation_ref := 0, fs_continuation := None, fs_attached := fs_attached t\<rparr> = t\<lparr>fs_continuation := None\<rparr>"
    using t(2) by (simp add: guarded_def calm_def)
  then have "Cont_Detach ?env p w2 = (Return (), w5)"
    using run_Cont_Detach_drop [OF live2, of "fs_attached t" "ThenFn l True (callback g)" ?env w4] drop live4 t(3)
      calm_guard [OF t(2)] by (simp add: w5_def guarded_fields flip: w3_def w4_def)
  then have "with_guard ?env p (invoke ?env p) w = (Return (), w5)" using go inv by (simp add: outcome_simps)
  moreover have "changes_only (p # link_states q cs) (l # link_promises cs) w w5"
    using only2 w1 by (auto simp: changes_only_def w5_def w4_def w3_def put_def link_states_def link_promises_def)
  moreover have "live w5 p (t\<lparr>fs_continuation := None\<rparr>)" using live4 by (simp add: w5_def)
  moreover have "\<exists>u. live w5 (last (link_states q cs)) u \<and> fs_state u = kOnlyResult \<and> fs_try u = chain_result cs ?r \<and>
      calm u \<and> fs_continuation u = None"
  proof (cases "cs = []")
    case True
    let ?u = "(settled cs ?r sq)\<lparr>fs_promise_ref := fs_promise_ref sq - 1, fs_attached := fs_attached sq - 1\<rparr>"
    have "live w5 q ?u"
      using True q3 pq sq(3) by (simp add: w5_def w4_def put_def live_def released_def settled_def)
    moreover have "calm ?u"
      using calm_q(1) sq(3) True unat_pred_bounds [of "fs_attached sq"] by (simp add: calm_def roomy_def settled_def)
    ultimately show ?thesis using True calm_q(2) by (intro exI [of _ ?u]) (simp add: link_states_def settled_def)
  next
    case False
    then have "last (link_states q cs) \<in> set (map (\<lambda>(l, g, q). q) cs)"
      using last_in_set [of "map (\<lambda>(l, g, q). q) cs"] by (simp add: link_states_def)
    then have "last (link_states q cs) \<noteq> q" "last (link_states q cs) \<noteq> p"
      using dist(1,2) unfolding link_states_def by (metis distinct.simps(2) list.set_intros(2))+
    then have "live w5 (last (link_states q cs)) last_t"
      using last2(1) by (simp add: w5_def w4_def w3_def put_def live_def)
    with last2 False show ?thesis by blast
  qed
  ultimately show ?thesis by blast
qed

text \<open>Resolving the first state runs the callbacks one inside the other and resolves the last.\<close>

lemma chain_runs:
  assumes "linked w p cs" and "distinct (link_states p cs)" and "distinct (link_promises cs)" and "length cs \<le> n"
    and "live w p s"
  shows "resolves (then_env n base) p cs s w v"
  using assms
proof (induction cs arbitrary: w p n v s)
  case Nil
  then have wf: "fs_wf s" and abs: "fs_abs s = Pending" by (auto simp: fs_wf_def fs_abs_def live_def)
  let ?s = "s\<lparr>fs_try := v, fs_state := kOnlyResult\<rparr>"
  have "SetResult (then_env n base) p v w = (Return (), put p ?s w)"
    using SetResult_cases [OF Nil.prems(5) wf, of "then_env n base" v] abs by simp
  moreover have "live (put p ?s w) p ?s" using Nil.prems(5) by simp
  ultimately show ?case
    unfolding resolves_def
    by (intro exI [of _ "put p ?s w"]) (auto simp: changes_only_def link_states_def settled_def put_def)
next
  case (Cons c cs)
  obtain l g q where c: "c = (l, g, q)" by (cases c)
  obtain m where n: "n = Suc m" "length cs \<le> m" using Cons.prems(4) by (cases n) simp_all
  from Cons.prems(1,5) c have s: "calm s" "fs_state s = kOnlyContinuation"
    "fs_continuation s = Some (ThenFn l True (callback g))" by (auto simp: live_def)
  from Cons.prems(1) c obtain ob sq where ob: "l < length (promises w)" "promises w ! l = Some ob" "p_shared ob = Some q"
    and sq: "live w q sq" "1 \<le> fs_promise_ref sq" "cs = [] \<longrightarrow> fs_attached sq \<noteq> 1" and linked_q: "linked w q cs" by auto
  from Cons.prems(2,3) c have dist: "p \<notin> set (link_states q cs)" "distinct (link_states q cs)" "l \<notin> set (link_promises cs)"
    "distinct (link_promises cs)" by (auto simp: link_states_def link_promises_def)
  let ?env = "then_env n base" and ?t = "s\<lparr>fs_try := v, fs_state := kDone\<rparr>"
  let ?w = "put p ?t w"
  have wf: "fs_wf s" "fs_abs s = Awaiting (ThenFn l True (callback g))" using s by (simp_all add: fs_wf_def fs_abs_def)
  have t: "live ?w p ?t" "fs_state ?t = kDone" "calm ?t" "fs_continuation ?t = Some (ThenFn l True (callback g))"
    using Cons.prems(5) s by (simp_all add: calm_def roomy_def)
  have other: "heap ?w ! i = heap w ! i" if "i \<noteq> p" for i using that by (simp add: put_def)
  then have "linked ?w q cs" using dist(1) by (intro linked_cong [OF linked_q]) (auto, metis)
  moreover have "live ?w q sq" using sq(1) dist(1) other by (simp add: live_def link_states_def)
  moreover have "resolves (then_env m base) q cs sq w' v'" if "linked w' q cs" "live w' q sq" for w' v'
    using Cons.IH [OF that(1) dist(2,4) n(2) that(2)] .
  ultimately obtain w' u where w': "with_guard ?env p (invoke ?env p) ?w = (Return (), w')"
    "changes_only (p # link_states q cs) (l # link_promises cs) ?w w'" "live w' p (?t\<lparr>fs_continuation := None\<rparr>)"
    "live w' (last (link_states q cs)) u" "fs_state u = kOnlyResult" "fs_try u = chain_result cs (try_result (g (fs_try ?t)))"
    "calm u" "fs_continuation u = None"
    using call_in_guard [OF t(1,3,4), of ob q sq cs m base] ob sq dist n(1) by (auto simp del: then_env.simps)
  have "SetResult ?env p v w = (Return (), w')"
    using SetResult_cases [OF Cons.prems(5) wf(1), of ?env v] wf(2) sched_inline [OF t(1-3)] w'(1) by simp
  moreover have "changes_only (link_states p (c # cs)) (link_promises (c # cs)) w w'"
    using w'(2) other c by (auto simp: changes_only_def link_states_def link_promises_def)
  moreover have "last (link_states p (c # cs)) = last (link_states q cs)" using c by (simp add: link_states_def)
  moreover have "settled (c # cs) v s = ?t\<lparr>fs_continuation := None\<rparr>" by (simp add: settled_def)
  ultimately show ?case unfolding resolves_def using w' c by (intro exI [of _ w']) auto
qed

section \<open>Building a chain\<close>

definition fresh_state :: "('v, 'k) future_state" where
  "fresh_state = FutureState_ctor\<lparr>fs_attached := 2, fs_promise_ref := 1\<rparr>"

text \<open>The world in which \<open>ThenTry\<close> sets the continuation: a new state, a new promise (moved from, and moved to), a new future.\<close>

definition with_new :: "('v, 'x) tworld \<Rightarrow> ('v, 'x) tworld" where
  "with_new w = w\<lparr>heap := heap w @ [Some fresh_state],
     promises := promises w @ [Some p_null, Some \<lparr>p_shared = Some (length (heap w)), p_has_future = True\<rparr>],
     futures := futures w @ [Some \<lparr>f_shared = Some (length (heap w)), f_local = Local_empty\<rparr>]\<rparr>"

text \<open>A future that refers to a calm state without continuation.\<close>

definition refers :: "('v, 'x) tworld \<Rightarrow> nat \<Rightarrow> nat \<Rightarrow> ('v, 'v closure) future_state \<Rightarrow> bool" where
  "refers w l p s \<longleftrightarrow> l < length (futures w) \<and> (\<exists>x. futures w ! l = Some x \<and> f_shared x = Some p) \<and>
     live w p s \<and> calm s \<and> fs_continuation s = None"

lemma null_promise_dtor:
  "l < length (promises w) \<Longrightarrow> promises w ! l = Some p_null \<Longrightarrow>
   Promise_dtor env l w = (Return (), w\<lparr>promises := (promises w)[l := None]\<rparr>)"
  by (simp add: Promise_dtor_def Promise_dtor_body_def promise_read_def promise_set_def p_null_def outcome_simps)

lemma run_ThenTry:
  assumes refers: "refers w l p s"
    and pass: "pass_closure env l (ThenFn (Suc (length (promises w))) True f) (with_new w) = (Return (), w')"
    and a: "length (promises w) < length (promises w')" "promises w' ! length (promises w) = Some p_null"
  shows "Future_ThenTry env l f w =
    (Return (length (futures w)), w'\<lparr>promises := (promises w')[length (promises w) := None]\<rparr>)"
proof -
  let ?q = "length (heap w)" and ?a = "length (promises w)" and ?n = "length (futures w)"
  let ?h1 = "heap w @ [Some (FutureState_ctor\<lparr>fs_attached := 1, fs_promise_ref := 1\<rparr>)]" and ?h2 = "heap w @ [Some fresh_state]"
  let ?fs = "futures w @ [Some \<lparr>f_shared = Some ?q, f_local = Local_empty\<rparr>]"
  let ?pq = "Some \<lparr>p_shared = Some ?q, p_has_future = True\<rparr>"
  define w1 where "w1 = w\<lparr>heap := ?h1, promises := promises w @ [Some \<lparr>p_shared = Some ?q, p_has_future = False\<rparr>]\<rparr>"
  define w2 where "w2 = w\<lparr>heap := ?h2, promises := promises w @ [?pq], futures := ?fs\<rparr>"
  from refers obtain x where x: "l < length (futures w)" "futures w ! l = Some x" "f_shared x = Some p"
    and s: "live w p s" "calm s" by (auto simp: refers_def)
  have ctor: "Promise_ctor w = (Return ?a, w1)"
    by (simp add: w1_def Promise_ctor_def heap_new_def AttachPromise_def AttachOne_def fs_write_def promise_new_def
        outcome_simps nth_append list_update_append FutureState_ctor_def)
  have get: "Promise_GetFuture ?a w1 = (Return ?n, w2)"
    by (simp add: w1_def w2_def Promise_GetFuture_def promise_read_def promise_set_def Promise_Valid_def Future_of_state_def
        AttachOne_def fs_write_def future_new_def outcome_simps nth_append list_update_append fresh_state_def FutureState_ctor_def)
  have "live w2 p s" using s(1) by (auto simp: w2_def live_def nth_append)
  then have exec: "GetExecutor p w2 = (Return None, w2)"
    using s(2) by (simp add: GetExecutor_def run_fs_read calm_def)
  have set_exec: "Future_SetExecutor ?n None w2 = (Return (), w2)"
    by (simp add: w2_def Future_SetExecutor_def future_read_def SetExecutor_def fs_write_def outcome_simps nth_append
        list_update_append fresh_state_def FutureState_ctor_def)
  have move: "Promise_move_ctor ?a w2 = (Return (Suc ?a), with_new w)"
    by (simp add: w2_def with_new_def Promise_move_ctor_def promise_read_def promise_set_def promise_new_def outcome_simps
        nth_append list_update_append)
  have "future_read l w = (Return x, w)" using x by (simp add: future_read_def)
  with x(3) show ?thesis
    by (simp add: Future_ThenTry_def ThenImpl_def outcome_simps Future_Valid_def then_shared_def ctor get exec
        set_exec move pass null_promise_dtor [OF a])
qed

lemma with_new_fields:
  assumes "refers w l p s"
  shows "live (with_new w) p s" "live (with_new w) (length (heap w)) fresh_state" "p < length (heap w)"
    "\<exists>x. future_read l (with_new w) = (Return x, with_new w) \<and> f_shared x = Some p"
  using assms by (auto simp: refers_def with_new_def live_def nth_append future_read_def)

lemma fresh_state_fields: "calm fresh_state" "fs_state fresh_state = kStart" "fs_continuation fresh_state = None"
  "fs_promise_ref fresh_state = 1" "fs_attached fresh_state = 2"
  by (simp_all add: fresh_state_def FutureState_ctor_def calm_def roomy_def)

lemma pass_to_state:
  assumes "refers w l p s" and "fs_wf s" and "\<not> (fs_state s = kOnlyContinuation \<or> fs_state s = kDone)"
  shows "pass_closure env l c (with_new w) = SetContinuation env p c (with_new w)"
proof -
  from with_new_fields(4) [OF assms(1)] obtain x where
    x: "future_read l (with_new w) = (Return x, with_new w)" "f_shared x = Some p" by blast
  have "fs_abs s = Pending \<or> fs_abs s = Resolved (fs_try s)"
    using assms(2,3) by (auto simp: fs_wf_def fs_abs_def)
  then have "HasContinuation p (with_new w) = (Return False, with_new w)"
    using HasContinuation_spec [OF with_new_fields(1) [OF assms(1)] assms(2)] by auto
  with x show ?thesis
    by (simp add: pass_closure_def outcome_simps Future_SetContinuation_def Future_Valid_def)
qed

text \<open>On a future that has its result the callback is called before \<open>ThenTry\<close> returns.\<close>

lemma ThenTry_resolved:
  fixes w :: "('v, 'x) tworld"
  assumes refers: "refers w l p s" and state: "fs_state s = kOnlyResult"
  shows "\<exists>n w' q u. Future_ThenTry (then_env (Suc m) base) l (callback g) w = (Return n, w') \<and>
    refers w' n q u \<and> fs_state u = kOnlyResult \<and> fs_try u = try_result (g (fs_try s))"
proof -
  let ?env = "then_env (Suc m) base" and ?q = "length (heap w)" and ?b = "Suc (length (promises w))"
  let ?c = "ThenFn ?b True (callback g)"
  let ?t = "s\<lparr>fs_continuation := Some ?c, fs_state := kDone\<rparr>" and ?w = "put p (s\<lparr>fs_continuation := Some ?c, fs_state := kDone\<rparr>) (with_new w)"
  note new = with_new_fields [OF refers]
  have s: "calm s" "fs_continuation s = None" "fs_wf s" "fs_abs s = Resolved (fs_try s)"
    using refers state by (auto simp: refers_def fs_wf_def fs_abs_def)
  have t: "live ?w p ?t" "fs_state ?t = kDone" "calm ?t" "fs_continuation ?t = Some ?c"
    using new(1) s(1) by (simp_all add: calm_def roomy_def)
  have q: "live ?w ?q fresh_state" using new(2,3) by (simp add: live_def put_def)
  have "pass_closure ?env l ?c (with_new w) = with_guard ?env p (invoke ?env p) ?w"
    using pass_to_state [OF refers s(3)] state SetContinuation_cases [OF new(1) s(3)] s(4) sched_inline [OF t(1-3)] by simp
  moreover have "linked ?w ?q []" using q fresh_state_fields by auto
  moreover have "resolves (then_env m base) ?q [] fresh_state w' v" if "linked w' ?q []" "live w' ?q fresh_state" for w' v
    using chain_runs [OF that(1), of m fresh_state base v] that(2) by (simp add: link_states_def link_promises_def)
  moreover have ob: "?b < length (promises ?w)" "promises ?w ! ?b = Some \<lparr>p_shared = Some ?q, p_has_future = True\<rparr>"
    "p_shared \<lparr>p_shared = Some ?q, p_has_future = True\<rparr> = Some ?q" by (simp_all add: with_new_def nth_append)
  moreover have "1 \<le> fs_promise_ref (fresh_state :: ('v, 'v closure) future_state)"
    "[] = [] \<longrightarrow> fs_attached (fresh_state :: ('v, 'v closure) future_state) \<noteq> 1"
    "p \<notin> set (link_states ?q ([] :: 'v link list))" "distinct (link_states ?q ([] :: 'v link list))" "?b \<notin> set (link_promises ([] :: 'v link list))"
    using new(3) by (simp_all add: fresh_state_fields link_states_def link_promises_def)
  ultimately obtain w' u where w': "pass_closure ?env l ?c (with_new w) = (Return (), w')"
    "changes_only (p # link_states ?q ([] :: 'v link list)) (?b # link_promises ([] :: 'v link list)) ?w w'" "live w' ?q u" "fs_state u = kOnlyResult"
    "fs_try u = try_result (g (fs_try ?t))" "calm u" "fs_continuation u = None"
    using call_in_guard [OF t(1,3,4) ob q, of "[]" m base] by (auto simp: link_states_def simp del: then_env.simps)
  let ?w'' = "w'\<lparr>promises := (promises w')[length (promises w) := None]\<rparr>"
  have "Future_ThenTry ?env l (callback g) w = (Return (length (futures w)), ?w'')"
    using w'(2) by (intro run_ThenTry [OF refers w'(1)]) (auto simp: changes_only_def with_new_def link_promises_def)
  moreover have "refers ?w'' (length (futures w)) ?q u"
    using w' by (auto simp: refers_def changes_only_def with_new_def)
  ultimately show ?thesis using w'(4,5) by auto
qed

text \<open>On a pending one it appends a link to the chain.\<close>

definition awaiting :: "('v, 'v closure) future_state \<Rightarrow> nat \<Rightarrow> ('v try_val \<Rightarrow> exn + 'v) \<Rightarrow> ('v, 'v closure) future_state" where
  "awaiting s b g = s\<lparr>fs_continuation := Some (ThenFn b True (callback g)), fs_state := kOnlyContinuation\<rparr>"

definition appended :: "('v, 'x) tworld \<Rightarrow> nat \<Rightarrow> ('v, 'v closure) future_state \<Rightarrow> ('v try_val \<Rightarrow> exn + 'v) \<Rightarrow> ('v, 'x) tworld \<Rightarrow> bool" where
  "appended w p s g w' \<longleftrightarrow>
     heap w' = (heap w)[p := Some (awaiting s (Suc (length (promises w))) g)] @ [Some fresh_state] \<and>
     promises w' = promises w @ [None, Some \<lparr>p_shared = Some (length (heap w)), p_has_future = True\<rparr>]"

lemma ThenTry_pending:
  assumes refers: "refers w l p s" and state: "fs_state s = kStart"
  shows "\<exists>n w'. Future_ThenTry env l (callback g) w = (Return n, w') \<and> appended w p s g w' \<and>
    refers w' n (length (heap w)) fresh_state"
proof -
  let ?b = "Suc (length (promises w))"
  have s: "fs_wf s" "fs_abs s = Pending" "p < length (heap w)"
    using refers state by (auto simp: refers_def fs_wf_def fs_abs_def live_def)
  have pass: "pass_closure env l (ThenFn ?b True (callback g)) (with_new w) = (Return (), put p (awaiting s ?b g) (with_new w))"
    using pass_to_state [OF refers s(1)] state SetContinuation_cases [OF with_new_fields(1) [OF refers] s(1)] s(2)
    by (simp add: awaiting_def)
  let ?w' = "(put p (awaiting s ?b g) (with_new w))\<lparr>promises := (promises (with_new w))[length (promises w) := None]\<rparr>"
  have "Future_ThenTry env l (callback g) w = (Return (length (futures w)), ?w')"
    using run_ThenTry [OF refers pass] by (simp add: with_new_def nth_append)
  moreover have "appended w p s g ?w'"
    using s(3) by (simp add: appended_def with_new_def put_def list_update_append)
  moreover have "refers ?w' (length (futures w)) (length (heap w)) fresh_state"
    using s(3) by (simp add: refers_def with_new_def put_def live_def nth_append fresh_state_fields)
  ultimately show ?thesis by blast
qed

lemma linked_snoc:
  assumes "linked w p cs" and "distinct (link_states p cs)" and "live w (last (link_states p cs)) s"
    and "appended w (last (link_states p cs)) s g w'"
  shows "linked w' p (cs @ [(Suc (length (promises w)), g, length (heap w))])"
  using assms
proof (induction cs arbitrary: p)
  case Nil
  then have "calm s" "p < length (heap w)" by (auto simp: link_states_def live_def)
  moreover from this have "calm (awaiting s (Suc (length (promises w))) g)" by (simp add: awaiting_def calm_def roomy_def)
  ultimately show ?case
    using Nil.prems(4) by (auto simp: appended_def link_states_def live_def nth_append awaiting_def fresh_state_fields)
next
  case (Cons c cs)
  obtain l h q where c: "c = (l, h, q)" by (cases c)
  let ?e = "last (link_states q cs)"
  have e: "last (link_states p (c # cs)) = ?e" using c by (simp add: link_states_def)
  have "link_states q cs \<noteq> []" by (simp add: link_states_def)
  then have "?e \<in> set (link_states q cs)" by (rule last_in_set)
  moreover have dist: "p \<notin> set (link_states q cs)" "distinct (link_states q cs)"
    using Cons.prems(2) c by (auto simp: link_states_def)
  ultimately have "p \<noteq> ?e" by metis
  have old: "heap w' ! i = heap w ! i" if "i < length (heap w)" "i \<noteq> ?e" for i
    using Cons.prems(4) that by (simp add: appended_def e nth_append)
  have len: "length (heap w') = Suc (length (heap w))" "length (promises w') = Suc (Suc (length (promises w)))"
    "\<And>i. i < length (promises w) \<Longrightarrow> promises w' ! i = promises w ! i"
    using Cons.prems(4) by (simp_all add: appended_def nth_append)
  from Cons.prems(1) c have "linked w q cs" by simp
  with Cons have rest_linked: "linked w' q (cs @ [(Suc (length (promises w)), g, length (heap w))])"
    using dist(2) by (simp add: e)
  from Cons.prems(1) c obtain sp where sp: "live w p sp" "calm sp" "fs_state sp = kOnlyContinuation"
    "fs_continuation sp = Some (ThenFn l True (callback h))" by auto
  with old [of p] \<open>p \<noteq> ?e\<close> len(1) have "live w' p sp" by (simp add: live_def)
  moreover from Cons.prems(1) c obtain ob where "l < length (promises w)" "promises w ! l = Some ob" "p_shared ob = Some q" by auto
  moreover from this len have "l < length (promises w')" "promises w' ! l = Some ob" by simp_all
  moreover from Cons.prems(1) c obtain t where t: "live w q t" "1 \<le> fs_promise_ref t" by auto
  have "\<exists>t. live w' q t \<and> 1 \<le> fs_promise_ref t"
  proof (cases "q = ?e")
    case True
    have "s = t" using Cons.prems(3) t(1) e True live_unique by metis
    have "q < length (heap w)" using t(1) by (simp add: live_def)
    then have "live w' q (awaiting s (Suc (length (promises w))) g)"
      using Cons.prems(4) True e by (simp add: appended_def live_def nth_append)
    with t(2) \<open>s = t\<close> show ?thesis by (intro exI) (auto simp: awaiting_def)
  next
    case False
    with t old [of q] len(1) show ?thesis by (auto simp: live_def)
  qed
  ultimately show ?case using c rest_linked sp by auto
qed

section \<open>Chains of Then\<close>

text \<open>
  A chain that keeps the futures between its links: the temporaries of \<open>f.ThenTry(g).ThenTry(h)\<close>, which the code destroys at the
  end of the full expression, live on here, so that their states are released later than there.
\<close>

primrec then_chain :: "('v, 'x) tenv \<Rightarrow> ('v try_val \<Rightarrow> exn + 'v) list \<Rightarrow> nat \<Rightarrow> (('v, 'x) tworld, nat) action" where
  "then_chain env [] l = ret l"
| "then_chain env (g # gs) l = bind (Future_ThenTry env l (callback g)) (then_chain env gs)"

definition composed :: "('v try_val \<Rightarrow> exn + 'v) list \<Rightarrow> 'v try_val \<Rightarrow> 'v try_val" where
  "composed gs v = foldl (\<lambda>t g. try_result (g t)) v gs"

lemma chain_result_composed: "chain_result cs v = composed (map (\<lambda>(l, g, q). g) cs) v"
  by (induction cs arbitrary: v) (auto simp: composed_def)

text \<open>A pending chain grows by one link per callback; a resolved one stays resolved.\<close>

lemma then_chain_pending:
  assumes "linked w p cs" and "distinct (link_states p cs)" and "distinct (link_promises cs)"
    and "list_all (\<lambda>i. i < length (heap w)) (link_states p cs)" and "list_all (\<lambda>i. i < length (promises w)) (link_promises cs)"
    and "refers w l (last (link_states p cs)) s" and "fs_state s = kStart"
  shows "\<exists>n w' cs' s'. then_chain env gs l w = (Return n, w') \<and> linked w' p cs' \<and> distinct (link_states p cs') \<and>
    distinct (link_promises cs') \<and> map (\<lambda>(l, g, q). g) cs' = map (\<lambda>(l, g, q). g) cs @ gs \<and>
    refers w' n (last (link_states p cs')) s' \<and> fs_state s' = kStart"
  using assms
proof (induction gs arbitrary: w l s cs)
  case Nil
  then show ?case by (auto simp: run_method)
next
  case (Cons g gs)
  let ?q = "length (heap w)" and ?b = "Suc (length (promises w))"
  let ?cs = "cs @ [(?b, g, ?q)]"
  obtain n w1 where run: "Future_ThenTry env l (callback g) w = (Return n, w1)"
    and app: "appended w (last (link_states p cs)) s g w1" and n: "refers w1 n ?q fresh_state"
    using ThenTry_pending [OF Cons.prems(6,7)] by blast
  have states: "link_states p ?cs = link_states p cs @ [?q]" and proms: "link_promises ?cs = link_promises cs @ [?b]"
    by (simp_all add: link_states_def link_promises_def)
  have "live w (last (link_states p cs)) s" using Cons.prems(6) by (simp add: refers_def)
  then have "linked w1 p ?cs" by (rule linked_snoc [OF Cons.prems(1,2) _ app])
  moreover have "distinct (link_states p ?cs)" "distinct (link_promises ?cs)"
    using Cons.prems(2-5) by (auto simp: states proms list_all_iff)
  moreover have "list_all (\<lambda>i. i < length (heap w1)) (link_states p ?cs)"
    "list_all (\<lambda>i. i < length (promises w1)) (link_promises ?cs)"
    using Cons.prems(4,5) app by (auto simp: states proms list_all_iff appended_def)
  moreover have "refers w1 n (last (link_states p ?cs)) fresh_state" using n by (simp add: states)
  ultimately obtain n' w' cs' s' where "then_chain env gs n w1 = (Return n', w')" "linked w' p cs'"
    "distinct (link_states p cs')" "distinct (link_promises cs')" "map (\<lambda>(l, g, q). g) cs' = map (\<lambda>(l, g, q). g) ?cs @ gs"
    "refers w' n' (last (link_states p cs')) s'" "fs_state s' = kStart"
    using Cons.IH fresh_state_fields(2) by blast
  with run show ?case by (auto simp: run_bind)
qed

lemma then_chain_resolved:
  assumes "refers w l p s" and "fs_state s = kOnlyResult"
  shows "\<exists>n w' q u. then_chain (then_env (Suc m) base) gs l w = (Return n, w') \<and> refers w' n q u \<and>
    fs_state u = kOnlyResult \<and> fs_try u = composed gs (fs_try s)"
  using assms
proof (induction gs arbitrary: w l p s)
  case Nil
  then show ?case by (auto simp: composed_def run_method)
next
  case (Cons g gs)
  obtain n w' q u where "Future_ThenTry (then_env (Suc m) base) l (callback g) w = (Return n, w')" and r: "refers w' n q u"
    "fs_state u = kOnlyResult" "fs_try u = try_result (g (fs_try s))"
    using ThenTry_resolved [OF Cons.prems] by blast
  moreover from Cons.IH [OF r(1,2)] obtain n' w'' q' u' where
    "then_chain (then_env (Suc m) base) gs n w' = (Return n', w'')" "refers w'' n' q' u'" "fs_state u' = kOnlyResult"
    "fs_try u' = composed gs (fs_try u)" by blast
  ultimately show ?case by (auto simp: run_bind composed_def simp del: then_env.simps)
qed

text \<open>What a future that refers to a resolved state gives.\<close>

lemma refers_GetTry:
  assumes "l < length (futures w)" and "futures w ! l = Some x" and "f_shared x = Some p"
    and "live w p s" and "fs_state s = kOnlyResult" and "fs_continuation s = None"
  shows "Future_GetTry l w = (Return (fs_try s), w)"
proof -
  have wf: "fs_wf s" "fs_abs s = Resolved (fs_try s)" using assms(5,6) by (simp_all add: fs_wf_def fs_abs_def)
  have "future_read l w = (Return x, w)" using assms(1,2) by (simp add: future_read_def)
  with assms(3) HasResult_spec [OF assms(4) wf(1)] wf(2) run_fs_read [OF assms(4)] show ?thesis
    by (simp add: Future_GetTry_def Future_HasResult_def outcome_simps Future_Valid_def through_def)
qed

lemma chain_then_result:
  assumes "refers w l p s" and "fs_state s = kStart"
  shows "\<exists>n w1 w2. then_chain (then_env (Suc (length gs)) base) gs l w = (Return n, w1) \<and>
      SetResult (then_env (Suc (length gs)) base) p v w1 = (Return (), w2) \<and>
      Future_GetTry n w2 = (Return (composed gs v), w2)"
proof -
  let ?env = "then_env (Suc (length gs)) base"
  from assms have live: "live w p s" "calm s" "fs_continuation s = None" "l < length (futures w)" by (auto simp: refers_def)
  then have p: "p < length (heap w)" by (simp add: live_def)
  have "linked w p []" "refers w l (last (link_states p [])) s"
    using live assms by (auto simp: link_states_def)
  with p obtain n w1 cs s1 where chain: "then_chain ?env gs l w = (Return n, w1)" "linked w1 p cs" "distinct (link_states p cs)"
    "distinct (link_promises cs)" "map (\<lambda>(l, g, q). g) cs = gs" "refers w1 n (last (link_states p cs)) s1" "fs_state s1 = kStart"
    using then_chain_pending [of w p "[]" l s ?env gs] assms(2)
    by (auto simp: link_states_def link_promises_def simp del: then_env.simps)
  have "\<exists>sp. live w1 p sp" using chain(2) by (cases cs) auto
  then obtain sp where sp: "live w1 p sp" ..
  have "length cs \<le> Suc (length gs)" using chain(5) by (metis le_Suc_eq length_map le_refl)
  from chain_runs [OF chain(2-4) this sp, of base v] obtain w2 t where
    run: "SetResult ?env p v w1 = (Return (), w2)" and only: "changes_only (link_states p cs) (link_promises cs) w1 w2"
    and t: "live w2 (last (link_states p cs)) t" "fs_state t = kOnlyResult" "fs_try t = chain_result cs v"
      "cs \<noteq> [] \<longrightarrow> calm t \<and> fs_continuation t = None" and sp2: "live w2 p (settled cs v sp)"
    unfolding resolves_def by blast
  have "fs_continuation t = None"
  proof (cases "cs = []")
    case True
    then have "t = settled cs v sp" using t(1) sp2 by (simp add: link_states_def live_def)
    moreover have "fs_continuation sp = None" using True chain(2) sp by (auto simp: live_def)
    ultimately show ?thesis using True by (simp add: settled_def)
  qed (use t(4) in simp)
  moreover from chain(6) obtain x where "n < length (futures w1)" "futures w1 ! n = Some x" "f_shared x = Some (last (link_states p cs))"
    by (auto simp: refers_def)
  ultimately have "Future_GetTry n w2 = (Return (fs_try t), w2)"
    using only t by (intro refers_GetTry) (auto simp: changes_only_def)
  moreover have "fs_try t = composed gs v" using t(3) chain(5) by (simp add: chain_result_composed)
  ultimately show ?thesis using chain(1) run by auto
qed

lemma result_then_chain:
  assumes "refers w l p s" and "fs_state s = kStart"
  shows "\<exists>n w1 w2. SetResult (then_env (Suc (length gs)) base) p v w = (Return (), w1) \<and>
      then_chain (then_env (Suc (length gs)) base) gs l w1 = (Return n, w2) \<and>
      Future_GetTry n w2 = (Return (composed gs v), w2)"
proof -
  let ?env = "then_env (Suc (length gs)) base"
  from assms have live: "live w p s" "fs_continuation s = None" by (auto simp: refers_def)
  let ?s = "s\<lparr>fs_try := v, fs_state := kOnlyResult\<rparr>"
  have "fs_wf s" "fs_abs s = Pending" using assms(2) live(2) by (simp_all add: fs_wf_def fs_abs_def)
  then have set: "SetResult ?env p v w = (Return (), put p ?s w)" using SetResult_cases [OF live(1)] by simp
  have "refers (put p ?s w) l p ?s" using assms(1) by (auto simp: refers_def calm_def roomy_def)
  then obtain n w2 q u where "then_chain ?env gs l (put p ?s w) = (Return n, w2)" "refers w2 n q u"
    "fs_state u = kOnlyResult" "fs_try u = composed gs v"
    using then_chain_resolved [of "put p ?s w" l p ?s "length gs" base gs] by (auto simp del: then_env.simps)
  moreover from this(2) obtain x where "n < length (futures w2)" "futures w2 ! n = Some x" "f_shared x = Some q"
    "live w2 q u" "fs_continuation u = None" by (auto simp: refers_def)
  ultimately have "Future_GetTry n w2 = (Return (composed gs v), w2)" using refers_GetTry by metis
  with set \<open>then_chain ?env gs l (put p ?s w) = (Return n, w2)\<close> show ?thesis by blast
qed

text \<open>
  Claim C31. Callbacks chained with \<open>ThenTry\<close> compose. Registered before the result is there or after, the future that
  the chain returns gives exactly the callbacks applied one after the other, an exception of one callback
  being what the next one gets; and setting the result, which runs them all inside each other, returns
  normally. The states have no executor, and the futures between the links are kept alive.
\<close>

theorem then_chain_composes:
  assumes "refers w l p s" and "fs_state s = kStart"
  shows "(\<exists>n w1 w2. then_chain (then_env (Suc (length gs)) base) gs l w = (Return n, w1) \<and>
      SetResult (then_env (Suc (length gs)) base) p v w1 = (Return (), w2) \<and>
      Future_GetTry n w2 = (Return (composed gs v), w2)) \<and>
    (\<exists>n w1 w2. SetResult (then_env (Suc (length gs)) base) p v w = (Return (), w1) \<and>
      then_chain (then_env (Suc (length gs)) base) gs l w1 = (Return n, w2) \<and>
      Future_GetTry n w2 = (Return (composed gs v), w2))"
  using chain_then_result [OF assms] result_then_chain [OF assms] by blast

text \<open>\<open>ThenValue\<close> is a \<open>ThenTry\<close> whose callback hands an exception on without looking at it.\<close>

definition skip_exception :: "('v \<Rightarrow> exn + 'v) \<Rightarrow> 'v try_val \<Rightarrow> exn + 'v" where
  "skip_exception g t =
     (case t of
        Nothing \<Rightarrow> Inl (LogicError ''Try object is empty'')
      | Value v \<Rightarrow> g v
      | Exception e \<Rightarrow> (case e of None \<Rightarrow> Inl BadFunctionCall | Some x \<Rightarrow> Inl x))"

lemma on_value_callback:
  "t \<noteq> Exception None \<Longrightarrow> on_value (\<lambda>v. case g v of Inl e \<Rightarrow> Throw e | Inr x \<Rightarrow> Return x) t = callback (skip_exception g) t"
  by (cases t) (auto simp: on_value_def callback_def skip_exception_def split: option.split)

section \<open>Example\<close>

definition bare_env :: "(nat, unit) tenv" where
  "bare_env = \<lparr>call_continuation = (\<lambda>c p. ret ()), call_on_local = (\<lambda>c l. ret ()), drop_continuation = (\<lambda>c. ret ()),
     exec_in_thread = (\<lambda>e. ret False), exec_schedule = (\<lambda>e p. ret (False, False)),
     exec_checkin = (\<lambda>e p c opts. ret (False, False)), exec_checkout = (\<lambda>e. ret kNullContext)\<rparr>"

definition one_promise :: "(nat, unit) tworld" where
  "one_promise = \<lparr>heap = [Some fresh_state], promises = [Some \<lparr>p_shared = Some 0, p_has_future = True\<rparr>],
     futures = [Some \<lparr>f_shared = Some 0, f_local = Local_empty\<rparr>], conts = {#}, rest = ()\<rparr>"

definition add_then_fail :: "(nat try_val \<Rightarrow> exn + nat) list" where
  "add_then_fail = [skip_exception (\<lambda>x. Inr (x + 1)), \<lambda>_. Inl (UserExn 5), skip_exception (\<lambda>x. Inr (x * 2))]"

lemma then_chain_composes_witness:
  "\<exists>n w1 w2. then_chain (then_env 4 bare_env) add_then_fail 0 one_promise = (Return n, w1) \<and>
     SetResult (then_env 4 bare_env) 0 (Value 41) w1 = (Return (), w2) \<and>
     Future_GetTry n w2 = (Return (Exception (Some (UserExn 5))), w2)"
proof -
  have "refers one_promise 0 0 fresh_state"
    by (simp add: refers_def one_promise_def live_def fresh_state_fields)
  from then_chain_composes [OF this fresh_state_fields(2), of add_then_fail bare_env "Value 41"]
  show ?thesis
    by (simp add: add_then_fail_def composed_def try_result_def skip_exception_def numeral_eq_Suc del: then_env.simps)
qed

text \<open>
  \<open>Wait\<close> on one thread, the result and the end of the promise on another, \<open>Get\<close>, and the end of the future:
  the value arrives, but the state that the future waited on stays on the heap with a count of one,
  because the move assignment at the end of \<open>Wait\<close> forgot it.
\<close>

definition wait_run :: "(nat \<times> 8 word option list) outcome" where
  "wait_run =
     fst (bind (Future_Wait_begin (then_env 3 bare_env) 0) (\<lambda>r.
       seq (Promise_SetValue (then_env 3 bare_env) 0 7)
         (seq (Promise_dtor (then_env 3 bare_env) 0)
           (bind (Future_Get_end 0 r) (\<lambda>v.
             seq (Future_dtor 0) (gets (\<lambda>w. (v, map (map_option fs_attached) (heap w)))))))) one_promise)"

lemma wait_leaks: "wait_run = Return (7, [Some 1, None])"
  by code_simp

end
