(* ===== verification/Future_Awaiter.thy ===== *)
theory Future_Awaiter
  imports Future_Then
begin

text \<open>
  \<^verbatim>\<open>coro/future_awaiter.hpp\<close>: \<open>co_await\<close> on a future, which the awaiter owns. The continuation that it sets is the
  handle of the awaiting coroutine; calling it resumes the coroutine, which takes the result and
  destroys the awaiter while the call is still going on.
\<close>

section \<open>The awaiter\<close>

definition FutureAwaiter_ctor :: "('v \<Rightarrow> 'v) \<Rightarrow> nat \<Rightarrow> (('v, 'k, 'x) world, nat) action" where
  "FutureAwaiter_ctor mv future = Future_move_ctor mv future"

definition FutureAwaiter_await_ready :: "nat \<Rightarrow> (('v, 'k, 'x) world, bool) action" where
  "FutureAwaiter_await_ready l = Future_HasResult l"

definition FutureAwaiter_await_suspend ::
  "('v, 'k, 'x) env \<Rightarrow> nat \<Rightarrow> 'k \<Rightarrow> (('v, 'k, 'x) world, unit) action" where
  "FutureAwaiter_await_suspend env l continuation = Future_SetContinuation env l continuation"

definition FutureAwaiter_await_resume :: "nat \<Rightarrow> (('v, 'k, 'x) world, 'v) action" where
  "FutureAwaiter_await_resume l = Future_Value l"

text \<open>
  The coroutine after \<open>await_suspend\<close>: the value or the exception of the \<open>co_await\<close> expression is what the
  coroutine goes on with (it is recorded in \<open>rest\<close>), and the awaiter is destroyed.
\<close>

definition resumed :: "nat \<Rightarrow> (('v, 'k, (exn + 'v) list) world, unit) action" where
  "resumed l =
     bind (try_catch (bind (FutureAwaiter_await_resume l) (\<lambda>v. ret (Inr v))) (\<lambda>e. ret (Inl e)))
       (\<lambda>r. seq (Future_dtor l) (modify (\<lambda>w. w\<lparr>rest := rest w @ [r]\<rparr>)))"

definition co_await_future ::
  "('v, 'k, (exn + 'v) list) env \<Rightarrow> nat \<Rightarrow> 'k \<Rightarrow> (('v, 'k, (exn + 'v) list) world, unit) action" where
  "co_await_future env l h =
     bind (FutureAwaiter_await_ready l) (\<lambda>ready.
       if ready then resumed l else FutureAwaiter_await_suspend env l h)"

text \<open>The environment in which the handle of this coroutine is resumed; a handle has no destructor.\<close>

definition awaiting_env :: "('v, 'k, (exn + 'v) list) env \<Rightarrow> nat \<Rightarrow> ('v, 'k, (exn + 'v) list) env" where
  "awaiting_env base l = base\<lparr>call_continuation := (\<lambda>h p. resumed l), drop_continuation := (\<lambda>h. ret ())\<rparr>"

lemmas awaiter_defs =
  FutureAwaiter_ctor_def FutureAwaiter_await_ready_def FutureAwaiter_await_suspend_def FutureAwaiter_await_resume_def

section \<open>Resuming\<close>

text \<open>The future at \<open>l\<close> refers to the state \<open>p\<close> and carries no result itself.\<close>

definition refers_to :: "('v, 'k, 'x) world \<Rightarrow> nat \<Rightarrow> nat \<Rightarrow> bool" where
  "refers_to w l p \<longleftrightarrow> l < length (futures w) \<and> (\<exists>x. futures w ! l = Some x \<and> f_shared x = Some p \<and> \<not> Local_HasResult (f_local x))"

text \<open>One reference less: the state is deleted with the last one.\<close>

definition one_less :: "('v, 'k) future_state \<Rightarrow> ('v, 'k) future_state option" where
  "one_less t = (if fs_attached t = 1 then None else Some (t\<lparr>fs_attached := fs_attached t - 1\<rparr>))"

definition taken ::
  "nat \<Rightarrow> nat \<Rightarrow> ('v, 'k) future_state option \<Rightarrow> exn + 'v \<Rightarrow> ('v, 'k, (exn + 'v) list) world \<Rightarrow> ('v, 'k, (exn + 'v) list) world" where
  "taken l p t r w = w\<lparr>heap := (heap w)[p := t], futures := (futures w)[l := None], rest := rest w @ [r]\<rparr>"

lemma await_DetachOne:
  assumes "live w p t" and "1 \<le> unat (fs_attached t)"
  shows "DetachOne p w = (Return (), w\<lparr>heap := (heap w)[p := one_less t]\<rparr>)"
  using assms(2) by (simp add: DetachOne_def run_fetch [OF assms(1)] outcome_simps fs_delete_def one_less_def put_def
      word_le_nat_alt)

lemma try_value_result: "try_value (try_result r) = (case r of Inl e \<Rightarrow> Throw e | Inr v \<Rightarrow> Return v)"
  by (cases r) (simp_all add: try_result_def)

lemma run_resumed:
  assumes live: "live w p t" and ref: "refers_to w l p" and wf: "fs_wf t" "fs_state t = kOnlyResult \<or> fs_state t = kDone"
    and room: "1 \<le> unat (fs_attached t)" and r: "fs_try t = try_result r"
  shows "resumed l w = (Return (), taken l p (one_less t) r w)"
proof -
  have "fs_abs t = Resolved (fs_try t) \<or> fs_abs t = Completed" using wf by (auto simp: fs_abs_def)
  then have has: "HasResult p w = (Return True, w)" using HasResult_spec [OF live wf(1)] by auto
  obtain x where x: "l < length (futures w)" "futures w ! l = Some x" "f_shared x = Some p" "\<not> Local_HasResult (f_local x)"
    using ref by (auto simp: refers_to_def)
  have "FutureAwaiter_await_resume l w = (try_value (try_result r), w)"
    using x has
    by (simp add: FutureAwaiter_await_resume_def Future_Value_def Future_GetTry_def Future_HasResult_def future_read_def
        Future_Valid_def through_def run_fs_read [OF live] r outcome_simps)
  then show ?thesis
    using x await_DetachOne [OF live room]
    by (cases r)
      (simp_all add: resumed_def try_value_result Future_dtor_def future_read_def future_set_def taken_def outcome_simps)
qed

text \<open>
  The call under its guard. The coroutine gives back the future's reference while the guard still holds
  one, so the state lives until the guard is destroyed.
\<close>

lemma taken_simps [simp]:
  "conts (taken l p t r w) = conts w" "heap (taken l p t r w) = (heap w)[p := t]"
  "futures (taken l p t r w) = (futures w)[l := None]" "rest (taken l p t r w) = rest w @ [r]"
  "promises (taken l p t r w) = promises w"
  by (simp_all add: taken_def)

lemma run_guarded_resume:
  assumes live: "live w p t" and ref: "refers_to w l p" and st: "fs_state t = kDone" "fs_continuation t = Some h"
    and calm: "calm t" and r: "fs_try t = try_result r"
  shows "with_guard (awaiting_env base l) p (invoke (awaiting_env base l) p) w =
    (Return (), taken l p (one_less (t\<lparr>fs_continuation := None\<rparr>)) r w)"
proof -
  let ?env = "awaiting_env base l" and ?g = "guarded t"
  let ?t2 = "?g\<lparr>fs_attached := fs_attached t\<rparr>" and ?t4 = "t\<lparr>fs_continuation := None\<rparr>"
  define w1 where "w1 = mk p ?g (add_mset p (conts w)) (rest w) w"
  define w2 where "w2 = taken l p (Some ?t2) r w1"
  define w3 where "w3 = put p ?t4 w2"
  note room = calm_guard(3,4) [OF calm]
  have live1: "live w1 p ?g" using live by (simp add: w1_def)
  have ref1: "refers_to w1 l p" using ref by (simp add: refers_to_def w1_def)
  have "one_less ?g = Some ?t2" using byte_facts(1) [OF room] by (simp add: one_less_def guarded_fields)
  moreover have "1 \<le> unat (fs_attached ?g)" using byte_facts(9) [OF room] by (simp add: guarded_fields)
  moreover have "fs_state ?g = kDone" using st by (simp add: guarded_def)
  ultimately have "resumed l w1 = (Return (), w2)"
    using run_resumed [OF live1 ref1, of r] r by (simp add: fs_wf_def guarded_fields w2_def)
  then have inv: "invoke ?env p w1 = (Return (), w2)"
    using st by (simp add: invoke_def run_fs_read [OF live1] guarded_fields outcome_simps awaiting_env_def)
  have live2: "live w2 p ?t2" using live1 by (simp add: w2_def live_def)
  have t4: "?t2\<lparr>fs_continuation_ref := 0, fs_continuation := None\<rparr> = ?t4"
    using calm by (simp add: guarded_def calm_def)
  have l2: "live (put p (?t2\<lparr>fs_continuation_ref := 0\<rparr>) w2) p (?t2\<lparr>fs_continuation_ref := 0\<rparr>)" using live2 by simp
  have "DerefContinuation ?env p w2 = (Return (), w3)"
    using calm st t4
    by (simp add: DerefContinuation_def run_fetch [OF live2] run_fs_read [OF l2] run_fs_write [OF l2] outcome_simps
        guarded_fields calm_def awaiting_env_def w3_def)
  moreover have live3: "live (w3\<lparr>conts := conts w\<rparr>) p ?t4" using live2 by (simp add: w3_def)
  moreover have "DetachOne p (w3\<lparr>conts := conts w\<rparr>) =
      (Return (), (w3\<lparr>conts := conts w\<rparr>)\<lparr>heap := (heap (w3\<lparr>conts := conts w\<rparr>))[p := one_less ?t4]\<rparr>)"
    using await_DetachOne [OF live3] room by simp
  moreover have "conts w3 - {#p#} = conts w" by (simp add: w3_def w2_def w1_def)
  ultimately have "Cont_Detach ?env p w2 =
      (Return (), (w3\<lparr>conts := conts w\<rparr>)\<lparr>heap := (heap (w3\<lparr>conts := conts w\<rparr>))[p := one_less ?t4]\<rparr>)"
    by (simp add: Cont_Detach_def outcome_simps)
  moreover have "(w3\<lparr>conts := conts w\<rparr>)\<lparr>heap := (heap (w3\<lparr>conts := conts w\<rparr>))[p := one_less ?t4]\<rparr> =
      taken l p (one_less ?t4) r w"
    by (simp add: w3_def w2_def w1_def put_def mk_def taken_def)
  ultimately show ?thesis
    using inv by (simp add: with_guard_def run_seq run_bind mk_Cont_Attach [OF live] outcome_simps flip: w1_def)
qed

section \<open>Awaiting\<close>

lemma run_await_suspend:
  "refers_to w l p \<Longrightarrow> FutureAwaiter_await_suspend env l h w = SetContinuation env p h w"
  by (auto simp: refers_to_def FutureAwaiter_await_suspend_def Future_SetContinuation_def future_read_def Future_Valid_def
      outcome_simps)

lemma run_await_ready:
  "refers_to w l p \<Longrightarrow> FutureAwaiter_await_ready l w = HasResult p w"
  by (auto simp: refers_to_def FutureAwaiter_await_ready_def Future_HasResult_def future_read_def through_def outcome_simps)

text \<open>What remains of the state: with the result, without continuation, and without the future's reference.\<close>

definition consumed :: "exn + 'v \<Rightarrow> ('v, 'k) future_state \<Rightarrow> 8 word \<Rightarrow> ('v, 'k) future_state option" where
  "consumed r s state = one_less (s\<lparr>fs_try := try_result r, fs_state := state\<rparr>)"

lemma refers_to_put [simp]: "refers_to (put p s w) l q = refers_to w l q"
  by (simp add: refers_to_def)

lemma taken_put [simp]: "taken l p t r (put p s w) = taken l p t r w"
  by (simp add: taken_def put_def)

lemma put_taken [simp]: "p < length (heap w) \<Longrightarrow> taken l p t r (put p s w) = taken l p t r w"
  by (simp add: taken_def put_def)

text \<open>The three places where the result can come.\<close>

lemma result_first:
  assumes live: "live w p s" and ref: "refers_to w l p" and s: "fs_wf s" "fs_abs s = Pending" "calm s"
  shows "seq (SetResult env p (try_result r)) (co_await_future env l h) w =
      (Return (), taken l p (consumed r s kOnlyResult) r w)"
proof -
  let ?t = "s\<lparr>fs_try := try_result r, fs_state := kOnlyResult\<rparr>"
  have "fs_continuation s = None" using s(1,2) by (cases rule: fs_wfE) simp_all
  then have t: "live (put p ?t w) p ?t" "fs_wf ?t" using live by (simp_all add: fs_wf_def)
  have "fs_abs ?t = Resolved (try_result r)" by (simp add: fs_abs_def)
  with HasResult_spec [OF t] have "HasResult p (put p ?t w) = (Return True, put p ?t w)" by simp
  moreover have "resumed l (put p ?t w) = (Return (), taken l p (one_less ?t) r (put p ?t w))"
    using run_resumed [OF t(1) _ t(2)] ref calm_guard(3) [OF s(3)] by simp
  ultimately show ?thesis
    using live s(2) ref
    by (simp add: SetResult_cases [OF live s(1)] co_await_future_def run_await_ready outcome_simps consumed_def)
qed

lemma wakes_up:
  assumes live: "live w p s" and ref: "refers_to w l p" and s: "fs_wf s" "fs_abs s = Pending" "calm s"
    and t: "t = s\<lparr>fs_continuation := Some h, fs_try := try_result r, fs_state := kDone\<rparr>"
  shows "ScheduleContinuation (awaiting_env base l) p trig (put p t w) = (Return (), taken l p (consumed r s kDone) r w)"
proof -
  have l: "live (put p t w) p t" "fs_state t = kDone" "calm t" "refers_to (put p t w) l p"
    using live s ref by (simp_all add: t calm_def roomy_def)
  have "fs_continuation s = None" using s(1,2) by (cases rule: fs_wfE) simp_all
  then have "t\<lparr>fs_continuation := None\<rparr> = s\<lparr>fs_try := try_result r, fs_state := kDone\<rparr>" by (simp add: t)
  then show ?thesis
    using run_guarded_resume [OF l(1,4,2) _ l(3), of h r base] sched_inline [OF l(1-3)]
    by (simp add: consumed_def) (simp add: t)
qed

lemma continuation_first:
  assumes live: "live w p s" and ref: "refers_to w l p" and s: "fs_wf s" "fs_abs s = Pending" "calm s"
  shows "seq (co_await_future (awaiting_env base l) l h) (SetResult (awaiting_env base l) p (try_result r)) w =
      (Return (), taken l p (consumed r s kDone) r w)"
proof -
  let ?t = "s\<lparr>fs_continuation := Some h, fs_state := kOnlyContinuation\<rparr>"
  have t: "live (put p ?t w) p ?t" "fs_wf ?t" "fs_abs ?t = Awaiting h" using live s by (simp_all add: fs_wf_def fs_abs_def)
  have "HasResult p w = (Return False, w)" using HasResult_spec [OF live s(1)] s(2) by simp
  moreover have "?t\<lparr>fs_try := try_result r, fs_state := kDone\<rparr> =
      s\<lparr>fs_continuation := Some h, fs_try := try_result r, fs_state := kDone\<rparr>" by (cases s) simp
  ultimately show ?thesis
    using s(2) wakes_up [OF assms refl, where h = h and r = r and base = base and trig = False] ref
    by (simp add: co_await_future_def run_await_ready run_await_suspend outcome_simps SetContinuation_cases [OF live s(1)]
        SetResult_cases [OF t(1,2)] t(3))
qed

lemma between:
  assumes live: "live w p s" and ref: "refers_to w l p" and s: "fs_wf s" "fs_abs s = Pending" "calm s"
  shows "seq (SetResult (awaiting_env base l) p (try_result r)) (FutureAwaiter_await_suspend (awaiting_env base l) l h) w =
      (Return (), taken l p (consumed r s kDone) r w)"
proof -
  let ?t = "s\<lparr>fs_try := try_result r, fs_state := kOnlyResult\<rparr>"
  have "fs_continuation s = None" using s(1,2) by (cases rule: fs_wfE) simp_all
  then have t: "live (put p ?t w) p ?t" "fs_wf ?t" "fs_abs ?t = Resolved (try_result r)"
    using live by (simp_all add: fs_wf_def fs_abs_def)
  have same: "s\<lparr>fs_try := try_result r, fs_continuation := Some h, fs_state := kDone\<rparr> =
      s\<lparr>fs_continuation := Some h, fs_try := try_result r, fs_state := kDone\<rparr>" by (cases s) simp
  show ?thesis
    using s(2) wakes_up [OF assms refl, where h = h and r = r and base = base and trig = True] ref
    by (simp add: run_await_suspend outcome_simps SetResult_cases [OF live s(1)] SetContinuation_cases [OF t(1,2)] t(3) same)
qed

text \<open>
  Claim C35. \<open>co_await The future has no executor (\<open>calm\<close>).
\<close> on a future gives the result of the future, once, whenever the result comes: before the
  coroutine looks, after it has suspended, or between \<open>await_ready\<close> and \<open>await_suspend\<close>, when the coroutine
  is resumed inside \<open>await_suspend\<close>. In each case the awaiter is destroyed and its reference given back
  while the setter is still at work on the state, and the state is deleted exactly when nobody else
  refers to it.
\<close>

theorem future_await_gives_result:
  assumes "live w p s" and "refers_to w l p" and "fs_wf s" and "fs_abs s = Pending" and "calm s"
    and "env = awaiting_env base l"
  shows "FutureAwaiter_await_ready l w = (Return False, w) \<and>
    seq (SetResult env p (try_result r)) (co_await_future env l h) w =
      (Return (), taken l p (consumed r s kOnlyResult) r w) \<and>
    seq (co_await_future env l h) (SetResult env p (try_result r)) w = (Return (), taken l p (consumed r s kDone) r w) \<and>
    seq (SetResult env p (try_result r)) (FutureAwaiter_await_suspend env l h) w =
      (Return (), taken l p (consumed r s kDone) r w)"
  using result_first [OF assms(1-5)] continuation_first [OF assms(1-5)] between [OF assms(1-5)]
    HasResult_spec [OF assms(1,3)] run_await_ready [OF assms(2)] assms(4,6)
  by simp

text \<open>The promise is still there: a state with two references, of which one is left.\<close>

definition quiet_env :: "(nat, string, (exn + nat) list) env" where
  "quiet_env = \<lparr>call_continuation = (\<lambda>c p. ret ()), call_on_local = (\<lambda>c l. ret ()), drop_continuation = (\<lambda>c. ret ()),
     exec_in_thread = (\<lambda>e. ret False), exec_schedule = (\<lambda>e p. ret (False, False)),
     exec_checkin = (\<lambda>e p c opts. ret (False, False)), exec_checkout = (\<lambda>e. ret kNullContext)\<rparr>"

definition await_world :: "(nat, string, (exn + nat) list) world" where
  "await_world =
     \<lparr>heap = [Some (FutureState_ctor\<lparr>fs_attached := 2, fs_promise_ref := 1\<rparr>)],
      promises = [Some \<lparr>p_shared = Some 0, p_has_future = True\<rparr>],
      futures = [Some \<lparr>f_shared = Some 0, f_local = Local_empty\<rparr>], conts = {#}, rest = []\<rparr>"

lemma future_await_gives_result_witness:
  "\<exists>w. seq (co_await_future (awaiting_env quiet_env 0) 0 ''co'') (SetResult (awaiting_env quiet_env 0) 0 (Value 7)) await_world =
     (Return (), w) \<and> rest w = [Inr 7] \<and> map (map_option fs_attached) (heap w) = [Some 1] \<and> futures w = [None]"
proof -
  let ?s = "FutureState_ctor\<lparr>fs_attached := 2, fs_promise_ref := 1\<rparr> :: (nat, string) future_state"
  have "live await_world 0 ?s" "refers_to await_world 0 0" "fs_wf ?s" "fs_abs ?s = Pending" "calm ?s"
    by (simp_all add: live_def await_world_def refers_to_def Local_HasResult_def Local_empty_def fs_wf_def fs_abs_def
        calm_def roomy_def FutureState_ctor_def)
  from future_await_gives_result [OF this refl, of quiet_env "Inr 7" "''co''"] show ?thesis
    by (simp add: try_result_def taken_def await_world_def consumed_def one_less_def FutureState_ctor_def)
qed

end
