(* ===== verification/Move_Wrapper.thy ===== *)
theory Move_Wrapper
  imports Async_Prelude
begin

text \<open>
  \<^verbatim>\<open>include/async_simple/base/move_wrapper.hpp\<close>: a wrapper whose copy constructor moves, so that a
  \<open>std::function\<close> can hold a function object that cannot be copied. \<open>mv\<close> is the value that moving out
  of a \<open>T\<close> leaves behind. The constructors give the new object and what is left of the old one.
\<close>

record 'v move_wrapper =
  mw_value :: 'v

definition MoveWrapper_of_value :: "('v \<Rightarrow> 'v) \<Rightarrow> 'v \<Rightarrow> 'v move_wrapper \<times> 'v" where
  "MoveWrapper_of_value mv v = (\<lparr>mw_value = v\<rparr>, mv v)"

definition MoveWrapper_copy_ctor :: "('v \<Rightarrow> 'v) \<Rightarrow> 'v move_wrapper \<Rightarrow> 'v move_wrapper \<times> 'v move_wrapper" where
  "MoveWrapper_copy_ctor mv other = (\<lparr>mw_value = mw_value other\<rparr>, other\<lparr>mw_value := mv (mw_value other)\<rparr>)"

definition MoveWrapper_move_ctor :: "('v \<Rightarrow> 'v) \<Rightarrow> 'v move_wrapper \<Rightarrow> 'v move_wrapper \<times> 'v move_wrapper" where
  "MoveWrapper_move_ctor mv other = (\<lparr>mw_value = mw_value other\<rparr>, other\<lparr>mw_value := mv (mw_value other)\<rparr>)"

definition MoveWrapper_Get :: "'v move_wrapper \<Rightarrow> 'v" where
  "MoveWrapper_Get w = mw_value w"

text \<open>
  What \<open>FutureState::SetContinuation\<close> relies on: the function object reaches the lambda through one copy;
  a second copy of the source would get what the first one left.
\<close>

lemma first_copy_has_it:
  assumes "MoveWrapper_of_value mv f = (w, left)" and "MoveWrapper_copy_ctor mv w = (c, w')"
    and "MoveWrapper_copy_ctor mv w' = (d, w'')"
  shows "MoveWrapper_Get c = f" and "MoveWrapper_Get d = mv f"
  using assms by (auto simp: MoveWrapper_of_value_def MoveWrapper_copy_ctor_def MoveWrapper_Get_def)

end
