(* ===== verification/Lazy_Promise.thy ===== *)
theory Lazy_Promise
  imports Try_Base
begin

text \<open>
  The promise objects of \<^verbatim>\<open>include/async_simple/coro/lazy.hpp\<close>: \<open>LazyPromiseBase\<close>, \<open>LazyPromise<T>\<close>
  with its hand-written union, and \<open>LazyPromise<void>\<close>. Coroutine handles are positions in the list of
  frames of \<^verbatim>\<open>Coroutine_Machine.thy\<close>, null is \<open>None\<close>. As in \<^verbatim>\<open>Try_Base.thy\<close>, touching a union member that
  is not alive is undefined.
\<close>

section \<open>LazyPromise<T>\<close>

datatype result_type = kEmpty | kHasValue | kHasException

record 'v lazy_promise =
  lp_executor :: "nat option"
  lp_continuation :: "nat option"
  lp_result_type :: result_type
  lp_storage :: "'v storage"

definition LazyPromise_ctor :: "'v lazy_promise" where
  "LazyPromise_ctor =
     \<lparr>lp_executor = None, lp_continuation = None, lp_result_type = kEmpty, lp_storage = Inactive\<rparr>"

text \<open>The destructor reads the tag and destroys that member.\<close>

definition LazyPromise_dtor :: "('v lazy_promise, unit) action" where
  "LazyPromise_dtor p =
     (case lp_result_type p of
        kHasValue \<Rightarrow>
          (case lp_storage p of ValueMember v \<Rightarrow> (Return (), p\<lparr>lp_storage := Inactive\<rparr>) | _ \<Rightarrow> (Undefined, p))
      | kHasException \<Rightarrow>
          (case lp_storage p of ExceptionMember e \<Rightarrow> (Return (), p\<lparr>lp_storage := Inactive\<rparr>) | _ \<Rightarrow> (Undefined, p))
      | kEmpty \<Rightarrow> (Return (), p))"

definition LazyPromise_return_value :: "'v \<Rightarrow> ('v lazy_promise, unit) action" where
  "LazyPromise_return_value v =
     modify (\<lambda>p. p\<lparr>lp_storage := ValueMember v, lp_result_type := kHasValue\<rparr>)"

text \<open>\<open>e\<close> is the exception in flight.\<close>

definition LazyPromise_unhandled_exception :: "exn \<Rightarrow> ('v lazy_promise, unit) action" where
  "LazyPromise_unhandled_exception e =
     modify (\<lambda>p. p\<lparr>lp_storage := ExceptionMember (Some e), lp_result_type := kHasException\<rparr>)"

definition lp_read_value :: "('v lazy_promise, 'v) action" where
  "lp_read_value p = (case lp_storage p of ValueMember v \<Rightarrow> (Return v, p) | _ \<Rightarrow> (Undefined, p))"

definition lp_read_exception :: "('v lazy_promise, exception_ptr) action" where
  "lp_read_exception p = (case lp_storage p of ExceptionMember e \<Rightarrow> (Return e, p) | _ \<Rightarrow> (Undefined, p))"

text \<open>\<open>Result\<close>, by reference or moved: the caller gets the value or the exception is thrown again.\<close>

definition LazyPromise_Result :: "('v lazy_promise, 'v) action" where
  "LazyPromise_Result =
     bind (gets lp_result_type) (\<lambda>t.
       if t = kHasException then
         bind lp_read_exception (\<lambda>e. case e of None \<Rightarrow> undef | Some x \<Rightarrow> throw x)
       else seq (ASSERT (t = kHasValue)) lp_read_value)"

definition LazyPromise_TryResult :: "('v lazy_promise, 'v try_val) action" where
  "LazyPromise_TryResult =
     noexcept (bind (gets lp_result_type) (\<lambda>t.
       if t = kHasException then bind lp_read_exception (\<lambda>e. ret (Exception e))
       else seq (ASSERT (t = kHasValue)) (bind lp_read_value (\<lambda>v. ret (Value v)))))"

lemmas lazy_promise_defs =
  LazyPromise_ctor_def LazyPromise_dtor_def LazyPromise_return_value_def
  LazyPromise_unhandled_exception_def LazyPromise_Result_def LazyPromise_TryResult_def
  lp_read_value_def lp_read_exception_def

text \<open>The promise of a finished coroutine, and what its readers get.\<close>

fun with_result :: "'v lazy_promise \<Rightarrow> exn + 'v \<Rightarrow> 'v lazy_promise" where
  "with_result p (Inl e) = p\<lparr>lp_storage := ExceptionMember (Some e), lp_result_type := kHasException\<rparr>"
| "with_result p (Inr v) = p\<lparr>lp_storage := ValueMember v, lp_result_type := kHasValue\<rparr>"

fun outcome_of :: "exn + 'v \<Rightarrow> 'v outcome" where
  "outcome_of (Inl e) = Throw e"
| "outcome_of (Inr v) = Return v"

fun try_of :: "exn + 'v \<Rightarrow> 'v try_val" where
  "try_of (Inl e) = Exception (Some e)"
| "try_of (Inr v) = Value v"

lemma try_of_replays: "try_value (try_of r) = outcome_of r"
  by (cases r) simp_all

lemma finished_promise:
  "LazyPromise_Result (with_result p r) = (outcome_of r, with_result p r)"
  "LazyPromise_TryResult (with_result p r) = (Return (try_of r), with_result p r)"
  "fst (LazyPromise_dtor (with_result p r)) = Return ()"
  "LazyPromise_return_value v p = (Return (), with_result p (Inr v))"
  "LazyPromise_unhandled_exception e p = (Return (), with_result p (Inl e))"
  by (cases r; simp add: lazy_promise_defs outcome_simps)+

section \<open>LazyPromise<void>\<close>

record void_promise =
  vp_executor :: "nat option"
  vp_continuation :: "nat option"
  vp_exception :: exception_ptr

definition VoidPromise_ctor :: void_promise where
  "VoidPromise_ctor = \<lparr>vp_executor = None, vp_continuation = None, vp_exception = None\<rparr>"

definition VoidPromise_return_void :: "(void_promise, unit) action" where
  "VoidPromise_return_void = ret ()"

definition VoidPromise_unhandled_exception :: "exn \<Rightarrow> (void_promise, unit) action" where
  "VoidPromise_unhandled_exception e = modify (\<lambda>p. p\<lparr>vp_exception := Some e\<rparr>)"

definition VoidPromise_Result :: "(void_promise, unit) action" where
  "VoidPromise_Result p = (case vp_exception p of None \<Rightarrow> (Return (), p) | Some e \<Rightarrow> (Throw e, p))"

definition VoidPromise_TryResult :: "(void_promise, try_void) action" where
  "VoidPromise_TryResult = bind (gets vp_exception) (\<lambda>e. ret (TryVoid_of_exception e))"

text \<open>
  A \<open>void\<close> coroutine behaves as one that returns a unit value: the two promises give the same answers
  once the coroutine has finished, so the frames below use \<open>LazyPromise<T>\<close> for both.
\<close>

lemma void_promise_as_unit:
  fixes p :: "unit lazy_promise"
  assumes "vp_exception q = None"
  shows "fst (VoidPromise_Result (snd (VoidPromise_return_void q))) =
      fst (LazyPromise_Result (snd (LazyPromise_return_value () p)))"
    and "fst (VoidPromise_Result (snd (VoidPromise_unhandled_exception e q))) =
      fst (LazyPromise_Result (snd (LazyPromise_unhandled_exception e p)))"
  using assms
  by (simp_all add: VoidPromise_Result_def VoidPromise_return_void_def
      VoidPromise_unhandled_exception_def lazy_promise_defs outcome_simps)

end
