(* ===== verification/Coroutine_Machine.thy ===== *)
theory Coroutine_Machine
  imports Lazy_Promise Executor_Model
begin

text \<open>
  Coroutines: the frames of \<open>Lazy\<close> (\<^verbatim>\<open>coro/lazy.hpp\<close>), \<open>ViaCoroutine\<close> (\<^verbatim>\<open>coro/via_coroutine.hpp\<close>) and
  \<open>DetachedCoroutine\<close> (\<^verbatim>\<open>coro/detached_coroutine.hpp\<close>) on a heap, their awaiters, and the machine that
  resumes them on the threads of executors. A coroutine handle is the position of its frame, \<open>None\<close>
  is a null handle; using a destroyed frame is undefined.

  What a user's coroutine does is its \<open>body\<close>: it returns, throws, fails an assertion, or awaits something and goes on
  with the value or the exception that the \<open>co_await\<close> expression gives (a body that catches an
  exception is a body that goes on after \<open>Inl\<close>).
\<close>

section \<open>Bodies and awaitables\<close>

datatype 'a val =
    VUnit
  | VVal 'a
  | VExecutor "nat option"
  | VTries "'a val try_val list"
  | VAny "64 word" "'a val try_val"

text \<open>
  What can be awaited in a \<open>Lazy\<close>: another \<open>Lazy\<close>, a \<open>RescheduleLazy\<close> (with the executor that \<open>Via\<close>
  gave it), \<open>CurrentExecutor\<close>, \<open>Yield\<close>, \<open>executor.Schedule()\<close>, \<open>executor.ScheduleAfter(d)\<close>, and
  anything else: an awaitable from outside (a future, a collector, a user's type) with the result
  it will give. \<open>via\<close> tells that it has no method \<open>CoAwait\<close>, so that \<open>await_transform\<close> wraps it in a
  \<open>ViaAsyncAwaiter\<close>. It is ready, or its \<open>await_suspend\<close> returns false, or it suspends and is resumed
  later by a thread of an executor (or by another thread, \<open>None\<close>).
\<close>

datatype arrival = Ready | Declines | Arrives "nat option"

datatype 'a body =
    CoReturn "'a val"
  | CoThrow exn
  | CoAbort
  | CoAwait "'a awaitable" "(exn + 'a val) \<Rightarrow> 'a body"
and 'a awaitable =
    ALazy "'a body"
  | AReschedule "nat option" "'a body"
  | ACurrentExecutor
  | AYield
  | ASchedule nat
  | AScheduleAfter nat
  | AExtern bool arrival "exn + 'a val"

text \<open>Awaiters that live in a suspended frame, with the handles they own.\<close>

datatype 'a awaiter =
    AwLazy nat
  | AwReschedule nat
  | AwUnit
  | AwExtern "exn + 'a val"
  | AwVia nat "'a awaiter"

section \<open>Frames\<close>

datatype 'a point =
    AtStart "'a body"
  | AtAwait "'a awaiter" "(exn + 'a val) \<Rightarrow> 'a body"
  | AtFinal

record via_promise =
  via_executor :: "nat option"
  via_context :: exec_context
  via_continuation :: "nat option"

text \<open>
  What the callbacks of \<open>Start\<close> do that the library starts itself: those of \<open>SyncAwait\<close> and of the collectors store
  the result in a place that the lambda refers to (a local variable, an element of the output), named by
  a number; the one of \<open>Detach\<close> rethrows.
\<close>

datatype callback = StoreResult nat | RethrowResult

datatype 'a frame =
    LazyFrame "'a point" "'a val lazy_promise"
  | ViaFrame bool via_promise
  | DetachedFrame nat callback

text \<open>
  The thread that is running: a worker of an executor or any other thread. Executors hold tasks: a
  job, which resumes a handle or the continuation of a \<open>ViaCoroutine\<close>, for a certain worker or any.
  \<open>timers\<close> are the sleeping threads of \<open>ScheduleAfter\<close>, \<open>arrivals\<close> the external events that will
  resume a handle.
\<close>

type_synonym cthread = "(nat \<times> nat) option"

datatype job = Resume nat | ResumeContinuationOf nat

record 'a cmachine =
  frames :: "'a frame option list"
  running :: cthread
  tasks :: "(nat \<times> nat option \<times> job) multiset"
  timers :: "(nat \<times> nat) multiset"
  arrivals :: "(nat option \<times> nat) multiset"
  cb_results :: "(nat \<times> 'a val try_val) list"

text \<open>The executors are \<open>SimpleExecutor\<close>s, each with its workers; one that is stopped accepts nothing.\<close>

record coro_env =
  num_workers :: "nat \<Rightarrow> nat"
  accepting :: "nat \<Rightarrow> bool"

definition frame_at :: "nat \<Rightarrow> ('a cmachine, 'a frame) action" where
  "frame_at h s =
     (if h < length (frames s) then
        (case frames s ! h of None \<Rightarrow> (Undefined, s) | Some f \<Rightarrow> (Return f, s))
      else (Undefined, s))"

definition set_frame :: "nat \<Rightarrow> 'a frame option \<Rightarrow> ('a cmachine, unit) action" where
  "set_frame h f = modify (\<lambda>s. s\<lparr>frames := (frames s)[h := f]\<rparr>)"

definition new_frame :: "'a frame \<Rightarrow> ('a cmachine, nat) action" where
  "new_frame f s = (Return (length (frames s)), s\<lparr>frames := frames s @ [Some f]\<rparr>)"

text \<open>\<open>handle.promise()\<close> of a \<open>Lazy\<close> coroutine.\<close>

definition promise_of :: "nat \<Rightarrow> ('a val lazy_promise, 'b) action \<Rightarrow> ('a cmachine, 'b) action" where
  "promise_of h m =
     bind (frame_at h) (\<lambda>f.
       case f of
         LazyFrame pt p \<Rightarrow> (case m p of (r, p') \<Rightarrow> seq (set_frame h (Some (LazyFrame pt p'))) (\<lambda>s. (r, s)))
       | _ \<Rightarrow> undef)"

definition set_point :: "nat \<Rightarrow> 'a point \<Rightarrow> ('a cmachine, unit) action" where
  "set_point h pt =
     bind (frame_at h) (\<lambda>f.
       case f of LazyFrame _ p \<Rightarrow> set_frame h (Some (LazyFrame pt p)) | _ \<Rightarrow> undef)"

text \<open>\<open>handle.destroy()\<close>: the promise is destroyed with the frame.\<close>

definition destroy :: "nat \<Rightarrow> ('a cmachine, unit) action" where
  "destroy h =
     bind (frame_at h) (\<lambda>f.
       seq (case f of LazyFrame pt p \<Rightarrow> promise_of h LazyPromise_dtor | _ \<Rightarrow> ret ())
         (set_frame h None))"

text \<open>A call of a coroutine function: the frame is created and suspended at its start.\<close>

definition new_lazy :: "'a body \<Rightarrow> ('a cmachine, nat) action" where
  "new_lazy b = new_frame (LazyFrame (AtStart b) LazyPromise_ctor)"

section \<open>Executors\<close>

definition current_of :: "nat \<Rightarrow> cthread \<Rightarrow> current" where
  "current_of e th = (case th of None \<Rightarrow> Pool_current_init | Some (e', w) \<Rightarrow> Pool_worker_current e' w)"

definition in_executor :: "nat \<Rightarrow> ('a cmachine, bool) action" where
  "in_executor e = gets (\<lambda>s. Simple_CurrentThreadInExecutor e (current_of e (running s)))"

text \<open>The result of \<open>Schedule\<close> is ignored by every caller in the coroutine code.\<close>

definition schedule :: "coro_env \<Rightarrow> nat \<Rightarrow> nat \<Rightarrow> ('a cmachine, unit) action" where
  "schedule env e h =
     (if accepting env e then modify (\<lambda>s. s\<lparr>tasks := add_mset (e, None, Resume h) (tasks s)\<rparr>) else ret ())"

definition schedule_after :: "nat \<Rightarrow> nat \<Rightarrow> ('a cmachine, unit) action" where
  "schedule_after e h = modify (\<lambda>s. s\<lparr>timers := add_mset (e, h) (timers s)\<rparr>)"

definition checkout :: "nat \<Rightarrow> ('a cmachine, exec_context) action" where
  "checkout e = gets (\<lambda>s. Simple_Checkout e (current_of e (running s)))"

text \<open>
  \<open>Checkin\<close> as in \<^verbatim>\<open>Executor_Model.thy\<close>: at once on the worker that checked out, otherwise through
  \<open>ScheduleById\<close>, whose assertion a foreign context fails. The result tells whether the job is to be
  done here and now. An empty function (\<open>None\<close>) leaves no trace in a queue.
\<close>

definition checkin :: "coro_env \<Rightarrow> nat \<Rightarrow> exec_context \<Rightarrow> job option \<Rightarrow> ('a cmachine, bool) action" where
  "checkin env e ctx j =
     bind (gets running) (\<lambda>th.
       if Simple_prompt_now e (current_of e th) ctx ScheduleOptions_default then ret True
       else if \<not> accepting env e then ret False
       else
         (let tid = ucast (ctx AND NOT kContextMask) :: 32 word;
              post = (\<lambda>w. case j of
                            None \<Rightarrow> ret False
                          | Some x \<Rightarrow> seq (modify (\<lambda>s. s\<lparr>tasks := add_mset (e, w, x) (tasks s)\<rparr>)) (ret False))
          in if tid = - 1 then post None
             else if id_below tid (num_workers env e) then post (Some (unat tid))
             else abort))"

section \<open>ViaCoroutine\<close>

definition Via_Create :: "nat option \<Rightarrow> ('a cmachine, nat) action" where
  "Via_Create ex =
     new_frame (ViaFrame False \<lparr>via_executor = ex, via_context = kNullContext, via_continuation = None\<rparr>)"

definition via_promise_of :: "nat \<Rightarrow> ('a cmachine, via_promise) action" where
  "via_promise_of v = bind (frame_at v) (\<lambda>f. case f of ViaFrame _ p \<Rightarrow> ret p | _ \<Rightarrow> undef)"

definition Via_GetWrappedContinuation :: "nat \<Rightarrow> nat \<Rightarrow> ('a cmachine, nat) action" where
  "Via_GetWrappedContinuation v h =
     bind (via_promise_of v) (\<lambda>p.
     bind (case via_executor p of None \<Rightarrow> ret (via_context p) | Some e \<Rightarrow> checkout e) (\<lambda>ctx.
       seq (set_frame v (Some (ViaFrame False (p\<lparr>via_context := ctx, via_continuation := Some h\<rparr>))))
         (ret v)))"

text \<open>\<open>Checkin\<close> of the coroutine object checks in an empty function.\<close>

definition Via_Checkin :: "coro_env \<Rightarrow> nat \<Rightarrow> ('a cmachine, unit) action" where
  "Via_Checkin env v =
     bind (via_promise_of v) (\<lambda>p.
       case via_executor p of
         None \<Rightarrow> ret ()
       | Some e \<Rightarrow> bind (checkin env e (via_context p) None) (\<lambda>_. ret ()))"

text \<open>
  Its only turn: it returns at once, and its final awaiter takes the continuation home. The posted
  function reads the continuation from the promise when it runs.
\<close>

definition continuation_of :: "nat \<Rightarrow> ('a cmachine, nat) action" where
  "continuation_of v =
     bind (via_promise_of v) (\<lambda>p. case via_continuation p of None \<Rightarrow> undef | Some h \<Rightarrow> ret h)"

definition Via_final :: "coro_env \<Rightarrow> nat \<Rightarrow> via_promise \<Rightarrow> ('a cmachine, nat option) action" where
  "Via_final env v p =
     seq (set_frame v (Some (ViaFrame True p)))
       (case via_executor p of
          None \<Rightarrow> bind (continuation_of v) (\<lambda>h. ret (Some h))
        | Some e \<Rightarrow>
            bind (checkin env e (via_context p) (Some (ResumeContinuationOf v))) (\<lambda>here.
              if here then bind (continuation_of v) (\<lambda>h. ret (Some h)) else ret None))"

definition start_job :: "job \<Rightarrow> ('a cmachine, nat) action" where
  "start_job j = (case j of Resume h \<Rightarrow> ret h | ResumeContinuationOf v \<Rightarrow> continuation_of v)"

section \<open>Awaiting\<close>

definition suspend :: "nat \<Rightarrow> 'a awaiter \<Rightarrow> ((exn + 'a val) \<Rightarrow> 'a body) \<Rightarrow> ('a cmachine, unit) action" where
  "suspend h aw k = set_point h (AtAwait aw k)"

text \<open>\<open>Lazy::CoAwait\<close> and \<open>Lazy::Via\<close> write the executor, \<open>await_suspend\<close> the continuation.\<close>

definition lp_set_executor :: "nat option \<Rightarrow> ('v lazy_promise, unit) action" where
  "lp_set_executor ex = modify (\<lambda>p. p\<lparr>lp_executor := ex\<rparr>)"

definition lp_set_continuation :: "nat option \<Rightarrow> ('v lazy_promise, unit) action" where
  "lp_set_continuation c = modify (\<lambda>p. p\<lparr>lp_continuation := c\<rparr>)"

definition executor_of :: "nat \<Rightarrow> ('a cmachine, nat option) action" where
  "executor_of h = promise_of h (gets lp_executor)"

text \<open>Symmetric transfer to the awaited \<open>Lazy\<close>.\<close>

definition Lazy_await_suspend :: "nat \<Rightarrow> nat \<Rightarrow> ('a cmachine, nat option) action" where
  "Lazy_await_suspend c continuation =
     seq (promise_of c (lp_set_continuation (Some continuation))) (ret (Some c))"

definition Reschedule_await_suspend ::
  "coro_env \<Rightarrow> nat \<Rightarrow> nat \<Rightarrow> ('a cmachine, nat option) action" where
  "Reschedule_await_suspend env c continuation =
     seq (promise_of c (lp_set_continuation (Some continuation)))
       (bind (executor_of c) (\<lambda>ex.
          case ex of None \<Rightarrow> undef | Some e \<Rightarrow> seq (schedule env e c) (ret None)))"

text \<open>\<open>Lazy::CoAwait\<close>: the awaited coroutine gets the executor of the awaiting one.\<close>

definition Lazy_CoAwait :: "nat option \<Rightarrow> nat \<Rightarrow> ('a cmachine, unit) action" where
  "Lazy_CoAwait ex c = promise_of c (lp_set_executor ex)"

text \<open>The awaiters of \<open>Yield\<close>, \<open>CurrentExecutor\<close>, \<open>executor.Schedule()\<close> and \<open>executor.ScheduleAfter(d)\<close>.\<close>

definition Yield_await_suspend :: "coro_env \<Rightarrow> nat option \<Rightarrow> nat \<Rightarrow> ('a cmachine, unit) action" where
  "Yield_await_suspend env ex h = (case ex of None \<Rightarrow> undef | Some e \<Rightarrow> schedule env e h)"

definition ReadyAwaiter_await_resume :: "'v \<Rightarrow> ('a cmachine, 'v) action" where
  "ReadyAwaiter_await_resume v = ret v"

definition Executor_await_ready :: "nat \<Rightarrow> ('a cmachine, bool) action" where
  "Executor_await_ready e = in_executor e"

definition Executor_await_suspend :: "coro_env \<Rightarrow> nat \<Rightarrow> nat \<Rightarrow> ('a cmachine, unit) action" where
  "Executor_await_suspend env e h = schedule env e h"

definition TimeAwaiter_await_suspend :: "nat \<Rightarrow> nat \<Rightarrow> ('a cmachine, unit) action" where
  "TimeAwaiter_await_suspend e h = schedule_after e h"

text \<open>An awaitable from outside takes the handle that will be resumed.\<close>

definition extern_await_suspend :: "nat option \<Rightarrow> nat \<Rightarrow> ('a cmachine, unit) action" where
  "extern_await_suspend th h = modify (\<lambda>s. s\<lparr>arrivals := add_mset (th, h) (arrivals s)\<rparr>)"

text \<open>
  \<open>ViaAsyncAwaiter\<close> around such an awaitable. The awaiter suspends the coroutine, or it is ready, or its
  \<open>await_suspend\<close> gives false: then the context that was checked out is checked in and the coroutine goes on.
\<close>

definition ViaAsync_await ::
  "coro_env \<Rightarrow> arrival \<Rightarrow> (exn + 'a val) \<Rightarrow> ((exn + 'a val) \<Rightarrow> 'a body) \<Rightarrow> nat \<Rightarrow> nat \<Rightarrow>
     ('a cmachine, (exn + 'a val) + nat option) action" where
  "ViaAsync_await env arr r k v h =
     (case arr of
        Ready \<Rightarrow> seq (destroy v) (ret (Inl r))
      | Declines \<Rightarrow>
          bind (Via_GetWrappedContinuation v h) (\<lambda>w.
            seq (Via_Checkin env v) (seq (destroy v) (ret (Inl r))))
      | Arrives th \<Rightarrow>
          seq (suspend h (AwVia v (AwExtern r)) k)
            (bind (Via_GetWrappedContinuation v h) (\<lambda>w. seq (extern_await_suspend th w) (ret (Inr None)))))"

text \<open>
  \<open>await_transform\<close>, \<open>await_ready\<close> and \<open>await_suspend\<close> for each awaitable: either the result is there
  (\<open>Inl\<close>), or the coroutine is suspended and the thread goes on with another handle or returns (\<open>Inr\<close>).
\<close>

definition begin_await ::
  "coro_env \<Rightarrow> 'a awaitable \<Rightarrow> ((exn + 'a val) \<Rightarrow> 'a body) \<Rightarrow> nat \<Rightarrow>
     ('a cmachine, (exn + 'a val) + nat option) action" where
  "begin_await env a k h =
     bind (executor_of h) (\<lambda>ex.
       case a of
         ALazy b \<Rightarrow>
           bind (new_lazy b) (\<lambda>c.
             seq (Lazy_CoAwait ex c)
               (seq (suspend h (AwLazy c) k) (bind (Lazy_await_suspend c h) (\<lambda>t. ret (Inr t)))))
       | AReschedule e b \<Rightarrow>
           bind (new_lazy b) (\<lambda>c.
             seq (promise_of c (lp_set_executor e))
               (bind (Via_Create ex) (\<lambda>v.
                  seq (suspend h (AwVia v (AwReschedule c)) k)
                    (bind (Via_GetWrappedContinuation v h) (\<lambda>w.
                       bind (Reschedule_await_suspend env c w) (\<lambda>t. ret (Inr t)))))))
       | ACurrentExecutor \<Rightarrow> bind (ReadyAwaiter_await_resume (VExecutor ex)) (\<lambda>v. ret (Inl (Inr v)))
       | AYield \<Rightarrow> seq (suspend h AwUnit k) (seq (Yield_await_suspend env ex h) (ret (Inr None)))
       | ASchedule e \<Rightarrow>
           bind (Executor_await_ready e) (\<lambda>ready.
             if ready then ret (Inl (Inr VUnit))
             else seq (suspend h AwUnit k) (seq (Executor_await_suspend env e h) (ret (Inr None))))
       | AScheduleAfter e \<Rightarrow>
           seq (suspend h AwUnit k) (seq (TimeAwaiter_await_suspend e h) (ret (Inr None)))
       | AExtern False arr r \<Rightarrow>
           (case arr of
              Arrives th \<Rightarrow> seq (suspend h (AwExtern r) k) (seq (extern_await_suspend th h) (ret (Inr None)))
            | _ \<Rightarrow> ret (Inl r))
       | AExtern True arr r \<Rightarrow> bind (Via_Create ex) (\<lambda>v. ViaAsync_await env arr r k v h))"

lemmas begin_await_defs =
  begin_await_def Lazy_CoAwait_def Yield_await_suspend_def ReadyAwaiter_await_resume_def Executor_await_ready_def
  Executor_await_suspend_def TimeAwaiter_await_suspend_def extern_await_suspend_def ViaAsync_await_def

text \<open>
  \<open>await_resume\<close> and the destructor of the awaiter. \<open>AwaitResume\<close> destroys the awaited coroutine itself
  after a value, and leaves it to the destructor after an exception.
\<close>

definition AwaitResume :: "nat \<Rightarrow> ('a cmachine, exn + 'a val) action" where
  "AwaitResume c =
     try_catch (bind (promise_of c LazyPromise_Result) (\<lambda>v. seq (destroy c) (ret (Inr v))))
       (\<lambda>e. seq (destroy c) (ret (Inl e)))"

definition AwaitResumeTry :: "nat \<Rightarrow> ('a cmachine, 'a val try_val) action" where
  "AwaitResumeTry c = bind (promise_of c LazyPromise_TryResult) (\<lambda>t. seq (destroy c) (ret t))"

primrec finish_await :: "'a awaiter \<Rightarrow> ('a cmachine, exn + 'a val) action" where
  "finish_await (AwLazy c) = AwaitResume c"
| "finish_await (AwReschedule c) = AwaitResume c"
| "finish_await AwUnit = ret (Inr VUnit)"
| "finish_await (AwExtern r) = ret r"
| "finish_await (AwVia v aw) = bind (finish_await aw) (\<lambda>r. seq (destroy v) (ret r))"

section \<open>Running\<close>

text \<open>\<open>FinalAwaiter\<close>: symmetric transfer to the continuation; a null handle cannot be resumed.\<close>

definition final_suspend :: "nat \<Rightarrow> ('a cmachine, nat option) action" where
  "final_suspend h =
     seq (set_point h AtFinal)
       (bind (promise_of h (gets lp_continuation)) (\<lambda>c.
          case c of None \<Rightarrow> undef | Some x \<Rightarrow> ret (Some x)))"

text \<open>A body runs until it suspends; the result is the handle the thread transfers to.\<close>

primrec exec_body :: "'a body \<Rightarrow> coro_env \<Rightarrow> nat \<Rightarrow> ('a cmachine, nat option) action" where
  "exec_body (CoReturn v) env h = seq (promise_of h (LazyPromise_return_value v)) (final_suspend h)"
| "exec_body (CoThrow e) env h = seq (promise_of h (LazyPromise_unhandled_exception e)) (final_suspend h)"
| "exec_body CoAbort env h = abort"
| "exec_body (CoAwait a k) env h =
     bind (begin_await env a k h) (\<lambda>x.
       case x of Inl r \<Rightarrow> exec_body (k r) env h | Inr t \<Rightarrow> ret t)"

definition run_callback :: "callback \<Rightarrow> 'a val try_val \<Rightarrow> ('a cmachine, unit) action" where
  "run_callback cb t =
     (case cb of
        StoreResult v \<Rightarrow> modify (\<lambda>s. s\<lparr>cb_results := cb_results s @ [(v, t)]\<rparr>)
      | RethrowResult \<Rightarrow>
          (case t of Exception (Some e) \<Rightarrow> throw e | Exception None \<Rightarrow> undef | _ \<Rightarrow> ret ()))"

text \<open>
  The rest of \<open>launch_coro\<close>, after its \<open>co_await\<close>. An exception of the callback leaves the coroutine
  through \<open>unhandled_exception\<close>, which rethrows; in a worker thread that ends the process.
\<close>

definition Detached_finish :: "nat \<Rightarrow> nat \<Rightarrow> callback \<Rightarrow> ('a cmachine, nat option) action" where
  "Detached_finish d c cb =
     bind (AwaitResumeTry c) (\<lambda>t.
       seq (try_catch (run_callback cb t)
              (\<lambda>e. bind (gets running) (\<lambda>th. if th = None then throw e else abort)))
         (seq (set_frame d None) (ret None)))"

definition resume :: "coro_env \<Rightarrow> nat \<Rightarrow> ('a cmachine, nat option) action" where
  "resume env h =
     bind (frame_at h) (\<lambda>f.
       case f of
         LazyFrame pt p \<Rightarrow>
           (case pt of
              AtStart b \<Rightarrow> exec_body b env h
            | AtAwait aw k \<Rightarrow> bind (finish_await aw) (\<lambda>r. exec_body (k r) env h)
            | AtFinal \<Rightarrow> undef)
       | ViaFrame final p \<Rightarrow> if final then undef else Via_final env h p
       | DetachedFrame c cb \<Rightarrow> Detached_finish h c cb)"

end
