(* ===== verification/Inevitable.thy ===== *)
theory Inevitable
  imports Main
begin

text \<open>
  A program that many threads run cannot choose its next step: what it guarantees is what happens whichever step is
  taken. \<open>inevitably step P x\<close>: every run from \<open>x\<close> reaches a state in which \<open>P\<close> holds, without getting
  stuck before.
\<close>

inductive inevitably :: "('s \<Rightarrow> 's \<Rightarrow> bool) \<Rightarrow> ('s \<Rightarrow> bool) \<Rightarrow> 's \<Rightarrow> bool" for step P where
  inevitably_now: "P x \<Longrightarrow> inevitably step P x"
| inevitably_next: "\<exists>y. step x y \<Longrightarrow> (\<And>y. step x y \<Longrightarrow> inevitably step P y) \<Longrightarrow> inevitably step P x"

lemma inevitably_mono: "inevitably step P x \<Longrightarrow> (\<And>y. P y \<Longrightarrow> Q y) \<Longrightarrow> inevitably step Q x"
  by (induction rule: inevitably.induct) (auto intro: inevitably.intros)

text \<open>
  A system with an invariant that goes with a witness \<open>m\<close> of its progress, such as the parts that it is made of: a state
  that is not a goal has a step, and every step brings a smaller witness.
\<close>

locale ranked_system =
  fixes step :: "'s \<Rightarrow> 's \<Rightarrow> bool" and inv :: "'m \<Rightarrow> 's \<Rightarrow> bool" and goal :: "'s \<Rightarrow> bool" and less :: "(('m \<times> 's) \<times> ('m \<times> 's)) set"
  assumes wf_less: "wf less"
    and progress: "inv m x \<Longrightarrow> \<not> goal x \<Longrightarrow> \<exists>y. step x y"
    and ranked: "inv m x \<Longrightarrow> step x y \<Longrightarrow> \<exists>n. inv n y \<and> ((n, y), (m, x)) \<in> less"
begin

lemma ends: "inv m x \<Longrightarrow> inevitably step goal x"
proof (induction "(m, x)" arbitrary: m x rule: wf_induct_rule [OF wf_less])
  case 1
  show ?case
  proof (cases "goal x")
    case False
    show ?thesis
    proof (rule inevitably_next)
      show "\<exists>y. step x y" by (rule progress [OF 1(2) False])
      fix y assume "step x y"
      from ranked [OF 1(2) this] 1(1) show "inevitably step goal y" by blast
    qed
  qed (rule inevitably_now)
qed

end

end
