(* ===== verification/Lazy_Model.thy ===== *)
theory Lazy_Model
  imports Coroutine_Machine Inevitable
begin

text \<open>
  The class \<open>Lazy\<close> and \<open>RescheduleLazy\<close> of \<^verbatim>\<open>coro/lazy.hpp\<close>, \<open>Start\<close>, \<open>Detach\<close> and \<open>SyncAwait\<close>, the
  step relation of the machine, and the direct-style meaning of a body. A \<open>Lazy\<close> object is the handle
  it owns.
\<close>

section \<open>Lazy objects\<close>

type_synonym lazy = "nat option"

definition Lazy_dtor :: "lazy \<Rightarrow> ('a cmachine, unit) action" where
  "Lazy_dtor z = (case z of None \<Rightarrow> ret () | Some c \<Rightarrow> destroy c)"

definition Lazy_move_ctor :: "lazy \<Rightarrow> lazy \<times> lazy" where
  "Lazy_move_ctor other = (other, None)"

text \<open>
  The awaiters own the handle in the same way; making one takes the handle out of the \<open>Lazy\<close>. The result is
  the new owner and what is left. Move assignment forgets the handle that the target owned.
\<close>

definition Lazy_CoAwaitTry :: "lazy \<Rightarrow> lazy \<times> lazy" where
  "Lazy_CoAwaitTry z = (z, None)"

definition LazyAwaiter_move_ctor :: "lazy \<Rightarrow> lazy \<times> lazy" where
  "LazyAwaiter_move_ctor other = (other, None)"

definition LazyAwaiter_move_assign :: "lazy \<Rightarrow> lazy \<Rightarrow> lazy \<times> lazy" where
  "LazyAwaiter_move_assign this other = (other, None)"

definition LazyAwaiter_dtor :: "lazy \<Rightarrow> ('a cmachine, unit) action" where
  "LazyAwaiter_dtor z = (case z of None \<Rightarrow> ret () | Some c \<Rightarrow> destroy c)"

definition Lazy_set_executor :: "string \<Rightarrow> nat option \<Rightarrow> lazy \<Rightarrow> ('a cmachine, lazy) action" where
  "Lazy_set_executor msg ex z =
     seq (LOGIC_ASSERT (z \<noteq> None) msg)
       (case z of None \<Rightarrow> undef | Some c \<Rightarrow> seq (promise_of c (lp_set_executor ex)) (ret (Some c)))"

definition Lazy_Via :: "nat option \<Rightarrow> lazy \<Rightarrow> ('a cmachine, lazy) action" where
  "Lazy_Via = Lazy_set_executor ''Lazy do not have a coroutine_handle''"

definition Lazy_SetExecutor :: "nat option \<Rightarrow> lazy \<Rightarrow> ('a cmachine, lazy) action" where
  "Lazy_SetExecutor = Lazy_set_executor ''Lazy do not have a coroutine''"

definition Lazy_IsReady :: "lazy \<Rightarrow> ('a cmachine, bool) action" where
  "Lazy_IsReady z =
     (case z of
        None \<Rightarrow> ret True
      | Some c \<Rightarrow>
          bind (frame_at c) (\<lambda>f. case f of LazyFrame pt p \<Rightarrow> ret (case pt of AtFinal \<Rightarrow> True | _ \<Rightarrow> False) | _ \<Rightarrow> undef))"

text \<open>
  \<open>Start\<close>: a \<open>DetachedCoroutine\<close> that does not suspend at its start awaits the \<open>TryAwaiter\<close>. The result
  is the handle that the calling thread runs next.
\<close>

definition Lazy_Start :: "callback \<Rightarrow> lazy \<Rightarrow> ('a cmachine, nat option) action" where
  "Lazy_Start cb z =
     (case z of
        None \<Rightarrow> undef
      | Some c \<Rightarrow> bind (new_frame (DetachedFrame c cb)) (\<lambda>d. Lazy_await_suspend c d))"

definition Reschedule_Start :: "coro_env \<Rightarrow> callback \<Rightarrow> lazy \<Rightarrow> ('a cmachine, nat option) action" where
  "Reschedule_Start env cb z =
     (case z of
        None \<Rightarrow> undef
      | Some c \<Rightarrow> bind (new_frame (DetachedFrame c cb)) (\<lambda>d. Reschedule_await_suspend env c d))"

definition Reschedule_Detach :: "coro_env \<Rightarrow> lazy \<Rightarrow> ('a cmachine, nat option) action" where
  "Reschedule_Detach env = Reschedule_Start env RethrowResult"

text \<open>
  The part of \<open>SyncAwait\<close> before the semaphore; afterwards it gives what the callback stored in its local
  \<open>value\<close>, whose place is \<open>v\<close>.
\<close>

definition SyncAwait_begin ::
  "nat \<Rightarrow> (callback \<Rightarrow> lazy \<Rightarrow> ('a cmachine, nat option) action) \<Rightarrow> lazy \<Rightarrow> ('a cmachine, nat option) action" where
  "SyncAwait_begin v start z =
     seq (LOGIC_ASSERT (z \<noteq> None) ''Lazy do not have a coroutine handle'')
       (case z of
          None \<Rightarrow> undef
        | Some c \<Rightarrow>
            bind (executor_of c) (\<lambda>ex.
              case ex of
                None \<Rightarrow> start (StoreResult v) z
              | Some e \<Rightarrow>
                  bind (in_executor e) (\<lambda>inside.
                    seq (LOGIC_ASSERT (\<not> inside) ''do not sync await in the same executor with Lazy'')
                      (start (StoreResult v) z))))"

definition SyncAwait_end :: "nat \<Rightarrow> ('a cmachine, 'a val) action" where
  "SyncAwait_end v s =
     (case filter (\<lambda>x. fst x = v) (cb_results s) of [x] \<Rightarrow> (try_value (snd x), s) | _ \<Rightarrow> (Undefined, s))"

section \<open>Steps\<close>

datatype control = Going nat | Idle | Stopped "unit outcome"

type_synonym 'a config = "control \<times> 'a cmachine"

definition after :: "nat option outcome \<times> 'a cmachine \<Rightarrow> 'a config" where
  "after x =
     (case x of
        (Return (Some h), s) \<Rightarrow> (Going h, s)
      | (Return None, s) \<Rightarrow> (Idle, s)
      | (Throw e, s) \<Rightarrow> (Stopped (Throw e), s)
      | (Abort, s) \<Rightarrow> (Stopped Abort, s)
      | (Undefined, s) \<Rightarrow> (Stopped Undefined, s))"

text \<open>
  Something runs until it suspends; then any worker takes a task it may take, a sleeper wakes up and
  schedules, or an event arrives on some thread.
\<close>

definition thread_in :: "coro_env \<Rightarrow> nat option \<Rightarrow> cthread \<Rightarrow> bool" where
  "thread_in env loc th =
     (case loc of
        None \<Rightarrow> th = None
      | Some e \<Rightarrow> (case th of None \<Rightarrow> False | Some (e', w) \<Rightarrow> e' = e \<and> w < num_workers env e))"

inductive cstep :: "coro_env \<Rightarrow> 'a config \<Rightarrow> 'a config \<Rightarrow> bool" for env where
  run: "cstep env (Going h, s) (after (resume env h s))"
| take: "(e, target, j) \<in># tasks s \<Longrightarrow> w < num_workers env e \<Longrightarrow> (\<forall>i. target = Some i \<longrightarrow> w = i) \<Longrightarrow>
    cstep env (Idle, s)
      (after (bind (start_job j) (\<lambda>h. ret (Some h)) (s\<lparr>tasks := tasks s - {#(e, target, j)#}, running := Some (e, w)\<rparr>)))"
| wake: "(e, h) \<in># timers s \<Longrightarrow>
    cstep env (Idle, s) (after (seq (schedule env e h) (ret None) (s\<lparr>timers := timers s - {#(e, h)#}, running := None\<rparr>)))"
| arrive: "(loc, h) \<in># arrivals s \<Longrightarrow> thread_in env loc th \<Longrightarrow>
    cstep env (Idle, s) (Going h, s\<lparr>arrivals := arrivals s - {#(loc, h)#}, running := th\<rparr>)"

inductive_simps step_going: "cstep env (Going h, s) y"

text \<open>Every run, whatever the scheduler does, gets to a configuration with \<open>P\<close>.\<close>

abbreviation must :: "coro_env \<Rightarrow> ('a config \<Rightarrow> bool) \<Rightarrow> 'a config \<Rightarrow> bool" where
  "must env \<equiv> inevitably (cstep env)"

lemma must_trans: "must env P x \<Longrightarrow> (\<And>y. P y \<Longrightarrow> must env Q y) \<Longrightarrow> must env Q x"
  by (induction rule: inevitably.induct) (auto intro: inevitably.intros)

lemma must_going: "must env P (after (resume env h s)) \<Longrightarrow> must env P (Going h, s)"
  by (rule inevitably_next) (auto simp: step_going intro: exI)

section \<open>The meaning of a body\<close>

text \<open>
  Direct style: awaiting a \<open>Lazy\<close> is calling it. \<open>ex\<close> is the executor of the coroutine, \<open>loc\<close> the
  executor whose worker is running it. A wrapped await comes back to the worker it left; with an
  executor that is not the one of the thread, the way back stops the process.
\<close>

definition home ::
  "nat option \<Rightarrow> nat option \<Rightarrow> 'v outcome \<times> nat option \<Rightarrow> 'v outcome \<times> nat option" where
  "home ex loc x =
     (case ex of
        None \<Rightarrow> x
      | Some e \<Rightarrow>
          (case fst x of
             Abort \<Rightarrow> x
           | Undefined \<Rightarrow> x
           | r \<Rightarrow> if loc = Some e then (r, loc) else (Abort, loc)))"

primrec sem :: "'a body \<Rightarrow> nat option \<Rightarrow> nat option \<Rightarrow> 'a val outcome \<times> nat option"
  and sem_await :: "'a awaitable \<Rightarrow> nat option \<Rightarrow> nat option \<Rightarrow> 'a val outcome \<times> nat option" where
  "sem (CoReturn v) ex loc = (Return v, loc)"
| "sem (CoThrow e) ex loc = (Throw e, loc)"
| "sem CoAbort ex loc = (Abort, loc)"
| "sem (CoAwait a k) ex loc =
     (case sem_await a ex loc of
        (Return v, l) \<Rightarrow> sem (k (Inr v)) ex l
      | (Throw e, l) \<Rightarrow> sem (k (Inl e)) ex l
      | (Abort, l) \<Rightarrow> (Abort, l)
      | (Undefined, l) \<Rightarrow> (Undefined, l))"
| "sem_await (ALazy b) ex loc = sem b ex loc"
| "sem_await (AReschedule e b) ex loc =
     (case e of None \<Rightarrow> (Undefined, loc) | Some x \<Rightarrow> home ex loc (sem b (Some x) (Some x)))"
| "sem_await ACurrentExecutor ex loc = (Return (VExecutor ex), loc)"
| "sem_await AYield ex loc = (case ex of None \<Rightarrow> (Undefined, loc) | Some e \<Rightarrow> (Return VUnit, Some e))"
| "sem_await (ASchedule e) ex loc = (Return VUnit, Some e)"
| "sem_await (AScheduleAfter e) ex loc = (Return VUnit, Some e)"
| "sem_await (AExtern via arr r) ex loc =
     (case arr of
        Ready \<Rightarrow> (outcome_of r, loc)
      | Declines \<Rightarrow> if via then home ex loc (outcome_of r, loc) else (outcome_of r, loc)
      | Arrives th \<Rightarrow> if via then home ex loc (outcome_of r, th) else (outcome_of r, th))"

end
