(* ===== verification/Lazy_Types.thy ===== *)
theory Lazy_Types
  imports Lazy_Model
begin

text \<open>
  The type invariant of the coroutine machine: in every live frame of a \<open>Lazy\<close> the tag of the promise
  names the union member that is alive. It is what makes reading a result and destroying a promise
  well defined, and every step of the machine keeps it.
\<close>

section \<open>Tags and storage\<close>

fun promise_ok :: "'v lazy_promise \<Rightarrow> bool" where
  "promise_ok p \<longleftrightarrow>
     (case lp_result_type p of
        kEmpty \<Rightarrow> lp_storage p = Inactive
      | kHasValue \<Rightarrow> (case lp_storage p of ValueMember v \<Rightarrow> True | _ \<Rightarrow> False)
      | kHasException \<Rightarrow> (case lp_storage p of ExceptionMember e \<Rightarrow> e \<noteq> None | _ \<Rightarrow> False))"

fun frame_ok :: "'a frame option \<Rightarrow> bool" where
  "frame_ok (Some (LazyFrame pt p)) \<longleftrightarrow> promise_ok p"
| "frame_ok _ \<longleftrightarrow> True"

definition well_tagged :: "'a cmachine \<Rightarrow> bool" where
  "well_tagged s \<longleftrightarrow> list_all frame_ok (frames s)"

text \<open>Well-tagged promises have a well-defined destructor and well-defined results.\<close>

lemma promise_ok_dtor: "promise_ok p \<Longrightarrow> fst (LazyPromise_dtor p) = Return ()"
  by (cases "lp_result_type p"; cases "lp_storage p") (simp_all add: LazyPromise_dtor_def)

lemma promise_ok_result:
  "promise_ok p \<Longrightarrow> lp_result_type p \<noteq> kEmpty \<Longrightarrow> fst (LazyPromise_Result p) \<noteq> Undefined \<and> fst (LazyPromise_Result p) \<noteq> Abort"
  by (cases "lp_result_type p"; cases "lp_storage p")
    (auto simp: LazyPromise_Result_def lp_read_value_def lp_read_exception_def outcome_simps)

lemma promise_ok_kept:
  "promise_ok LazyPromise_ctor"
  "promise_ok (snd (LazyPromise_return_value v p))"
  "promise_ok (snd (LazyPromise_unhandled_exception e p))"
  "promise_ok p \<Longrightarrow> promise_ok (snd (LazyPromise_Result p))"
  "promise_ok p \<Longrightarrow> promise_ok (snd (LazyPromise_TryResult p))"
  "promise_ok p \<Longrightarrow> promise_ok (snd (lp_set_executor ex p))"
  "promise_ok p \<Longrightarrow> promise_ok (snd (lp_set_continuation c p))"
  "promise_ok p \<Longrightarrow> promise_ok (snd (gets f p))"
proof -
  show "promise_ok p \<Longrightarrow> promise_ok (snd (LazyPromise_Result p))" "promise_ok p \<Longrightarrow> promise_ok (snd (LazyPromise_TryResult p))"
    by (cases "lp_result_type p"; cases "lp_storage p"; auto simp: LazyPromise_Result_def LazyPromise_TryResult_def
        lp_read_value_def lp_read_exception_def outcome_simps split: option.splits)+
  show "promise_ok p \<Longrightarrow> promise_ok (snd (lp_set_executor ex p))" "promise_ok p \<Longrightarrow> promise_ok (snd (lp_set_continuation c p))"
    by (cases "lp_result_type p"; simp add: lp_set_executor_def lp_set_continuation_def outcome_simps)+
qed (simp_all add: LazyPromise_ctor_def LazyPromise_return_value_def LazyPromise_unhandled_exception_def outcome_simps)

declare promise_ok.simps [simp del]

section \<open>Actions that keep the tags\<close>

definition keeps_tags :: "('a cmachine, 'b) action \<Rightarrow> bool" where
  "keeps_tags m \<longleftrightarrow> (\<forall>s. well_tagged s \<longrightarrow> well_tagged (snd (m s)))"

named_theorems keeps \<open>actions that keep the tags of all promises\<close>

lemma keepsI: "(\<And>s. well_tagged s \<Longrightarrow> well_tagged (snd (m s))) \<Longrightarrow> keeps_tags m"
  by (simp add: keeps_tags_def)

lemma keepsD: "keeps_tags m \<Longrightarrow> well_tagged s \<Longrightarrow> well_tagged (snd (m s))"
  by (simp add: keeps_tags_def)

lemma keeps_basic [keeps]:
  "keeps_tags (ret x)" "keeps_tags (throw e)" "keeps_tags abort" "keeps_tags undef" "keeps_tags (gets f)"
  by (auto intro: keepsI simp: run_method)

lemma keeps_bind [keeps]:
  assumes "keeps_tags m" and "\<And>x. keeps_tags (k x)"
  shows "keeps_tags (bind m k)"
proof (rule keepsI)
  fix s :: "'a cmachine" assume "well_tagged s"
  then have "well_tagged (snd (m s))" by (rule keepsD [OF assms(1)])
  with keepsD [OF assms(2)] show "well_tagged (snd (bind m k s))"
    by (cases "m s"; cases "fst (m s)") (simp_all add: run_bind)
qed

lemma keeps_seq [keeps]: "keeps_tags m \<Longrightarrow> keeps_tags n \<Longrightarrow> keeps_tags (seq m n)"
  unfolding seq_def by (rule keeps_bind)

lemma keeps_try_catch [keeps]:
  assumes "keeps_tags m" and "\<And>e. keeps_tags (h e)"
  shows "keeps_tags (try_catch m h)"
proof (rule keepsI)
  fix s :: "'a cmachine" assume "well_tagged s"
  then have "well_tagged (snd (m s))" by (rule keepsD [OF assms(1)])
  with keepsD [OF assms(2)] show "well_tagged (snd (try_catch m h s))"
    by (cases "m s"; cases "fst (m s)") (simp_all add: run_try_catch)
qed

lemma keeps_modify [keeps]: "(\<And>s. frames (f s) = frames s) \<Longrightarrow> keeps_tags (modify f)"
  by (rule keepsI) (simp add: run_method well_tagged_def)

lemma well_tagged_update: "well_tagged s \<Longrightarrow> frame_ok f \<Longrightarrow> well_tagged (s\<lparr>frames := (frames s)[h := f]\<rparr>)"
  by (auto simp: well_tagged_def list_all_iff dest!: subsetD [OF set_update_subset_insert])

lemma keeps_set_frame [keeps]: "frame_ok f \<Longrightarrow> keeps_tags (set_frame h f)"
  by (rule keepsI) (simp add: set_frame_def run_method well_tagged_update)

lemma keeps_new_frame [keeps]: "frame_ok (Some f) \<Longrightarrow> keeps_tags (new_frame f)"
  by (rule keepsI) (simp add: new_frame_def well_tagged_def)

lemma keeps_frame_at [keeps]: "keeps_tags (frame_at h)"
  by (rule keepsI) (auto simp: frame_at_def split: option.splits)

text \<open>Operations on the frame that was read: the frame is known to be well tagged.\<close>

lemma keeps_with_frame:
  assumes "\<And>f. frame_ok (Some f) \<Longrightarrow> keeps_tags (k f)"
  shows "keeps_tags (bind (frame_at h) k)"
proof (rule keepsI)
  fix s :: "'a cmachine" assume s: "well_tagged s"
  show "well_tagged (snd (bind (frame_at h) k s))"
  proof (cases "h < length (frames s) \<and> frames s ! h \<noteq> None")
    case True
    then obtain f where f: "h < length (frames s)" "frames s ! h = Some f" by blast
    then have "frame_ok (Some f)" using s by (auto simp: well_tagged_def list_all_length)
    from keepsD [OF assms [OF this] s] f show ?thesis by (simp add: frame_at_def run_bind)
  next
    case False
    with s show ?thesis by (auto simp: frame_at_def run_bind split: option.splits)
  qed
qed

lemma keeps_promise_of [keeps]:
  assumes "\<And>p. promise_ok p \<Longrightarrow> promise_ok (snd (m p))"
  shows "keeps_tags (promise_of h m)"
  unfolding promise_of_def
proof (rule keeps_with_frame)
  fix f :: "'a frame" assume f: "frame_ok (Some f)"
  have "keeps_tags (\<lambda>s. (r, s))" for r :: "'b outcome" by (rule keepsI) simp
  with f assms show "keeps_tags (case f of
      LazyFrame pt p \<Rightarrow> (case m p of (r, p') \<Rightarrow> seq (set_frame h (Some (LazyFrame pt p'))) (\<lambda>s. (r, s)))
    | _ \<Rightarrow> undef)"
    by (auto intro!: keeps split: frame.split prod.split) (metis snd_conv)
qed

lemma keeps_set_point [keeps]: "keeps_tags (set_point h pt)"
  unfolding set_point_def by (rule keeps_with_frame) (auto intro!: keeps split: frame.split)

text \<open>Between the destructor of the promise and the end of the frame the tag is stale; nobody sees it.\<close>

lemma keeps_destroy [keeps]: "keeps_tags (destroy h)"
proof (rule keepsI)
  fix s :: "'a cmachine" assume s: "well_tagged s"
  show "well_tagged (snd (destroy h s))"
  proof (cases "h < length (frames s) \<and> frames s ! h \<noteq> None")
    case True
    then obtain f where f: "h < length (frames s)" "frames s ! h = Some f" by blast
    have "destroy h s = (Return (), s\<lparr>frames := (frames s)[h := None]\<rparr>)"
    proof (cases f)
      case (LazyFrame pt p)
      with s f have "promise_ok p" by (auto simp: well_tagged_def list_all_length)
      then obtain q where "LazyPromise_dtor p = (Return (), q)" using promise_ok_dtor by (metis prod.collapse)
      with f LazyFrame show ?thesis by (simp add: destroy_def frame_at_def promise_of_def set_frame_def outcome_simps)
    qed (use f in \<open>simp_all add: destroy_def frame_at_def set_frame_def outcome_simps\<close>)
    with well_tagged_update [OF s, of None h] show ?thesis by simp
  next
    case False
    with s show ?thesis by (auto simp: destroy_def frame_at_def outcome_simps split: option.splits)
  qed
qed

section \<open>Operations\<close>

lemma keeps_new_lazy [keeps]: "keeps_tags (new_lazy b)"
  unfolding new_lazy_def by (intro keeps) (simp add: promise_ok_kept)

lemma keeps_executor_code [keeps]:
  "keeps_tags (in_executor e)" "keeps_tags (schedule env e h)" "keeps_tags (schedule_after e h)"
  "keeps_tags (checkout e)" "keeps_tags (checkin env e ctx j)"
  unfolding in_executor_def schedule_def schedule_after_def checkout_def checkin_def Let_def
  by (auto intro!: keeps split: option.split)

lemma keeps_via [keeps]:
  "keeps_tags (Via_Create ex)" "keeps_tags (via_promise_of v)" "keeps_tags (Via_GetWrappedContinuation v h)"
  "keeps_tags (Via_Checkin env v)" "keeps_tags (continuation_of v)" "keeps_tags (Via_final env v p)"
  "keeps_tags (start_job j)"
proof -
  show via [keeps]: "keeps_tags (via_promise_of v)" for v
    unfolding via_promise_of_def by (auto intro!: keeps split: frame.split)
  show cont [keeps]: "keeps_tags (continuation_of v)" for v
    unfolding continuation_of_def by (auto intro!: keeps split: option.split)
  show "keeps_tags (Via_Create ex)" "keeps_tags (Via_GetWrappedContinuation v h)"
    "keeps_tags (Via_Checkin env v)" "keeps_tags (Via_final env v p)" "keeps_tags (start_job j)"
    unfolding Via_Create_def Via_GetWrappedContinuation_def Via_Checkin_def Via_final_def start_job_def
    by (auto intro!: keeps split: option.split job.split)
qed

lemma keeps_suspending [keeps]:
  "keeps_tags (executor_of h)" "keeps_tags (suspend h aw k)" "keeps_tags (Lazy_await_suspend c h)"
  "keeps_tags (Reschedule_await_suspend env c h)"
  unfolding executor_of_def suspend_def Lazy_await_suspend_def Reschedule_await_suspend_def
  by (auto intro!: keeps simp: promise_ok_kept split: option.split)

lemma keeps_begin_await [keeps]: "keeps_tags (begin_await env a k h)"
  unfolding begin_await_defs
  by (auto intro!: keeps simp: promise_ok_kept split: awaitable.split arrival.split bool.split option.split)

lemma keeps_await_resume [keeps]: "keeps_tags (AwaitResume c)" "keeps_tags (AwaitResumeTry c)"
  unfolding AwaitResume_def AwaitResumeTry_def by (auto intro!: keeps simp: promise_ok_kept)

lemma keeps_finish_await [keeps]: "keeps_tags (finish_await aw)"
  by (induction aw) (auto intro!: keeps)

lemma keeps_final_suspend [keeps]: "keeps_tags (final_suspend h)"
  unfolding final_suspend_def by (auto intro!: keeps simp: promise_ok_kept split: option.split)

lemma keeps_exec_body [keeps]: "keeps_tags (exec_body b env h)"
  by (rule body.induct [where ?P1.0 = "\<lambda>b. keeps_tags (exec_body b env h)" and ?P2.0 = "\<lambda>_. True"])
    (auto intro!: keeps simp: promise_ok_kept split: sum.split)

lemma keeps_callback [keeps]: "keeps_tags (run_callback cb t)"
  unfolding run_callback_def by (auto intro!: keeps split: callback.split try_val.split option.split)

lemma keeps_resume [keeps]: "keeps_tags (resume env h)"
  unfolding resume_def Detached_finish_def by (auto intro!: keeps split: frame.split point.split)

lemma keeps_starting [keeps]:
  "keeps_tags (Lazy_set_executor msg ex z)" "keeps_tags (Lazy_Start cb z)" "keeps_tags (Reschedule_Start env cb z)"
  unfolding Lazy_set_executor_def Lazy_Start_def Reschedule_Start_def LOGIC_ASSERT_def
  by (auto intro!: keeps simp: promise_ok_kept split: option.split)

section \<open>Every step\<close>

lemma after_state: "snd (after x) = snd x"
  by (cases x; cases "fst x") (auto simp: after_def split: option.split)

lemma step_keeps_tags: "cstep env x y \<Longrightarrow> well_tagged (snd x) \<Longrightarrow> well_tagged (snd y)"
proof (induction rule: cstep.induct)
  case (take e target j s w)
  have "keeps_tags (bind (start_job j) (\<lambda>h. ret (Some h)))" by (intro keeps)
  from keepsD [OF this, of "s\<lparr>tasks := tasks s - {#(e, target, j)#}, running := Some (e, w)\<rparr>"] take show ?case by (simp add: after_state well_tagged_def)
next
  case (wake e h s)
  have "keeps_tags (seq (schedule env e h) (ret None))" by (intro keeps)
  from keepsD [OF this, of "s\<lparr>timers := timers s - {#(e, h)#}, running := None\<rparr>"] wake show ?case by (simp add: after_state well_tagged_def)
next
  case (run h s)
  then show ?case using keepsD [OF keeps_resume] by (simp add: after_state)
qed (simp_all add: well_tagged_def)

lemma steps_keep_tags: "(cstep env)\<^sup>*\<^sup>* x y \<Longrightarrow> well_tagged (snd x) \<Longrightarrow> well_tagged (snd y)"
  by (induction rule: rtranclp_induct) (auto intro: step_keeps_tags)

text \<open>
  Claim C28. The type invariant of the coroutine promises. Whatever bodies run, whatever they await and whatever the
  workers, timers and events do, in every live coroutine frame the tag of the promise names the union
  member that is alive, so that destroying the frame at any moment destroys that member and nothing else.
\<close>

theorem promise_tags_name_live_member:
  assumes "(cstep env)\<^sup>*\<^sup>* x y" and "well_tagged (snd x)"
  shows "well_tagged (snd y) \<and>
    list_all (\<lambda>f. case f of Some (LazyFrame pt p) \<Rightarrow> fst (LazyPromise_dtor p) = Return () | _ \<Rightarrow> True) (frames (snd y))"
proof -
  have "well_tagged (snd y)" using assms by (rule steps_keep_tags)
  moreover from this have "list_all (\<lambda>f. case f of Some (LazyFrame pt p) \<Rightarrow> fst (LazyPromise_dtor p) = Return () | _ \<Rightarrow> True)
      (frames (snd y))"
    unfolding well_tagged_def
    by (rule list.pred_mono_strong) (auto split: option.split frame.split dest: promise_ok_dtor)
  ultimately show ?thesis ..
qed

text \<open>A coroutine that throws, run on the thread that started it.\<close>

definition thrower :: "nat cmachine" where
  "thrower = \<lparr>frames = [Some (LazyFrame (AtStart (CoThrow BadFunctionCall)) (LazyPromise_ctor\<lparr>lp_continuation := Some 1\<rparr>)),
     Some (DetachedFrame 0 (StoreResult 0))], running = None, tasks = {#}, timers = {#}, arrivals = {#}, cb_results = []\<rparr>"

lemma promise_tags_name_live_member_witness:
  "well_tagged (snd (after (resume \<lparr>num_workers = (\<lambda>_. 1), accepting = (\<lambda>_. True)\<rparr> 0 thrower)))"
proof -
  let ?env = "\<lparr>num_workers = (\<lambda>_. 1), accepting = (\<lambda>_. True)\<rparr> :: coro_env"
  have "(cstep ?env)\<^sup>*\<^sup>* (Going 0, thrower) (after (resume ?env 0 thrower))"
    by (intro r_into_rtranclp cstep.run)
  moreover have "well_tagged (snd (Going 0, thrower))"
    by (simp add: well_tagged_def thrower_def promise_ok.simps LazyPromise_ctor_def)
  ultimately show ?thesis using promise_tags_name_live_member by blast
qed

end
