(* ===== verification/Lazy_Handles.thy ===== *)
theory Lazy_Handles
  imports Lazy_Types
begin

text \<open>
  Who destroys a coroutine frame. \<open>Lazy\<close>, \<open>RescheduleLazy\<close> and the awaiters of \<^verbatim>\<open>coro/lazy.hpp\<close> are objects
  that hold a coroutine handle or null; their constructors, assignments and methods pass the handle
  on, and some of their destructors destroy the frame. Here a program is any sequence of these operations,
  and the frames that are alive are compared with the handles that are held.
\<close>

section \<open>The objects\<close>

datatype holder_class = LazyObject | RescheduleObject | AwaiterObject

definition LazyAwaiterBase_ctor :: "nat option \<Rightarrow> lazy" where
  "LazyAwaiterBase_ctor coro = coro"

text \<open>\<open>AwaiterBase\<close>, \<open>TryAwaiter\<close> and \<open>ValueAwaiter\<close> of the two classes only pass the handle to the base.\<close>

definition ValueAwaiter_ctor :: "nat option \<Rightarrow> lazy" where
  "ValueAwaiter_ctor coro = LazyAwaiterBase_ctor coro"

definition TryAwaiter_ctor :: "nat option \<Rightarrow> lazy" where
  "TryAwaiter_ctor coro = LazyAwaiterBase_ctor coro"

definition Reschedule_ValueAwaiter_ctor :: "nat option \<Rightarrow> lazy" where
  "Reschedule_ValueAwaiter_ctor coro = LazyAwaiterBase_ctor coro"

definition Reschedule_TryAwaiter_ctor :: "nat option \<Rightarrow> lazy" where
  "Reschedule_TryAwaiter_ctor coro = LazyAwaiterBase_ctor coro"

text \<open>The new object and what is left in the old one.\<close>

definition Lazy_operator_co_await :: "lazy \<Rightarrow> lazy \<times> lazy" where
  "Lazy_operator_co_await z = (ValueAwaiter_ctor z, None)"

definition Lazy_CoAwait_object :: "nat option \<Rightarrow> lazy \<Rightarrow> ('a cmachine, lazy \<times> lazy) action" where
  "Lazy_CoAwait_object ex z =
     (case z of None \<Rightarrow> undef | Some c \<Rightarrow> seq (Lazy_CoAwait ex c) (ret (ValueAwaiter_ctor z, None)))"

definition RescheduleLazy_ctor :: "nat option \<Rightarrow> lazy" where
  "RescheduleLazy_ctor coro = coro"

definition Reschedule_move_ctor :: "lazy \<Rightarrow> lazy \<times> lazy" where
  "Reschedule_move_ctor other = (other, None)"

definition Reschedule_operator_co_await :: "lazy \<Rightarrow> lazy \<times> lazy" where
  "Reschedule_operator_co_await z = (Reschedule_ValueAwaiter_ctor z, None)"

definition Reschedule_CoAwaitTry :: "lazy \<Rightarrow> lazy \<times> lazy" where
  "Reschedule_CoAwaitTry z = (Reschedule_TryAwaiter_ctor z, None)"

text \<open>\<open>RescheduleLazy\<close> declares no destructor: the implicit one leaves the handle alone.\<close>

definition Reschedule_dtor :: "lazy \<Rightarrow> ('a cmachine, unit) action" where
  "Reschedule_dtor z = ret ()"

text \<open>
  \<open>AwaitResume\<close> on the object: after a value the frame is destroyed and the handle is null, an exception
  leaves both to the destructor of the awaiter.
\<close>

definition Awaiter_AwaitResume :: "lazy \<Rightarrow> ('a cmachine, 'a val \<times> lazy) action" where
  "Awaiter_AwaitResume z =
     (case z of None \<Rightarrow> undef
      | Some c \<Rightarrow> bind (promise_of c LazyPromise_Result) (\<lambda>v. seq (destroy c) (ret (v, None))))"

definition Awaiter_AwaitResumeTry :: "lazy \<Rightarrow> ('a cmachine, 'a val try_val \<times> lazy) action" where
  "Awaiter_AwaitResumeTry z =
     (case z of None \<Rightarrow> undef
      | Some c \<Rightarrow> bind (promise_of c LazyPromise_TryResult) (\<lambda>t. seq (destroy c) (ret (t, None))))"

text \<open>The awaiters of \<open>RescheduleLazy\<close> read in the same way.\<close>

definition Reschedule_Value_await_resume :: "lazy \<Rightarrow> ('a cmachine, 'a val \<times> lazy) action" where
  "Reschedule_Value_await_resume = Awaiter_AwaitResume"

definition Reschedule_Try_await_resume :: "lazy \<Rightarrow> ('a cmachine, 'a val try_val \<times> lazy) action" where
  "Reschedule_Try_await_resume = Awaiter_AwaitResumeTry"

section \<open>Programs\<close>

text \<open>
  The operations, on objects named by their position. \<open>BodyEnds\<close> stands for the coroutine that runs to its
  end with a result; a destroyed object stays as one that holds null.
\<close>

datatype 'a handle_op =
    CallCoroutine "'a body"
  | MoveConstruct nat
  | ViaOn nat "nat option"
  | SetExecutorOn nat "nat option"
  | CoAwaitOn nat "nat option"
  | OperatorCoAwaitOn nat
  | CoAwaitTryOn nat
  | BodyEnds nat "exn + 'a val"
  | AwaitResumeOn nat
  | AwaitResumeTryOn nat
  | MoveAssignTo nat nat
  | DestroyObject nat

record 'a holders =
  ho_machine :: "'a cmachine"
  ho_objects :: "(holder_class \<times> lazy) list"

definition on_machine :: "('a cmachine, 'b) action \<Rightarrow> ('a holders, 'b) action" where
  "on_machine m st = (case m (ho_machine st) of (r, s) \<Rightarrow> (r, st\<lparr>ho_machine := s\<rparr>))"

definition holder_at :: "nat \<Rightarrow> ('a holders, holder_class \<times> lazy) action" where
  "holder_at i st = (if i < length (ho_objects st) then (Return (ho_objects st ! i), st) else (Undefined, st))"

text \<open>The object at \<open>i\<close> gives its handle to a new object of class \<open>k\<close>; \<open>x\<close> is the new handle and what is left.\<close>

definition give_to_new :: "nat \<Rightarrow> holder_class \<Rightarrow> holder_class \<Rightarrow> lazy \<times> lazy \<Rightarrow> ('a holders, unit) action" where
  "give_to_new i old k x =
     modify (\<lambda>st. st\<lparr>ho_objects := (ho_objects st)[i := (old, snd x)] @ [(k, fst x)]\<rparr>)"

definition leave_in :: "nat \<Rightarrow> holder_class \<Rightarrow> lazy \<Rightarrow> ('a holders, unit) action" where
  "leave_in i old z = modify (\<lambda>st. st\<lparr>ho_objects := (ho_objects st)[i := (old, z)]\<rparr>)"

definition body_ends :: "exn + 'a val \<Rightarrow> nat \<Rightarrow> ('a cmachine, unit) action" where
  "body_ends r c =
     seq (promise_of c (case r of Inl e \<Rightarrow> LazyPromise_unhandled_exception e | Inr v \<Rightarrow> LazyPromise_return_value v))
       (set_point c AtFinal)"

fun run_handle_op :: "'a handle_op \<Rightarrow> ('a holders, unit) action" where
  "run_handle_op (CallCoroutine b) =
     bind (on_machine (new_lazy b)) (\<lambda>c. modify (\<lambda>st. st\<lparr>ho_objects := ho_objects st @ [(LazyObject, Some c)]\<rparr>))"
| "run_handle_op (MoveConstruct i) =
     bind (holder_at i) (\<lambda>(k, z).
       give_to_new i k k
         (case k of LazyObject \<Rightarrow> Lazy_move_ctor z | RescheduleObject \<Rightarrow> Reschedule_move_ctor z
          | AwaiterObject \<Rightarrow> LazyAwaiter_move_ctor z))"
| "run_handle_op (ViaOn i ex) =
     bind (holder_at i) (\<lambda>(k, z).
       bind (on_machine (Lazy_Via ex z)) (\<lambda>y. give_to_new i k RescheduleObject (RescheduleLazy_ctor y, None)))"
| "run_handle_op (SetExecutorOn i ex) =
     bind (holder_at i) (\<lambda>(k, z).
       bind (on_machine (Lazy_SetExecutor ex z)) (\<lambda>y. give_to_new i k LazyObject (y, None)))"
| "run_handle_op (CoAwaitOn i ex) =
     bind (holder_at i) (\<lambda>(k, z).
       bind (on_machine (Lazy_CoAwait_object ex z)) (\<lambda>x. give_to_new i k AwaiterObject x))"
| "run_handle_op (OperatorCoAwaitOn i) =
     bind (holder_at i) (\<lambda>(k, z).
       give_to_new i k AwaiterObject
         (if k = LazyObject then Lazy_operator_co_await z else Reschedule_operator_co_await z))"
| "run_handle_op (CoAwaitTryOn i) =
     bind (holder_at i) (\<lambda>(k, z).
       give_to_new i k AwaiterObject (if k = LazyObject then Lazy_CoAwaitTry z else Reschedule_CoAwaitTry z))"
| "run_handle_op (BodyEnds i r) =
     bind (holder_at i) (\<lambda>(k, z). case z of None \<Rightarrow> undef | Some c \<Rightarrow> on_machine (body_ends r c))"
| "run_handle_op (AwaitResumeOn i) =
     bind (holder_at i) (\<lambda>(k, z). bind (on_machine (Awaiter_AwaitResume z)) (\<lambda>x. leave_in i k (snd x)))"
| "run_handle_op (AwaitResumeTryOn i) =
     bind (holder_at i) (\<lambda>(k, z). bind (on_machine (Awaiter_AwaitResumeTry z)) (\<lambda>x. leave_in i k (snd x)))"
| "run_handle_op (MoveAssignTo i j) =
     bind (holder_at i) (\<lambda>(k, z). bind (holder_at j) (\<lambda>(k', z').
       (case LazyAwaiter_move_assign z z' of (y, y') \<Rightarrow> seq (leave_in j k' y') (leave_in i k y))))"
| "run_handle_op (DestroyObject i) =
     bind (holder_at i) (\<lambda>(k, z).
       seq (on_machine
              (case k of LazyObject \<Rightarrow> Lazy_dtor z | RescheduleObject \<Rightarrow> Reschedule_dtor z | AwaiterObject \<Rightarrow> LazyAwaiter_dtor z))
         (leave_in i k None))"

text \<open>
  What C++ asks of a program: the object exists, its class has the method, and where the method goes through
  the handle the handle is not null. \<open>Via\<close> and \<open>SetExecutor\<close> check that themselves.
\<close>

definition holder_is :: "(holder_class \<times> lazy) list \<Rightarrow> nat \<Rightarrow> holder_class set \<Rightarrow> bool" where
  "holder_is objs i ks \<longleftrightarrow> i < length objs \<and> fst (objs ! i) \<in> ks"

definition holds_some :: "(holder_class \<times> lazy) list \<Rightarrow> nat \<Rightarrow> holder_class set \<Rightarrow> bool" where
  "holds_some objs i ks \<longleftrightarrow> holder_is objs i ks \<and> snd (objs ! i) \<noteq> None"

fun allowed_op :: "'a handle_op \<Rightarrow> (holder_class \<times> lazy) list \<Rightarrow> bool" where
  "allowed_op (CallCoroutine b) objs \<longleftrightarrow> True"
| "allowed_op (MoveConstruct i) objs \<longleftrightarrow> i < length objs"
| "allowed_op (ViaOn i ex) objs \<longleftrightarrow> holder_is objs i {LazyObject}"
| "allowed_op (SetExecutorOn i ex) objs \<longleftrightarrow> holder_is objs i {LazyObject}"
| "allowed_op (CoAwaitOn i ex) objs \<longleftrightarrow> holds_some objs i {LazyObject}"
| "allowed_op (OperatorCoAwaitOn i) objs \<longleftrightarrow> holder_is objs i {LazyObject, RescheduleObject}"
| "allowed_op (CoAwaitTryOn i) objs \<longleftrightarrow> holder_is objs i {LazyObject, RescheduleObject}"
| "allowed_op (BodyEnds i r) objs \<longleftrightarrow> i < length objs \<and> snd (objs ! i) \<noteq> None"
| "allowed_op (AwaitResumeOn i) objs \<longleftrightarrow> holds_some objs i {AwaiterObject}"
| "allowed_op (AwaitResumeTryOn i) objs \<longleftrightarrow> holds_some objs i {AwaiterObject}"
| "allowed_op (MoveAssignTo i j) objs \<longleftrightarrow> holder_is objs i {AwaiterObject} \<and> holder_is objs j {AwaiterObject}"
| "allowed_op (DestroyObject i) objs \<longleftrightarrow> i < length objs"

text \<open>The handles that an operation forgets: move assignment to another awaiter, and dropping a \<open>RescheduleLazy\<close>.\<close>

definition handle_of :: "(holder_class \<times> lazy) list \<Rightarrow> nat \<Rightarrow> nat multiset" where
  "handle_of objs i = (case snd (objs ! i) of None \<Rightarrow> {#} | Some c \<Rightarrow> {#c#})"

fun forgets :: "'a handle_op \<Rightarrow> (holder_class \<times> lazy) list \<Rightarrow> nat multiset" where
  "forgets (MoveAssignTo i j) objs = (if i = j then {#} else handle_of objs i)"
| "forgets (DestroyObject i) objs = (if fst (objs ! i) = RescheduleObject then handle_of objs i else {#})"
| "forgets _ objs = {#}"

text \<open>Any program; an exception is caught by its caller. \<open>l\<close> collects the forgotten handles.\<close>

inductive runs_to :: "'a holders \<Rightarrow> nat multiset \<Rightarrow> bool" where
  empty_program: "frames (ho_machine st) = [] \<Longrightarrow> ho_objects st = [] \<Longrightarrow> runs_to st {#}"
| operation: "runs_to st l \<Longrightarrow> allowed_op x (ho_objects st) \<Longrightarrow> run_handle_op x st = (r, st') \<Longrightarrow>
    r \<noteq> Abort \<Longrightarrow> runs_to st' (l + forgets x (ho_objects st))"


section \<open>Counting\<close>

definition live_frames :: "'a cmachine \<Rightarrow> nat set" where
  "live_frames s = {h. h < length (frames s) \<and> frames s ! h \<noteq> None}"

definition one_handle :: "lazy \<Rightarrow> nat multiset" where
  "one_handle z = (case z of None \<Rightarrow> {#} | Some c \<Rightarrow> {#c#})"

definition held :: "(holder_class \<times> lazy) list \<Rightarrow> nat multiset" where
  "held objs = \<Sum>\<^sub># (image_mset (\<lambda>x. one_handle (snd x)) (mset objs))"

lemma one_handle_simps [simp]: "one_handle None = {#}" "one_handle (Some c) = {#c#}"
  by (simp_all add: one_handle_def)

lemma handle_of_one: "handle_of objs i = one_handle (snd (objs ! i))"
  by (simp add: handle_of_def one_handle_def)

lemma held_simps [simp]: "held [] = {#}" "held (x # xs) = one_handle (snd x) + held xs" "held (xs @ ys) = held xs + held ys"
  by (simp_all add: held_def)

lemma held_update: "i < length objs \<Longrightarrow> held (objs[i := y]) + one_handle (snd (objs ! i)) = held objs + one_handle (snd y)"
proof (induction objs arbitrary: i)
  case (Cons x xs)
  then show ?case by (cases i) (simp_all add: ac_simps)
qed simp

lemma held_member: "i < length objs \<Longrightarrow> snd (objs ! i) = Some c \<Longrightarrow> c \<in># held objs"
  unfolding held_def by (force intro: bexI [of _ "objs ! i"])

definition machine_ok :: "'a cmachine \<Rightarrow> bool" where
  "machine_ok s \<longleftrightarrow> well_tagged s \<and> (\<forall>f \<in> set (frames s). f = None \<or> (\<exists>pt p. f = Some (LazyFrame pt p)))"

lemma finite_live_frames [simp]: "finite (live_frames s)"
  by (simp add: live_frames_def)

lemma live_update:
  "c < length (frames s) \<Longrightarrow> live_frames (s\<lparr>frames := (frames s)[c := f]\<rparr>) =
     (if f = None then live_frames s - {c} else insert c (live_frames s))"
  by (auto simp: live_frames_def nth_list_update)

lemma machine_ok_update:
  assumes "machine_ok s" and "frame_ok f" and "f = None \<or> (\<exists>pt p. f = Some (LazyFrame pt p))"
  shows "machine_ok (s\<lparr>frames := (frames s)[c := f]\<rparr>)"
  using assms well_tagged_update [of s f c]
  unfolding machine_ok_def by (auto simp del: not_None_eq dest!: subsetD [OF set_update_subset_insert])

lemma live_lazy:
  assumes "machine_ok s" and "c \<in> live_frames s"
  obtains pt p where "c < length (frames s)" "frame_at c s = (Return (LazyFrame pt p), s)" "promise_ok p"
    "frames s ! c = Some (LazyFrame pt p)"
proof -
  from assms obtain pt p where f: "c < length (frames s)" "frames s ! c = Some (LazyFrame pt p)"
    unfolding machine_ok_def live_frames_def by (force dest: nth_mem)
  with assms(1) have "frame_ok (Some (LazyFrame pt p))"
    by (auto simp: machine_ok_def well_tagged_def list_all_length)
  with f that show thesis by (simp add: frame_at_def)
qed

text \<open>Operations on the promise of a live frame, and its destruction.\<close>

lemma on_promise:
  assumes ok: "machine_ok s" and live: "c \<in> live_frames s"
    and m: "\<And>p. promise_ok p \<Longrightarrow> promise_ok (snd (m p))"
  obtains p s' where "promise_ok p" "promise_of c m s = (fst (m p), s')" "machine_ok s'" "live_frames s' = live_frames s"
proof -
  from ok live obtain pt p where f: "c < length (frames s)" "frame_at c s = (Return (LazyFrame pt p), s)" "promise_ok p"
    by (rule live_lazy)
  let ?s = "s\<lparr>frames := (frames s)[c := Some (LazyFrame pt (snd (m p)))]\<rparr>"
  have "promise_of c m s = (fst (m p), ?s)"
    using f by (cases "m p") (simp add: promise_of_def set_frame_def outcome_simps)
  moreover have "machine_ok ?s" using machine_ok_update [OF ok] m [OF f(3)] by simp
  moreover have "live_frames ?s = live_frames s" using live_update [OF f(1), of "Some _"] live by auto
  ultimately show thesis using that f(3) by blast
qed

lemma on_destroy:
  assumes ok: "machine_ok s" and live: "c \<in> live_frames s"
  obtains s' where "destroy c s = (Return (), s')" "machine_ok s'" "live_frames s' = live_frames s - {c}"
proof -
  from ok live obtain pt p where f: "c < length (frames s)" "frame_at c s = (Return (LazyFrame pt p), s)" "promise_ok p"
    by (rule live_lazy)
  obtain q where q: "LazyPromise_dtor p = (Return (), q)" using promise_ok_dtor [OF f(3)] by (metis prod.collapse)
  let ?s = "s\<lparr>frames := (frames s)[c := None]\<rparr>"
  have "destroy c s = (Return (), ?s)"
    using f q by (simp add: destroy_def promise_of_def frame_at_def set_frame_def outcome_simps)
  moreover have "machine_ok ?s" using machine_ok_update [OF ok] by simp
  moreover have "live_frames ?s = live_frames s - {c}" using live_update [OF f(1), of None] by simp
  ultimately show thesis using that by blast
qed


section \<open>Every operation keeps the account\<close>

definition accounts :: "'a holders \<Rightarrow> nat multiset \<Rightarrow> bool" where
  "accounts st l \<longleftrightarrow>
     machine_ok (ho_machine st) \<and> mset_set (live_frames (ho_machine st)) = held (ho_objects st) + l"

definition fine :: "(unit outcome \<times> 'a holders) \<Rightarrow> nat multiset \<Rightarrow> bool" where
  "fine x l \<longleftrightarrow> fst x \<noteq> Undefined \<and> (fst x \<noteq> Abort \<longrightarrow> accounts (snd x) l)"

lemma held_frame_live:
  assumes "accounts st l" and "i < length (ho_objects st)" and "ho_objects st ! i = (k, Some c)"
  shows "c \<in> live_frames (ho_machine st)"
proof -
  from held_member [OF assms(2)] assms(3) have "c \<in># held (ho_objects st)" by simp
  with assms(1) have "c \<in># mset_set (live_frames (ho_machine st))" by (simp add: accounts_def)
  then show ?thesis by simp
qed

lemma accounts_machine:
  "accounts st l \<Longrightarrow> machine_ok s \<Longrightarrow> live_frames s = live_frames (ho_machine st) \<Longrightarrow> accounts (st\<lparr>ho_machine := s\<rparr>) l"
  by (simp add: accounts_def)

lemma run_holder_at: "i < length (ho_objects st) \<Longrightarrow> holder_at i st = (Return (ho_objects st ! i), st)"
  by (simp add: holder_at_def)

lemma fine_give:
  assumes ok: "accounts st l" and i: "i < length (ho_objects st)" and z: "ho_objects st ! i = (k, z)"
    and x: "one_handle (fst x) + one_handle (snd x) = one_handle z"
  shows "fine (give_to_new i k k' x st) l"
proof -
  let ?objs = "(ho_objects st)[i := (k, snd x)]"
  have "held ?objs + one_handle z = held (ho_objects st) + one_handle (snd x)"
    using held_update [OF i, of "(k, snd x)"] z by simp
  then have "held ?objs + one_handle (fst x) + one_handle (snd x) = held (ho_objects st) + one_handle (snd x)"
    unfolding x [symmetric] by (simp add: ac_simps)
  then have "held (?objs @ [(k', fst x)]) = held (ho_objects st)" by simp
  with ok show ?thesis by (simp add: fine_def give_to_new_def run_method accounts_def)
qed

text \<open>Destroying the frame of a held handle and leaving null.\<close>

lemma accounts_destroyed:
  assumes ok: "accounts st l" and i: "i < length (ho_objects st)" and z: "ho_objects st ! i = (k, Some c)"
    and s: "machine_ok s" "live_frames s = live_frames (ho_machine st) - {c}"
  shows "accounts (st\<lparr>ho_machine := s, ho_objects := (ho_objects st)[i := (k, None)]\<rparr>) l"
proof -
  have c: "c \<in> live_frames (ho_machine st)" by (rule held_frame_live [OF ok i z])
  have "add_mset c (held ((ho_objects st)[i := (k, None)])) = held (ho_objects st)"
    using held_update [OF i, of "(k, None)"] z by simp
  with ok have "mset_set (live_frames (ho_machine st)) = add_mset c (held ((ho_objects st)[i := (k, None)]) + l)"
    unfolding accounts_def by (metis union_mset_add_mset_left)
  moreover have "mset_set (live_frames s) = mset_set (live_frames (ho_machine st)) - {#c#}"
    unfolding s(2) using c by (simp add: mset_set_Diff)
  ultimately show ?thesis using s(1) by (simp add: accounts_def)
qed

lemma accounts_left:
  assumes ok: "accounts st l" and i: "i < length (ho_objects st)" and z: "ho_objects st ! i = (k, z)"
  shows "accounts (st\<lparr>ho_objects := (ho_objects st)[i := (k, None)]\<rparr>) (l + one_handle z)"
proof -
  have "held (ho_objects st) = held ((ho_objects st)[i := (k, None)]) + one_handle z"
    using held_update [OF i, of "(k, None)"] z by simp
  with ok show ?thesis by (simp add: accounts_def ac_simps)
qed

lemmas run_ops = run_seq run_bind run_method on_machine_def run_holder_at leave_in_def

lemma fine_call: "accounts st l \<Longrightarrow> fine (run_handle_op (CallCoroutine b) st) l"
proof -
  assume ok: "accounts st l"
  let ?s = "ho_machine st" let ?f = "LazyFrame (AtStart b) LazyPromise_ctor"
  let ?s' = "?s\<lparr>frames := frames ?s @ [Some ?f]\<rparr>"
  have "machine_ok ?s'" using ok
    by (auto simp: accounts_def machine_ok_def well_tagged_def promise_ok_kept)
  moreover have "live_frames ?s' = insert (length (frames ?s)) (live_frames ?s)" "length (frames ?s) \<notin> live_frames ?s"
    by (auto simp: live_frames_def nth_append)
  ultimately show ?thesis using ok
    by (simp add: fine_def run_ops new_lazy_def new_frame_def accounts_def)
qed

lemma fine_take:
  assumes ok: "accounts st l" and i: "i < length (ho_objects st)"
  shows "fine (run_handle_op (MoveConstruct i) st) l" "fine (run_handle_op (OperatorCoAwaitOn i) st) l"
    "fine (run_handle_op (CoAwaitTryOn i) st) l"
  by (cases "ho_objects st ! i"; cases "fst (ho_objects st ! i)";
      auto simp: run_ops i Lazy_move_ctor_def Reschedule_move_ctor_def LazyAwaiter_move_ctor_def Lazy_operator_co_await_def
        Reschedule_operator_co_await_def Lazy_CoAwaitTry_def Reschedule_CoAwaitTry_def ValueAwaiter_ctor_def
        Reschedule_ValueAwaiter_ctor_def Reschedule_TryAwaiter_ctor_def LazyAwaiterBase_ctor_def
        intro!: fine_give [OF ok i])+


lemma on_held:
  assumes ok: "accounts st l" and i: "i < length (ho_objects st)" and z: "ho_objects st ! i = (k, Some c)"
    and m: "\<And>p. promise_ok p \<Longrightarrow> promise_ok (snd (m p))"
  obtains p s where "promise_ok p" "promise_of c m (ho_machine st) = (fst (m p), s)" "accounts (st\<lparr>ho_machine := s\<rparr>) l"
proof -
  have "machine_ok (ho_machine st)" using ok by (simp add: accounts_def)
  from on_promise [OF this held_frame_live [OF ok i z], of m] m obtain p s where
    p: "promise_ok p" "promise_of c m (ho_machine st) = (fst (m p), s)" "machine_ok s" "live_frames s = live_frames (ho_machine st)"
    by blast
  with accounts_machine [OF ok p(3,4)] that show thesis by blast
qed

lemma fine_set_executor:
  fixes st :: "'a holders"
  assumes ok: "accounts st l" and i: "i < length (ho_objects st)" and z: "ho_objects st ! i = (k, z)"
  shows "fine (bind (on_machine (Lazy_set_executor msg ex z)) (\<lambda>y. give_to_new i k k' (y, None)) st) l"
proof (cases z)
  case None
  with ok show ?thesis by (simp add: fine_def run_ops Lazy_set_executor_def run_LOGIC_ASSERT)
next
  case (Some c)
  with z have zc: "ho_objects st ! i = (k, Some c)" by simp
  obtain p s where run: "promise_of c (lp_set_executor ex) (ho_machine st) = (fst (lp_set_executor ex (p :: 'a val lazy_promise)), s)"
    and acc: "accounts (st\<lparr>ho_machine := s\<rparr>) l" by (rule on_held [OF ok i zc promise_ok_kept(6) [where ex = ex]])
  have "Lazy_set_executor msg ex z (ho_machine st) = (Return (Some c), s)"
    using Some run by (simp add: Lazy_set_executor_def lp_set_executor_def outcome_simps)
  then have "bind (on_machine (Lazy_set_executor msg ex z)) (\<lambda>y. give_to_new i k k' (y, None)) st =
      give_to_new i k k' (Some c, None) (st\<lparr>ho_machine := s\<rparr>)"
    by (simp add: run_bind on_machine_def)
  moreover have "fine (give_to_new i k k' (Some c, None) (st\<lparr>ho_machine := s\<rparr>)) l"
    by (rule fine_give [OF acc, of i k "Some c"]) (simp_all add: i zc)
  ultimately show ?thesis by simp
qed

lemma fine_co_await:
  fixes st :: "'a holders"
  assumes ok: "accounts st l" and i: "i < length (ho_objects st)" and z: "ho_objects st ! i = (k, Some c)"
  shows "fine (run_handle_op (CoAwaitOn i ex) st) l"
proof -
  obtain p s where run: "promise_of c (lp_set_executor ex) (ho_machine st) = (fst (lp_set_executor ex (p :: 'a val lazy_promise)), s)"
    and acc: "accounts (st\<lparr>ho_machine := s\<rparr>) l" by (rule on_held [OF ok i z promise_ok_kept(6) [where ex = ex]])
  have "Lazy_CoAwait_object ex (Some c) (ho_machine st) = (Return (Some c, None), s)"
    using run by (simp add: Lazy_CoAwait_object_def Lazy_CoAwait_def lp_set_executor_def ValueAwaiter_ctor_def
        LazyAwaiterBase_ctor_def outcome_simps)
  then have "run_handle_op (CoAwaitOn i ex) st = give_to_new i k AwaiterObject (Some c, None) (st\<lparr>ho_machine := s\<rparr>)"
    by (simp add: run_bind on_machine_def run_holder_at i z)
  moreover have "fine (give_to_new i k AwaiterObject (Some c, None) (st\<lparr>ho_machine := s\<rparr>)) l"
    by (rule fine_give [OF acc, of i k "Some c"]) (simp_all add: i z)
  ultimately show ?thesis by simp
qed

lemma fine_body_ends:
  assumes ok: "accounts st l" and i: "i < length (ho_objects st)" and z: "ho_objects st ! i = (k, Some c)"
  shows "fine (run_handle_op (BodyEnds i r) st) l"
proof -
  let ?m = "case r of Inl e \<Rightarrow> LazyPromise_unhandled_exception e | Inr v \<Rightarrow> LazyPromise_return_value v"
  have m: "promise_ok (snd (?m p))" for p by (cases r) (simp_all add: promise_ok_kept)
  have ret: "fst (?m p) = Return ()" for p
    by (simp add: LazyPromise_unhandled_exception_def LazyPromise_return_value_def run_method split: sum.split)
  from on_held [OF ok i z, of ?m] m ret obtain s where
    run: "promise_of c ?m (ho_machine st) = (Return (), s)" and acc: "accounts (st\<lparr>ho_machine := s\<rparr>) l" by metis
  have c: "c \<in> live_frames s" using held_frame_live [OF acc _ _] i z by simp
  have s: "machine_ok s" using acc by (simp add: accounts_def)
  from s c obtain pt p where f: "c < length (frames s)" "frame_at c s = (Return (LazyFrame pt p), s)" "promise_ok p"
    by (rule live_lazy)
  let ?s = "s\<lparr>frames := (frames s)[c := Some (LazyFrame AtFinal p)]\<rparr>"
  have end_at: "set_point c AtFinal s = (Return (), ?s)" using f by (simp add: set_point_def set_frame_def outcome_simps)
  have "machine_ok ?s" using machine_ok_update [OF s] f(3) by simp
  moreover have "live_frames ?s = live_frames s" using live_update [OF f(1), of "Some _"] c by auto
  ultimately have "accounts (st\<lparr>ho_machine := ?s\<rparr>) l" using accounts_machine [OF acc] by simp
  then show ?thesis using i z run end_at by (simp add: fine_def run_ops body_ends_def)
qed

text \<open>Reading a result is never undefined; the assertion fails when there is none.\<close>

lemma result_defined:
  "promise_ok p \<Longrightarrow> fst (LazyPromise_Result p) \<noteq> Undefined"
  "promise_ok p \<Longrightarrow> fst (LazyPromise_TryResult p) \<noteq> Undefined \<and> (\<forall>e. fst (LazyPromise_TryResult p) \<noteq> Throw e)"
  by (cases "lp_result_type p"; cases "lp_storage p"; auto simp: promise_ok.simps LazyPromise_Result_def
      LazyPromise_TryResult_def lp_read_value_def lp_read_exception_def outcome_simps split: option.splits)+

lemma fine_read:
  assumes ok: "accounts st l" and i: "i < length (ho_objects st)" and z: "ho_objects st ! i = (k, Some c)"
    and m: "\<And>p. promise_ok p \<Longrightarrow> promise_ok (snd (m p)) \<and> fst (m p) \<noteq> Undefined"
  shows "fine (bind (on_machine (bind (promise_of c m) (\<lambda>v. seq (destroy c) (ret (v, None :: lazy)))))
      (\<lambda>x. leave_in i k (snd x)) st) l"
proof -
  from on_held [OF ok i z, of m] m obtain p s where p: "promise_ok p"
    and run: "promise_of c m (ho_machine st) = (fst (m p), s)" and acc: "accounts (st\<lparr>ho_machine := s\<rparr>) l" by blast
  show ?thesis
  proof (cases "fst (m p)")
    case (Return v)
    have "machine_ok s" "c \<in> live_frames s" using acc held_frame_live [OF acc _ _] i z by (simp_all add: accounts_def)
    then obtain s' where gone: "destroy c s = (Return (), s')" "machine_ok s'" "live_frames s' = live_frames s - {c}"
      by (rule on_destroy)
    with accounts_destroyed [OF acc _ _ gone(2)] i z Return run show ?thesis
      by (simp add: fine_def run_ops)
  qed (use acc run m [OF p] in \<open>simp_all add: fine_def run_ops\<close>)
qed

lemma fine_resume:
  assumes "accounts st l" and i: "i < length (ho_objects st)" and z: "ho_objects st ! i = (k, Some c)"
  shows "fine (run_handle_op (AwaitResumeOn i) st) l" "fine (run_handle_op (AwaitResumeTryOn i) st) l"
proof -
  note start = run_bind [of "holder_at i"] run_holder_at i z
  have "promise_ok (snd (LazyPromise_Result p)) \<and> fst (LazyPromise_Result p) \<noteq> Undefined" if "promise_ok p" for p :: "'a val lazy_promise"
    using that promise_ok_kept(4) result_defined(1) by blast
  from fine_read [OF assms, of LazyPromise_Result, OF this] show "fine (run_handle_op (AwaitResumeOn i) st) l"
    by (simp add: start Awaiter_AwaitResume_def)
  have "promise_ok (snd (LazyPromise_TryResult p)) \<and> fst (LazyPromise_TryResult p) \<noteq> Undefined" if "promise_ok p" for p :: "'a val lazy_promise"
    using that promise_ok_kept(5) result_defined(2) by blast
  from fine_read [OF assms, of LazyPromise_TryResult, OF this] show "fine (run_handle_op (AwaitResumeTryOn i) st) l"
    by (simp add: start Awaiter_AwaitResumeTry_def)
qed

lemma fine_assign:
  assumes ok: "accounts st l" and i: "i < length (ho_objects st)" and j: "j < length (ho_objects st)"
  shows "fine (run_handle_op (MoveAssignTo i j) st) (l + forgets (MoveAssignTo i j) (ho_objects st))"
proof -
  let ?objs = "ho_objects st"
  obtain k z k' z' where z: "?objs ! i = (k, z)" "?objs ! j = (k', z')" by fastforce
  let ?left = "?objs[j := (k', None)]"
  have run: "run_handle_op (MoveAssignTo i j) st = (Return (), st\<lparr>ho_objects := ?left[i := (k, z')]\<rparr>)"
    using i j z by (simp add: run_ops LazyAwaiter_move_assign_def)
  have "held ?left + one_handle z' = held ?objs" using held_update [OF j, of "(k', None)"] z by simp
  moreover have "held (?left[i := (k, z')]) + one_handle (snd (?left ! i)) = held ?left + one_handle z'"
    using held_update [of i ?left "(k, z')"] i by simp
  ultimately have "held ?objs = held (?left[i := (k, z')]) + one_handle (snd (?left ! i))" by simp
  moreover have "one_handle (snd (?left ! i)) = forgets (MoveAssignTo i j) ?objs"
    using i z by (cases "i = j") (simp_all add: handle_of_one)
  ultimately show ?thesis using ok unfolding run by (simp add: fine_def accounts_def ac_simps)
qed

lemma fine_destroy:
  assumes ok: "accounts st l" and i: "i < length (ho_objects st)"
  shows "fine (run_handle_op (DestroyObject i) st) (l + forgets (DestroyObject i) (ho_objects st))"
proof -
  obtain k z where z: "ho_objects st ! i = (k, z)" by fastforce
  show ?thesis
  proof (cases "k = RescheduleObject")
    case True
    then show ?thesis using accounts_left [OF ok i z] i z
      by (simp add: fine_def run_ops Reschedule_dtor_def handle_of_one)
  next
    case False
    have dtor: "run_handle_op (DestroyObject i) st =
        bind (on_machine (case z of None \<Rightarrow> ret () | Some c \<Rightarrow> destroy c)) (\<lambda>_. leave_in i k None) st"
      using i z False by (cases k) (simp_all add: run_ops Lazy_dtor_def LazyAwaiter_dtor_def)
    show ?thesis
    proof (cases z)
      case None
      with accounts_left [OF ok i z] dtor False z show ?thesis by (simp add: fine_def run_ops)
    next
      case (Some c)
      with z have zc: "ho_objects st ! i = (k, Some c)" by simp
      have "machine_ok (ho_machine st)" using ok by (simp add: accounts_def)
      then obtain s where gone: "destroy c (ho_machine st) = (Return (), s)" "machine_ok s"
        "live_frames s = live_frames (ho_machine st) - {c}" using on_destroy held_frame_live [OF ok i zc] by metis
      with accounts_destroyed [OF ok i zc gone(2,3)] dtor Some False z show ?thesis by (simp add: fine_def run_ops)
    qed
  qed
qed

lemma fine_operation:
  assumes ok: "accounts st l" and use: "allowed_op x (ho_objects st)"
  shows "fine (run_handle_op x st) (l + forgets x (ho_objects st))"
proof -
  have held: "\<exists>k c. ho_objects st ! i = (k, Some c)" if "snd (ho_objects st ! i) \<noteq> None" for i
    using that by (cases "ho_objects st ! i") auto
  note holds = holder_is_def holds_some_def
  show ?thesis
  proof (cases x)
    case (ViaOn i ex)
    with use ok show ?thesis
      by (cases "ho_objects st ! i") (simp add: holds run_bind [of "holder_at i"] run_holder_at Lazy_Via_def
          RescheduleLazy_ctor_def fine_set_executor)
  next
    case (SetExecutorOn i ex)
    with use ok show ?thesis
      by (cases "ho_objects st ! i") (simp add: holds run_bind [of "holder_at i"] run_holder_at Lazy_SetExecutor_def
          fine_set_executor)
  next
    case (CoAwaitOn i ex)
    with use ok held [of i] show ?thesis by (auto simp: holds simp del: run_handle_op.simps intro!: fine_co_await)
  next
    case (BodyEnds i r)
    with use ok held [of i] show ?thesis by (auto simp: holds simp del: run_handle_op.simps intro!: fine_body_ends)
  next
    case (AwaitResumeOn i)
    with use ok held [of i] show ?thesis by (auto simp: holds simp del: run_handle_op.simps intro!: fine_resume)
  next
    case (AwaitResumeTryOn i)
    with use ok held [of i] show ?thesis by (auto simp: holds simp del: run_handle_op.simps intro!: fine_resume)
  next
    case (MoveAssignTo i j)
    with use ok show ?thesis by (simp add: holds fine_assign del: run_handle_op.simps forgets.simps)
  next
    case (DestroyObject i)
    with use ok show ?thesis by (simp add: holds fine_destroy del: run_handle_op.simps forgets.simps)
  qed (use use ok in \<open>simp_all add: holds fine_call fine_take del: run_handle_op.simps\<close>)
qed

lemma runs_to_accounts: "runs_to st l \<Longrightarrow> accounts st l"
proof (induction rule: runs_to.induct)
  case (empty_program st)
  then show ?case by (simp add: accounts_def machine_ok_def well_tagged_def live_frames_def)
next
  case (operation st l x r st')
  with fine_operation [OF operation.IH operation.hyps(2)] show ?case by (simp add: fine_def)
qed

text \<open>
  Claim C40. Who destroys a coroutine frame. In any program over \<open>Lazy\<close>, \<open>RescheduleLazy\<close> and awaiter objects that moves,
  awaits, reads and destroys them in any order, no operation touches a destroyed frame or destroys one
  twice, no two objects hold the same frame, and the frames that are alive are exactly those that some
  object holds and those that a move assignment or the missing destructor of \<open>RescheduleLazy\<close> forgot.
\<close>

theorem handles_account_for_frames:
  assumes "runs_to st l" and "allowed_op x (ho_objects st)"
  shows "fst (run_handle_op x st) \<noteq> Undefined \<and>
    mset_set (live_frames (ho_machine st)) = held (ho_objects st) + l"
  using runs_to_accounts [OF assms(1)] fine_operation [OF _ assms(2)] by (auto simp: accounts_def fine_def)

text \<open>A \<open>Lazy\<close> is turned into a \<open>RescheduleLazy\<close>, which is dropped: the frame stays.\<close>

definition fresh_machine :: "nat cmachine" where
  "fresh_machine = \<lparr>frames = [], running = None, tasks = {#}, timers = {#}, arrivals = {#}, cb_results = []\<rparr>"

definition no_holders :: "nat holders" where
  "no_holders = \<lparr>ho_machine = fresh_machine, ho_objects = []\<rparr>"

fun perform :: "'a handle_op list \<Rightarrow> ('a holders, unit) action" where
  "perform [] = ret ()"
| "perform (x # xs) = seq (run_handle_op x) (perform xs)"

lemma runs_next:
  "runs_to st l \<Longrightarrow> allowed_op x (ho_objects st) \<Longrightarrow> fst (run_handle_op x st) \<noteq> Abort \<Longrightarrow>
   runs_to (snd (run_handle_op x st)) (l + forgets x (ho_objects st))"
  using runs_to.operation by (metis prod.collapse)

definition dropped :: "nat \<Rightarrow> nat holders" where
  "dropped n = snd (perform (take n [CallCoroutine (CoReturn VUnit), ViaOn 0 (Some 7), DestroyObject 1, DestroyObject 0]) no_holders)"

lemmas dropping =
  dropped_def no_holders_def fresh_machine_def run_ops new_lazy_def new_frame_def give_to_new_def Lazy_Via_def
  Lazy_set_executor_def run_LOGIC_ASSERT promise_of_def frame_at_def set_frame_def lp_set_executor_def RescheduleLazy_ctor_def
  Reschedule_dtor_def Lazy_dtor_def

theorem handles_account_for_frames_witness:
  "runs_to (dropped 3) {#0#} \<and> held (ho_objects (dropped 3)) = {#} \<and>
   mset_set (live_frames (ho_machine (dropped 3))) = {#0#}"
proof -
  have r0: "runs_to (dropped 0) {#}" by (rule empty_program) (simp_all add: dropping)
  have "runs_to (dropped 1) {#}" using runs_next [OF r0, of "CallCoroutine (CoReturn VUnit)"] by (simp add: dropping)
  from runs_next [OF this, of "ViaOn 0 (Some 7)"] have "runs_to (dropped 2) {#}" by (simp add: dropping holder_is_def)
  from runs_next [OF this, of "DestroyObject 1"] have r3: "runs_to (dropped 3) {#0#}" by (simp add: dropping handle_of_one)
  have none: "held (ho_objects (dropped 3)) = {#}" by (simp add: dropping)
  have "allowed_op (DestroyObject 0) (ho_objects (dropped 3))" by (simp add: dropping)
  from handles_account_for_frames [OF r3 this] none r3 show ?thesis by simp
qed

end
