(* ===== verification/Lazy_Correct.thy ===== *)
theory Lazy_Correct
  imports Lazy_Model
begin

text \<open>
  The coroutine machine against the direct-style meaning \<open>sem\<close>: whatever the workers do, awaiting,
  symmetric transfer, rescheduling and the way home through \<open>ViaCoroutine\<close> amount to calling the body,
  every frame is destroyed once, and the process stops or misbehaves exactly when \<open>sem\<close> says so.
\<close>

definition env_ok :: "coro_env \<Rightarrow> bool" where
  "env_ok env \<longleftrightarrow> (\<forall>e. accepting env e \<and> 0 < num_workers env e \<and> num_workers env e \<le> 2 ^ 30)"

section \<open>Threads and contexts\<close>

lemma worker_number:
  assumes "env_ok env" and "w < num_workers env e"
  shows "w < 2 ^ 30"
  using assms(1)[unfolded env_ok_def, rule_format, of e] assms(2) by linarith

lemma current_id:
  assumes "env_ok env" and "thread_in env loc th"
  shows "Pool_GetCurrentId e (current_of e th) \<noteq> - 1 \<longleftrightarrow> loc = Some e"
proof (cases th)
  case None
  with assms(2) show ?thesis
    by (simp add: thread_in_def current_of_def Pool_current_init_def Pool_GetCurrentId_def split: option.splits)
next
  case (Some x)
  then obtain e' w where x: "th = Some (e', w)" by (cases x) simp
  with assms(2) have l: "loc = Some e'" "w < num_workers env e'" by (auto simp: thread_in_def split: option.splits)
  with x of_nat_not_minus_one [OF worker_number [OF assms(1) l(2)]] show ?thesis
    by (auto simp: current_of_def Pool_worker_current_def Pool_GetCurrentId_def)
qed

lemma run_in_executor:
  assumes "env_ok env" and "thread_in env loc (running s)"
  shows "in_executor e s = (Return (loc = Some e), s)"
  using current_id [OF assms, of e] by (simp add: in_executor_def Simple_CurrentThreadInExecutor_def run_method)

lemma checkout_home:
  assumes "running s = Some (e, w)"
  shows "checkout e s = (Return (worker_context w), s)"
  by (simp add: checkout_def run_method current_of_def assms Simple_Checkout_worker)

lemma checkin_home:
  assumes ok: "env_ok env" and w: "w < num_workers env e"
  shows "checkin env e (worker_context w) (Some j) s =
      (if Pool_GetCurrentId e (current_of e (running s)) = of_nat w then (Return True, s)
       else (Return False, s\<lparr>tasks := add_mset (e, Some w, j) (tasks s)\<rparr>))"
    and "checkin env e (worker_context w) None s =
      (Return (Pool_GetCurrentId e (current_of e (running s)) = of_nat w), s)"
proof -
  have w30: "w < 2 ^ 30" using worker_number [OF ok w] .
  have tid: "(ucast (worker_context w AND NOT kContextMask) :: 32 word) = of_nat w"
    by (simp only: worker_context_clear [OF w30] ucast_scast_32_64)
  have below: "id_below (of_nat w) (num_workers env e)"
    using w by (simp only: id_below_def unat_scast_of_nat [OF w30])
  have now: "Simple_prompt_now e cur (worker_context w) ScheduleOptions_default \<longleftrightarrow>
      Pool_GetCurrentId e cur = of_nat w" for cur
    by (simp only: Simple_prompt_now_def worker_context_clear [OF w30] scast_32_64_inject)
      (simp add: ScheduleOptions_default_def)
  have "accepting env e" using ok by (simp add: env_ok_def)
  with now tid below of_nat_not_minus_one [OF w30] unat_of_nat_32 [OF w30]
  show "checkin env e (worker_context w) (Some j) s =
      (if Pool_GetCurrentId e (current_of e (running s)) = of_nat w then (Return True, s)
       else (Return False, s\<lparr>tasks := add_mset (e, Some w, j) (tasks s)\<rparr>))"
    "checkin env e (worker_context w) None s =
      (Return (Pool_GetCurrentId e (current_of e (running s)) = of_nat w), s)"
    by (simp_all add: checkin_def outcome_simps Let_def)
qed

text \<open>The context of a thread that is no worker of the executor.\<close>

definition foreign_context :: exec_context where
  "foreign_context = (scast (- 1 :: 32 word) OR kContextMask)"

lemma checkout_foreign:
  assumes "env_ok env" and "thread_in env loc (running s)" and "loc \<noteq> Some e"
  shows "checkout e s = (Return foreign_context, s)"
  using current_id [OF assms(1,2), of e] assms(3)
  by (simp add: checkout_def Simple_Checkout_def foreign_context_def run_method)

lemma checkin_foreign:
  assumes ok: "env_ok env" and th: "thread_in env loc (running s)"
  shows "checkin env e foreign_context j s = (Abort, s)"
proof -
  let ?id = "Pool_GetCurrentId e (current_of e (running s))"
  have clear: "foreign_context AND NOT kContextMask = NOT kContextMask"
    unfolding foreign_context_def by (rule off_pool_context)
  have "(scast ?id :: 64 word) \<noteq> NOT kContextMask"
  proof
    assume eq: "(scast ?id :: 64 word) = NOT kContextMask"
    then have id: "?id = 0xBFFFFFFF" using off_pool_id(1) by (metis ucast_scast_32_64)
    then have "?id \<noteq> - 1" by simp
    then have "loc = Some e" using current_id [OF ok th] by simp
    with th obtain w where w: "running s = Some (e, w)" "w < num_workers env e"
      by (auto simp: thread_in_def split: option.splits)
    then have "?id = of_nat w" by (simp add: current_of_def Pool_GetCurrentId_def Pool_worker_current_def)
    with id have "(of_nat w :: 32 word) = 0xBFFFFFFF" by simp
    then have "unat (of_nat w :: 32 word) = unat (0xBFFFFFFF :: 32 word)" by simp
    then have "w = 0xBFFFFFFF" unfolding unat_of_nat_32 [OF worker_number [OF ok w(2)]] by simp
    with worker_number [OF ok w(2)] show False by simp
  qed
  then have "\<not> Simple_prompt_now e (current_of e (running s)) foreign_context ScheduleOptions_default"
    by (simp only: Simple_prompt_now_def clear) simp
  moreover have "num_workers env e \<le> 1073741824" "accepting env e"
    using ok [unfolded env_ok_def, rule_format, of e] by simp_all
  moreover have "1073741824 < unat (scast (0xBFFFFFFF :: 32 word) :: 64 word)" by simp
  ultimately have "\<not> id_below 0xBFFFFFFF (num_workers env e)" "accepting env e"
    "\<not> Simple_prompt_now e (current_of e (running s)) foreign_context ScheduleOptions_default"
    unfolding id_below_def by linarith+
  moreover have "(0xBFFFFFFF :: 32 word) \<noteq> - 1" by simp
  ultimately show ?thesis
    unfolding checkin_def clear off_pool_id(1) Let_def by (simp add: outcome_simps)
qed

section \<open>Running one operation\<close>

definition sees :: "'a cmachine \<Rightarrow> nat \<Rightarrow> 'a frame \<Rightarrow> bool" where
  "sees s h f \<longleftrightarrow> h < length (frames s) \<and> frames s ! h = Some f"

lemma run_frame_at: "sees s h f \<Longrightarrow> frame_at h s = (Return f, s)"
  by (simp add: sees_def frame_at_def)

lemma run_promise_of:
  assumes "sees s h (LazyFrame pt p)" and "m p = (r, q)"
  shows "promise_of h m s = (r, s\<lparr>frames := (frames s)[h := Some (LazyFrame pt q)]\<rparr>)"
  using assms by (simp add: promise_of_def run_frame_at outcome_simps set_frame_def)

lemma frames_same: "sees s h f \<Longrightarrow> s\<lparr>frames := (frames s)[h := Some f]\<rparr> = s"
  by (simp add: sees_def) (metis cmachine.surjective cmachine.update_convs(1) list_update_id)

lemma run_promise_read:
  "sees s h (LazyFrame pt p) \<Longrightarrow> promise_of h (gets f) s = (Return (f p), s)"
  by (subst run_promise_of [of s h pt p _ "Return (f p)" p]) (simp_all add: run_method frames_same)

lemma run_executor_of: "sees s h (LazyFrame pt p) \<Longrightarrow> executor_of h s = (Return (lp_executor p), s)"
  by (simp add: executor_of_def run_promise_read)

lemma run_set_point:
  "sees s h (LazyFrame pt p) \<Longrightarrow>
   set_point h pt' s = (Return (), s\<lparr>frames := (frames s)[h := Some (LazyFrame pt' p)]\<rparr>)"
  by (simp add: set_point_def run_frame_at outcome_simps set_frame_def)

lemma run_destroy_lazy:
  assumes "sees s c (LazyFrame pt (with_result p r))"
  shows "destroy c s = (Return (), s\<lparr>frames := (frames s)[c := None]\<rparr>)"
proof -
  obtain q where "LazyPromise_dtor (with_result p r) = (Return (), q)"
    using finished_promise(3) [of p r] by (metis prod.collapse)
  from run_promise_of [where m = LazyPromise_dtor, OF assms this] show ?thesis
    by (simp add: destroy_def run_frame_at [OF assms] outcome_simps set_frame_def)
qed

lemma run_destroy_via:
  "sees s v (ViaFrame b p) \<Longrightarrow> destroy v s = (Return (), s\<lparr>frames := (frames s)[v := None]\<rparr>)"
  by (simp add: destroy_def run_frame_at outcome_simps set_frame_def)

lemma run_AwaitResume:
  assumes "sees s c (LazyFrame pt (with_result p r))"
  shows "AwaitResume c s = (Return r, s\<lparr>frames := (frames s)[c := None]\<rparr>)"
proof -
  have "promise_of c LazyPromise_Result s = (outcome_of r, s)"
    using run_promise_of [where m = LazyPromise_Result, OF assms finished_promise(1)] frames_same [OF assms] by simp
  then show ?thesis
    by (cases r) (simp_all add: AwaitResume_def outcome_simps run_destroy_lazy [OF assms])
qed

lemma run_AwaitResumeTry:
  assumes "sees s c (LazyFrame pt (with_result p r))"
  shows "AwaitResumeTry c s = (Return (try_of r), s\<lparr>frames := (frames s)[c := None]\<rparr>)"
proof -
  have "promise_of c LazyPromise_TryResult s = (Return (try_of r), s)"
    using run_promise_of [where m = LazyPromise_TryResult, OF assms finished_promise(2)] frames_same [OF assms] by simp
  then show ?thesis by (simp add: AwaitResumeTry_def outcome_simps run_destroy_lazy [OF assms])
qed

text \<open>The end of a body.\<close>

lemma run_final_suspend:
  assumes "sees s h (LazyFrame pt p)" and "lp_continuation p = Some c"
  shows "final_suspend h s = (Return (Some c), s\<lparr>frames := (frames s)[h := Some (LazyFrame AtFinal p)]\<rparr>)"
proof -
  let ?s = "s\<lparr>frames := (frames s)[h := Some (LazyFrame AtFinal p)]\<rparr>"
  have "sees ?s h (LazyFrame AtFinal p)" using assms(1) by (simp add: sees_def)
  then show ?thesis
    using assms by (simp add: final_suspend_def run_set_point [OF assms(1)] run_promise_read outcome_simps)
qed

lemma with_result_continuation [simp]: "lp_continuation (with_result p r) = lp_continuation p"
  by (cases r) simp_all

lemma run_finish_body:
  assumes "sees s h (LazyFrame pt p)" and "lp_continuation p = Some c" and "m p = (Return (), with_result p r)"
  shows "seq (promise_of h m) (final_suspend h) s =
    (Return (Some c), s\<lparr>frames := (frames s)[h := Some (LazyFrame AtFinal (with_result p r))]\<rparr>)"
proof -
  let ?s = "s\<lparr>frames := (frames s)[h := Some (LazyFrame pt (with_result p r))]\<rparr>"
  have "sees ?s h (LazyFrame pt (with_result p r))" using assms(1) by (simp add: sees_def)
  from run_final_suspend [OF this] show ?thesis
    using assms(2) by (simp add: run_seq run_bind run_promise_of [of s h pt p m, OF assms(1,3)])
qed


section \<open>Configurations with one flow of control\<close>

text \<open>A machine that differs from \<open>z\<close> in its frames and the running thread only.\<close>

definition st :: "'a frame option list \<Rightarrow> cthread \<Rightarrow> 'a cmachine \<Rightarrow> 'a cmachine" where
  "st fs th z = z\<lparr>frames := fs, running := th\<rparr>"

definition quiet :: "'a cmachine \<Rightarrow> bool" where
  "quiet z \<longleftrightarrow> tasks z = {#} \<and> timers z = {#} \<and> arrivals z = {#}"

lemma st_simps [simp]:
  "frames (st fs th z) = fs" "running (st fs th z) = th" "tasks (st fs th z) = tasks z"
  "timers (st fs th z) = timers z" "arrivals (st fs th z) = arrivals z"
  "cb_results (st fs th z) = cb_results z"
  "(st fs th z)\<lparr>frames := gs\<rparr> = st gs th z" "(st fs th z)\<lparr>running := th'\<rparr> = st fs th' z"
  "st gs th' (st fs th z) = st gs th' z" "st (frames z) (running z) z = z"
  by (simp_all add: st_def)

lemma st_tasks:
  "quiet z \<Longrightarrow> (st fs th (z\<lparr>tasks := t\<rparr>))\<lparr>tasks := {#}\<rparr> = st fs th z"
  "quiet z \<Longrightarrow> (st fs th (z\<lparr>timers := u\<rparr>))\<lparr>timers := {#}\<rparr> = st fs th z"
  "quiet z \<Longrightarrow> (st fs th (z\<lparr>arrivals := v\<rparr>))\<lparr>arrivals := {#}\<rparr> = st fs th z"
  "(st fs th z)\<lparr>tasks := t\<rparr> = st fs th (z\<lparr>tasks := t\<rparr>)"
  "(st fs th z)\<lparr>timers := u\<rparr> = st fs th (z\<lparr>timers := u\<rparr>)"
  "(st fs th z)\<lparr>arrivals := v\<rparr> = st fs th (z\<lparr>arrivals := v\<rparr>)"
  "quiet z \<Longrightarrow> z\<lparr>tasks := {#}\<rparr> = z" "quiet z \<Longrightarrow> z\<lparr>timers := {#}\<rparr> = z" "quiet z \<Longrightarrow> z\<lparr>arrivals := {#}\<rparr> = z"
  by (cases z; simp add: st_def quiet_def)+

lemma sees_st [simp]: "sees (st fs th z) h f \<longleftrightarrow> h < length fs \<and> fs ! h = Some f"
  by (simp add: sees_def)

lemma after_simps [simp]:
  "after (Return (Some h), s) = (Going h, s)" "after (Return None, s) = (Idle, s)"
  "after (Abort, s) = (Stopped Abort, s)" "after (Undefined, s) = (Stopped Undefined, s)"
  "after (Throw e, s) = (Stopped (Throw e), s)"
  by (simp_all add: after_def)

text \<open>One task, one timer or one arrival: the scheduler's choice is the worker at most.\<close>

lemma must_take:
  assumes ok: "env_ok env" and z: "quiet z" and target: "\<And>i. target = Some i \<Longrightarrow> i < num_workers env e"
    and go: "\<And>w. w < num_workers env e \<Longrightarrow> target = None \<or> target = Some w \<Longrightarrow>
      must env P (after (bind (start_job j) (\<lambda>h. ret (Some h)) (st fs (Some (e, w)) z)))"
  shows "must env P (Idle, st fs th (z\<lparr>tasks := {#(e, target, j)#}\<rparr>))"
proof (rule inevitably_next)
  let ?s = "st fs th (z\<lparr>tasks := {#(e, target, j)#}\<rparr>)"
  have "0 < num_workers env e" using ok by (simp add: env_ok_def)
  then obtain w where w: "w < num_workers env e" "\<forall>i. target = Some i \<longrightarrow> w = i"
    using target by (cases target) auto
  show "\<exists>y. cstep env (Idle, ?s) y"
    by (rule exI, rule take [of e target j ?s w env]) (use w in simp_all)
  show "must env P y" if "cstep env (Idle, ?s) y" for y
    using that
  proof (cases rule: cstep.cases)
    case (take e' target' j' w')
    then have "must env P (after (bind (start_job j) (\<lambda>h. ret (Some h)) (st fs (Some (e, w')) z)))"
      by (intro go; cases target) auto
    with take show ?thesis by (simp add: st_tasks z)
  qed (use z in \<open>simp_all add: quiet_def\<close>)
qed

lemma must_arrive:
  assumes ok: "env_ok env" and z: "quiet z"
    and go: "\<And>th'. thread_in env loc th' \<Longrightarrow> must env P (Going h, st fs th' z)"
  shows "must env P (Idle, st fs th (z\<lparr>arrivals := {#(loc, h)#}\<rparr>))"
proof (rule inevitably_next)
  let ?s = "st fs th (z\<lparr>arrivals := {#(loc, h)#}\<rparr>)"
  have "0 < num_workers env e" for e using ok by (simp add: env_ok_def)
  then have "\<exists>th'. thread_in env loc th'"
    by (cases loc) (auto simp: thread_in_def intro: exI [of _ None] exI [of _ "Some (e, 0)" for e])
  then obtain th' where "thread_in env loc th'" ..
  then show "\<exists>y. cstep env (Idle, ?s) y"
    by (intro exI [of _ "(Going h, ?s\<lparr>arrivals := arrivals ?s - {#(loc, h)#}, running := th'\<rparr>)"] arrive) simp
  show "must env P y" if "cstep env (Idle, ?s) y" for y
    using that
  proof (cases rule: cstep.cases)
    case (arrive loc' h' th')
    with go show ?thesis by (simp add: st_tasks z)
  qed (use z in \<open>simp_all add: quiet_def\<close>)
qed

lemma must_wake:
  assumes ok: "env_ok env" and z: "quiet z"
    and go: "\<And>w. w < num_workers env e \<Longrightarrow> must env P (Going h, st fs (Some (e, w)) z)"
  shows "must env P (Idle, st fs th (z\<lparr>timers := {#(e, h)#}\<rparr>))"
proof (rule inevitably_next)
  let ?s = "st fs th (z\<lparr>timers := {#(e, h)#}\<rparr>)"
  show "\<exists>y. cstep env (Idle, ?s) y" 
    by (rule exI, rule wake [of e h ?s env]) simp
  show "must env P y" if "cstep env (Idle, ?s) y" for y
    using that
  proof (cases rule: cstep.cases)
    case (wake e' h')
    have "accepting env e" using ok by (simp add: env_ok_def)
    moreover have "must env P (Idle, st fs None (z\<lparr>tasks := {#(e, None, Resume h)#}\<rparr>))"
      using go by (intro must_take [OF ok z]) (simp_all add: start_job_def outcome_simps)
    ultimately show ?thesis using wake z by (simp add: st_tasks schedule_def outcome_simps) (simp add: quiet_def)
  qed (use z in \<open>simp_all add: quiet_def\<close>)
qed


section \<open>The way home\<close>

definition wrap_context :: "nat option \<Rightarrow> cthread \<Rightarrow> exec_context" where
  "wrap_context ex th = (case ex of None \<Rightarrow> kNullContext | Some e \<Rightarrow> Simple_Checkout e (current_of e th))"

lemma run_wrap:
  assumes "v < length fs" and "fs ! v = Some (ViaFrame b \<lparr>via_executor = ex, via_context = kNullContext, via_continuation = c\<rparr>)"
  shows "Via_GetWrappedContinuation v h (st fs th z) =
    (Return v, st (fs[v := Some (ViaFrame False
       \<lparr>via_executor = ex, via_context = wrap_context ex th, via_continuation = Some h\<rparr>)]) th z)"
  using assms
  by (cases ex) (simp_all add: Via_GetWrappedContinuation_def via_promise_of_def run_frame_at outcome_simps
      set_frame_def checkout_def wrap_context_def)

lemma run_continuation_of:
  "v < length fs \<Longrightarrow> fs ! v = Some (ViaFrame b p) \<Longrightarrow> via_continuation p = Some h \<Longrightarrow>
   continuation_of v (st fs th z) = (Return h, st fs th z)"
  by (simp add: continuation_of_def via_promise_of_def run_frame_at outcome_simps)

text \<open>
  Resuming the wrapped continuation on any thread: without an executor the coroutine goes on there,
  with the executor of the thread it left it goes on on a worker of that executor (the one it left),
  with another one the process stops.
\<close>

lemma via_home:
  assumes ok: "env_ok env" and z: "quiet z" and left: "thread_in env loc th0" and arrived: "thread_in env l th"
    and v: "v < length fs" "fs ! v = Some (ViaFrame False
       \<lparr>via_executor = ex, via_context = wrap_context ex th0, via_continuation = Some h\<rparr>)"
    and go: "\<And>th' b p. (case ex of None \<Rightarrow> thread_in env l th' | Some e \<Rightarrow> loc = Some e \<and> thread_in env loc th') \<Longrightarrow>
      must env P (Going h, st (fs[v := Some (ViaFrame b p)]) th' z)"
    and stop: "\<And>e s. ex = Some e \<Longrightarrow> loc \<noteq> Some e \<Longrightarrow> P (Stopped Abort, s)"
  shows "must env P (Going v, st fs th z)"
proof (rule must_going)
  let ?p = "\<lparr>via_executor = ex, via_context = wrap_context ex th0, via_continuation = Some h\<rparr>"
  let ?fs = "fs[v := Some (ViaFrame True ?p)]"
  have at_v: "?fs ! v = Some (ViaFrame True ?p)" "v < length ?fs" using v by simp_all
  have resume_v: "resume env v (st fs th z) = Via_final env v ?p (st fs th z)"
    using v by (simp add: resume_def run_frame_at outcome_simps)
  note cont = run_continuation_of [OF at_v(2,1), of h]
  show "must env P (after (resume env v (st fs th z)))"
  proof (cases ex)
    case None
    then have "resume env v (st fs th z) = (Return (Some h), st ?fs th z)"
      using cont by (simp add: resume_v Via_final_def set_frame_def outcome_simps)
    with go [of th] None arrived show ?thesis by simp
  next
    case (Some e)
    show ?thesis
    proof (cases "loc = Some e")
      case True
      then obtain w where w: "th0 = Some (e, w)" "w < num_workers env e"
        using left by (auto simp: thread_in_def split: option.splits)
      then have ctx: "via_context ?p = worker_context w"
        using Some by (simp add: wrap_context_def current_of_def Simple_Checkout_worker)
      note home = checkin_home(1) [OF ok w(2), of "ResumeContinuationOf v" "st ?fs th z"]
      show ?thesis
      proof (cases "Pool_GetCurrentId e (current_of e th) = of_nat w")
        case here: True
        then have "resume env v (st fs th z) = (Return (Some h), st ?fs th z)"
          using cont home Some ctx by (simp add: resume_v Via_final_def set_frame_def outcome_simps)
        moreover have "Pool_GetCurrentId e (current_of e th) \<noteq> - 1"
          using here of_nat_not_minus_one [OF worker_number [OF ok w(2)]] by simp
        then have "l = Some e" using current_id [OF ok arrived] by simp
        ultimately show ?thesis using go [of th] Some True arrived by simp
      next
        case False
        then have "resume env v (st fs th z) =
            (Return None, st ?fs th (z\<lparr>tasks := {#(e, Some w, ResumeContinuationOf v)#}\<rparr>))"
          using home Some ctx z
          by (simp add: resume_v Via_final_def set_frame_def outcome_simps st_tasks quiet_def)
        moreover have "must env P (Idle, st ?fs th (z\<lparr>tasks := {#(e, Some w, ResumeContinuationOf v)#}\<rparr>))"
        proof (rule must_take [OF ok z])
          show "i < num_workers env e" if "Some w = Some i" for i using that w by simp
          fix w'
          assume "w' < num_workers env e" "Some w = None \<or> Some w = Some w'"
          then have "thread_in env loc (Some (e, w'))" using True by (simp add: thread_in_def)
          with go [of "Some (e, w')"] Some True cont [of "Some (e, w')"]
          show "must env P (after (bind (start_job (ResumeContinuationOf v)) (\<lambda>h. ret (Some h)) (st ?fs (Some (e, w')) z)))"
            by (simp add: start_job_def outcome_simps)
        qed
        ultimately show ?thesis by simp
      qed
    next
      case False
      have "checkout e (st fs th0 z) = (Return (wrap_context ex th0), st fs th0 z)"
        using Some by (simp add: checkout_def wrap_context_def run_method)
      with checkout_foreign [OF ok _ False, of "st fs th0 z"] left
      have ctx: "wrap_context ex th0 = foreign_context" by simp
      have "thread_in env l (running (st ?fs th z))" using arrived by simp
      from checkin_foreign [OF ok this] have "resume env v (st fs th z) = (Abort, st ?fs th z)"
        using Some ctx by (simp add: resume_v Via_final_def set_frame_def outcome_simps)
      then show ?thesis using stop [OF Some False] by (simp add: inevitably_now)
    qed
  qed
qed


section \<open>Awaiting as calling\<close>

text \<open>The coroutine \<open>h\<close> goes on with \<open>r\<close>, on a thread of \<open>l\<close>; all frames made meanwhile are gone.\<close>

definition resumes ::
  "coro_env \<Rightarrow> ('a config \<Rightarrow> bool) \<Rightarrow> ((exn + 'a val) \<Rightarrow> 'a body) \<Rightarrow> nat \<Rightarrow> 'a val lazy_promise \<Rightarrow>
     'a cmachine \<Rightarrow> 'a frame option list \<Rightarrow> nat option \<Rightarrow> (exn + 'a val) \<Rightarrow> bool" where
  "resumes env P k h p z fs l r \<longleftrightarrow>
     (\<forall>pt m th. thread_in env l th \<longrightarrow>
        must env P (after (exec_body (k r) env h (st (fs[h := Some (LazyFrame pt p)] @ replicate m None) th z))))"

definition goes_on ::
  "coro_env \<Rightarrow> ('a config \<Rightarrow> bool) \<Rightarrow> ((exn + 'a val) \<Rightarrow> 'a body) \<Rightarrow> nat \<Rightarrow> 'a val lazy_promise \<Rightarrow>
     'a cmachine \<Rightarrow> 'a frame option list \<Rightarrow> 'a val outcome \<times> nat option \<Rightarrow> bool" where
  "goes_on env P k h p z fs x \<longleftrightarrow>
     (case fst x of
        Return v \<Rightarrow> resumes env P k h p z fs (snd x) (Inr v)
      | Throw e \<Rightarrow> resumes env P k h p z fs (snd x) (Inl e)
      | Abort \<Rightarrow> (\<forall>s. P (Stopped Abort, s))
      | Undefined \<Rightarrow> (\<forall>s. P (Stopped Undefined, s)))"

definition await_ok :: "coro_env \<Rightarrow> 'a awaitable \<Rightarrow> bool" where
  "await_ok env a \<longleftrightarrow>
     (\<forall>fs th z h pt p loc k P. quiet z \<longrightarrow> h < length fs \<longrightarrow> fs ! h = Some (LazyFrame pt p) \<longrightarrow>
        thread_in env loc th \<longrightarrow> goes_on env P k h p z fs (sem_await a (lp_executor p) loc) \<longrightarrow>
        must env P (after (exec_body (CoAwait a k) env h (st fs th z))))"

text \<open>How a body ends: the thread transfers to the continuation, and the promise holds the result.\<close>

definition ended ::
  "coro_env \<Rightarrow> nat \<Rightarrow> nat \<Rightarrow> 'a val lazy_promise \<Rightarrow> 'a frame option list \<Rightarrow> 'a cmachine \<Rightarrow>
     'a val outcome \<times> nat option \<Rightarrow> 'a config \<Rightarrow> bool" where
  "ended env c h p fs z x y \<longleftrightarrow>
     (let finished = (\<lambda>r. \<exists>m th. thread_in env (snd x) th \<and>
            y = (Going c, st (fs[h := Some (LazyFrame AtFinal (with_result p r))] @ replicate m None) th z))
      in case fst x of
           Return v \<Rightarrow> finished (Inr v)
         | Throw e \<Rightarrow> finished (Inl e)
         | Abort \<Rightarrow> (\<exists>s. y = (Stopped Abort, s))
         | Undefined \<Rightarrow> (\<exists>s. y = (Stopped Undefined, s)))"

definition body_ok :: "coro_env \<Rightarrow> 'a body \<Rightarrow> bool" where
  "body_ok env b \<longleftrightarrow>
     (\<forall>fs th z h pt p c loc. quiet z \<longrightarrow> h < length fs \<longrightarrow> fs ! h = Some (LazyFrame pt p) \<longrightarrow>
        lp_continuation p = Some c \<longrightarrow> thread_in env loc th \<longrightarrow>
        must env (ended env c h p fs z (sem b (lp_executor p) loc)) (after (exec_body b env h (st fs th z))))"

lemma goes_on_outcome:
  "goes_on env P k h p z fs (outcome_of r, l) = resumes env P k h p z fs l r"
  by (cases r) (simp_all add: goes_on_def)

lemma resumesD:
  "resumes env P k h p z fs l r \<Longrightarrow> thread_in env l th \<Longrightarrow>
   must env P (after (exec_body (k r) env h (st (fs[h := Some (LazyFrame pt p)] @ replicate m None) th z)))"
  by (simp add: resumes_def)

text \<open>The three ways an await begins: the result is there, the coroutine sleeps and is woken itself, or it waits behind a wrapper.\<close>

lemma await_ready:
  assumes "begin_await env a k h (st fs th z) = (Return (Inl r), st (fs @ replicate m None) th z)"
    and "h < length fs" and "fs ! h = Some (LazyFrame pt p)" and "thread_in env loc th"
    and "resumes env P k h p z fs loc r"
  shows "must env P (after (exec_body (CoAwait a k) env h (st fs th z)))"
proof -
  have "fs[h := Some (LazyFrame pt p)] = fs" using assms(3) by (metis list_update_id)
  with resumesD [OF assms(5,4), of pt m] assms(1) show ?thesis by (simp add: outcome_simps)
qed

lemma wake_up:
  assumes "h < length fs" and "fs ! h = Some (LazyFrame (AtAwait aw k) p)"
    and "finish_await aw (st fs th z) = (Return r, st gs th z)"
    and "must env P (after (exec_body (k r) env h (st gs th z)))"
  shows "must env P (Going h, st fs th z)"
proof (rule must_going)
  have "resume env h (st fs th z) = exec_body (k r) env h (st gs th z)"
    using assms(1-3) by (simp add: resume_def run_frame_at outcome_simps)
  with assms(4) show "must env P (after (resume env h (st fs th z)))" by simp
qed

lemma run_suspend:
  "h < length fs \<Longrightarrow> fs ! h = Some (LazyFrame pt p) \<Longrightarrow>
   suspend h aw k (st fs th z) = (Return (), st (fs[h := Some (LazyFrame (AtAwait aw k) p)]) th z)"
  by (simp add: suspend_def run_set_point)

lemma run_executor_st:
  "h < length fs \<Longrightarrow> fs ! h = Some (LazyFrame pt p) \<Longrightarrow> executor_of h (st fs th z) = (Return (lp_executor p), st fs th z)"
  by (simp add: run_executor_of)

text \<open>A coroutine that suspended with nothing to clean up.\<close>

lemma wake_plain:
  assumes "h < length fs" and "\<And>s. finish_await aw s = (Return r, s)" and "thread_in env l th" and "resumes env P k h p z fs l r"
  shows "must env P (Going h, st (fs[h := Some (LazyFrame (AtAwait aw k) p)]) th z)"
  using assms resumesD [OF assms(4,3), of "AtAwait aw k" 0]
  by (intro wake_up [where r = r]) simp_all

lemma thread_in_worker: "w < num_workers env e \<Longrightarrow> thread_in env (Some e) (Some (e, w))"
  by (simp add: thread_in_def)

lemma scheduled_plain:
  assumes ok: "env_ok env" and z: "quiet z" and h: "h < length fs"
    and r: "resumes env P k h p z fs (Some e) (Inr VUnit)"
    and run: "begin_await env a k h (st fs th z) =
      seq (schedule env e h) (ret (Inr None)) (st (fs[h := Some (LazyFrame (AtAwait AwUnit k) p)]) th z)"
  shows "must env P (after (exec_body (CoAwait a k) env h (st fs th z)))"
proof -
  let ?fs = "fs[h := Some (LazyFrame (AtAwait AwUnit k) p)]"
  have "accepting env e" using ok by (simp add: env_ok_def)
  then have "after (exec_body (CoAwait a k) env h (st fs th z)) =
      (Idle, st ?fs th (z\<lparr>tasks := {#(e, None, Resume h)#}\<rparr>))"
    using run z by (simp add: schedule_def outcome_simps st_tasks quiet_def)
  moreover have "must env P (Idle, st ?fs th (z\<lparr>tasks := {#(e, None, Resume h)#}\<rparr>))"
  proof (rule must_take [OF ok z])
    fix w assume "w < num_workers env e"
    from wake_plain [OF h _ thread_in_worker [OF this] r, of AwUnit]
    show "must env P (after (bind (start_job (Resume h)) (\<lambda>h. ret (Some h)) (st ?fs (Some (e, w)) z)))"
      by (simp add: start_job_def outcome_simps)
  qed simp
  ultimately show ?thesis by simp
qed

lemma await_executor: "env_ok env \<Longrightarrow> await_ok env ACurrentExecutor"
  unfolding await_ok_def
  by (intro allI impI, rule await_ready [where m = 0])
    (simp_all add: begin_await_defs run_executor_st outcome_simps goes_on_def)

lemma await_yield:
  assumes ok: "env_ok env"
  shows "await_ok env AYield"
  unfolding await_ok_def
proof (intro allI impI)
  fix fs th z h pt p loc k P
  assume z: "quiet z" and h: "h < length fs" "fs ! h = Some (LazyFrame pt p)" and "thread_in env loc th"
    and go: "goes_on env P k h p z fs (sem_await AYield (lp_executor p) loc)"
  show "must env P (after (exec_body (CoAwait AYield k) env h (st fs th z)))"
  proof (cases "lp_executor p")
    case None
    with h go show ?thesis
      by (intro inevitably_now) (simp add: begin_await_defs run_executor_st run_suspend outcome_simps goes_on_def)
  next
    case (Some e)
    with h z go show ?thesis
      by (intro scheduled_plain [OF ok z h(1), of P k p e])
        (simp_all add: begin_await_defs run_executor_st run_suspend outcome_simps goes_on_def)
  qed
qed

lemma await_schedule:
  assumes ok: "env_ok env"
  shows "await_ok env (ASchedule e)"
  unfolding await_ok_def
proof (intro allI impI)
  fix fs th z h pt p loc k P
  assume z: "quiet z" and h: "h < length fs" "fs ! h = Some (LazyFrame pt p)" and th: "thread_in env loc th"
    and "goes_on env P k h p z fs (sem_await (ASchedule e) (lp_executor p) loc)"
  then have go: "resumes env P k h p z fs (Some e) (Inr VUnit)" by (simp add: goes_on_def)
  have inside: "in_executor e (st fs th z) = (Return (loc = Some e), st fs th z)"
    by (rule run_in_executor [OF ok]) (simp add: th)
  show "must env P (after (exec_body (CoAwait (ASchedule e) k) env h (st fs th z)))"
  proof (cases "loc = Some e")
    case True
    with h inside go th show ?thesis
      by (intro await_ready [where m = 0, OF _ h th])
        (simp_all add: begin_await_defs run_executor_st outcome_simps)
  next
    case False
    with h inside show ?thesis
      by (intro scheduled_plain [OF ok z h(1) go])
        (simp add: begin_await_defs run_executor_st run_suspend outcome_simps)
  qed
qed

lemma await_after:
  assumes ok: "env_ok env"
  shows "await_ok env (AScheduleAfter e)"
  unfolding await_ok_def
proof (intro allI impI)
  fix fs th z h pt p loc k P
  assume z: "quiet z" and h: "h < length fs" "fs ! h = Some (LazyFrame pt p)" and "thread_in env loc th"
    and "goes_on env P k h p z fs (sem_await (AScheduleAfter e) (lp_executor p) loc)"
  then have go: "resumes env P k h p z fs (Some e) (Inr VUnit)" by (simp add: goes_on_def)
  let ?fs = "fs[h := Some (LazyFrame (AtAwait AwUnit k) p)]"
  have "after (exec_body (CoAwait (AScheduleAfter e) k) env h (st fs th z)) =
      (Idle, st ?fs th (z\<lparr>timers := {#(e, h)#}\<rparr>))"
    using h z by (simp add: begin_await_defs run_executor_st run_suspend schedule_after_def outcome_simps
        st_tasks quiet_def)
  moreover have "must env P (Idle, st ?fs th (z\<lparr>timers := {#(e, h)#}\<rparr>))"
    using wake_plain [OF h(1) _ thread_in_worker go, of AwUnit] by (intro must_wake [OF ok z]) (simp add: run_method)
  ultimately show "must env P (after (exec_body (CoAwait (AScheduleAfter e) k) env h (st fs th z)))" by simp
qed


lemma await_extern_plain:
  assumes ok: "env_ok env"
  shows "await_ok env (AExtern False arr r)"
  unfolding await_ok_def
proof (intro allI impI)
  fix fs th z h pt p loc k P
  assume z: "quiet z" and h: "h < length fs" "fs ! h = Some (LazyFrame pt p)" and th: "thread_in env loc th"
    and go: "goes_on env P k h p z fs (sem_await (AExtern False arr r) (lp_executor p) loc)"
  show "must env P (after (exec_body (CoAwait (AExtern False arr r) k) env h (st fs th z)))"
  proof (cases "\<exists>l. arr = Arrives l")
    case False
    then have go': "resumes env P k h p z fs loc r" using go by (cases arr) (simp_all add: goes_on_outcome)
    have "begin_await env (AExtern False arr r) k h (st fs th z) = (Return (Inl r), st fs th z)"
      using h False by (cases arr) (simp_all add: begin_await_defs run_executor_st outcome_simps)
    then show ?thesis by (intro await_ready [where m = 0, OF _ h th go']) simp
  next
    case True
    then obtain l where l: "arr = Arrives l" ..
    with go have go': "resumes env P k h p z fs l r" by (simp add: goes_on_outcome)
    let ?fs = "fs[h := Some (LazyFrame (AtAwait (AwExtern r) k) p)]"
    have "after (exec_body (CoAwait (AExtern False arr r) k) env h (st fs th z)) =
        (Idle, st ?fs th (z\<lparr>arrivals := {#(l, h)#}\<rparr>))"
      using h z l by (simp add: begin_await_defs run_executor_st run_suspend outcome_simps st_tasks quiet_def)
    moreover have "must env P (Idle, st ?fs th (z\<lparr>arrivals := {#(l, h)#}\<rparr>))"
      using wake_plain [OF h(1) _ _ go', of "AwExtern r"]
      by (intro must_arrive [OF ok z]) (simp add: run_method)
    ultimately show ?thesis by simp
  qed
qed

text \<open>Back behind the wrapper: the inner awaiter gives \<open>r\<close>, and the wrapper's frame is destroyed.\<close>

lemma wake_wrapped:
  assumes h: "h < length fs" and v: "v = length fs + n"
    and inner: "\<And>gs th'. finish_await aw (st (gs @ es) th' z) = (Return r, st (gs @ es') th' z) \<or> length gs \<noteq> length fs"
    and es: "es' = replicate n None @ [Some (ViaFrame b q)] @ replicate m None"
    and th: "thread_in env l th" and go: "resumes env P k h p z fs l r"
  shows "must env P (Going h, st (fs[h := Some (LazyFrame (AtAwait (AwVia v aw) k) p)] @ es) th z)"
proof (rule wake_up [where r = r])
  let ?gs = "fs[h := Some (LazyFrame (AtAwait (AwVia v aw) k) p)]"
  have "finish_await aw (st (?gs @ es) th z) = (Return r, st (?gs @ es') th z)"
    using inner [of ?gs th] by simp
  moreover have "v < length (?gs @ es')" "(?gs @ es') ! v = Some (ViaFrame b q)"
    using v es by (simp_all add: nth_append)
  then have "destroy v (st (?gs @ es') th z) = (Return (), st ((?gs @ es')[v := None]) th z)"
    by (simp add: run_destroy_via)
  moreover have "(?gs @ es')[v := None] = ?gs @ replicate (n + Suc m) None"
    using v es by (simp add: list_update_append replicate_add replicate_app_Cons_same)
  ultimately show "finish_await (AwVia v aw) (st (?gs @ es) th z) =
      (Return r, st (?gs @ replicate (n + Suc m) None) th z)"
    by (simp add: outcome_simps)
  show "must env P (after (exec_body (k r) env h (st (?gs @ replicate (n + Suc m) None) th z)))"
    by (rule resumesD [OF go th])
qed (use h in \<open>simp_all add: nth_append\<close>)

lemma run_Via_Create:
  "Via_Create ex (st fs th z) = (Return (length fs), st (fs @ [Some (ViaFrame False
     \<lparr>via_executor = ex, via_context = kNullContext, via_continuation = None\<rparr>)]) th z)"
  by (simp add: Via_Create_def new_frame_def)

lemma home_outcome:
  "home ex loc (outcome_of r, l) =
     (case ex of None \<Rightarrow> (outcome_of r, l) | Some e \<Rightarrow> if loc = Some e then (outcome_of r, loc) else (Abort, loc))"
  by (cases r) (simp_all add: home_def split: option.split)

lemma goes_home:
  assumes "goes_on env P k h p z fs (home ex loc (outcome_of r, l))"
  shows "(case ex of None \<Rightarrow> thread_in env l th' | Some e \<Rightarrow> loc = Some e \<and> thread_in env loc th') \<Longrightarrow>
      \<exists>l'. thread_in env l' th' \<and> resumes env P k h p z fs l' r"
    and "ex = Some e \<Longrightarrow> loc \<noteq> Some e \<Longrightarrow> P (Stopped Abort, s)"
  using assms by (auto simp: home_outcome goes_on_outcome goes_on_def [of _ _ _ _ _ _ _ "(Abort, loc)"] split: option.splits if_splits)

lemma await_extern_via:
  fixes r :: "exn + 'a val"
  assumes ok: "env_ok env"
  shows "await_ok env (AExtern True arr r)"
  unfolding await_ok_def
proof (intro allI impI)
  fix fs :: "'a frame option list" and p :: "'a val lazy_promise" and th z h pt loc k P
  let ?a = "AExtern True arr r" and ?ex = "lp_executor p" and ?v = "length fs"
  assume z: "quiet z" and h: "h < length fs" "fs ! h = Some (LazyFrame pt p)" and th: "thread_in env loc th"
    and go: "goes_on env P k h p z fs (sem_await ?a ?ex loc)"
  let ?via = "\<lparr>via_executor = ?ex, via_context = kNullContext, via_continuation = None\<rparr>"
  let ?wrapped = "\<lparr>via_executor = ?ex, via_context = wrap_context ?ex th, via_continuation = Some h\<rparr>"
  note start = begin_await_defs run_executor_st outcome_simps run_Via_Create
  have wrap: "Via_GetWrappedContinuation ?v h (st (gs @ [Some (ViaFrame False ?via)]) th z) =
      (Return ?v, st (gs @ [Some (ViaFrame False ?wrapped)]) th z)" if "length gs = ?v" for gs
    using that run_wrap [of ?v "gs @ [Some (ViaFrame False ?via)]" False ?ex None h th z]
    by (simp add: nth_append list_update_append)
  have gone: "destroy ?v (st (fs @ [Some (ViaFrame b q)]) th z) = (Return (), st (fs @ replicate 1 None) th z)" for b q
    by (simp add: run_destroy_via list_update_append)
  show "must env P (after (exec_body (CoAwait ?a k) env h (st fs th z)))"
  proof (cases arr)
    case Ready
    with go have go': "resumes env P k h p z fs loc r" by (simp add: goes_on_outcome)
    from Ready h gone show ?thesis
      by (intro await_ready [where m = 1, OF _ h th go']) (simp add: start)
  next
    case Declines
    with go have go': "goes_on env P k h p z fs (home ?ex loc (outcome_of r, loc))" by simp
    let ?s = "st (fs @ [Some (ViaFrame False ?wrapped)]) th z"
    have via: "via_promise_of ?v ?s = (Return ?wrapped, ?s)"
      by (simp add: via_promise_of_def run_frame_at outcome_simps)
    have beginning: "begin_await env ?a k h (st fs th z) =
        seq (Via_Checkin env ?v) (seq (destroy ?v) (ret (Inl r))) ?s"
      using h Declines wrap [of fs] by (simp add: start)
    show ?thesis
    proof (cases "\<exists>e. ?ex = Some e \<and> loc \<noteq> Some e")
      case True
      then obtain e where e: "?ex = Some e" "loc \<noteq> Some e" by blast
      have "thread_in env loc (running ?s)" using th by simp
      from checkout_foreign [OF ok this e(2)] checkin_foreign [OF ok this]
      have "Via_Checkin env ?v ?s = (Abort, ?s)"
        using e(1) via by (simp add: Via_Checkin_def outcome_simps checkout_def wrap_context_def)
      with beginning goes_home(2) [OF go' e] show ?thesis by (simp add: outcome_simps inevitably_now)
    next
      case False
      have "Via_Checkin env ?v ?s = (Return (), ?s)"
      proof (cases ?ex)
        case None
        with via show ?thesis by (simp add: Via_Checkin_def outcome_simps)
      next
        case (Some e)
        with False have "loc = Some e" by blast
        with th obtain w where w: "th = Some (e, w)" "w < num_workers env e"
          by (auto simp: thread_in_def split: option.splits)
        with checkin_home(2) [OF ok w(2), of ?s] via Some show ?thesis
          by (simp add: Via_Checkin_def outcome_simps wrap_context_def current_of_def Simple_Checkout_worker)
      qed
      with beginning gone have "begin_await env ?a k h (st fs th z) = (Return (Inl r), st (fs @ replicate 1 None) th z)"
        by (simp add: outcome_simps)
      moreover have "case ?ex of None \<Rightarrow> thread_in env loc th | Some e \<Rightarrow> loc = Some e \<and> thread_in env loc th"
        using False th by (cases ?ex) auto
      then obtain l' where "thread_in env l' th" "resumes env P k h p z fs l' r"
        using goes_home(1) [OF go'] by blast
      ultimately show ?thesis using await_ready h by blast
    qed
  next
    case (Arrives l)
    with go have go': "goes_on env P k h p z fs (home ?ex loc (outcome_of r, l))" by simp
    let ?gs = "fs[h := Some (LazyFrame (AtAwait (AwVia ?v (AwExtern r)) k) p)]"
    let ?fs = "?gs @ [Some (ViaFrame False ?wrapped)]"
    have "after (exec_body (CoAwait ?a k) env h (st fs th z)) = (Idle, st ?fs th (z\<lparr>arrivals := {#(l, ?v)#}\<rparr>))"
      using h z Arrives wrap [of ?gs]
      by (simp add: start run_suspend nth_append list_update_append st_tasks quiet_def)
    moreover have "must env P (Idle, st ?fs th (z\<lparr>arrivals := {#(l, ?v)#}\<rparr>))"
    proof (rule must_arrive [OF ok z], rule via_home [OF ok z th])
      show "?v < length ?fs" "?fs ! ?v = Some (ViaFrame False ?wrapped)" by (simp_all add: nth_append)
      show "P (Stopped Abort, s)" if "?ex = Some e" "loc \<noteq> Some e" for e s using goes_home(2) [OF go' that] .
      fix th' b q
      assume "case ?ex of None \<Rightarrow> thread_in env l th' | Some e \<Rightarrow> loc = Some e \<and> thread_in env loc th'"
      from goes_home(1) [OF go' this] obtain l' where "thread_in env l' th'" "resumes env P k h p z fs l' r" by blast
      then have "must env P (Going h, st (?gs @ [Some (ViaFrame b q)]) th' z)"
        by (intro wake_wrapped [OF h(1), where n = 0 and m = 0 and es' = "[Some (ViaFrame b q)]"])
          (simp_all add: run_method)
      then show "must env P (Going h, st (?fs[?v := Some (ViaFrame b q)]) th' z)"
        by (simp add: list_update_append)
    qed simp_all
    ultimately show ?thesis by simp
  qed
qed

section \<open>Awaiting a Lazy\<close>

text \<open>What follows the end of a body.\<close>

lemma ended_then:
  assumes "must env (ended env c h p fs z x) y"
    and "\<And>r l m th. x = (outcome_of r, l) \<Longrightarrow> thread_in env l th \<Longrightarrow>
      must env P (Going c, st (fs[h := Some (LazyFrame AtFinal (with_result p r))] @ replicate m None) th z)"
    and "\<And>s. fst x = Abort \<Longrightarrow> P (Stopped Abort, s)" and "\<And>s. fst x = Undefined \<Longrightarrow> P (Stopped Undefined, s)"
  shows "must env P y"
proof (rule must_trans [OF assms(1)])
  fix y assume y: "ended env c h p fs z x y"
  show "must env P y"
  proof (cases x)
    case (Pair o' l)
    with y assms(2) [of "Inr _"] assms(2) [of "Inl _"] assms(3,4) show ?thesis
      by (cases o') (auto simp: ended_def Let_def intro: inevitably_now)
  qed
qed

text \<open>Starting the coroutine that was created behind the frames.\<close>

definition started_promise :: "nat option \<Rightarrow> nat \<Rightarrow> 'v lazy_promise" where
  "started_promise ex c = \<lparr>lp_executor = ex, lp_continuation = Some c, lp_result_type = kEmpty, lp_storage = Inactive\<rparr>"

lemma run_new_lazy:
  "new_lazy b (st fs th z) = (Return (length fs), st (fs @ [Some (LazyFrame (AtStart b) LazyPromise_ctor)]) th z)"
  by (simp add: new_lazy_def new_frame_def)

lemma run_child_promise:
  assumes "length gs = n" and "m p = (Return (), q)"
  shows "promise_of n m (st (gs @ Some (LazyFrame pt p) # es) th z) = (Return (), st (gs @ Some (LazyFrame pt q) # es) th z)"
  using assms by (subst run_promise_of [where m = m and p = p and pt = pt, OF _ assms(2)]) (simp_all add: nth_append list_update_append)

lemma start_child:
  assumes b: "body_ok env b" and z: "quiet z" and n: "n < length fs" and th: "thread_in env l th"
    and f: "fs ! n = Some (LazyFrame (AtStart b) (started_promise ex c))"
  shows "must env (ended env c n (started_promise ex c) fs z (sem b ex l)) (Going n, st fs th z)"
proof (rule must_going)
  have "resume env n (st fs th z) = exec_body b env n (st fs th z)"
    using n f by (simp add: resume_def run_frame_at outcome_simps)
  with b [unfolded body_ok_def, rule_format, OF z n f _ th, of c]
  show "must env (ended env c n (started_promise ex c) fs z (sem b ex l)) (after (resume env n (st fs th z)))"
    by (simp add: started_promise_def)
qed

lemma await_lazy:
  fixes b :: "'a body"
  assumes b: "body_ok env b"
  shows "await_ok env (ALazy b)"
  unfolding await_ok_def
proof (intro allI impI)
  fix fs :: "'a frame option list" and p :: "'a val lazy_promise" and th z h pt loc k P
  let ?ex = "lp_executor p" and ?n = "length fs"
  assume z: "quiet z" and h: "h < length fs" "fs ! h = Some (LazyFrame pt p)" and th: "thread_in env loc th"
    and go: "goes_on env P k h p z fs (sem_await (ALazy b) ?ex loc)"
  let ?gs = "fs[h := Some (LazyFrame (AtAwait (AwLazy ?n) k) p)]" and ?q = "started_promise ?ex h"
  let ?fs = "?gs @ [Some (LazyFrame (AtStart b) ?q)]"
  have "after (exec_body (CoAwait (ALazy b) k) env h (st fs th z)) = (Going ?n, st ?fs th z)"
    using h by (simp add: begin_await_defs run_executor_st run_new_lazy outcome_simps run_suspend nth_append
        list_update_append Lazy_await_suspend_def run_child_promise lp_set_executor_def lp_set_continuation_def
        LazyPromise_ctor_def started_promise_def)
  moreover have "must env P (Going ?n, st ?fs th z)"
  proof (rule ended_then [OF start_child [OF b z _ th]])
    show "?n < length ?fs" "?fs ! ?n = Some (LazyFrame (AtStart b) ?q)" by (simp_all add: nth_append)
    fix r l m th'
    assume x: "sem b ?ex loc = (outcome_of r, l)" and th': "thread_in env l th'"
    from go x have go': "resumes env P k h p z fs l r" by (simp add: goes_on_outcome)
    let ?es = "?gs @ Some (LazyFrame AtFinal (with_result ?q r)) # replicate m None"
    have "must env P (Going h, st ?es th' z)"
    proof (rule wake_up [where r = r])
      show "finish_await (AwLazy ?n) (st ?es th' z) = (Return r, st (?gs @ replicate (Suc m) None) th' z)"
        by (simp add: run_AwaitResume [where pt = AtFinal and p = ?q and r = r] nth_append list_update_append)
      show "must env P (after (exec_body (k r) env h (st (?gs @ replicate (Suc m) None) th' z)))"
        by (rule resumesD [OF go' th'])
    qed (use h in \<open>simp_all add: nth_append\<close>)
    then show "must env P (Going h, st (?fs[?n := Some (LazyFrame AtFinal (with_result ?q r))] @ replicate m None) th' z)"
      by (simp add: list_update_append)
  qed (use go in \<open>simp_all add: goes_on_def\<close>)
  ultimately show "must env P (after (exec_body (CoAwait (ALazy b) k) env h (st fs th z)))" by simp
qed

lemma home_stops:
  assumes "goes_on env P k h p z fs (home ex loc x)"
  shows "fst x = Abort \<Longrightarrow> P (Stopped Abort, s)" and "fst x = Undefined \<Longrightarrow> P (Stopped Undefined, s)"
  using assms by (auto simp: home_def goes_on_def split: option.splits)

lemma await_reschedule:
  fixes b :: "'a body"
  assumes ok: "env_ok env" and b: "body_ok env b"
  shows "await_ok env (AReschedule e b)"
  unfolding await_ok_def
proof (intro allI impI)
  fix fs :: "'a frame option list" and p :: "'a val lazy_promise" and th z h pt loc k P
  let ?a = "AReschedule e b" and ?ex = "lp_executor p" and ?n = "length fs" and ?v = "Suc (length fs)"
  assume z: "quiet z" and h: "h < length fs" "fs ! h = Some (LazyFrame pt p)" and th: "thread_in env loc th"
    and go: "goes_on env P k h p z fs (sem_await ?a ?ex loc)"
  let ?wrapped = "\<lparr>via_executor = ?ex, via_context = wrap_context ?ex th, via_continuation = Some h\<rparr>"
  let ?gs = "fs[h := Some (LazyFrame (AtAwait (AwVia ?v (AwReschedule ?n)) k) p)]" and ?q = "started_promise e ?v"
  let ?fs = "?gs @ [Some (LazyFrame (AtStart b) ?q), Some (ViaFrame False ?wrapped)]"
  let ?made = "?gs @ [Some (LazyFrame (AtStart b) (LazyPromise_ctor\<lparr>lp_executor := e\<rparr>)),
    Some (ViaFrame False \<lparr>via_executor = ?ex, via_context = kNullContext, via_continuation = None\<rparr>)]"
  have wrap: "Via_GetWrappedContinuation ?v h (st ?made th z) =
      (Return ?v, st (?made[?v := Some (ViaFrame False ?wrapped)]) th z)"
    by (rule run_wrap [where b = False and c = None]) (simp_all add: nth_append)
  have begun: "begin_await env ?a k h (st fs th z) =
      bind (case e of None \<Rightarrow> undef | Some x \<Rightarrow> seq (schedule env x ?n) (ret None)) (\<lambda>t. ret (Inr t)) (st ?fs th z)"
    using h wrap
    by (cases e; simp add: begin_await_defs run_executor_st run_new_lazy outcome_simps run_suspend nth_append
        list_update_append Reschedule_await_suspend_def run_child_promise lp_set_executor_def lp_set_continuation_def
        LazyPromise_ctor_def started_promise_def run_Via_Create)
  show "must env P (after (exec_body (CoAwait ?a k) env h (st fs th z)))"
  proof (cases e)
    case None
    with go begun show ?thesis by (simp add: outcome_simps goes_on_def inevitably_now)
  next
    case (Some x)
    with go have go': "goes_on env P k h p z fs (home ?ex loc (sem b e (Some x)))" by simp
    have "accepting env x" using ok by (simp add: env_ok_def)
    then have "after (exec_body (CoAwait ?a k) env h (st fs th z)) =
        (Idle, st ?fs th (z\<lparr>tasks := {#(x, None, Resume ?n)#}\<rparr>))"
      using begun Some z by (simp add: schedule_def outcome_simps st_tasks quiet_def)
    moreover have "must env P (Idle, st ?fs th (z\<lparr>tasks := {#(x, None, Resume ?n)#}\<rparr>))"
    proof (rule must_take [OF ok z])
      fix w assume "w < num_workers env x"
      note worker = thread_in_worker [OF this]
      have "must env P (Going ?n, st ?fs (Some (x, w)) z)"
      proof (rule ended_then [OF start_child [OF b z _ worker]])
        show "?n < length ?fs" "?fs ! ?n = Some (LazyFrame (AtStart b) ?q)" by (simp_all add: nth_append)
        fix r l m th'
        assume "sem b e (Some x) = (outcome_of r, l)" and th': "thread_in env l th'"
        with go' have way_back: "goes_on env P k h p z fs (home ?ex loc (outcome_of r, l))" by simp
        let ?es = "?gs @ [Some (LazyFrame AtFinal (with_result ?q r)), Some (ViaFrame False ?wrapped)] @ replicate m None"
        have "must env P (Going ?v, st ?es th' z)"
        proof (rule via_home [OF ok z th th'])
          show "?v < length ?es" "?es ! ?v = Some (ViaFrame False ?wrapped)" by (simp_all add: nth_append)
          show "P (Stopped Abort, s)" if "?ex = Some y" "loc \<noteq> Some y" for y s using goes_home(2) [OF way_back that] .
          fix th'' b q
          assume "case ?ex of None \<Rightarrow> thread_in env l th'' | Some e \<Rightarrow> loc = Some e \<and> thread_in env loc th''"
          from goes_home(1) [OF way_back this] obtain l' where "thread_in env l' th''" "resumes env P k h p z fs l' r" by blast
          then have "must env P (Going h, st (?gs @ [Some (LazyFrame AtFinal (with_result ?q r)), Some (ViaFrame b q)] @ replicate m None) th'' z)"
            by (intro wake_wrapped [OF h(1), where n = 1 and m = m and b = b and q = q
                  and es' = "[None, Some (ViaFrame b q)] @ replicate m None"])
              (auto simp: run_AwaitResume [where pt = AtFinal and p = ?q and r = r] nth_append list_update_append)
          then show "must env P (Going h, st (?es[?v := Some (ViaFrame b q)]) th'' z)"
            by (simp add: list_update_append)
        qed
        then show "must env P (Going ?v, st (?fs[?n := Some (LazyFrame AtFinal (with_result ?q r))] @ replicate m None) th' z)"
          by (simp add: list_update_append)
      qed (use home_stops [OF go'] in simp_all)
      then show "must env P (after (bind (start_job (Resume ?n)) (\<lambda>h. ret (Some h)) (st ?fs (Some (x, w)) z)))"
        by (simp add: start_job_def outcome_simps)
    qed simp
    ultimately show ?thesis by simp
  qed
qed

section \<open>Every body\<close>

lemma ended_now:
  "thread_in env l th \<Longrightarrow>
   ended env c h p fs z (outcome_of r, l) (Going c, st (fs[h := Some (LazyFrame AtFinal (with_result p r))]) th z)"
  by (cases r) (auto simp: ended_def Let_def intro!: exI [of _ 0] exI [of _ th])

lemma body_end:
  fixes b :: "'a body"
  assumes "\<And>p :: 'a val lazy_promise. m p = (Return (), with_result p r)"
    and "\<And>h. exec_body b env h = seq (promise_of h m) (final_suspend h)" and "\<And>ex l. sem b ex l = (outcome_of r, l)"
  shows "body_ok env b"
  unfolding body_ok_def
proof (intro allI impI)
  fix fs :: "'a frame option list" and p :: "'a val lazy_promise" and th z h pt c loc
  assume "h < length fs" "fs ! h = Some (LazyFrame pt p)" "lp_continuation p = Some c" and th: "thread_in env loc th"
  with run_finish_body [of "st fs th z" h pt p c m r, OF _ _ assms(1)]
  have "after (exec_body b env h (st fs th z)) =
      (Going c, st (fs[h := Some (LazyFrame AtFinal (with_result p r))]) th z)"
    by (simp add: assms(2))
  then show "must env (ended env c h p fs z (sem b (lp_executor p) loc)) (after (exec_body b env h (st fs th z)))"
    by (simp add: assms(3) inevitably_now ended_now [OF th])
qed

lemma ended_frames:
  "ended env c h p (fs[h := Some (LazyFrame pt p)] @ replicate m None) z x y \<Longrightarrow> h < length fs \<Longrightarrow> ended env c h p fs z x y"
  by (cases "fst x") (auto simp: ended_def Let_def list_update_append simp flip: replicate_add)

lemma body_await:
  fixes a :: "'a awaitable"
  assumes a: "await_ok env a" and k: "\<And>r. body_ok env (k r)"
  shows "body_ok env (CoAwait a k)"
  unfolding body_ok_def
proof (intro allI impI)
  fix fs :: "'a frame option list" and p :: "'a val lazy_promise" and th z h pt c loc
  define x where "x = sem (CoAwait a k) (lp_executor p) loc"
  let ?P = "ended env c h p fs z x"
  assume z: "quiet z" and h: "h < length fs" "fs ! h = Some (LazyFrame pt p)" and c: "lp_continuation p = Some c"
    and th: "thread_in env loc th"
  have "resumes env ?P k h p z fs l r" if "sem (k r) (lp_executor p) l = x" for l r
    unfolding resumes_def
  proof (intro allI impI)
    fix pt m th' assume th': "thread_in env l th'"
    let ?fs = "fs[h := Some (LazyFrame pt p)] @ replicate m None"
    have "must env (ended env c h p ?fs z x) (after (exec_body (k r) env h (st ?fs th' z)))"
      using k [of r, unfolded body_ok_def, rule_format, of z h ?fs pt p c l th'] z h c th' that by (simp add: nth_append)
    then show "must env ?P (after (exec_body (k r) env h (st ?fs th' z)))"
      by (rule inevitably_mono) (use h in \<open>simp add: ended_frames\<close>)
  qed
  then have "goes_on env ?P k h p z fs (sem_await a (lp_executor p) loc)"
    by (auto simp: goes_on_def ended_def x_def split: outcome.splits prod.splits)
  with a z h th have "must env ?P (after (exec_body (CoAwait a k) env h (st fs th z)))"
    unfolding await_ok_def by blast
  then show "must env (ended env c h p fs z (sem (CoAwait a k) (lp_executor p) loc)) (after (exec_body (CoAwait a k) env h (st fs th z)))"
    by (simp only: x_def)
qed

lemma bodies_correct:
  fixes b :: "'a body" and a :: "'a awaitable"
  assumes "env_ok env"
  shows "body_ok env b" and "await_ok env a"
proof (induction b and a rule: body.induct awaitable.induct)
  case (CoReturn v)
  show ?case by (rule body_end [of "LazyPromise_return_value v" "Inr v"]) (simp_all add: finished_promise)
next
  case (CoThrow e)
  show ?case by (rule body_end [of "LazyPromise_unhandled_exception e" "Inl e"]) (simp_all add: finished_promise)
next
  case CoAbort
  show ?case unfolding body_ok_def by (auto intro!: inevitably_now simp: ended_def outcome_simps)
next
  case (CoAwait a k)
  then show ?case by (intro body_await) auto
next
  case (AExtern via arr r)
  show ?case using await_extern_via [OF assms] await_extern_plain [OF assms] by (cases via) simp_all
qed (simp_all add: assms await_lazy await_reschedule await_executor await_yield await_schedule await_after)

end
