(* ===== verification/Lazy_Sync.thy ===== *)
theory Lazy_Sync
  imports Lazy_Correct
begin

text \<open>
  What a program sees of \<^verbatim>\<open>coro/lazy.hpp\<close>: \<open>SyncAwait\<close> of a \<open>Lazy\<close> or a \<open>RescheduleLazy\<close> gives what
  calling the body would give, \<open>Detach\<close> ends the process when the body throws, and a body that
  awaits through the executor's own wrappers stays on the workers of its executor.
\<close>

section \<open>From the start to the callback\<close>

definition idle_machine :: "'a cmachine" where
  "idle_machine = \<lparr>frames = [], running = None, tasks = {#}, timers = {#}, arrivals = {#}, cb_results = []\<rparr>"

text \<open>A caller makes a coroutine and waits for it; \<open>v\<close> is the place of its variable.\<close>

definition Lazy_sync_at :: "nat \<Rightarrow> nat option \<Rightarrow> 'a body \<Rightarrow> ('a cmachine, nat option) action" where
  "Lazy_sync_at v ex b = bind (new_lazy b) (\<lambda>c. bind (Lazy_SetExecutor ex (Some c)) (SyncAwait_begin v Lazy_Start))"

definition Reschedule_sync_at :: "nat \<Rightarrow> coro_env \<Rightarrow> nat option \<Rightarrow> 'a body \<Rightarrow> ('a cmachine, nat option) action" where
  "Reschedule_sync_at v env ex b =
     bind (new_lazy b) (\<lambda>c. bind (Lazy_Via ex (Some c)) (SyncAwait_begin v (Reschedule_Start env)))"

abbreviation Lazy_sync_await :: "nat option \<Rightarrow> 'a body \<Rightarrow> ('a cmachine, nat option) action" where
  "Lazy_sync_await \<equiv> Lazy_sync_at 0"

abbreviation Reschedule_sync_await :: "coro_env \<Rightarrow> nat option \<Rightarrow> 'a body \<Rightarrow> ('a cmachine, nat option) action" where
  "Reschedule_sync_await \<equiv> Reschedule_sync_at 0"

definition detach :: "coro_env \<Rightarrow> nat option \<Rightarrow> 'a body \<Rightarrow> ('a cmachine, nat option) action" where
  "detach env ex b = bind (new_lazy b) (\<lambda>c. bind (Lazy_Via ex (Some c)) (Reschedule_Detach env))"

lemma quiet_idle [simp]: "quiet idle_machine"
  by (simp add: quiet_def idle_machine_def)

text \<open>The frames of a coroutine and of the detached coroutine that awaits it, and the callback.\<close>

definition launched :: "'a body \<Rightarrow> nat option \<Rightarrow> callback \<Rightarrow> 'a frame option list" where
  "launched b ex cb = [Some (LazyFrame (AtStart b) (started_promise ex 1)), Some (DetachedFrame 0 cb)]"

lemma launch_runs:
  fixes b :: "'a body"
  assumes ok: "env_ok env" and th: "thread_in env loc th"
    and done': "\<And>r l m th'. sem b ex loc = (outcome_of r, l) \<Longrightarrow> thread_in env l th' \<Longrightarrow>
      must env P (after (seq (try_catch (run_callback cb (try_of r))
              (\<lambda>e. bind (gets running) (\<lambda>th. if th = None then throw e else abort)))
           (seq (set_frame 1 None) (ret None))
         (st (None # Some (DetachedFrame 0 cb) # replicate m None) th' idle_machine)))"
    and "\<And>s. fst (sem b ex loc) = Abort \<Longrightarrow> P (Stopped Abort, s)"
    and "\<And>s. fst (sem b ex loc) = Undefined \<Longrightarrow> P (Stopped Undefined, s)"
  shows "must env P (Going 0, st (launched b ex cb) th idle_machine)"
proof (rule ended_then [OF start_child [OF bodies_correct(1) [OF ok] quiet_idle _ th]])
  show "0 < length (launched b ex cb)" "launched b ex cb ! 0 = Some (LazyFrame (AtStart b) (started_promise ex 1))"
    by (simp_all add: launched_def)
  fix r l m th' assume "sem b ex loc = (outcome_of r, l)" "thread_in env l th'"
  from done' [OF this, of m]
  show "must env P (Going 1, st ((launched b ex cb)[0 := Some (LazyFrame AtFinal (with_result (started_promise ex 1) r))]
      @ replicate m None) th' idle_machine)"
    by (intro must_going) (simp add: launched_def resume_def run_frame_at outcome_simps Detached_finish_def
        run_AwaitResumeTry [where pt = AtFinal and p = "started_promise ex 1" and r = r])
qed (use assms(4,5) in auto)

lemma launch_on:
  "after (bind (new_lazy b) (\<lambda>c. bind (Lazy_set_executor msg ex (Some c)) (Lazy_Start cb)) (idle_machine\<lparr>running := th\<rparr>)) =
     (Going 0, st (launched b ex cb) th idle_machine)"
  by (simp add: new_lazy_def new_frame_def Lazy_set_executor_def outcome_simps lp_set_executor_def Lazy_Start_def
      Lazy_await_suspend_def lp_set_continuation_def LOGIC_ASSERT_def promise_of_def frame_at_def set_frame_def
      idle_machine_def launched_def started_promise_def LazyPromise_ctor_def st_def)

lemma launch_scheduled_on:
  "after (bind (new_lazy b) (\<lambda>c. bind (Lazy_set_executor msg (Some e) (Some c)) (Reschedule_Start env cb)) (idle_machine\<lparr>running := th\<rparr>)) =
     after (seq (schedule env e 0) (ret None) (st (launched b (Some e) cb) th idle_machine))"
  by (simp add: new_lazy_def new_frame_def Lazy_set_executor_def outcome_simps lp_set_executor_def Reschedule_Start_def
      Reschedule_await_suspend_def lp_set_continuation_def LOGIC_ASSERT_def promise_of_def frame_at_def set_frame_def
      idle_machine_def launched_def started_promise_def LazyPromise_ctor_def st_def executor_of_def schedule_def)

lemma idle_outside: "idle_machine\<lparr>running := None\<rparr> = idle_machine"
  by (simp add: idle_machine_def)

lemmas launch_now = launch_on [where th = None, unfolded idle_outside]
  and launch_scheduled = launch_scheduled_on [where th = None, unfolded idle_outside]

text \<open>The guards of \<open>SyncAwait\<close> let a thread pass that is no worker.\<close>

lemma SyncAwait_outside:
  assumes "sees s c (LazyFrame pt p)" and "running s = None"
  shows "SyncAwait_begin v start (Some c) s = start (StoreResult v) (Some c) s"
  using assms(2)
  by (cases "lp_executor p")
    (simp_all add: SyncAwait_begin_def LOGIC_ASSERT_def outcome_simps run_executor_of [OF assms(1)] in_executor_def
      current_of_def Simple_CurrentThreadInExecutor_def Pool_GetCurrentId_def Pool_current_init_def)

lemma made_lazy:
  "bind (new_lazy b) (\<lambda>c. bind (Lazy_set_executor msg ex (Some c)) (SyncAwait_begin v start)) idle_machine =
   bind (new_lazy b) (\<lambda>c. bind (Lazy_set_executor msg ex (Some c)) (start (StoreResult v))) idle_machine"
proof -
  let ?s = "st [Some (LazyFrame (AtStart b) (LazyPromise_ctor\<lparr>lp_executor := ex\<rparr>))] None idle_machine"
  have "bind (new_lazy b) (\<lambda>c. bind (Lazy_set_executor msg ex (Some c)) m) idle_machine = m (Some 0) ?s" for m :: "lazy \<Rightarrow> ('a cmachine, nat option) action"
    by (simp add: new_lazy_def new_frame_def Lazy_set_executor_def outcome_simps lp_set_executor_def
        LOGIC_ASSERT_def promise_of_def frame_at_def set_frame_def idle_machine_def st_def)
  moreover have "SyncAwait_begin v start (Some 0) ?s = start (StoreResult v) (Some 0) ?s"
    by (rule SyncAwait_outside [of _ _ "AtStart b" "LazyPromise_ctor\<lparr>lp_executor := ex\<rparr>"]) simp_all
  ultimately show ?thesis by simp
qed

text \<open>On a worker of the coroutine's own executor \<open>SyncAwait\<close> would wait for itself; it throws instead.\<close>

lemma SyncAwait_inside:
  assumes ok: "env_ok env" and c: "sees s c (LazyFrame pt p)" "lp_executor p = Some e"
    and th: "running s = Some (e, w)" "w < num_workers env e"
  shows "SyncAwait_begin v start (Some c) s = (Throw (LogicError ''do not sync await in the same executor with Lazy''), s)"
proof -
  have "in_executor e s = (Return True, s)"
    using run_in_executor [OF ok, of "Some e" s e] th by (simp add: thread_in_def)
  with c show ?thesis by (simp add: SyncAwait_begin_def outcome_simps run_executor_of)
qed

lemma SyncAwait_null: "SyncAwait_begin v start None s = (Throw (LogicError ''Lazy do not have a coroutine handle''), s)"
  by (simp add: SyncAwait_begin_def outcome_simps)

section \<open>SyncAwait\<close>

text \<open>
  The call of \<open>SyncAwait\<close> ends as \<open>x\<close>: it returns that value or throws that exception, no coroutine
  frame is left, and no task, timer or event; or the process has stopped that way.
\<close>

definition syncs_to :: "'a val outcome \<Rightarrow> 'a config \<Rightarrow> bool" where
  "syncs_to x y \<longleftrightarrow>
     (case x of
        Abort \<Rightarrow> fst y = Stopped Abort
      | Undefined \<Rightarrow> fst y = Stopped Undefined
      | _ \<Rightarrow> fst y = Idle \<and> quiet (snd y) \<and> list_all (\<lambda>f. f = None) (frames (snd y)) \<and>
          fst (SyncAwait_end 0 (snd y)) = x)"

lemma stored_syncs:
  assumes ok: "env_ok env" and th: "thread_in env loc th"
  shows "must env (syncs_to (fst (sem b ex loc))) (Going 0, st (launched b ex (StoreResult 0)) th idle_machine)"
proof (rule launch_runs [OF ok th])
  fix r l m th' assume x: "sem b ex loc = (outcome_of r, l)"
  have "list_all (\<lambda>f. f = None) (replicate m (None :: 'a frame option))" by (simp add: list_all_iff)
  then show "must env (syncs_to (fst (sem b ex loc)))
      (after (seq (try_catch (run_callback (StoreResult 0) (try_of r)) (\<lambda>e. bind (gets running) (\<lambda>th. if th = None then throw e else abort)))
           (seq (set_frame 1 None) (ret None))
         (st (None # Some (DetachedFrame 0 (StoreResult 0)) # replicate m None) th' idle_machine)))"
    using x by (intro inevitably_now; cases r)
      (simp_all add: run_callback_def outcome_simps set_frame_def syncs_to_def st_def idle_machine_def quiet_def
        SyncAwait_end_def)
qed (simp_all add: syncs_to_def)

lemma thread_outside: "thread_in env None None"
  by (simp add: thread_in_def)

lemma reschedule_runs:
  assumes "env_ok env"
  shows "must env (syncs_to (fst (sem b (Some e) (Some e)))) (after (Reschedule_sync_await env (Some e) b idle_machine))"
proof -
  have "accepting env e" using assms by (simp add: env_ok_def)
  then have "after (Reschedule_sync_await env (Some e) b idle_machine) =
      (Idle, st (launched b (Some e) (StoreResult 0)) None (idle_machine\<lparr>tasks := {#(e, None, Resume 0)#}\<rparr>))"
    unfolding Reschedule_sync_at_def Lazy_Via_def made_lazy launch_scheduled
    by (simp add: schedule_def outcome_simps) (simp add: st_def idle_machine_def)
  moreover have "must env (syncs_to (fst (sem b (Some e) (Some e))))
      (Idle, st (launched b (Some e) (StoreResult 0)) None (idle_machine\<lparr>tasks := {#(e, None, Resume 0)#}\<rparr>))"
    by (rule must_take [OF assms quiet_idle])
      (simp_all add: start_job_def outcome_simps stored_syncs [OF assms thread_in_worker])
  ultimately show ?thesis by simp
qed

text \<open>
  Claim C26. \<open>SyncAwait\<close> is a call. Whatever the schedulers do, a coroutine tree that a thread outside of the
  executors waits for ends as the direct-style meaning of its body: the value is returned or the
  exception thrown, once, with every coroutine frame destroyed and nothing left in the executors; a
  \<open>Lazy\<close> runs on the calling thread, a \<open>RescheduleLazy\<close> on a worker of its executor. The process stops,
  or does something undefined, exactly if the meaning says so.\<close>

theorem sync_await_is_a_call:
  assumes "env_ok env"
  shows "must env (syncs_to (fst (sem b ex None))) (after (Lazy_sync_await ex b idle_machine)) \<and>
    must env (syncs_to (fst (sem b (Some e) (Some e)))) (after (Reschedule_sync_await env (Some e) b idle_machine))"
  unfolding Lazy_sync_at_def Lazy_SetExecutor_def made_lazy launch_now
  by (intro conjI stored_syncs [OF assms thread_outside] reschedule_runs [OF assms])

section \<open>Detach\<close>

text \<open>
  A detached coroutine has nobody to hand its exception to: if its body throws while a worker runs it, then on
  every schedule the process is terminated.\<close>

lemma detached_exception_ends_process:
  assumes ok: "env_ok env" and b: "sem b (Some e) (Some e) = (Throw x, Some l)"
  shows "must env (\<lambda>y. fst y = Stopped Abort) (after (detach env (Some e) b idle_machine))"
proof -
  have "accepting env e" using ok by (simp add: env_ok_def)
  then have "after (detach env (Some e) b idle_machine) =
      (Idle, st (launched b (Some e) RethrowResult) None (idle_machine\<lparr>tasks := {#(e, None, Resume 0)#}\<rparr>))"
    unfolding detach_def Lazy_Via_def Reschedule_Detach_def launch_scheduled
    by (simp add: schedule_def outcome_simps) (simp add: st_def idle_machine_def)
  moreover have "must env (\<lambda>y. fst y = Stopped Abort)
      (Idle, st (launched b (Some e) RethrowResult) None (idle_machine\<lparr>tasks := {#(e, None, Resume 0)#}\<rparr>))"
  proof (rule must_take [OF ok quiet_idle])
    fix w assume "w < num_workers env e"
    note worker = thread_in_worker [OF this]
    have "must env (\<lambda>y. fst y = Stopped Abort) (Going 0, st (launched b (Some e) RethrowResult) (Some (e, w)) idle_machine)"
    proof (rule launch_runs [OF ok worker])
      fix r l' m th' assume "sem b (Some e) (Some e) = (outcome_of r, l')" "thread_in env l' th'"
      with b have "outcome_of r = Throw x" "th' \<noteq> None" by (simp_all add: thread_in_def split: option.splits)
      then have "r = Inl x" "th' \<noteq> None" by (cases r; simp)+
      then show "must env (\<lambda>y. fst y = Stopped Abort)
          (after (seq (try_catch (run_callback RethrowResult (try_of r)) (\<lambda>e. bind (gets running) (\<lambda>th. if th = None then throw e else abort)))
               (seq (set_frame 1 None) (ret None))
             (st (None # Some (DetachedFrame 0 RethrowResult) # replicate m None) th' idle_machine)))"
        by (intro inevitably_now) (simp add: run_callback_def outcome_simps)
    qed (use b in simp_all)
    then show "must env (\<lambda>y. fst y = Stopped Abort) (after (bind (start_job (Resume 0)) (\<lambda>h. ret (Some h))
        (st (launched b (Some e) RethrowResult) (Some (e, w)) idle_machine)))"
      by (simp add: start_job_def outcome_simps)
  qed simp
  ultimately show ?thesis by simp
qed

section \<open>Staying at home\<close>

text \<open>
  Bodies that leave the executor \<open>e\<close> through its own awaiters only: a wrapped awaitable, another
  coroutine, a rescheduled one (whatever its executor), \<open>Yield\<close>, and what comes back to \<open>e\<close> by itself.
\<close>

inductive stays :: "nat \<Rightarrow> 'a body \<Rightarrow> bool" and stays_await :: "nat \<Rightarrow> 'a awaitable \<Rightarrow> bool" where
  "stays e (CoReturn v)"
| "stays e (CoThrow x)"
| "stays_await e a \<Longrightarrow> (\<And>r. stays e (k r)) \<Longrightarrow> stays e (CoAwait a k)"
| "stays e b \<Longrightarrow> stays_await e (ALazy b)"
| "stays x b \<Longrightarrow> stays_await e (AReschedule (Some x) b)"
| "stays_await e ACurrentExecutor"
| "stays_await e AYield"
| "stays_await e (ASchedule e)"
| "stays_await e (AScheduleAfter e)"
| "stays_await e (AExtern True arr r)"
| "stays_await e (AExtern via Ready r)"
| "stays_await e (AExtern via Declines r)"
| "stays_await e (AExtern via (Arrives (Some e)) r)"

lemma home_stays: "home (Some e) (Some e) (outcome_of r, l) = (outcome_of r, Some e)"
  by (simp add: home_outcome)

lemma stays_home:
  fixes b :: "'a body" and a :: "'a awaitable"
  shows "stays e b \<Longrightarrow> \<exists>r. sem b (Some e) (Some e) = (outcome_of r, Some e)"
    and "stays_await e a \<Longrightarrow> \<exists>r. sem_await a (Some e) (Some e) = (outcome_of r, Some e)"
proof (induction e b and e a rule: stays_stays_await.inducts)
  case (1 e v)
  show ?case by (rule exI [of _ "Inr v"]) simp
next
  case (2 e x)
  show ?case by (rule exI [of _ "Inl x"]) simp
next
  case (3 e a k)
  then obtain r where "sem_await a (Some e) (Some e) = (outcome_of r, Some e)" by blast
  with 3 show ?case by (cases r) simp_all
next
  case (5 x b e)
  then show ?case by (auto simp: home_stays)
next
  case (10 e arr r)
  show ?case by (cases arr) (auto simp: home_stays)
qed (auto simp: home_stays intro: exI [of _ "Inr _"])

text \<open>
  Claim C27. A coroutine that is rescheduled on an executor and leaves it only through the library's awaiters never ends
  the process and never does anything undefined: \<open>SyncAwait\<close> always gets a value or an exception, the
  same one on every schedule.\<close>

theorem at_home_never_stops:
  assumes ok: "env_ok env" and b: "stays e b"
  shows "\<exists>r. must env (\<lambda>y. fst y = Idle \<and> fst (SyncAwait_end 0 (snd y)) = outcome_of r)
    (after (Reschedule_sync_await env (Some e) b idle_machine))"
proof -
  from stays_home(1) [OF b] obtain r where r: "fst (sem b (Some e) (Some e)) = outcome_of r" by auto
  have "must env (syncs_to (fst (sem b (Some e) (Some e)))) (after (Reschedule_sync_await env (Some e) b idle_machine))"
    by (rule reschedule_runs [OF ok])
  then have "must env (\<lambda>y. fst y = Idle \<and> fst (SyncAwait_end 0 (snd y)) = outcome_of r)
    (after (Reschedule_sync_await env (Some e) b idle_machine))"
    by (rule inevitably_mono) (cases r; simp add: r syncs_to_def)
  then show ?thesis ..
qed

section \<open>Examples\<close>

definition two_workers :: coro_env where
  "two_workers = \<lparr>num_workers = (\<lambda>_. 2), accepting = (\<lambda>_. True)\<rparr>"

text \<open>Awaits a child on executor 1, yields and throws what the child returned on.\<close>

definition errand :: "nat body" where
  "errand = CoAwait (AReschedule (Some 1) (CoAwait AYield (\<lambda>_. CoReturn (VVal 7)))) (\<lambda>r.
     CoAwait AYield (\<lambda>_. if r = Inr (VVal 7) then CoThrow (UserExn 7) else CoReturn VUnit))"

lemma two_workers_ok: "env_ok two_workers"
  by (simp add: env_ok_def two_workers_def)

lemma sync_await_is_a_call_witness:
  "must two_workers (syncs_to (Throw (UserExn 7))) (after (Reschedule_sync_await two_workers (Some 0) errand idle_machine))"
  using sync_await_is_a_call [OF two_workers_ok, of errand None 0]
  by (simp add: errand_def home_def)

lemma at_home_never_stops_witness:
  "\<exists>r. must two_workers (\<lambda>y. fst y = Idle \<and> fst (SyncAwait_end 0 (snd y)) = outcome_of r)
     (after (Reschedule_sync_await two_workers (Some 0) errand idle_machine))"
proof (rule at_home_never_stops [OF two_workers_ok])
  show "stays 0 errand"
    unfolding errand_def by (intro stays_stays_await.intros) (auto intro: stays_stays_await.intros split: if_split)
qed

end
