(* ===== verification/Collect_Coroutines.thy ===== *)
theory Collect_Coroutines
  imports Lazy_Sync
begin

text \<open>
  The coroutines of \<^verbatim>\<open>coro/collect.hpp\<close> and \<^verbatim>\<open>coro/sleep.hpp\<close> as bodies: \<open>CollectAll\<close>, the windowed
  forms, and \<open>sleep\<close>. Awaiting the \<open>CollectAllAwaiter\<close> of a group of inputs is one await with
  the contract that \<^verbatim>\<open>Collect_All.thy\<close> proves: it is ready when the group is empty, otherwise it
  suspends and is resumed once, with every output in the place of its input, by the thread that
  finishes last.
\<close>

section \<open>Groups\<close>

text \<open>
  What the environment decides: the \<open>Try\<close> that an input ends with, and the thread that finishes a
  group last, which may differ between the two instances of the template parameter \<open>Para\<close>. \<open>cg_rescheduled\<close> tells the two instances of \<open>AT\<close> apart: a group of \<open>Lazy\<close> has a
  \<open>CoAwait\<close> method, a group of \<open>RescheduleLazy\<close> has none and is wrapped.
\<close>

record ('i, 'a) collector =
  cg_result :: "'i \<Rightarrow> 'a val try_val"
  cg_last :: "bool \<Rightarrow> 'i list \<Rightarrow> nat option"
  cg_rescheduled :: bool

text \<open>
  Awaiting a group. This is not a translation of the awaiter but its contract, the same for both values of \<open>Para\<close>: the code of
  \<open>await_suspend\<close> and its callbacks is \<^verbatim>\<open>Collect_All.thy\<close>, whose results this is (lemma \<open>collect_group_contract\<close> of
  \<^verbatim>\<open>Collect_Race.thy\<close>), also on the machine that runs the inputs (\<^verbatim>\<open>Group_Contracts.thy\<close>).
\<close>

definition collect_group :: "('i, 'a) collector \<Rightarrow> bool \<Rightarrow> 'i list \<Rightarrow> 'a awaitable" where
  "collect_group g para xs =
     AExtern (cg_rescheduled g) (if xs = [] then Ready else Arrives (cg_last g para xs))
       (Inr (VTries (map (cg_result g) xs)))"

fun tries_of :: "'a val \<Rightarrow> 'a val try_val list" where
  "tries_of (VTries ts) = ts"
| "tries_of _ = []"

text \<open>An exception out of a \<open>co_await\<close> that no \<open>try\<close> block catches.\<close>

definition await_value :: "'a awaitable \<Rightarrow> ('a val \<Rightarrow> 'a body) \<Rightarrow> 'a body" where
  "await_value a k = CoAwait a (\<lambda>r. case r of Inl e \<Rightarrow> CoThrow e | Inr v \<Rightarrow> k v)"

section \<open>CollectAll\<close>

definition CollectAllImpl :: "('i, 'a) collector \<Rightarrow> bool \<Rightarrow> 'i list \<Rightarrow> 'a body" where
  "CollectAllImpl g para input = await_value (collect_group g para input) CoReturn"

definition CollectAll :: "('i, 'a) collector \<Rightarrow> 'i list \<Rightarrow> 'a body" where
  "CollectAll g input = await_value (ALazy (CollectAllImpl g False input)) CoReturn"

definition CollectAllPara :: "('i, 'a) collector \<Rightarrow> 'i list \<Rightarrow> 'a body" where
  "CollectAllPara g input = await_value (ALazy (CollectAllImpl g True input)) CoReturn"

text \<open>
  The loop of \<open>CollectAllWindowedImpl\<close>, entered with a \<open>max_concurrency\<close> that is not zero: \<open>Suc m\<close>. The
  sum of \<open>start\<close> and \<open>max_concurrency\<close> is at most twice the size of the vector here, so it does not wrap.
\<close>

function windowed_loop ::
  "('i, 'a) collector \<Rightarrow> bool \<Rightarrow> nat \<Rightarrow> bool \<Rightarrow> 'i list \<Rightarrow> nat \<Rightarrow> 'a val try_val list \<Rightarrow> 'a body" where
  "windowed_loop g para m yield input start output' =
     (if start < length input then
        let end' = min (length input) (start + Suc m) in
          await_value (collect_group g para (take (end' - start) (drop start input))) (\<lambda>tmp_output.
            if yield
            then await_value AYield (\<lambda>_. windowed_loop g para m yield input end' (output' @ tries_of tmp_output))
            else windowed_loop g para m yield input end' (output' @ tries_of tmp_output))
      else CoReturn (VTries output'))"
  by pat_completeness auto
termination
  by (relation "measure (\<lambda>(g, para, m, yield, input, start, output'). length input - start)") auto

declare windowed_loop.simps [simp del]

lemma windowed_step:
  "start < length input \<Longrightarrow> end' = min (length input) (start + Suc m) \<Longrightarrow>
   windowed_loop g para m yield input start output' =
     await_value (collect_group g para (take (end' - start) (drop start input))) (\<lambda>tmp_output.
       if yield then await_value AYield (\<lambda>_. windowed_loop g para m yield input end' (output' @ tries_of tmp_output))
       else windowed_loop g para m yield input end' (output' @ tries_of tmp_output))"
  by (subst windowed_loop.simps) (simp only: if_True Let_def)

lemma windowed_end: "\<not> start < length input \<Longrightarrow> windowed_loop g para m yield input start output' = CoReturn (VTries output')"
  by (simp add: windowed_loop.simps)

definition CollectAllWindowedImpl :: "('i, 'a) collector \<Rightarrow> bool \<Rightarrow> nat \<Rightarrow> bool \<Rightarrow> 'i list \<Rightarrow> 'a body" where
  "CollectAllWindowedImpl g para max_concurrency yield input =
     (case max_concurrency of
        0 \<Rightarrow> await_value (collect_group g para input) CoReturn
      | Suc m \<Rightarrow>
          if length input \<le> max_concurrency then await_value (collect_group g para input) CoReturn
          else windowed_loop g para m yield input 0 [])"

definition CollectAllWindowed :: "('i, 'a) collector \<Rightarrow> nat \<Rightarrow> bool \<Rightarrow> 'i list \<Rightarrow> 'a body" where
  "CollectAllWindowed g max_concurrency yield input =
     await_value (ALazy (CollectAllWindowedImpl g False max_concurrency yield input)) CoReturn"

definition CollectAllWindowedPara :: "('i, 'a) collector \<Rightarrow> nat \<Rightarrow> bool \<Rightarrow> 'i list \<Rightarrow> 'a body" where
  "CollectAllWindowedPara g max_concurrency yield input =
     await_value (ALazy (CollectAllWindowedImpl g True max_concurrency yield input)) CoReturn"

text \<open>
  A default constructed \<open>Try\<close>, as the tuple of \<^verbatim>\<open>Variadic_Collect.thy\<close> and the results of \<^verbatim>\<open>Collect_Race.thy\<close> start with: a \<open>Try<void>\<close>
  without exception counts as its value.
\<close>

definition default_try :: "bool \<Rightarrow> 'a val try_val" where
  "default_try is_void = (if is_void then Value VUnit else Nothing)"

section \<open>sleep\<close>

definition sleep :: "'a body" where
  "sleep = CoAwait ACurrentExecutor (\<lambda>r.
     case r of
       Inr (VExecutor (Some e)) \<Rightarrow> await_value (AScheduleAfter e) (\<lambda>_. CoReturn VUnit)
     | _ \<Rightarrow> CoReturn VUnit)"

section \<open>Meaning\<close>

text \<open>Where a group leaves the coroutine: behind the wrapper at home, else with the last input.\<close>

lemma sem_group_home:
  assumes "cg_rescheduled g \<or> xs = [] \<or> cg_last g para xs = Some e"
  shows "sem_await (collect_group g para xs) (Some e) (Some e) = (Return (VTries (map (cg_result g) xs)), Some e)"
  using assms by (auto simp: collect_group_def home_def)

lemma sem_await_value:
  "sem (await_value a k) ex loc =
     (case sem_await a ex loc of (Return v, l) \<Rightarrow> sem (k v) ex l | (Throw e, l) \<Rightarrow> (Throw e, l) | (Abort, l) \<Rightarrow> (Abort, l)
      | (Undefined, l) \<Rightarrow> (Undefined, l))"
  by (cases "sem_await a ex loc"; cases "fst (sem_await a ex loc)") (simp_all add: await_value_def)

text \<open>Every group that the loop forms ends on the executor.\<close>

definition collects_at :: "nat \<Rightarrow> ('i, 'a) collector \<Rightarrow> bool" where
  "collects_at e g \<longleftrightarrow> cg_rescheduled g \<or> (\<forall>para xs. cg_last g para xs = Some e)"

lemma sem_group:
  "collects_at e g \<Longrightarrow>
   sem_await (collect_group g para xs) (Some e) (Some e) = (Return (VTries (map (cg_result g) xs)), Some e)"
  by (rule sem_group_home) (auto simp: collects_at_def)

lemma group_and_rest: "start \<le> end' \<Longrightarrow> drop start xs = take (end' - start) (drop start xs) @ drop end' xs"
  by (metis append_take_drop_id drop_drop le_add_diff_inverse2)

lemma sem_windowed_loop:
  assumes "collects_at e g"
  shows "sem (windowed_loop g para m yield input start out) (Some e) (Some e) =
    (Return (VTries (out @ map (cg_result g) (drop start input))), Some e)"
  using assms
proof (induction g para m yield input start out rule: windowed_loop.induct)
  case (1 g para m yield input start out)
  show ?case
  proof (cases "start < length input")
    case False
    then show ?thesis by (simp add: windowed_end)
  next
    case True
    define e' where "e' = min (length input) (start + Suc m)"
    then have "drop start input = take (e' - start) (drop start input) @ drop e' input"
      using True by (intro group_and_rest) simp
    then have all: "map (cg_result g) (drop start input) =
        map (cg_result g) (take (e' - start) (drop start input)) @ map (cg_result g) (drop e' input)"
      by (metis map_append)
    have "sem (windowed_loop g para m yield input e' (out @ ts)) (Some e) (Some e) =
        (Return (VTries ((out @ ts) @ map (cg_result g) (drop e' input))), Some e)" for ts
      using "1.IH" [OF True e'_def] "1.prems" tries_of.simps(1) [of ts] by (cases yield) metis+
    then show ?thesis
      using "1.prems" by (cases yield) (simp_all add: windowed_step [OF True e'_def] sem_await_value sem_group all)
  qed
qed

lemma sem_windowed:
  assumes "collects_at e g"
  shows "sem (CollectAllWindowedImpl g para n yield input) (Some e) (Some e) =
    (Return (VTries (map (cg_result g) input)), Some e)"
  using sem_windowed_loop [OF assms, of para _ yield input 0 "[]"]
  by (simp add: CollectAllWindowedImpl_def sem_await_value sem_group [OF assms] split: nat.split)

lemma sem_collect_all:
  assumes "collects_at e g"
  shows "sem (CollectAll g input) (Some e) (Some e) = (Return (VTries (map (cg_result g) input)), Some e)"
  by (simp add: CollectAll_def CollectAllImpl_def sem_await_value sem_group [OF assms])

lemma sem_collect_all_para:
  assumes "collects_at e g"
  shows "sem (CollectAllPara g input) (Some e) (Some e) = (Return (VTries (map (cg_result g) input)), Some e)"
  by (simp add: CollectAllPara_def CollectAllImpl_def sem_await_value sem_group [OF assms])

text \<open>\<open>sleep\<close> goes through the timer of its executor; without one it blocks the thread where it is.\<close>

lemma sem_sleep: "sem sleep (Some e) loc = (Return VUnit, Some e)" "sem sleep None loc = (Return VUnit, loc)"
  by (simp_all add: sleep_def sem_await_value)

section \<open>Bounds\<close>

text \<open>What a body awaits, one after the other, when the awaits give the answers \<open>reply\<close>.\<close>

primrec awaited :: "'a body \<Rightarrow> ('a awaitable \<Rightarrow> exn + 'a val) \<Rightarrow> 'a awaitable list" where
  "awaited (CoReturn v) reply = []"
| "awaited (CoThrow e) reply = []"
| "awaited CoAbort reply = []"
| "awaited (CoAwait a k) reply = a # awaited (k (reply a)) reply"

text \<open>The groups in order, of at most \<open>n\<close> inputs each.\<close>

fun groups_of :: "nat \<Rightarrow> 'i list \<Rightarrow> 'i list list" where
  "groups_of n [] = []"
| "groups_of n (x # xs) = take n (x # xs) # groups_of n (drop (n - 1) xs)"

lemma awaited_value: "awaited (await_value a k) (\<lambda>a. Inr (reply a)) = a # awaited (k (reply a)) (\<lambda>a. Inr (reply a))"
  by (simp add: await_value_def)

lemma groups_of_drop:
  "start < length xs \<Longrightarrow> end' = min (length xs) (start + Suc m) \<Longrightarrow>
   groups_of (Suc m) (drop start xs) = take (end' - start) (drop start xs) # groups_of (Suc m) (drop end' xs)"
proof -
  assume "start < length xs" and e: "end' = min (length xs) (start + Suc m)"
  then obtain y ys where y: "drop start xs = y # ys" by (cases "drop start xs") auto
  then have "drop m ys = drop (start + Suc m) xs" by (metis add.commute drop_Suc_Cons drop_drop)
  also have "\<dots> = drop end' xs" using e by (simp add: min_def)
  finally have "drop m ys = drop end' xs" .
  moreover have "take (Suc m) (drop start xs) = take (end' - start) (drop start xs)"
    using e by (simp add: min_def)
  ultimately show ?thesis using y by simp
qed

lemma awaited_windowed_loop:
  "awaited (windowed_loop g para m yield input start out) (\<lambda>a. Inr (reply a)) =
     concat (map (\<lambda>xs. collect_group g para xs # (if yield then [AYield] else [])) (groups_of (Suc m) (drop start input)))"
proof (induction g para m yield input start out rule: windowed_loop.induct)
  case (1 g para m yield input start out)
  show ?case
  proof (cases "start < length input")
    case False
    then show ?thesis by (simp add: windowed_end)
  next
    case True
    define e' where "e' = min (length input) (start + Suc m)"
    from 1 [OF True e'_def] show ?thesis
      by (cases yield) (simp_all add: windowed_step [OF True e'_def] awaited_value groups_of_drop [OF True e'_def])
  qed
qed

lemma groups_of_bounds: "list_all (\<lambda>xs. length xs \<le> n) (groups_of n ys)"
  by (induction n ys rule: groups_of.induct) simp_all

lemma concat_groups_of: "concat (groups_of (Suc m) ys) = ys"
  by (induction "Suc m" ys rule: groups_of.induct) simp_all

lemma filter_groups:
  "filter (\<lambda>a. a \<noteq> AYield) (concat (map (\<lambda>xs. collect_group g para xs # (if yield then [AYield] else [])) gs)) =
     map (collect_group g para) gs"
  by (induction gs) (simp_all add: collect_group_def)

lemma awaited_windowed:
  "filter (\<lambda>a. a \<noteq> AYield) (awaited (CollectAllWindowedImpl g para (Suc m) yield input) (\<lambda>a. Inr (reply a))) =
     map (collect_group g para) (if length input \<le> Suc m then [input] else groups_of (Suc m) input)"
proof (cases "length input \<le> Suc m")
  case True
  then show ?thesis by (simp add: CollectAllWindowedImpl_def awaited_value) (simp add: collect_group_def)
next
  case False
  then show ?thesis
    using awaited_windowed_loop [of g para m yield input 0 "[]" reply] filter_groups [of g para yield "groups_of (Suc m) input"]
    by (simp add: CollectAllWindowedImpl_def)
qed

section \<open>Windowed collection\<close>

text \<open>
  Claim C29. The window changes when the inputs run, not what is collected: \<open>CollectAllWindowed\<close> and
  \<open>CollectAllWindowedPara\<close>, for every \<open>max_concurrency\<close>, with or without yielding between the groups,
  \<open>CollectAllPara\<close> and \<open>CollectAll\<close> on the same inputs all end, on every schedule, with the vector of all
  the inputs' results in the order of the inputs.
\<close>

theorem windowed_collects_like_collect_all:
  assumes "env_ok env" and "collects_at e g"
    and "b = CollectAllWindowed g n yield input \<or> b = CollectAllWindowedPara g n yield input \<or>
      b = CollectAllPara g input \<or> b = CollectAll g input"
  shows "must env (syncs_to (Return (VTries (map (cg_result g) input))))
      (after (Reschedule_sync_await env (Some e) b idle_machine))"
proof -
  have "sem b (Some e) (Some e) = (Return (VTries (map (cg_result g) input)), Some e)"
    using assms(3) sem_collect_all [OF assms(2)] sem_collect_all_para [OF assms(2)]
    by (auto simp: CollectAllWindowed_def CollectAllWindowedPara_def sem_await_value sem_windowed [OF assms(2)])
  then show ?thesis using reschedule_runs [OF assms(1), of b e] by simp
qed

text \<open>
  Claim C30. The window bounds the concurrency: apart from the yields, the coroutine awaits groups of inputs one after
  the other, and the groups are the input vector cut into pieces: no input is lost, repeated or moved to another place.
  No group has more than \<open>max_concurrency\<close> inputs if that is not zero; a \<open>max_concurrency\<close> of zero
  sets no bound: all inputs are awaited as one group.\<close>

theorem windowed_groups_bounded:
  "\<exists>gs. filter (\<lambda>a. a \<noteq> AYield) (awaited (CollectAllWindowedImpl g para n yield input) (\<lambda>a. Inr (reply a))) =
      map (collect_group g para) gs \<and> concat gs = input \<and>
      (if n = 0 then gs = [input] else list_all (\<lambda>xs. length xs \<le> n) gs)"
proof (cases n)
  case 0
  then have "awaited (CollectAllWindowedImpl g para n yield input) (\<lambda>a. Inr (reply a)) = [collect_group g para input]"
    by (simp add: CollectAllWindowedImpl_def awaited_value)
  with 0 show ?thesis by (intro exI [of _ "[input]"]) (simp add: collect_group_def)
next
  case (Suc m)
  let ?gs = "if length input \<le> n then [input] else groups_of n input"
  have "concat ?gs = input" "list_all (\<lambda>xs. length xs \<le> n) ?gs"
    using concat_groups_of [of m input] groups_of_bounds [of n input] Suc by simp_all
  with awaited_windowed [of g para m yield input reply] Suc show ?thesis by (intro exI [of _ ?gs]) simp
qed

section \<open>Examples\<close>

definition squares :: "(nat, nat) collector" where
  "squares = \<lparr>cg_result = (\<lambda>i. if i = 2 then Exception (Some (UserExn i)) else Value (VVal (i * i))),
     cg_last = (\<lambda>_ _. None), cg_rescheduled = True\<rparr>"

lemma windowed_collects_like_collect_all_witness:
  "must two_workers (syncs_to (Return (VTries [Value (VVal 1), Exception (Some (UserExn 2)), Value (VVal 9)])))
     (after (Reschedule_sync_await two_workers (Some 0) (CollectAllWindowed squares 2 True [1, 2, 3]) idle_machine))"
  using windowed_collects_like_collect_all
    [OF two_workers_ok, of 0 squares "CollectAllWindowed squares 2 True [1, 2, 3]" 2 True "[1, 2, 3]"]
  by (simp add: collects_at_def squares_def)

end
