(* ===== verification/Collect_Race.thy ===== *)
theory Collect_Race
  imports Collect_Coroutines Collect_All Collect_Any
begin

text \<open>
  \<open>CollectAny\<close> of \<^verbatim>\<open>coro/collect.hpp\<close> as a coroutine over the race that \<^verbatim>\<open>Collect_Any.thy\<close> models, the awaiters of
  both collectors before and after the race, and the link from the contracts that coroutines rely on to the awaiters that keep them.
\<close>

section \<open>Awaiters\<close>

definition AnyResultVoid_default :: "'a val any_result" where
  "AnyResultVoid_default = \<lparr>result_index = - 1, result_value = default_try True\<rparr>"

text \<open>The awaiter owns its inputs; moving it takes the inputs and the shared result.\<close>

record ('i, 'r) any_awaiter =
  aw_inputs :: "'i list"
  aw_result :: "'r option"

definition CollectAnyAwaiter_ctor :: "'i list \<Rightarrow> ('i, 'r) any_awaiter" where
  "CollectAnyAwaiter_ctor input = \<lparr>aw_inputs = input, aw_result = None\<rparr>"

definition CollectAnyAwaiter_move_ctor :: "('i, 'r) any_awaiter \<Rightarrow> ('i, 'r) any_awaiter \<times> ('i, 'r) any_awaiter" where
  "CollectAnyAwaiter_move_ctor other = (other, \<lparr>aw_inputs = [], aw_result = None\<rparr>)"

text \<open>\<open>SimpleCollectAnyAwaitable::CoAwait\<close>: whatever the executor is.\<close>

definition SimpleCollectAny_CoAwait :: "'i list \<Rightarrow> nat option \<Rightarrow> ('i, 'r) any_awaiter" where
  "SimpleCollectAny_CoAwait input ex = CollectAnyAwaiter_ctor input"

text \<open>
  The awaiter of \<open>CollectAll\<close> is made by \<open>SimpleCollectAllAwaitable::CoAwait\<close> and moved into the frame before it is
  awaited; \<open>await_resume\<close> moves the outputs out. Moving takes the inputs, the outputs and the event.
\<close>

definition SimpleCollectAll_CoAwait :: "nat \<Rightarrow> nat option \<Rightarrow> ('v, 'h) collect_all" where
  "SimpleCollectAll_CoAwait n ex = CollectAll_ctor n"

definition CollectAllAwaiter_move_ctor :: "('v, 'h) collect_all \<Rightarrow> ('v, 'h) collect_all \<times> ('v, 'h) collect_all" where
  "CollectAllAwaiter_move_ctor other =
     (case CountEvent_move_ctor (event other) of
        (ev, ev') \<Rightarrow> (other\<lparr>event := ev\<rparr>, other\<lparr>inputs := [], outputs := [], event := ev'\<rparr>))"

definition CollectAll_await_resume :: "('v, 'h) collect_all \<Rightarrow> 'v try_val list \<times> ('v, 'h) collect_all" where
  "CollectAll_await_resume s = (outputs s, s\<lparr>outputs := []\<rparr>)"

text \<open>Moved before it is awaited, an awaiter is as good as new, and the one it came from is ready.\<close>

lemma move_before_await:
  "fst (CollectAllAwaiter_move_ctor (SimpleCollectAll_CoAwait n ex)) = CollectAll_ctor n"
  "CollectAll_await_ready (snd (CollectAllAwaiter_move_ctor s))"
  by (simp_all add: CollectAllAwaiter_move_ctor_def SimpleCollectAll_CoAwait_def CollectAll_ctor_def CountEvent_move_ctor_def
      CountEvent_ctor_def CollectAll_await_ready_def)

lemma resumed_with_outputs:
  assumes "collect_all_reachable para has_executor h res n s" and "resumes s \<noteq> []"
  shows "resumes s = [(h, fst (CollectAll_await_resume s))]"
proof -
  note inv = collect_reachable_ok [OF assms(1)]
  have rem: "remaining s = 0" using inv assms(2) by (auto simp: collect_ok_def split: if_splits)
  then have "\<forall>x \<in> set (inputs s). x = Finished"
    using sum_cost_zero [of "inputs s"] by (simp add: remaining_def split: if_splits)
  then have "\<forall>i < n. inputs s ! i = Finished" using inv by (simp add: collect_ok_def)
  with inv have "outputs s = map res [0..<n]" by (intro nth_equalityI) (simp_all add: collect_ok_def)
  with collect_resumed_stuck [OF inv assms(2)] show ?thesis by (simp add: CollectAll_await_resume_def)
qed

section \<open>The coroutine\<close>

text \<open>
  What the environment decides: what the shared result object holds when the coroutine is resumed, and the thread that ends it.
  \<open>ra_type\<close> is the value type of the inputs, \<open>ra_rescheduled\<close> as in \<^verbatim>\<open>Collect_Coroutines.thy\<close>.
\<close>

record ('i, 'a) racer =
  ra_result :: "'i list \<Rightarrow> 'a val any_result"
  ra_thread :: "'i list \<Rightarrow> nat option"
  ra_type :: "'a val any_type"
  ra_rescheduled :: bool

text \<open>The suspension of the coroutine until the race resumes it.\<close>

definition any_group :: "('i, 'a) racer \<Rightarrow> 'i list \<Rightarrow> 'a awaitable" where
  "any_group r xs = AExtern (ra_rescheduled r) (Arrives (ra_thread r xs)) (Inr VUnit)"

text \<open>The rest of \<open>co_return co_await\<close>: \<open>await_resume\<close> on the pointer \<open>result\<close>, and the return of what it gives.\<close>

definition CollectAny_resumed :: "'a val any_type \<Rightarrow> 'a val any_result option \<Rightarrow> 'a body" where
  "CollectAny_resumed ty result =
     (case fst (CollectAny_await_resume ty result) of
        Return x \<Rightarrow> CoReturn (VAny (result_index x) (result_value x))
      | _ \<Rightarrow> CoAbort)"

text \<open>With no input the awaiter is ready and there is no result object: \<open>await_resume\<close> fails its assertion.\<close>

definition CollectAny :: "('i, 'a) racer \<Rightarrow> 'i list \<Rightarrow> 'a body" where
  "CollectAny r input =
     (if CollectAny_await_ready (length input) None then CollectAny_resumed (ra_type r) None
      else await_value (any_group r input) (\<lambda>_. CollectAny_resumed (ra_type r) (Some (ra_result r input))))"

lemma CollectAny_resumed_cases:
  "CollectAny_resumed ty None = CoAbort"
  "CollectAny_resumed ty (Some x) = CoReturn (VAny (result_index x) (result_value x))"
proof -
  show "CollectAny_resumed ty None = CoAbort" by (simp add: CollectAny_resumed_def CollectAny_await_resume_def)
  show "CollectAny_resumed ty (Some x) = CoReturn (VAny (result_index x) (result_value x))"
    by (cases ty) (simp_all add: CollectAny_resumed_def CollectAny_await_resume_def AnyResult_move_ctor_def AnyResultVoid_move_ctor_def)
qed

lemma CollectAny_cases:
  "CollectAny r [] = CoAbort"
  "xs \<noteq> [] \<Longrightarrow> CollectAny r xs =
     await_value (any_group r xs) (\<lambda>_. CoReturn (VAny (result_index (ra_result r xs)) (result_value (ra_result r xs))))"
  by (simp_all add: CollectAny_def CollectAny_await_ready_def CollectAny_resumed_cases)

lemma sem_collect_any:
  assumes "xs \<noteq> []"
  shows "fst (sem (CollectAny r xs) (Some e) (Some e)) =
    Return (VAny (result_index (ra_result r xs)) (result_value (ra_result r xs)))"
  using assms by (simp add: CollectAny_cases sem_await_value any_group_def home_def)

section \<open>The contracts\<close>

text \<open>The contract of \<open>collect_group\<close>: what the awaiter of \<^verbatim>\<open>Collect_All.thy\<close> resumes with is what the await gives.\<close>

lemma collect_group_contract:
  assumes "collect_all_reachable para has_executor h (\<lambda>i. cg_result g (xs ! i)) (length xs) s" and "resumes s \<noteq> []"
  shows "\<exists>ts. resumes s = [(h, ts)] \<and>
    collect_group g para xs = AExtern (cg_rescheduled g) (if xs = [] then Ready else Arrives (cg_last g para xs)) (Inr (VTries ts))"
proof -
  have "resumes s = [(h, map (\<lambda>i. cg_result g (xs ! i)) [0..<length xs])]"
    using collect_resumed_stuck [OF collect_reachable_ok [OF assms(1)] assms(2)] by blast
  moreover have "map (\<lambda>i. cg_result g (xs ! i)) [0..<length xs] = map (cg_result g) xs"
    by (rule nth_equalityI) simp_all
  ultimately show ?thesis by (simp add: collect_group_def)
qed

text \<open>
  A racer describes how a race ended when the shared object, as it was when the coroutine was resumed, is what it says.
\<close>

definition ended_race :: "('i, 'a) racer \<Rightarrow> 'i list \<Rightarrow> 'h \<Rightarrow> ('a val, 'h) collect_any \<Rightarrow> bool" where
  "ended_race r xs h s \<longleftrightarrow> any_resumes s = [(h, result_index (ra_result r xs), result_value (ra_result r xs))]"

text \<open>
  Claim C39. \<open>SyncAwait\<close> of \<open>CollectAny\<close>, rescheduled on an executor: however the race of the inputs ends, on every schedule
  the caller gets, through \<open>await_resume\<close> and the move of the shared result, the index of the input that finished first and what
  it finished with, value or exception; an empty vector stops the process.\<close>

theorem collect_any_sync:
  assumes ok: "env_ok env" and race: "collect_any_reachable (ra_type r) h res (length xs) s" and r: "ended_race r xs h s"
  shows "(\<exists>i. hd (order s) < length xs \<and> unat i = hd (order s) \<and>
      must env (syncs_to (Return (VAny i (res (hd (order s)))))) (after (Reschedule_sync_await env (Some e) (CollectAny r xs) idle_machine))) \<and>
    must env (syncs_to Abort) (after (Reschedule_sync_await env (Some e) (CollectAny r ([] :: 'i list)) idle_machine))"
proof -
  note inv = any_reachable_ok [OF race]
  have "any_resumes s \<noteq> []" using r by (simp add: ended_race_def)
  with any_resumed [OF inv] have w: "hd (order s) < length xs" "any_resumes s = [(h, of_nat (hd (order s)), res (hd (order s)))]" by auto
  with r have x: "result_index (ra_result r xs) = of_nat (hd (order s))" "result_value (ra_result r xs) = res (hd (order s))"
    by (simp_all add: ended_race_def)
  from w have "xs \<noteq> []" by auto
  from reschedule_runs [OF ok, of "CollectAny r xs" e, unfolded sem_collect_any [OF this] x]
  have "must env (syncs_to (Return (VAny (of_nat (hd (order s))) (res (hd (order s))))))
    (after (Reschedule_sync_await env (Some e) (CollectAny r xs) idle_machine))" .
  moreover have "unat (of_nat (hd (order s)) :: 64 word) = hd (order s)"
    using w(1) any_okD(2) [OF inv] by (intro of_nat_64_unat) simp
  moreover have "must env (syncs_to Abort) (after (Reschedule_sync_await env (Some e) (CollectAny r []) idle_machine))"
    using reschedule_runs [OF ok, of "CollectAny r []" e] by (simp add: CollectAny_cases)
  ultimately show ?thesis using w(1) by blast
qed

text \<open>Two inputs, the second of which throws and is the first to finish.\<close>

definition demo_racer :: "(nat, nat) racer" where
  "demo_racer = \<lparr>ra_result = (\<lambda>_. \<lparr>result_index = 1, result_value = Exception (Some (UserExn 8))\<rparr>),
     ra_thread = (\<lambda>_. Some 0), ra_type = OfValue id, ra_rescheduled = True\<rparr>"

definition demo_results :: "nat \<Rightarrow> nat val try_val" where
  "demo_results i = (if i = 1 then Exception (Some (UserExn 8)) else Value (VVal 7))"

lemma demo_race:
  "\<exists>s. collect_any_reachable (ra_type demo_racer) ''co'' demo_results (length [7, 8 :: nat]) s \<and>
     ended_race demo_racer [7, 8] ''co'' s \<and> order s = [1]"
proof -
  let ?R = "collect_any_reachable (ra_type demo_racer) ''co'' demo_results 2"
  let ?s0 = "CollectAny_start 2 :: (nat val, string) collect_any"
  let ?s1 = "CollectAny_launch 0 ?s0"
  let ?s2 = "CollectAny_launch 1 ?s1"
  let ?s3 = "CollectAny_count 1 ?s2"
  let ?s4 = "CollectAny_set_index 1 ?s3"
  let ?s5 = "CollectAny_finish ''co'' (demo_results 1) 1 ?s4"
  have "?R ?s0" by (rule any_start) simp_all
  then have "?R ?s1" by (rule any_next) (rule collect_any_step.launch; simp add: any_run_simps)
  then have "?R ?s2" by (rule any_next) (rule collect_any_step.launch; simp add: any_run_simps)
  then have "?R ?s3" by (rule any_next) (rule collect_any_step.count; simp add: any_run_simps)
  then have "?R ?s4" by (rule any_next) (rule collect_any_step.set_index; simp add: any_run_simps)
  then have "?R ?s5" by (rule any_next) (rule collect_any_step.finish; simp add: any_run_simps)
  moreover have "ended_race demo_racer [7, 8] ''co'' ?s5" "order ?s5 = [1]"
    by (simp_all add: any_run_simps ended_race_def demo_racer_def demo_results_def)
  moreover have "length [7, 8 :: nat] = 2" by simp
  ultimately show ?thesis by metis
qed

theorem collect_any_sync_witness:
  "must two_workers (syncs_to (Return (VAny 1 (Exception (Some (UserExn 8))))))
     (after (Reschedule_sync_await two_workers (Some 0) (CollectAny demo_racer [7, 8]) idle_machine))"
proof -
  obtain s where
    s: "collect_any_reachable (ra_type demo_racer) ''co'' demo_results (length [7, 8 :: nat]) s"
    "ended_race demo_racer [7, 8] ''co'' s" "order s = [1]" using demo_race by blast
  from collect_any_sync [OF two_workers_ok s(1,2), of 0] obtain i where
    i: "unat i = hd (order s)"
    "must two_workers (syncs_to (Return (VAny i (demo_results (hd (order s))))))
      (after (Reschedule_sync_await two_workers (Some 0) (CollectAny demo_racer [7, 8]) idle_machine))" by blast
  have "unat i = unat (1 :: 64 word)" using i(1) s(3) by simp
  then have "i = 1" by (simp only: word_unat_eq_iff)
  with i(2) s(3) show ?thesis by (simp add: demo_results_def)
qed

end
