(* ===== verification/Collect_Futures.thy ===== *)
theory Collect_Futures
  imports Future_State
begin

text \<open>
  \<open>CollectAll\<close> over a range of futures, \<^verbatim>\<open>sync/future_helper.hpp\<close>: the thread that calls it and the threads
  that resolve the inputs interleave. An input is a future with a shared state, in the phases that
  \<^verbatim>\<open>Future_State.thy\<close> gives it: \<open>HasResult\<close> is one load, setting a continuation and setting a result are atomic
  (\<^verbatim>\<open>Future_Race.thy\<close>), the continuation of a resolved state is called once and destroyed afterwards
  (\<^verbatim>\<open>Future_Delivery.thy\<close>). The continuations share a \<open>Context\<close> through a \<open>shared_ptr\<close>, whose destructor
  hands the vector to the promise of the result.
\<close>

section \<open>Inputs and context\<close>

text \<open>
  \<open>Foreign\<close> is an input on which somebody else has set a continuation, \<open>ForeignDone t\<close> the same after that
  continuation was called and has left \<open>t\<close>.
\<close>

datatype 'v slot =
    Unresolved
  | HasTry "'v try_val"
  | Subscribed
  | Triggered "'v try_val" \<comment> \<open>resolved; the continuation is about to be called\<close>
  | Written \<comment> \<open>the continuation has written the result\<close>
  | Dropped \<comment> \<open>the continuation is destroyed\<close>
  | Taken \<comment> \<open>the result was moved out by the caller of \<open>CollectAll\<close>\<close>
  | Foreign
  | ForeignDone "'v try_val"

fun slot_result :: "'v slot \<Rightarrow> 'v try_val option" where
  "slot_result (HasTry t) = Some t"
| "slot_result (ForeignDone t) = Some t"
| "slot_result _ = None"

datatype 'v cf_point =
    Scanning nat
  | ReturnedReady "'v try_val list"
  | Looping nat
  | Subscribing nat
  | Calling nat \<comment> \<open>the continuation runs inside \<open>SetContinuation\<close>\<close>
  | Unwinding
  | Returned
  | Failed

text \<open>
  \<open>cf_uses\<close> is the use count of the \<open>shared_ptr\<close>; \<open>cf_set\<close> records the calls of \<open>SetValue\<close> on the promise of
  the result, \<open>cf_fault\<close> a write to the context after its destruction.
\<close>

record 'v collect_futures =
  cf_slots :: "'v slot list"
  cf_results :: "'v try_val list"
  cf_uses :: nat
  cf_alive :: bool
  cf_fault :: bool
  cf_point :: "'v cf_point"
  cf_set :: "'v try_val list list"

definition CollectFutures_begin :: "'v slot list \<Rightarrow> 'v collect_futures" where
  "CollectFutures_begin xs =
     \<lparr>cf_slots = xs, cf_results = [], cf_uses = 0, cf_alive = False, cf_fault = False, cf_point = Scanning 0, cf_set = []\<rparr>"

section \<open>Operations\<close>

text \<open>\<open>all_ready\<close>: the loop of \<open>all_of\<close> stops at the first input without a result. Then the context is made.\<close>

definition Context_ctor :: "nat \<Rightarrow> 'v collect_futures \<Rightarrow> 'v collect_futures" where
  "Context_ctor n s = s\<lparr>cf_results := replicate n Nothing, cf_uses := 1, cf_alive := True\<rparr>"

definition cf_scan :: "nat \<Rightarrow> 'v collect_futures \<Rightarrow> 'v collect_futures" where
  "cf_scan i s =
     (if i < length (cf_slots s) then
        (if slot_result (cf_slots s ! i) \<noteq> None then s\<lparr>cf_point := Scanning (Suc i)\<rparr>
         else Context_ctor (length (cf_slots s)) (s\<lparr>cf_point := Looping 0\<rparr>))
      else
        s\<lparr>cf_slots := map (\<lambda>_. Taken) (cf_slots s),
          cf_point := ReturnedReady (map (\<lambda>x. the (slot_result x)) (cf_slots s))\<rparr>)"

text \<open>A reference to the context goes; the last one runs \<open>~Context\<close>.\<close>

definition Context_release :: "'v collect_futures \<Rightarrow> 'v collect_futures" where
  "Context_release s =
     (if cf_uses s = 1
      then s\<lparr>cf_uses := 0, cf_alive := False, cf_set := cf_set s @ [cf_results s]\<rparr>
      else s\<lparr>cf_uses := cf_uses s - 1\<rparr>)"

definition Context_write :: "nat \<Rightarrow> 'v try_val \<Rightarrow> 'v collect_futures \<Rightarrow> 'v collect_futures" where
  "Context_write i t s =
     (if cf_alive s then s\<lparr>cf_results := (cf_results s)[i := t]\<rparr> else s\<lparr>cf_fault := True\<rparr>)"

text \<open>One turn of the loop: the test, and what follows when the result is there.\<close>

definition cf_loop :: "nat \<Rightarrow> 'v collect_futures \<Rightarrow> 'v collect_futures" where
  "cf_loop i s =
     (if i < length (cf_slots s) then
        (case slot_result (cf_slots s ! i) of
           Some t \<Rightarrow> Context_write i t (s\<lparr>cf_slots := (cf_slots s)[i := Taken], cf_point := Looping (Suc i)\<rparr>)
         | None \<Rightarrow> s\<lparr>cf_point := Subscribing i\<rparr>)
      else Context_release (s\<lparr>cf_point := Returned\<rparr>))"

text \<open>
  \<open>SetContinuation\<close>. The function object holds a copy of the \<open>shared_ptr\<close>. A state that has its result by now
  calls it here, unless it is posted to an executor; a state that has a continuation throws, and the
  function object is destroyed again.
\<close>

definition cf_subscribe :: "bool \<Rightarrow> nat \<Rightarrow> 'v collect_futures \<Rightarrow> 'v collect_futures" where
  "cf_subscribe posts i s =
     (case cf_slots s ! i of
        Unresolved \<Rightarrow> s\<lparr>cf_slots := (cf_slots s)[i := Subscribed], cf_uses := Suc (cf_uses s), cf_point := Looping (Suc i)\<rparr>
      | HasTry t \<Rightarrow>
          s\<lparr>cf_slots := (cf_slots s)[i := Triggered t], cf_uses := Suc (cf_uses s),
            cf_point := (if posts then Looping (Suc i) else Calling i)\<rparr>
      | _ \<Rightarrow> s\<lparr>cf_point := Unwinding\<rparr>)"

text \<open>A promise resolves its state.\<close>

definition cf_resolve :: "nat \<Rightarrow> 'v try_val \<Rightarrow> 'v collect_futures \<Rightarrow> 'v collect_futures" where
  "cf_resolve i t s =
     s\<lparr>cf_slots := (cf_slots s)[i :=
        (case cf_slots s ! i of Unresolved \<Rightarrow> HasTry t | Subscribed \<Rightarrow> Triggered t | Foreign \<Rightarrow> ForeignDone t | x \<Rightarrow> x)]\<rparr>"

text \<open>The continuation of \<open>CollectAll\<close>: its body, and its destruction.\<close>

definition cf_write :: "nat \<Rightarrow> 'v try_val \<Rightarrow> 'v collect_futures \<Rightarrow> 'v collect_futures" where
  "cf_write i t s = Context_write i t (s\<lparr>cf_slots := (cf_slots s)[i := Written]\<rparr>)"

definition cf_drop :: "nat \<Rightarrow> 'v collect_futures \<Rightarrow> 'v collect_futures" where
  "cf_drop i s = Context_release (s\<lparr>cf_slots := (cf_slots s)[i := Dropped]\<rparr>)"

inductive cf_step :: "(nat \<Rightarrow> bool) \<Rightarrow> (nat \<Rightarrow> 'v try_val) \<Rightarrow> 'v collect_futures \<Rightarrow> 'v collect_futures \<Rightarrow> bool"
  for posts res where
  scan: "cf_point s = Scanning i \<Longrightarrow> cf_step posts res s (cf_scan i s)"
| turn: "cf_point s = Looping i \<Longrightarrow> cf_step posts res s (cf_loop i s)"
| subscribe: "cf_point s = Subscribing i \<Longrightarrow> cf_step posts res s (cf_subscribe (posts i) i s)"
| called: "cf_point s = Calling i \<Longrightarrow> cf_slots s ! i = Dropped \<Longrightarrow> cf_step posts res s (s\<lparr>cf_point := Looping (Suc i)\<rparr>)"
| unwind: "cf_point s = Unwinding \<Longrightarrow> cf_step posts res s (Context_release (s\<lparr>cf_point := Failed\<rparr>))"
| resolve: "i < length (cf_slots s) \<Longrightarrow> cf_slots s ! i \<in> {Unresolved, Subscribed, Foreign} \<Longrightarrow>
    cf_step posts res s (cf_resolve i (res i) s)"
| written: "i < length (cf_slots s) \<Longrightarrow> cf_slots s ! i = Triggered t \<Longrightarrow> cf_step posts res s (cf_write i t s)"
| dropped: "i < length (cf_slots s) \<Longrightarrow> cf_slots s ! i = Written \<Longrightarrow> cf_step posts res s (cf_drop i s)"

fun fresh_slot :: "'v try_val \<Rightarrow> 'v slot \<Rightarrow> bool" where
  "fresh_slot r Unresolved = True"
| "fresh_slot r (HasTry t) = (t = r)"
| "fresh_slot r _ = False"

fun foreign_slot :: "'v slot \<Rightarrow> bool" where
  "foreign_slot Foreign = True"
| "foreign_slot (ForeignDone t) = True"
| "foreign_slot _ = False"

inductive cf_reachable ::
  "(nat \<Rightarrow> bool) \<Rightarrow> (nat \<Rightarrow> 'v try_val) \<Rightarrow> 'v slot list \<Rightarrow> 'v collect_futures \<Rightarrow> bool"
  for posts res xs where
  cf_start: "(\<And>i. i < length xs \<Longrightarrow> fresh_slot (res i) (xs ! i) \<or> foreign_slot (xs ! i)) \<Longrightarrow>
    cf_reachable posts res xs (CollectFutures_begin xs)"
| cf_next: "cf_reachable posts res xs s \<Longrightarrow> cf_step posts res s t \<Longrightarrow> cf_reachable posts res xs t"

inductive_cases cf_stepE: "cf_step posts res s t"

section \<open>The use count\<close>

fun slot_uses :: "'v slot \<Rightarrow> nat" where
  "slot_uses Subscribed = 1"
| "slot_uses (Triggered t) = 1"
| "slot_uses Written = 1"
| "slot_uses _ = 0"

fun point_uses :: "'v cf_point \<Rightarrow> nat" where
  "point_uses (Looping i) = 1"
| "point_uses (Subscribing i) = 1"
| "point_uses (Calling i) = 1"
| "point_uses Unwinding = 1"
| "point_uses _ = 0"

fun started :: "'v cf_point \<Rightarrow> bool" where
  "started (Scanning i) = False"
| "started (ReturnedReady rs) = False"
| "started _ = True"

definition held_by :: "'v slot list \<Rightarrow> nat" where
  "held_by xs = sum_list (map slot_uses xs)"

text \<open>With \<open>k\<close> more references that are about to be released.\<close>

definition cf_counts :: "nat \<Rightarrow> 'v collect_futures \<Rightarrow> bool" where
  "cf_counts k s \<longleftrightarrow>
     cf_uses s = held_by (cf_slots s) + point_uses (cf_point s) + k \<and>
     (\<not> started (cf_point s) \<longrightarrow> cf_uses s = 0) \<and> cf_alive s = (0 < cf_uses s) \<and> \<not> cf_fault s \<and>
     (started (cf_point s) \<longrightarrow> length (cf_results s) = length (cf_slots s)) \<and>
     (\<forall>i. cf_point s \<in> {Subscribing i, Calling i} \<longrightarrow> i < length (cf_slots s)) \<and>
     cf_set s = (if started (cf_point s) \<and> cf_uses s = 0 then [cf_results s] else [])"

lemma uses_update:
  assumes "i < length xs"
  shows "held_by (xs[i := y]) + slot_uses (xs ! i) = held_by xs + slot_uses y"
  unfolding held_by_def using assms by (rule sum_list_map_update)

lemma uses_positive: "i < length xs \<Longrightarrow> slot_uses (xs ! i) \<le> held_by xs"
  using elem_le_sum_list [of i "map slot_uses xs"] by (simp add: held_by_def)

lemma held_by_none: "held_by xs = 0 \<Longrightarrow> i < length xs \<Longrightarrow> slot_uses (xs ! i) = 0"
  using uses_positive [of i xs] by simp

lemma held_by_taken [simp]: "held_by (map (\<lambda>_. Taken) xs) = 0"
  by (simp add: held_by_def)

lemma counts_release: "cf_counts (Suc k) s \<Longrightarrow> started (cf_point s) \<Longrightarrow> cf_counts k (Context_release s)"
  by (auto simp: cf_counts_def Context_release_def)

lemma counts_write:
  "cf_counts k s \<Longrightarrow> 0 < cf_uses s \<Longrightarrow> cf_counts k (Context_write i t s)"
  by (auto simp: cf_counts_def Context_write_def)

text \<open>Replacing a slot that is not the context's business.\<close>

lemma counts_slot:
  assumes "cf_counts k s" and "i < length (cf_slots s)" and "slot_uses y = slot_uses (cf_slots s ! i)"
  shows "cf_counts k (s\<lparr>cf_slots := (cf_slots s)[i := y]\<rparr>)"
  using assms uses_update [OF assms(2), of y] by (auto simp: cf_counts_def)

lemma counts_step:
  assumes "cf_counts 0 s" and "cf_step posts res s t"
  shows "cf_counts 0 t"
  using assms(2)
proof (cases rule: cf_step.cases)
  case (scan i)
  then show ?thesis
    using assms(1) by (auto simp: cf_counts_def cf_scan_def Context_ctor_def)
next
  case (turn i)
  show ?thesis
  proof (cases "i < length (cf_slots s)")
    case True
    have "0 < cf_uses s" using assms(1) turn by (simp add: cf_counts_def)
    have "cf_counts 0 (s\<lparr>cf_slots := (cf_slots s)[i := Taken], cf_point := Looping (Suc i)\<rparr>)"
      if "slot_result (cf_slots s ! i) = Some r" for r
    proof -
      have "slot_uses (cf_slots s ! i) = 0" using that by (cases "cf_slots s ! i") simp_all
      with uses_update [OF True, of Taken] assms(1) turn show ?thesis by (simp add: cf_counts_def)
    qed
    with True turn assms(1) \<open>0 < cf_uses s\<close> show ?thesis
      by (auto simp: cf_loop_def intro!: counts_write split: option.split) (simp add: cf_counts_def)
  next
    case False
    have "cf_counts (Suc 0) (s\<lparr>cf_point := Returned\<rparr>)" using assms(1) turn by (auto simp: cf_counts_def)
    from counts_release [OF this] False turn show ?thesis by (simp add: cf_loop_def)
  qed
next
  case (subscribe i)
  then have i: "i < length (cf_slots s)" using assms(1) by (simp add: cf_counts_def)
  show ?thesis
    using assms(1) subscribe i uses_update [OF i, of Subscribed] uses_update [OF i, of "Triggered (case cf_slots s ! i of HasTry r \<Rightarrow> r)"]
    by (cases "cf_slots s ! i") (auto simp: cf_subscribe_def cf_counts_def)
next
  case (called i)
  then show ?thesis using assms(1) by (simp add: cf_counts_def)
next
  case unwind
  then have "cf_counts (Suc 0) (s\<lparr>cf_point := Failed\<rparr>)" using assms(1) by (auto simp: cf_counts_def)
  from counts_release [OF this] unwind show ?thesis by simp
next
  case (resolve i)
  then show ?thesis using assms(1) unfolding cf_resolve_def by (auto intro!: counts_slot)
next
  case (written i r)
  have "0 < cf_uses s" using assms(1) written uses_positive [of i "cf_slots s"] by (simp add: cf_counts_def)
  with written show ?thesis unfolding cf_write_def by (auto intro!: counts_write counts_slot assms(1))
next
  case (dropped i)
  have "started (cf_point s)"
    using assms(1) dropped uses_positive [of i "cf_slots s"]
    by (cases "cf_point s") (auto simp: cf_counts_def)
  with dropped uses_update [of i "cf_slots s" Dropped] assms(1)
  have "cf_counts (Suc 0) (s\<lparr>cf_slots := (cf_slots s)[i := Dropped]\<rparr>)" by (auto simp: cf_counts_def)
  from counts_release [OF this] \<open>started (cf_point s)\<close> dropped show ?thesis by (simp add: cf_drop_def)
qed

section \<open>The results\<close>

fun raw_slot :: "'v try_val \<Rightarrow> 'v slot \<Rightarrow> bool" where
  "raw_slot r Unresolved = True"
| "raw_slot r (HasTry t) = (t = r)"
| "raw_slot r _ = False"

fun being_called :: "'v try_val \<Rightarrow> 'v slot \<Rightarrow> bool" where
  "being_called r (Triggered t) = (t = r)"
| "being_called r Written = True"
| "being_called r Dropped = True"
| "being_called r _ = False"

definition passed_slot :: "'v try_val \<Rightarrow> 'v slot \<Rightarrow> bool" where
  "passed_slot r x \<longleftrightarrow> x = Subscribed \<or> x = Taken \<or> being_called r x"

fun slot_stored :: "'v slot \<Rightarrow> bool" where
  "slot_stored Written = True"
| "slot_stored Dropped = True"
| "slot_stored Taken = True"
| "slot_stored _ = False"

fun slot_ok :: "'v cf_point \<Rightarrow> nat \<Rightarrow> 'v try_val \<Rightarrow> 'v slot \<Rightarrow> bool" where
  "slot_ok (Scanning k) i r x = (if i < k then x = HasTry r else raw_slot r x)"
| "slot_ok (ReturnedReady rs) i r x = (x = Taken)"
| "slot_ok (Looping k) i r x = (if i < k then passed_slot r x else raw_slot r x)"
| "slot_ok (Subscribing k) i r x = (if i < k then passed_slot r x else raw_slot r x)"
| "slot_ok (Calling k) i r x =
     (if i < k then passed_slot r x else if i = k then being_called r x else raw_slot r x)"
| "slot_ok Returned i r x = passed_slot r x"
| "slot_ok _ i r x = False"

fun point_ok :: "'v try_val list \<Rightarrow> 'v cf_point \<Rightarrow> bool" where
  "point_ok rs (Scanning k) = (k \<le> length rs)"
| "point_ok rs (ReturnedReady xs) = (xs = rs)"
| "point_ok rs (Looping k) = (k \<le> length rs)"
| "point_ok rs (Subscribing k) = (k < length rs)"
| "point_ok rs (Calling k) = (k < length rs)"
| "point_ok rs Returned = True"
| "point_ok rs _ = False"

definition cf_values :: "'v try_val list \<Rightarrow> 'v collect_futures \<Rightarrow> bool" where
  "cf_values rs s \<longleftrightarrow>
     length (cf_slots s) = length rs \<and> point_ok rs (cf_point s) \<and>
     (\<forall>i < length rs. slot_ok (cf_point s) i (rs ! i) (cf_slots s ! i)) \<and>
     (started (cf_point s) \<longrightarrow> length (cf_results s) = length rs \<and>
       (\<forall>i < length rs. cf_results s ! i = (if slot_stored (cf_slots s ! i) then rs ! i else Nothing)))"

lemma values_slot:
  "cf_values rs s \<Longrightarrow> i < length rs \<Longrightarrow> slot_ok (cf_point s) i (rs ! i) (cf_slots s ! i)"
  by (simp add: cf_values_def)

lemma values_cong:
  "cf_values rs s \<Longrightarrow> cf_slots t = cf_slots s \<Longrightarrow> cf_point t = cf_point s \<Longrightarrow> cf_results t = cf_results s \<Longrightarrow> cf_values rs t"
  by (simp add: cf_values_def)

lemma raw_slot_cases: "raw_slot r x \<longleftrightarrow> x = Unresolved \<or> x = HasTry r"
  by (cases x) auto

lemma being_called_cases: "being_called r x \<longleftrightarrow> x = Triggered r \<or> x = Written \<or> x = Dropped"
  by (cases x) auto

lemma raw_not_stored: "raw_slot r x \<Longrightarrow> \<not> slot_stored x"
  by (auto simp: raw_slot_cases)

text \<open>A slot and the caller move on; the result that appears, if any, is written.\<close>

lemma values_move:
  assumes v: "cf_values rs s" and i: "i < length rs" and pt: "point_ok rs pt'" "started pt'" "started (cf_point s)"
    and others: "\<And>j x. j < length rs \<Longrightarrow> j \<noteq> i \<Longrightarrow> slot_ok (cf_point s) j (rs ! j) x \<Longrightarrow> slot_ok pt' j (rs ! j) x"
    and new: "slot_ok pt' i (rs ! i) y"
    and out: "out = (if slot_stored y then (cf_results s)[i := rs ! i] else cf_results s)"
    and mono: "slot_stored (cf_slots s ! i) \<longrightarrow> slot_stored y"
  shows "cf_values rs (s\<lparr>cf_slots := (cf_slots s)[i := y], cf_point := pt', cf_results := out\<rparr>)"
proof -
  have "slot_ok pt' j (rs ! j) ((cf_slots s)[i := y] ! j)" if "j < length rs" for j
    using that others [OF that] values_slot [OF v that] new v by (cases "j = i") (simp_all add: cf_values_def)
  moreover have "out ! j = (if slot_stored ((cf_slots s)[i := y] ! j) then rs ! j else Nothing)" if "j < length rs" for j
    using that v pt(3) mono by (cases "j = i") (auto simp: out cf_values_def)
  moreover have "length out = length rs" using v pt(3) by (simp add: out cf_values_def)
  ultimately show ?thesis using v pt by (simp add: cf_values_def)
qed

lemma values_move_slot:
  assumes "cf_values rs s" and "i < length rs" and "slot_ok (cf_point s) i (rs ! i) y"
    and "slot_stored y = slot_stored (cf_slots s ! i)"
  shows "cf_values rs (s\<lparr>cf_slots := (cf_slots s)[i := y]\<rparr>)"
  using assms by (auto simp: cf_values_def nth_list_update)

lemma resolve_ok:
  "slot_ok pt i r x \<Longrightarrow> x \<in> {Unresolved, Subscribed, Foreign} \<Longrightarrow>
   slot_ok pt i r (case x of Unresolved \<Rightarrow> HasTry r | Subscribed \<Rightarrow> Triggered r | Foreign \<Rightarrow> ForeignDone r | x \<Rightarrow> x)"
  by (cases pt) (auto simp: passed_slot_def split: if_splits)

lemma written_ok: "slot_ok pt i r (Triggered t) \<Longrightarrow> slot_ok pt i r Written \<and> t = r"
  by (cases pt) (auto simp: passed_slot_def split: if_splits)

lemma dropped_ok: "slot_ok pt i r Written \<Longrightarrow> slot_ok pt i r Dropped"
  by (cases pt) (auto simp: passed_slot_def split: if_splits)

lemma release_frame [simp]:
  "cf_slots (Context_release s) = cf_slots s" "cf_results (Context_release s) = cf_results s"
  "cf_point (Context_release s) = cf_point s"
  by (simp_all add: Context_release_def)

lemma values_release [simp]: "cf_values rs (Context_release s) = cf_values rs s"
  by (simp add: cf_values_def)

lemma values_scan:
  assumes v: "cf_values rs s" and pt: "cf_point s = Scanning k"
  shows "cf_values rs (cf_scan k s)"
proof (cases "k < length rs")
  case True
  with values_slot [OF v True] pt have k: "cf_slots s ! k = Unresolved \<or> cf_slots s ! k = HasTry (rs ! k)"
    by (simp add: raw_slot_cases)
  have raw: "raw_slot (rs ! i) (cf_slots s ! i)" if "i < length rs" for i
    using values_slot [OF v that] pt by (auto split: if_splits)
  have fresh: "slot_ok (Scanning (Suc k)) i (rs ! i) (cf_slots s ! i)"
    if "i < length rs" "cf_slots s ! k = HasTry (rs ! k)" for i
    using values_slot [OF v that(1)] pt that by (cases "i = k") auto
  from k show ?thesis
  proof
    assume "cf_slots s ! k = Unresolved"
    with True v raw raw_not_stored [OF raw] show ?thesis by (simp add: cf_values_def cf_scan_def Context_ctor_def)
  next
    assume h: "cf_slots s ! k = HasTry (rs ! k)"
    with True v fresh [OF _ h] show ?thesis by (simp add: cf_values_def cf_scan_def)
  qed
next
  case False
  with v pt have "k = length rs" "length (cf_slots s) = length rs" by (simp_all add: cf_values_def)
  moreover have "cf_slots s ! i = HasTry (rs ! i)" if "i < length rs" for i
    using values_slot [OF v that] pt \<open>k = length rs\<close> that by simp
  ultimately show ?thesis
    by (auto simp: cf_values_def cf_scan_def intro!: nth_equalityI)
qed

lemma passes_on:
  "j \<noteq> i \<Longrightarrow> slot_ok (Looping i) j r x \<Longrightarrow> slot_ok (Looping (Suc i)) j r x"
  "j \<noteq> i \<Longrightarrow> slot_ok (Subscribing i) j r x \<Longrightarrow> slot_ok (Looping (Suc i)) j r x"
  "j \<noteq> i \<Longrightarrow> slot_ok (Subscribing i) j r x \<Longrightarrow> slot_ok (Calling i) j r x"
  by (auto split: if_splits)

lemma values_turn:
  assumes v: "cf_values rs s" and pt: "cf_point s = Looping k" and alive: "cf_alive s"
  shows "cf_values rs (cf_loop k s)"
proof (cases "k < length rs")
  case True
  with values_slot [OF v True] pt have k: "cf_slots s ! k = Unresolved \<or> cf_slots s ! k = HasTry (rs ! k)"
    by (simp add: raw_slot_cases)
  from True v have len: "k < length (cf_slots s)" by (simp add: cf_values_def)
  from k show ?thesis
  proof
    assume "cf_slots s ! k = Unresolved"
    with v pt len True show ?thesis by (simp add: cf_loop_def cf_values_def)
  next
    assume h: "cf_slots s ! k = HasTry (rs ! k)"
    have "cf_values rs (s\<lparr>cf_slots := (cf_slots s)[k := Taken], cf_point := Looping (Suc k),
        cf_results := (cf_results s)[k := rs ! k]\<rparr>)"
      using True pt h by (intro values_move [OF v True]) (auto simp: passed_slot_def intro: passes_on)
    with h len alive show ?thesis by (simp add: cf_loop_def Context_write_def)
  qed
next
  case False
  with v pt have "k = length rs" "\<not> k < length (cf_slots s)" by (simp_all add: cf_values_def)
  with v pt show ?thesis by (simp add: cf_loop_def cf_values_def)
qed

lemma values_subscribe:
  assumes v: "cf_values rs s" and pt: "cf_point s = Subscribing k"
  shows "cf_values rs (cf_subscribe posts k s)"
proof -
  have k: "k < length rs" using v pt by (simp add: cf_values_def)
  from values_slot [OF v k] pt have "cf_slots s ! k = Unresolved \<or> cf_slots s ! k = HasTry (rs ! k)"
    by (simp add: raw_slot_cases)
  then show ?thesis
  proof
    assume h: "cf_slots s ! k = Unresolved"
    have "cf_values rs (s\<lparr>cf_slots := (cf_slots s)[k := Subscribed], cf_point := Looping (Suc k), cf_results := cf_results s\<rparr>)"
      using k pt h by (intro values_move [OF v k]) (auto simp: passed_slot_def intro: passes_on)
    from values_cong [OF this] h show ?thesis by (simp add: cf_subscribe_def)
  next
    assume h: "cf_slots s ! k = HasTry (rs ! k)"
    let ?pt = "if posts then Looping (Suc k) else Calling k"
    have "cf_values rs (s\<lparr>cf_slots := (cf_slots s)[k := Triggered (rs ! k)], cf_point := ?pt, cf_results := cf_results s\<rparr>)"
      using k pt h by (intro values_move [OF v k]) (auto simp: passed_slot_def intro: passes_on)
    from values_cong [OF this] h show ?thesis by (simp add: cf_subscribe_def)
  qed
qed

lemma values_called:
  assumes v: "cf_values rs s" and pt: "cf_point s = Calling k" and d: "cf_slots s ! k = Dropped"
  shows "cf_values rs (s\<lparr>cf_point := Looping (Suc k)\<rparr>)"
proof -
  have "slot_ok (Looping (Suc k)) i (rs ! i) (cf_slots s ! i)" if "i < length rs" for i
    using values_slot [OF v that] pt d by (cases "i = k") (auto simp: passed_slot_def)
  with v pt show ?thesis by (simp add: cf_values_def del: slot_ok.simps)
qed

lemma values_step:
  assumes v: "cf_values rs s" and c: "cf_counts 0 s" and st: "cf_step posts (\<lambda>i. rs ! i) s t"
  shows "cf_values rs t"
  using st
proof (cases rule: cf_step.cases)
  case (scan i)
  with v show ?thesis by (simp add: values_scan)
next
  case (turn i)
  moreover from this c have "cf_alive s" by (simp add: cf_counts_def)
  ultimately show ?thesis using v by (simp add: values_turn)
next
  case (subscribe i)
  with v show ?thesis by (simp add: values_subscribe)
next
  case (called i)
  with v show ?thesis by (simp add: values_called)
next
  case unwind
  with v show ?thesis by (simp add: cf_values_def)
next
  case (resolve i)
  with v have i: "i < length rs" by (simp add: cf_values_def)
  have "cf_slots s ! i \<noteq> Foreign" using values_slot [OF v i] by (cases "cf_point s") (auto simp: passed_slot_def split: if_splits)
  with resolve v i resolve_ok [OF values_slot [OF v i]] show ?thesis
    unfolding cf_resolve_def by (auto intro!: values_move_slot)
next
  case (written i r)
  with v have i: "i < length rs" by (simp add: cf_values_def)
  from written_ok [of "cf_point s" i "rs ! i" r] values_slot [OF v i] written
  have ok: "slot_ok (cf_point s) i (rs ! i) Written" "r = rs ! i" by simp_all
  from written c uses_positive [of i "cf_slots s"] have st: "cf_alive s" "started (cf_point s)"
    by (auto simp: cf_counts_def)
  have "point_ok rs (cf_point s)" using v by (simp add: cf_values_def)
  with ok st have "cf_values rs (s\<lparr>cf_slots := (cf_slots s)[i := Written], cf_point := cf_point s,
      cf_results := (cf_results s)[i := rs ! i]\<rparr>)"
    by (intro values_move [OF v i]) auto
  with ok st written show ?thesis by (simp add: cf_write_def Context_write_def)
next
  case (dropped i)
  with v have i: "i < length rs" by (simp add: cf_values_def)
  from dropped_ok [of "cf_point s" i "rs ! i"] values_slot [OF v i] dropped
  show ?thesis using v i by (auto simp: cf_drop_def intro!: values_move_slot)
qed

section \<open>Termination\<close>

fun slot_weight :: "'v slot \<Rightarrow> nat" where
  "slot_weight Unresolved = 4"
| "slot_weight (HasTry t) = 3"
| "slot_weight Subscribed = 3"
| "slot_weight (Triggered t) = 2"
| "slot_weight Written = 1"
| "slot_weight Foreign = 1"
| "slot_weight _ = 0"

fun point_weight :: "nat \<Rightarrow> 'v cf_point \<Rightarrow> nat" where
  "point_weight n (Scanning i) = 3 * n + 3 + (n - i)"
| "point_weight n (Looping i) = 3 * (n - i) + 2"
| "point_weight n (Subscribing i) = 3 * (n - i) + 1"
| "point_weight n (Calling i) = 3 * (n - i)"
| "point_weight n Unwinding = 1"
| "point_weight n _ = 0"

definition slots_weight :: "'v slot list \<Rightarrow> nat" where
  "slots_weight xs = sum_list (map slot_weight xs)"

definition cf_measure :: "'v collect_futures \<Rightarrow> nat" where
  "cf_measure s = slots_weight (cf_slots s) + point_weight (length (cf_slots s)) (cf_point s)"

lemma weight_update:
  assumes "i < length xs"
  shows "slots_weight (xs[i := y]) + slot_weight (xs ! i) = slots_weight xs + slot_weight y"
  unfolding slots_weight_def using assms by (rule sum_list_map_update)

lemma weight_taken [simp]: "slots_weight (map (\<lambda>_. Taken) xs) = 0"
  by (simp add: slots_weight_def)

lemma write_frame [simp]:
  "cf_slots (Context_write i t s) = cf_slots s" "cf_point (Context_write i t s) = cf_point s"
  by (simp_all add: Context_write_def)

lemma result_weight: "slot_result x = Some t \<Longrightarrow> slot_weight Taken \<le> slot_weight x"
  by (cases x) simp_all

lemma step_measure:
  assumes c: "cf_counts 0 s" and st: "cf_step posts res s t"
  shows "cf_measure t < cf_measure s"
  using st
proof (cases rule: cf_step.cases)
  case (scan i)
  then show ?thesis by (auto simp: cf_measure_def cf_scan_def Context_ctor_def)
next
  case (turn i)
  show ?thesis
  proof (cases "i < length (cf_slots s)")
    case True
    with turn weight_update [OF True, of Taken] show ?thesis
      by (auto simp: cf_measure_def cf_loop_def split: option.split dest!: result_weight)
  next
    case False
    with turn show ?thesis by (simp add: cf_measure_def cf_loop_def)
  qed
next
  case (subscribe i)
  then have i: "i < length (cf_slots s)" using c by (simp add: cf_counts_def)
  then have n: "length (cf_slots s) - i = Suc (length (cf_slots s) - Suc i)" by simp
  show ?thesis
  proof (cases "cf_slots s ! i")
    case Unresolved
    with subscribe i weight_update [OF i, of Subscribed] n show ?thesis by (simp add: cf_measure_def cf_subscribe_def)
  next
    case (HasTry r)
    with subscribe i weight_update [OF i, of "Triggered r"] n show ?thesis
      by (simp add: cf_measure_def cf_subscribe_def)
  qed (use subscribe n in \<open>simp_all add: cf_measure_def cf_subscribe_def\<close>)
next
  case (called i)
  then have i: "i < length (cf_slots s)" using c by (simp add: cf_counts_def)
  with called show ?thesis by (simp add: cf_measure_def)
next
  case unwind
  then show ?thesis by (simp add: cf_measure_def)
next
  case (resolve i)
  then show ?thesis
    using weight_update [OF resolve(2), of "HasTry (res i)"] weight_update [OF resolve(2), of "Triggered (res i)"]
      weight_update [OF resolve(2), of "ForeignDone (res i)"]
    by (auto simp: cf_measure_def cf_resolve_def)
next
  case (written i r)
  then show ?thesis using weight_update [OF written(2), of Written] by (simp add: cf_measure_def cf_write_def)
next
  case (dropped i)
  then show ?thesis using weight_update [OF dropped(2), of Dropped] by (simp add: cf_measure_def cf_drop_def)
qed

section \<open>Delivery\<close>

lemma initial_slot:
  assumes "fresh_slot r x \<or> foreign_slot x"
  shows "slot_uses x = 0" and "\<not> foreign_slot x \<Longrightarrow> raw_slot r x"
  using assms by (cases x; simp)+

lemma reachable_counts: "cf_reachable posts res xs s \<Longrightarrow> cf_counts 0 s"
proof (induction rule: cf_reachable.induct)
  case cf_start
  have "slot_uses x = 0" if x: "x \<in> set xs" for x
  proof -
    from x obtain i where "i < length xs" "x = xs ! i" by (metis in_set_conv_nth)
    with cf_start [of i] show ?thesis using initial_slot(1) by metis
  qed
  then show ?case by (simp add: cf_counts_def CollectFutures_begin_def held_by_def)
qed (rule counts_step)

text \<open>Inputs that nobody else has a continuation on.\<close>

definition own_inputs :: "'v slot list \<Rightarrow> bool" where
  "own_inputs xs \<longleftrightarrow> filter foreign_slot xs = []"

lemma reachable_values:
  assumes "cf_reachable posts res xs s" and "own_inputs xs"
  shows "cf_values (map res [0..<length xs]) s"
  using assms(1)
proof (induction rule: cf_reachable.induct)
  case cf_start
  have "raw_slot (res i) (xs ! i)" if "i < length xs" for i
    using initial_slot(2) [OF cf_start [OF that]] assms(2) that by (simp add: own_inputs_def filter_empty_conv)
  then show ?case by (simp add: cf_values_def CollectFutures_begin_def)
next
  case (cf_next s t)
  have "cf_step posts (\<lambda>i. map res [0..<length xs] ! i) s t"
    using cf_next.hyps(2)
  proof (cases rule: cf_step.cases)
    case (resolve i)
    have "length (cf_slots s) = length xs" using cf_next.IH by (simp add: cf_values_def)
    then have "res i = map res [0..<length xs] ! i" using resolve by simp
    with resolve show ?thesis by (metis cf_step.resolve)
  qed (auto intro: cf_step.intros)
  from values_step [OF cf_next.IH reachable_counts [OF cf_next.hyps(1)] this] show ?case .
qed

text \<open>Once everything is passed and nothing is held, the vector is complete.\<close>

lemma values_complete:
  assumes v: "cf_values rs s" and pt: "cf_point s = Returned" and h: "held_by (cf_slots s) = 0"
  shows "cf_results s = rs"
proof (rule nth_equalityI)
  show "length (cf_results s) = length rs" using v pt by (simp add: cf_values_def)
  fix i assume "i < length (cf_results s)"
  then have i: "i < length rs" using v pt by (simp add: cf_values_def)
  then have "slot_uses (cf_slots s ! i) = 0" using held_by_none [OF h, of i] v by (simp add: cf_values_def)
  with values_slot [OF v i] pt have "slot_stored (cf_slots s ! i)"
    by (auto simp: passed_slot_def being_called_cases)
  with v pt i show "cf_results s ! i = rs ! i" by (simp add: cf_values_def)
qed

lemma values_set:
  assumes v: "cf_values rs s" and c: "cf_counts 0 s"
  shows "cf_set s = [] \<or> cf_set s = [rs]"
proof (cases "cf_set s = []")
  case False
  with c have "started (cf_point s)" "cf_uses s = 0" "cf_set s = [cf_results s]" by (auto simp: cf_counts_def split: if_splits)
  moreover from this c have "held_by (cf_slots s) = 0" "point_uses (cf_point s) = 0" by (simp_all add: cf_counts_def)
  moreover from calculation v have "cf_point s = Returned" by (cases "cf_point s") (auto simp: cf_values_def)
  ultimately show ?thesis using values_complete [OF v] by simp
qed simp

lemma values_stuck:
  assumes v: "cf_values rs s" and c: "cf_counts 0 s" and stuck: "\<And>t. \<not> cf_step posts res s t"
  shows "cf_point s = ReturnedReady rs \<and> cf_set s = [] \<or> cf_point s = Returned \<and> cf_set s = [rs]"
proof -
  have slot: "cf_slots s ! i \<notin> {Unresolved, Subscribed, Written} \<and> (\<forall>r. cf_slots s ! i \<noteq> Triggered r)"
    if "i < length (cf_slots s)" for i
    using that stuck cf_step.resolve [of i s posts res] cf_step.written [of i s _ posts res]
      cf_step.dropped [of i s posts res] by blast
  have len: "length (cf_slots s) = length rs" using v by (simp add: cf_values_def)
  show ?thesis
  proof (cases "cf_point s")
    case (Calling i)
    then have i: "i < length rs" using v by (simp add: cf_values_def)
    with values_slot [OF v i] Calling slot [of i] len have "cf_slots s ! i = Dropped"
      by (auto simp: being_called_cases)
    with Calling stuck cf_step.called [of s i posts res] show ?thesis by blast
  next
    case (ReturnedReady xs)
    with v c show ?thesis by (simp add: cf_values_def cf_counts_def)
  next
    case Returned
    have "slot_uses (cf_slots s ! i) = 0" if "i < length (cf_slots s)" for i
      using slot [OF that] by (cases "cf_slots s ! i") auto
    then have "held_by (cf_slots s) = 0" unfolding held_by_def by (auto simp: in_set_conv_nth)
    with Returned v c values_complete [OF v] show ?thesis by (simp add: cf_counts_def)
  next
    case Unwinding
    with v show ?thesis by (simp add: cf_values_def)
  next
    case Failed
    with v show ?thesis by (simp add: cf_values_def)
  qed (use stuck cf_step.intros(1-3) in blast)+
qed

text \<open>
  Claim C33. \<open>CollectAll\<close> over futures, whichever inputs are resolved before, during or after the call and by
  whichever threads. Nobody writes to the context after its destruction, the promise of the result is
  set at most once, and every run is finite. If nobody else has a continuation on an input, the promise
  is never set with anything but all results in the order of the inputs, and at the end either that
  vector was returned at once or the promise has been set with it.
\<close>

theorem collect_futures_delivers:
  assumes "cf_reachable posts res xs s"
  shows "\<not> cf_fault s \<and> length (cf_set s) \<le> 1 \<and> (\<forall>t. cf_step posts res s t \<longrightarrow> cf_measure t < cf_measure s) \<and>
    (own_inputs xs \<longrightarrow> cf_set s = [] \<or> cf_set s = [map res [0..<length xs]]) \<and>
    (own_inputs xs \<and> (\<forall>t. \<not> cf_step posts res s t) \<longrightarrow>
       cf_point s = ReturnedReady (map res [0..<length xs]) \<and> cf_set s = [] \<or>
       cf_point s = Returned \<and> cf_set s = [map res [0..<length xs]])"
proof -
  note c = reachable_counts [OF assms]
  have "\<not> cf_fault s" "length (cf_set s) \<le> 1" using c by (simp_all add: cf_counts_def)
  then show ?thesis
    using step_measure [OF c] values_set [OF reachable_values [OF assms] c]
      values_stuck [OF reachable_values [OF assms] c, of posts res] by blast
qed

text \<open>Two inputs: the second is resolved before the call, the first between the two turns of the loop.\<close>

definition demo_tries :: "nat \<Rightarrow> nat try_val" where
  "demo_tries i = (if i = 0 then Exception None else Value 5)"

definition demo_delivered :: "nat collect_futures" where
  "demo_delivered =
     \<lparr>cf_slots = [Dropped, Taken], cf_results = [Exception None, Value 5], cf_uses = 0, cf_alive = False,
      cf_fault = False, cf_point = Returned, cf_set = [[Exception None, Value 5]]\<rparr>"

lemmas cf_run_simps =
  CollectFutures_begin_def cf_scan_def cf_loop_def cf_subscribe_def cf_resolve_def cf_write_def cf_drop_def
  Context_ctor_def Context_write_def Context_release_def demo_tries_def numeral_2_eq_2

lemma demo_delivered_reachable:
  "cf_reachable (\<lambda>_. False) demo_tries [Unresolved, HasTry (Value 5)] demo_delivered"
proof -
  let ?R = "cf_reachable (\<lambda>_. False) demo_tries [Unresolved, HasTry (Value 5)]"
  let ?s0 = "CollectFutures_begin [Unresolved, HasTry (Value (5 :: nat))]"
  let ?s1 = "cf_scan 0 ?s0"
  let ?s2 = "cf_loop 0 ?s1"
  let ?s3 = "cf_subscribe False 0 ?s2"
  let ?s4 = "cf_resolve 0 (demo_tries 0) ?s3"
  let ?s5 = "cf_loop 1 ?s4"
  let ?s6 = "cf_write 0 (Exception None) ?s5"
  let ?s7 = "cf_loop 2 ?s6"
  let ?s8 = "cf_drop 0 ?s7"
  have "?R ?s0" by (rule cf_start) (auto simp: less_Suc_eq demo_tries_def)
  then have "?R ?s1" by (rule cf_next) (rule cf_step.scan; simp add: cf_run_simps)
  then have "?R ?s2" by (rule cf_next) (rule cf_step.turn; simp add: cf_run_simps)
  then have "?R ?s3" by (rule cf_next) (rule cf_step.subscribe [where posts = "\<lambda>_. False"]; simp add: cf_run_simps)
  then have "?R ?s4" by (rule cf_next) (rule cf_step.resolve; simp add: cf_run_simps)
  then have "?R ?s5" by (rule cf_next) (rule cf_step.turn; simp add: cf_run_simps)
  then have "?R ?s6" by (rule cf_next) (rule cf_step.written; simp add: cf_run_simps)
  then have "?R ?s7" by (rule cf_next) (rule cf_step.turn; simp add: cf_run_simps)
  then have "?R ?s8" by (rule cf_next) (rule cf_step.dropped; simp add: cf_run_simps)
  moreover have "?s8 = demo_delivered" by (simp add: demo_delivered_def cf_run_simps)
  ultimately show ?thesis by simp
qed

theorem collect_futures_delivers_witness:
  "cf_set demo_delivered = [map demo_tries [0..<2]] \<and>
   \<not> (\<exists>t. cf_step (\<lambda>_. False) demo_tries demo_delivered t)"
proof -
  have "own_inputs [Unresolved, HasTry (Value (5 :: nat))]" by (simp add: own_inputs_def)
  moreover have "cf_step (\<lambda>_. False) demo_tries demo_delivered t \<Longrightarrow> False" for t
    by (erule cf_stepE) (auto simp: demo_delivered_def less_Suc_eq nth_Cons')
  moreover have "cf_point demo_delivered = Returned" by (simp add: demo_delivered_def)
  ultimately show ?thesis
    using collect_futures_delivers [OF demo_delivered_reachable] by (auto simp: numeral_2_eq_2)
qed

end
