(* ===== verification/IO_Executor.thy ===== *)
theory IO_Executor
  imports Async_Prelude
begin

text \<open>
  \<^verbatim>\<open>executor/io_executor.hpp\<close> and \<^verbatim>\<open>executor/simple_io_executor.hpp\<close> as built with \<open>HAS_AIO\<close>. The kernel's
  asynchronous IO is a parameter: what \<open>io_submit\<close> returns for a request, and which requests in flight
  \<open>io_getevents\<close> reports. The loop thread and the thread that destroys the executor interleave; the flag
  \<open>shutdown_\<close> is read and written atomically.
\<close>

section \<open>Requests and events\<close>

datatype iocb_cmd =
    IOCB_CMD_PREAD
  | IOCB_CMD_PWRITE
  | IOCB_CMD_FSYNC
  | IOCB_CMD_FDSYNC
  | IOCB_CMD_NOOP
  | IOCB_CMD_PREADV
  | IOCB_CMD_PWRITEV

record io_event_t =
  ev_data :: nat
  ev_obj :: nat
  ev_res :: "64 word"
  ev_res2 :: "64 word"

text \<open>The fields of \<open>iocb\<close> that the code writes; \<open>memset\<close> has cleared the others. \<open>io_data\<close> is the \<open>Task\<close>.\<close>

record iocb =
  aio_fildes :: "32 word"
  aio_lio_opcode :: iocb_cmd
  io_buf :: nat
  io_nbytes :: "64 word"
  io_offset :: "64 word"
  io_data :: nat

datatype loop_point = LoopTest | LoopWait | LoopDone

datatype owner_point = Using | Joining | Destroyed

text \<open>\<open>tasks\<close> are the \<open>Task\<close> objects with their callbacks (\<open>None\<close>: deleted), \<open>ran\<close> the calls of callbacks.\<close>

record 'c io_exec =
  shutdown_flag :: bool
  loop_at :: loop_point
  owner_at :: owner_point
  io_tasks :: "'c option list"
  in_flight :: "iocb multiset"
  ran :: "('c \<times> io_event_t) list"

definition kMaxAio :: nat where
  "kMaxAio = 8"

definition SimpleIO_ctor :: "'c io_exec" where
  "SimpleIO_ctor =
     \<lparr>shutdown_flag = False, loop_at = LoopDone, owner_at = Using, io_tasks = [], in_flight = {#}, ran = []\<rparr>"

definition SimpleIO_Init :: "int \<Rightarrow> 'c io_exec \<Rightarrow> bool \<times> 'c io_exec" where
  "SimpleIO_Init setup_result s = (if setup_result < 0 then (False, s) else (True, s\<lparr>loop_at := LoopTest\<rparr>))"

text \<open>\<open>task->Process(event); delete task\<close>: the pointer must be a live \<open>Task\<close>.\<close>

definition Task_Process_delete :: "nat \<Rightarrow> io_event_t \<Rightarrow> ('c io_exec, unit) action" where
  "Task_Process_delete t ev s =
     (if t < length (io_tasks s) then
        (case io_tasks s ! t of
           None \<Rightarrow> (Undefined, s)
         | Some cb \<Rightarrow> (Return (), s\<lparr>io_tasks := (io_tasks s)[t := None], ran := ran s @ [(cb, ev)]\<rparr>))
      else (Undefined, s))"

text \<open>
  Submitting. \<open>junk\<close> is the event on the stack before \<open>res\<close> is written. \<open>SubmitIO\<close> takes an offset and
  does not use it.
\<close>

definition submit_request ::
  "(iocb \<Rightarrow> int) \<Rightarrow> io_event_t \<Rightarrow> iocb \<Rightarrow> 'c \<Rightarrow> ('c io_exec, unit) action" where
  "submit_request io_submit junk io cb s =
     (let t = length (io_tasks s); io' = io\<lparr>io_data := t\<rparr>; s1 = s\<lparr>io_tasks := io_tasks s @ [Some cb]\<rparr>; r = io_submit io'
      in if r < 0 then Task_Process_delete t (junk\<lparr>ev_res := word_of_int r\<rparr>) s1
         else (Return (), s1\<lparr>in_flight := add_mset io' (in_flight s1)\<rparr>))"

definition SimpleIO_SubmitIO ::
  "(iocb \<Rightarrow> int) \<Rightarrow> io_event_t \<Rightarrow> 32 word \<Rightarrow> iocb_cmd \<Rightarrow> nat \<Rightarrow> 64 word \<Rightarrow> 64 word \<Rightarrow> 'c \<Rightarrow> ('c io_exec, unit) action" where
  "SimpleIO_SubmitIO io_submit junk fd cmd buffer len offset cb =
     submit_request io_submit junk
       \<lparr>aio_fildes = fd, aio_lio_opcode = cmd, io_buf = buffer, io_nbytes = len, io_offset = 0, io_data = 0\<rparr> cb"

definition SimpleIO_SubmitIOV ::
  "(iocb \<Rightarrow> int) \<Rightarrow> io_event_t \<Rightarrow> 32 word \<Rightarrow> iocb_cmd \<Rightarrow> nat \<Rightarrow> 64 word \<Rightarrow> 64 word \<Rightarrow> 'c \<Rightarrow> ('c io_exec, unit) action" where
  "SimpleIO_SubmitIOV io_submit junk fd cmd iov iov_count offset cb =
     submit_request io_submit junk
       \<lparr>aio_fildes = fd, aio_lio_opcode = cmd, io_buf = iov, io_nbytes = iov_count, io_offset = offset, io_data = 0\<rparr> cb"

section \<open>The loop and the destruction\<close>

text \<open>The inner loop over the events of one \<open>io_getevents\<close>.\<close>

primrec process_events :: "io_event_t list \<Rightarrow> ('c io_exec, unit) action" where
  "process_events [] = ret ()"
| "process_events (ev # evs) = seq (Task_Process_delete (ev_data ev) ev) (process_events evs)"

definition reported :: "iocb multiset \<Rightarrow> io_event_t list \<Rightarrow> bool" where
  "reported fl evs \<longleftrightarrow> length evs \<le> kMaxAio \<and> mset (map ev_data evs) \<subseteq># image_mset io_data fl"

inductive io_step :: "'c io_exec \<Rightarrow> 'c io_exec \<Rightarrow> bool" where
  loop_enter: "loop_at s = LoopTest \<Longrightarrow> shutdown_flag s \<Longrightarrow> io_step s (s\<lparr>loop_at := LoopWait\<rparr>)"
| loop_leave: "loop_at s = LoopTest \<Longrightarrow> \<not> shutdown_flag s \<Longrightarrow> io_step s (s\<lparr>loop_at := LoopDone\<rparr>)"
| loop_again: "loop_at s = LoopWait \<Longrightarrow> io_step s (s\<lparr>loop_at := LoopTest\<rparr>)"
| loop_events: "loop_at s = LoopWait \<Longrightarrow> reported (in_flight s) evs \<Longrightarrow>
    process_events evs (s\<lparr>in_flight := filter_mset (\<lambda>io. io_data io \<notin> set (map ev_data evs)) (in_flight s)\<rparr>) = (Return (), t) \<Longrightarrow>
    io_step s (t\<lparr>loop_at := LoopTest\<rparr>)"
| submit_io: "owner_at s = Using \<Longrightarrow> SimpleIO_SubmitIO io_submit junk fd cmd buf len offset cb s = (Return (), t) \<Longrightarrow> io_step s t"
| submit_iov: "owner_at s = Using \<Longrightarrow> SimpleIO_SubmitIOV io_submit junk fd cmd buf len offset cb s = (Return (), t) \<Longrightarrow> io_step s t"
| destroy_flag: "owner_at s = Using \<Longrightarrow> io_step s (s\<lparr>shutdown_flag := True, owner_at := Joining\<rparr>)"
| destroy_join: "owner_at s = Joining \<Longrightarrow> loop_at s = LoopDone \<Longrightarrow> io_step s (s\<lparr>owner_at := Destroyed\<rparr>)"

section \<open>One request\<close>

lemma submit_refused:
  "io_submit (io\<lparr>io_data := length (io_tasks s)\<rparr>) < 0 \<Longrightarrow>
   \<exists>ev. submit_request io_submit junk io cb s =
     (Return (), s\<lparr>io_tasks := io_tasks s @ [None], ran := ran s @ [(cb, ev)]\<rparr>) \<and>
     ev_res ev = word_of_int (io_submit (io\<lparr>io_data := length (io_tasks s)\<rparr>))"
  by (intro exI [of _ "junk\<lparr>ev_res := word_of_int (io_submit (io\<lparr>io_data := length (io_tasks s)\<rparr>))\<rparr>"])
    (simp add: submit_request_def Task_Process_delete_def Let_def)

lemma submit_accepted:
  "0 \<le> io_submit (io\<lparr>io_data := length (io_tasks s)\<rparr>) \<Longrightarrow>
   submit_request io_submit junk io cb s =
     (Return (), s\<lparr>io_tasks := io_tasks s @ [Some cb],
        in_flight := add_mset (io\<lparr>io_data := length (io_tasks s)\<rparr>) (in_flight s)\<rparr>)"
  by (simp add: submit_request_def Let_def)

text \<open>What the offset argument does: nothing in \<open>SubmitIO\<close>.\<close>

lemma SubmitIO_ignores_offset:
  "SimpleIO_SubmitIO io_submit junk fd cmd buf len offset cb = SimpleIO_SubmitIO io_submit junk fd cmd buf len offset' cb"
  by (simp add: SimpleIO_SubmitIO_def)

section \<open>The loop never serves anybody\<close>

inductive io_reachable :: "'c io_exec \<Rightarrow> bool" where
  io_start: "0 \<le> r \<Longrightarrow> io_reachable (snd (SimpleIO_Init r SimpleIO_ctor))"
| io_next: "io_reachable s \<Longrightarrow> io_step s t \<Longrightarrow> io_reachable t"

lemma task_process_frame:
  "Task_Process_delete t ev s = (r, s') \<Longrightarrow>
   loop_at s' = loop_at s \<and> owner_at s' = owner_at s \<and> shutdown_flag s' = shutdown_flag s \<and> in_flight s' = in_flight s"
  by (auto simp: Task_Process_delete_def split: if_splits option.splits)

lemma process_events_frame:
  "process_events evs s = (r, s') \<Longrightarrow>
   loop_at s' = loop_at s \<and> owner_at s' = owner_at s \<and> shutdown_flag s' = shutdown_flag s"
proof (induction evs arbitrary: s)
  case (Cons ev evs)
  obtain r1 s1 where first: "Task_Process_delete (ev_data ev) ev s = (r1, s1)" by fastforce
  note frame = task_process_frame [OF first]
  show ?case
  proof (cases "r1 = Return ()")
    case True
    with Cons.prems first have "process_events evs s1 = (r, s')" by (simp add: run_seq run_bind)
    from Cons.IH [OF this] frame show ?thesis by simp
  next
    case False
    with Cons.prems first have "s' = s1" by (cases r1) (simp_all add: run_seq run_bind)
    with frame show ?thesis by simp
  qed
qed (simp add: run_method)

lemma submit_frame:
  "submit_request io_submit junk io cb s = (r, s') \<Longrightarrow>
   loop_at s' = loop_at s \<and> owner_at s' = owner_at s \<and> shutdown_flag s' = shutdown_flag s"
  by (auto simp: submit_request_def Let_def dest!: task_process_frame split: if_splits)

lemmas SubmitIO_defs = SimpleIO_SubmitIO_def SimpleIO_SubmitIOV_def

text \<open>While the executor is in use the loop is not inside, so no completion is taken from the kernel.\<close>

lemma loop_not_serving:
  "io_reachable s \<Longrightarrow> (owner_at s = Using \<longrightarrow> \<not> shutdown_flag s) \<and> (loop_at s = LoopWait \<longrightarrow> shutdown_flag s) \<and>
   (owner_at s = Joining \<longrightarrow> shutdown_flag s)"
proof (induction rule: io_reachable.induct)
  case (io_start r)
  then show ?case by (simp add: SimpleIO_Init_def SimpleIO_ctor_def)
next
  case (io_next s t)
  from io_next(2,3) show ?case
    by (cases rule: io_step.cases) (auto simp: SubmitIO_defs dest: submit_frame process_events_frame)
qed

text \<open>If the loop thread tests the flag after \<open>Destroy\<close> has set it, it never leaves and \<open>Destroy\<close> never returns.\<close>

lemma destroy_waits_forever:
  assumes "io_step\<^sup>*\<^sup>* s t" and "owner_at s = Joining" and "shutdown_flag s" and "loop_at s \<noteq> LoopDone"
  shows "owner_at t = Joining"
proof -
  have "owner_at t = Joining \<and> shutdown_flag t \<and> loop_at t \<noteq> LoopDone"
    using assms
  proof (induction rule: rtranclp_induct)
    case (step y z)
    from step(2,3) step.prems show ?case
      by (cases rule: io_step.cases) (auto dest: process_events_frame)
  qed simp
  then show ?thesis ..
qed

section \<open>Tasks are deleted once\<close>

text \<open>The tasks that are not deleted are those of the requests in flight.\<close>

definition live_tasks :: "'c io_exec \<Rightarrow> nat set" where
  "live_tasks s = {t. t < length (io_tasks s) \<and> io_tasks s ! t \<noteq> None}"

definition tasks_match :: "'c io_exec \<Rightarrow> bool" where
  "tasks_match s \<longleftrightarrow> image_mset io_data (in_flight s) = mset_set (live_tasks s)"

lemma finite_live [simp]: "finite (live_tasks s)"
  by (simp add: live_tasks_def)

lemma task_process_live:
  assumes "t \<in> live_tasks s"
  shows "\<exists>s'. Task_Process_delete t ev s = (Return (), s') \<and> live_tasks s' = live_tasks s - {t} \<and>
    in_flight s' = in_flight s"
  using assms by (auto simp: Task_Process_delete_def live_tasks_def nth_list_update)

lemma process_events_live:
  "distinct (map ev_data evs) \<Longrightarrow> set (map ev_data evs) \<subseteq> live_tasks s \<Longrightarrow>
   \<exists>s'. process_events evs s = (Return (), s') \<and> live_tasks s' = live_tasks s - set (map ev_data evs) \<and>
     in_flight s' = in_flight s"
proof (induction evs arbitrary: s)
  case (Cons ev evs)
  then obtain s1 where s1: "Task_Process_delete (ev_data ev) ev s = (Return (), s1)"
      "live_tasks s1 = live_tasks s - {ev_data ev}" "in_flight s1 = in_flight s"
    using task_process_live [of "ev_data ev" s ev] by auto
  then have "distinct (map ev_data evs)" "set (map ev_data evs) \<subseteq> live_tasks s1"
    using Cons.prems by (auto simp: image_iff subset_iff)
  from Cons.IH [OF this] s1 show ?case by (auto simp: run_seq run_bind)
qed (simp add: run_method)

lemma reported_live:
  assumes "tasks_match s" and "reported (in_flight s) evs"
  shows "distinct (map ev_data evs)" and "set (map ev_data evs) \<subseteq> live_tasks s"
proof -
  from assms have sub: "mset (map ev_data evs) \<subseteq># mset_set (live_tasks s)"
    by (simp add: reported_def tasks_match_def)
  then show "set (map ev_data evs) \<subseteq> live_tasks s"
    by (metis finite_live finite_set_mset_mset_set set_mset_mono set_mset_mset)
  have upper: "Multiset.count (mset (map ev_data evs)) x \<le> 1" for x
    using mset_subset_eq_count [OF sub, of x] by (cases "x \<in> live_tasks s") auto
  have "Multiset.count (mset (map ev_data evs)) x = (if x \<in> set (map ev_data evs) then 1 else 0)" for x
  proof (cases "x \<in> set (map ev_data evs)")
    case True
    then have "0 < Multiset.count (mset (map ev_data evs)) x" by (simp only: count_greater_zero_iff set_mset_mset)
    with True upper [of x] show ?thesis by (simp only: if_True)
  next
    case False
    then have "x \<notin># mset (map ev_data evs)" unfolding set_mset_mset .
    then show ?thesis unfolding if_not_P [OF False] not_in_iff .
  qed
  then show "distinct (map ev_data evs)" by (simp only: distinct_count_atmost_1) simp
qed

lemma remove_reported:
  assumes "image_mset f M = mset_set A" and "finite A"
  shows "image_mset f (filter_mset (\<lambda>x. f x \<notin> B) M) = mset_set (A - B)"
proof -
  have "image_mset f (filter_mset (\<lambda>x. f x \<notin> B) M) = filter_mset (\<lambda>y. y \<notin> B) (image_mset f M)"
    by (induction M) auto
  also have "\<dots> = mset_set {y \<in> A. y \<notin> B}" using assms by (simp add: filter_mset_mset_set)
  also have "{y \<in> A. y \<notin> B} = A - B" by blast
  finally show ?thesis .
qed

lemma submit_match:
  assumes "tasks_match s" and "submit_request io_submit junk io cb s = (r, s')"
  shows "tasks_match s'"
proof (cases "io_submit (io\<lparr>io_data := length (io_tasks s)\<rparr>) < 0")
  case True
  have "live_tasks (s\<lparr>io_tasks := io_tasks s @ [None], ran := x\<rparr>) = live_tasks s" for x
    by (auto simp: live_tasks_def nth_append split: if_splits)
  with submit_refused [where io_submit = io_submit and io = io and s = s and junk = junk and cb = cb] True assms show ?thesis by (auto simp: tasks_match_def)
next
  case False
  have new: "live_tasks (s\<lparr>io_tasks := io_tasks s @ [Some cb], in_flight := x\<rparr>) =
      insert (length (io_tasks s)) (live_tasks s)" for x
    by (auto simp: live_tasks_def nth_append split: if_splits)
  have "length (io_tasks s) \<notin> live_tasks s" by (simp add: live_tasks_def)
  with submit_accepted [where io_submit = io_submit and io = io and s = s and junk = junk and cb = cb] False assms new show ?thesis
    by (auto simp: tasks_match_def)
qed

lemma live_tasks_fields [simp]:
  "live_tasks (s\<lparr>loop_at := a\<rparr>) = live_tasks s" "live_tasks (s\<lparr>owner_at := b\<rparr>) = live_tasks s"
  "live_tasks (s\<lparr>shutdown_flag := c\<rparr>) = live_tasks s" "live_tasks (s\<lparr>in_flight := d\<rparr>) = live_tasks s"
  by (simp_all add: live_tasks_def)

lemma reachable_match: "io_reachable s \<Longrightarrow> tasks_match s"
proof (induction rule: io_reachable.induct)
  case (io_start r)
  then show ?case by (simp add: SimpleIO_Init_def SimpleIO_ctor_def tasks_match_def live_tasks_def)
next
  case (io_next s t)
  from io_next(2) show ?case
  proof (cases rule: io_step.cases)
    case (loop_events evs t')
    let ?s = "s\<lparr>in_flight := filter_mset (\<lambda>io. io_data io \<notin> set (map ev_data evs)) (in_flight s)\<rparr>"
    note rep = reported_live [OF io_next(3) loop_events(3)]
    from rep have "distinct (map ev_data evs)" "set (map ev_data evs) \<subseteq> live_tasks ?s" by simp_all
    from process_events_live [OF this] loop_events(1,4)
    show ?thesis
      using remove_reported [of io_data "in_flight s" "live_tasks s" "set (map ev_data evs)"] io_next(3)
      by (auto simp: tasks_match_def)
  qed (use io_next(3) in \<open>auto simp: SubmitIO_defs tasks_match_def dest: submit_match [unfolded tasks_match_def]\<close>)
qed

text \<open>
  Claim C32. What \<open>SimpleIOExecutor\<close> does once \<open>Init\<close> has succeeded, on every interleaving of its owner and its
  loop thread. While it can be used the loop is never waiting for completions: the task of every
  accepted request stays undone, and the only callbacks called are those of refused requests. If the
  loop thread is still there when \<open>Destroy\<close> sets the flag, \<open>Destroy\<close> never returns. And whatever
  completions the kernel reports, the loop processes each with a live task: none is used after its
  deletion or deleted twice.
\<close>

theorem io_loop_serves_nobody:
  assumes "io_reachable s"
  shows "(owner_at s = Using \<longrightarrow> loop_at s \<noteq> LoopWait) \<and>
    (owner_at s = Joining \<and> loop_at s \<noteq> LoopDone \<longrightarrow> (\<forall>t. io_step\<^sup>*\<^sup>* s t \<longrightarrow> owner_at t \<noteq> Destroyed)) \<and>
    image_mset io_data (in_flight s) = mset_set (live_tasks s) \<and>
    (reported (in_flight s) evs \<longrightarrow> fst (process_events evs s) = Return ())"
proof -
  note match = reachable_match [OF assms]
  have events: "reported (in_flight s) evs \<longrightarrow> fst (process_events evs s) = Return ()"
  proof
    assume rep: "reported (in_flight s) evs"
    from process_events_live [OF reported_live [OF match rep]] show "fst (process_events evs s) = Return ()" by force
  qed
  note flag = loop_not_serving [OF assms]
  have "owner_at s = Joining \<and> loop_at s \<noteq> LoopDone \<longrightarrow> (\<forall>t. io_step\<^sup>*\<^sup>* s t \<longrightarrow> owner_at t \<noteq> Destroyed)"
    using flag destroy_waits_forever [of s] by auto
  with flag match events show ?thesis unfolding tasks_match_def by blast
qed

text \<open>\<open>Destroy\<close> is called before the loop thread has tested the flag.\<close>

definition demo_io :: "nat io_exec" where
  "demo_io = (snd (SimpleIO_Init 0 SimpleIO_ctor))\<lparr>shutdown_flag := True, owner_at := Joining\<rparr>"

theorem io_loop_serves_nobody_witness:
  "io_step\<^sup>*\<^sup>* (snd (SimpleIO_Init 0 SimpleIO_ctor)) demo_io \<and> owner_at demo_io = Joining \<and>
   \<not> (\<exists>t. io_step\<^sup>*\<^sup>* demo_io t \<and> owner_at t = Destroyed)"
proof -
  have step: "io_step (snd (SimpleIO_Init 0 SimpleIO_ctor)) demo_io"
    unfolding demo_io_def by (rule destroy_flag) (simp add: SimpleIO_Init_def SimpleIO_ctor_def)
  have "io_reachable (snd (SimpleIO_Init 0 (SimpleIO_ctor :: nat io_exec)))" by (rule io_start) simp
  from io_next [OF this step] have "io_reachable demo_io" .
  from io_loop_serves_nobody [OF this]
  have "owner_at demo_io = Joining \<and> loop_at demo_io \<noteq> LoopDone \<longrightarrow> (\<forall>t. io_step\<^sup>*\<^sup>* demo_io t \<longrightarrow> owner_at t \<noteq> Destroyed)"
    by blast
  moreover have "owner_at demo_io = Joining" "loop_at demo_io = LoopTest"
    by (simp_all add: demo_io_def SimpleIO_Init_def SimpleIO_ctor_def)
  ultimately show ?thesis using step by auto
qed

end
