(* ===== verification/Plain_IO.thy ===== *)
theory Plain_IO
  imports IO_Executor Executor_Model
begin

text \<open>
  \<^verbatim>\<open>executor/simple_io_executor.hpp\<close> as built without \<open>HAS_AIO\<close>, and what \<open>SimpleExecutor\<close> does with it:
  the constructor calls \<open>Init\<close>, the destructor \<open>Destory\<close>, and \<open>GetIOExecutor\<close> hands it out.
\<close>

definition Plain_Init :: "'c io_exec \<Rightarrow> bool \<times> 'c io_exec" where
  "Plain_Init s = (False, s)"

definition Plain_Destory :: "('c io_exec, unit) action" where
  "Plain_Destory = ret ()"

definition Plain_Loop :: "('c io_exec, unit) action" where
  "Plain_Loop = ret ()"

definition Plain_SubmitIO ::
  "32 word \<Rightarrow> iocb_cmd \<Rightarrow> nat \<Rightarrow> 64 word \<Rightarrow> 64 word \<Rightarrow> 'c \<Rightarrow> ('c io_exec, unit) action" where
  "Plain_SubmitIO fd cmd buffer len offset cb = ret ()"

definition Plain_SubmitIOV ::
  "32 word \<Rightarrow> iocb_cmd \<Rightarrow> nat \<Rightarrow> 64 word \<Rightarrow> 64 word \<Rightarrow> 'c \<Rightarrow> ('c io_exec, unit) action" where
  "Plain_SubmitIOV fd cmd iov iov_count offset cb = ret ()"

section \<open>SimpleExecutor and its IO executor\<close>

record ('f, 'c) simple_executor =
  se_pool :: "'f pool"
  se_io :: "'c io_exec"

definition SimpleExecutor_ctor :: "nat \<Rightarrow> nat \<Rightarrow> ('f, 'c) simple_executor" where
  "SimpleExecutor_ctor hardware_concurrency n =
     \<lparr>se_pool = Simple_ctor hardware_concurrency n, se_io = snd (Plain_Init SimpleIO_ctor)\<rparr>"

text \<open>The body of the destructor; the members are destroyed afterwards, the pool last.\<close>

definition SimpleExecutor_dtor :: "(('f, 'c) simple_executor, unit) action" where
  "SimpleExecutor_dtor s = (case Plain_Destory (se_io s) of (r, io) \<Rightarrow> (r, s\<lparr>se_io := io\<rparr>))"

definition SimpleExecutor_GetIOExecutor :: "('f, 'c) simple_executor \<Rightarrow> 'c io_exec" where
  "SimpleExecutor_GetIOExecutor s = se_io s"

text \<open>
  A request to the IO executor of a \<open>SimpleExecutor\<close> is dropped: its callback is neither called nor
  kept, so whoever waits for the completion waits for ever.
\<close>

lemma plain_requests_dropped:
  "Plain_SubmitIO fd cmd buffer len offset cb (SimpleExecutor_GetIOExecutor (SimpleExecutor_ctor hc n)) =
     (Return (), SimpleIO_ctor)"
  "Plain_SubmitIOV fd cmd buffer len offset cb (SimpleExecutor_GetIOExecutor (SimpleExecutor_ctor hc n)) =
     (Return (), SimpleIO_ctor)"
  by (simp_all add: Plain_SubmitIO_def Plain_SubmitIOV_def SimpleExecutor_GetIOExecutor_def SimpleExecutor_ctor_def
      Plain_Init_def run_method)

text \<open>The build with AIO calls the callback of a request that the kernel refuses; this one does not.\<close>

lemma builds_differ_on_refusal:
  assumes "io_submit = (\<lambda>_. -1)"
  shows "length (ran (snd (SimpleIO_SubmitIO io_submit junk fd cmd buffer len offset cb SimpleIO_ctor))) = 1"
    and "ran (snd (Plain_SubmitIO fd cmd buffer len offset cb SimpleIO_ctor)) = []"
  using assms
  by (simp_all add: SimpleIO_SubmitIO_def submit_request_def Task_Process_delete_def Let_def SimpleIO_ctor_def
      Plain_SubmitIO_def run_method)

lemma simple_executor_closes:
  "SimpleExecutor_dtor s = (Return (), s)"
  by (simp add: SimpleExecutor_dtor_def Plain_Destory_def run_method)

end
