(* ===== verification/Coroutine_Embedding.thy ===== *)
theory Coroutine_Embedding
  imports Lazy_Sync
begin

text \<open>
  A machine inside a larger one. The frames of a small machine are at other places of the large machine,
  between frames that belong to others; every operation of \<^verbatim>\<open>Coroutine_Machine.thy\<close> does the same in both, as
  long as it is defined in the small one, and leaves what belongs to others alone.
\<close>

section \<open>Handles, frames, machines\<close>

text \<open>\<open>f\<close> lists, for each frame of the small machine, its place in the large one. It grows with the frames.\<close>

definition grows :: "nat list \<Rightarrow> nat list \<Rightarrow> bool" where
  "grows f g \<longleftrightarrow> (\<exists>xs. g = f @ xs)"

definition handle_rel :: "nat list \<Rightarrow> nat \<Rightarrow> nat \<Rightarrow> bool" where
  "handle_rel f h k \<longleftrightarrow> h < length f \<and> f ! h = k"

fun awaiter_rel :: "nat list \<Rightarrow> 'a awaiter \<Rightarrow> 'a awaiter \<Rightarrow> bool" where
  "awaiter_rel f (AwLazy c) (AwLazy d) = handle_rel f c d"
| "awaiter_rel f (AwReschedule c) (AwReschedule d) = handle_rel f c d"
| "awaiter_rel f AwUnit AwUnit = True"
| "awaiter_rel f (AwExtern r) (AwExtern q) = (r = q)"
| "awaiter_rel f (AwVia v a) (AwVia w b) = (handle_rel f v w \<and> awaiter_rel f a b)"
| "awaiter_rel f _ _ = False"

fun point_rel :: "nat list \<Rightarrow> 'a point \<Rightarrow> 'a point \<Rightarrow> bool" where
  "point_rel f (AtStart b) (AtStart c) = (b = c)"
| "point_rel f (AtAwait a k) (AtAwait b l) = (awaiter_rel f a b \<and> k = l)"
| "point_rel f AtFinal AtFinal = True"
| "point_rel f _ _ = False"

definition promise_rel :: "nat list \<Rightarrow> 'v lazy_promise \<Rightarrow> 'v lazy_promise \<Rightarrow> bool" where
  "promise_rel f p q \<longleftrightarrow>
     rel_option (handle_rel f) (lp_continuation p) (lp_continuation q) \<and> lp_executor p = lp_executor q \<and>
     lp_result_type p = lp_result_type q \<and> lp_storage p = lp_storage q"

definition via_rel :: "nat list \<Rightarrow> via_promise \<Rightarrow> via_promise \<Rightarrow> bool" where
  "via_rel f p q \<longleftrightarrow>
     rel_option (handle_rel f) (via_continuation p) (via_continuation q) \<and> via_executor p = via_executor q \<and>
     via_context p = via_context q"

fun frame_rel :: "nat list \<Rightarrow> 'a frame \<Rightarrow> 'a frame \<Rightarrow> bool" where
  "frame_rel f (LazyFrame pt p) (LazyFrame pu q) = (point_rel f pt pu \<and> promise_rel f p q)"
| "frame_rel f (ViaFrame b p) (ViaFrame c q) = (b = c \<and> via_rel f p q)"
| "frame_rel f (DetachedFrame c cb) (DetachedFrame d db) = (handle_rel f c d \<and> cb = db)"
| "frame_rel f _ _ = False"

fun job_rel :: "nat list \<Rightarrow> job \<Rightarrow> job \<Rightarrow> bool" where
  "job_rel f (Resume h) (Resume k) = handle_rel f h k"
| "job_rel f (ResumeContinuationOf h) (ResumeContinuationOf k) = handle_rel f h k"
| "job_rel f _ _ = False"

definition task_rel :: "nat list \<Rightarrow> nat \<times> nat option \<times> job \<Rightarrow> nat \<times> nat option \<times> job \<Rightarrow> bool" where
  "task_rel f = rel_prod (=) (rel_prod (=) (job_rel f))"

definition event_rel :: "nat list \<Rightarrow> 'l \<times> nat \<Rightarrow> 'l \<times> nat \<Rightarrow> bool" where
  "event_rel f = rel_prod (=) (handle_rel f)"

text \<open>
  Everything in a machine is an item: a frame at its place, a task, a timer, an event or a result. A machine
  is embedded in another, next to the items \<open>K\<close> of others, if its items are there under their new names.
\<close>

datatype 'a item =
    IFrame nat "'a frame option"
  | ITask "nat \<times> nat option \<times> job"
  | ITimer "nat \<times> nat"
  | IArrival "nat option \<times> nat"
  | IResult "nat \<times> 'a val try_val"

fun item_rel :: "nat list \<Rightarrow> 'a item \<Rightarrow> 'a item \<Rightarrow> bool" where
  "item_rel f (IFrame h a) (IFrame k b) = (handle_rel f h k \<and> rel_option (frame_rel f) a b)"
| "item_rel f (ITask x) (ITask y) = task_rel f x y"
| "item_rel f (ITimer x) (ITimer y) = event_rel f x y"
| "item_rel f (IArrival x) (IArrival y) = event_rel f x y"
| "item_rel f (IResult x) (IResult y) = (x = y)"
| "item_rel f _ _ = False"

definition frame_items :: "'a frame option list \<Rightarrow> 'a item multiset" where
  "frame_items fs = image_mset (\<lambda>i. IFrame i (fs ! i)) (mset_set {..<length fs})"

definition items_of :: "'a cmachine \<Rightarrow> 'a item multiset" where
  "items_of s = frame_items (frames s) + image_mset ITask (tasks s) + image_mset ITimer (timers s) +
     image_mset IArrival (arrivals s) + image_mset IResult (mset (cb_results s))"

definition embeds :: "'a item multiset \<Rightarrow> nat list \<Rightarrow> 'a cmachine \<Rightarrow> 'a cmachine \<Rightarrow> bool" where
  "embeds K f s t \<longleftrightarrow>
     length f = length (frames s) \<and> running s = running t \<and>
     (\<exists>V. items_of t = K + V \<and> rel_mset (item_rel f) (items_of s) V)"

section \<open>Growing\<close>

lemma grows_refl [simp]: "grows f f"
  by (simp add: grows_def)

lemma grows_trans: "grows f g \<Longrightarrow> grows g h \<Longrightarrow> grows f h"
  by (auto simp: grows_def)

lemma handle_grows: "handle_rel f h k \<Longrightarrow> grows f g \<Longrightarrow> handle_rel g h k"
  by (auto simp: handle_rel_def grows_def nth_append)

lemma option_grows: "rel_option (handle_rel f) a b \<Longrightarrow> grows f g \<Longrightarrow> rel_option (handle_rel g) a b"
  by (erule option.rel_mono_strong) (rule handle_grows)

lemma awaiter_grows: "awaiter_rel f a b \<Longrightarrow> grows f g \<Longrightarrow> awaiter_rel g a b"
  by (induction f a b rule: awaiter_rel.induct) (auto intro: handle_grows)

lemma point_grows: "point_rel f a b \<Longrightarrow> grows f g \<Longrightarrow> point_rel g a b"
  by (cases "(f, a, b)" rule: point_rel.cases) (auto intro: awaiter_grows)

lemma promise_grows: "promise_rel f a b \<Longrightarrow> grows f g \<Longrightarrow> promise_rel g a b"
  by (auto simp: promise_rel_def intro: option_grows)

lemma via_grows: "via_rel f a b \<Longrightarrow> grows f g \<Longrightarrow> via_rel g a b"
  by (auto simp: via_rel_def intro: option_grows)

lemma frame_grows: "frame_rel f a b \<Longrightarrow> grows f g \<Longrightarrow> frame_rel g a b"
  by (cases "(f, a, b)" rule: frame_rel.cases) (auto intro: point_grows promise_grows via_grows handle_grows)

lemma job_grows: "job_rel f a b \<Longrightarrow> grows f g \<Longrightarrow> job_rel g a b"
  by (cases "(f, a, b)" rule: job_rel.cases) (auto intro: handle_grows)

lemma task_grows: "task_rel f x y \<Longrightarrow> grows f g \<Longrightarrow> task_rel g x y"
  by (auto simp: task_rel_def rel_prod_sel intro: job_grows)

lemma event_grows: "event_rel f x y \<Longrightarrow> grows f g \<Longrightarrow> event_rel g x y"
  by (auto simp: event_rel_def rel_prod_sel intro: handle_grows)

lemma frame_option_grows: "rel_option (frame_rel f) a b \<Longrightarrow> grows f g \<Longrightarrow> rel_option (frame_rel g) a b"
  by (erule option.rel_mono_strong) (rule frame_grows)

lemma item_grows: "item_rel f x y \<Longrightarrow> grows f g \<Longrightarrow> item_rel g x y"
  by (cases "(f, x, y)" rule: item_rel.cases) (auto intro: handle_grows frame_option_grows task_grows event_grows)

lemma items_grow: "rel_mset (item_rel f) x y \<Longrightarrow> grows f g \<Longrightarrow> rel_mset (item_rel g) x y"
  by (erule multiset.rel_mono_strong) (rule item_grows)

lemmas growing = handle_grows option_grows awaiter_grows point_grows promise_grows via_grows frame_grows
  frame_option_grows job_grows task_grows event_grows

section \<open>Items of a machine\<close>

lemma frame_items_at:
  assumes "h < length fs"
  obtains R where "\<And>a. frame_items (fs[h := a]) = add_mset (IFrame h a) R"
proof
  fix a
  let ?M = "mset_set ({..<length fs} - {h})"
  have "mset_set {..<length fs} = add_mset h ?M"
    using assms by (intro mset_set.remove) simp_all
  moreover have "image_mset (\<lambda>i. IFrame i (fs[h := a] ! i)) ?M = image_mset (\<lambda>i. IFrame i (fs ! i)) ?M"
    by (rule image_mset_cong) simp
  ultimately show "frame_items (fs[h := a]) = add_mset (IFrame h a) (image_mset (\<lambda>i. IFrame i (fs ! i)) ?M)"
    using assms by (simp add: frame_items_def)
qed

lemma frame_items_snoc: "frame_items (fs @ [a]) = add_mset (IFrame (length fs) a) (frame_items fs)"
proof -
  have "image_mset (\<lambda>i. IFrame i ((fs @ [a]) ! i)) (mset_set {..<length fs}) =
      image_mset (\<lambda>i. IFrame i (fs ! i)) (mset_set {..<length fs})"
    by (rule image_mset_cong) (simp add: nth_append)
  then show ?thesis by (simp add: frame_items_def lessThan_Suc)
qed

lemma items_of_frames:
  assumes "h < length (frames s)"
  obtains R where "\<And>a. items_of (s\<lparr>frames := (frames s)[h := a]\<rparr>) = add_mset (IFrame h a) R"
    and "items_of s = add_mset (IFrame h (frames s ! h)) R"
proof -
  obtain R where R: "\<And>a. frame_items ((frames s)[h := a]) = add_mset (IFrame h a) R"
    using frame_items_at [OF assms] by blast
  have "frame_items (frames s) = add_mset (IFrame h (frames s ! h)) R"
    using R [of "frames s ! h"] by simp
  with R that show ?thesis by (simp add: items_of_def)
qed

lemma item_frame_iff: "IFrame h a \<in># items_of s \<longleftrightarrow> h < length (frames s) \<and> frames s ! h = a"
  by (auto simp: items_of_def frame_items_def)

lemma item_other_iff:
  "ITask x \<in># items_of s \<longleftrightarrow> x \<in># tasks s"
  "ITimer y \<in># items_of s \<longleftrightarrow> y \<in># timers s"
  "IArrival z \<in># items_of s \<longleftrightarrow> z \<in># arrivals s"
  "IResult r \<in># items_of s \<longleftrightarrow> r \<in> set (cb_results s)"
  by (auto simp: items_of_def frame_items_def)

lemma items_of_simps [simp]:
  "items_of (s\<lparr>tasks := add_mset x (tasks s)\<rparr>) = add_mset (ITask x) (items_of s)"
  "items_of (s\<lparr>timers := add_mset y (timers s)\<rparr>) = add_mset (ITimer y) (items_of s)"
  "items_of (s\<lparr>arrivals := add_mset z (arrivals s)\<rparr>) = add_mset (IArrival z) (items_of s)"
  "items_of (s\<lparr>frames := frames s @ [a]\<rparr>) = add_mset (IFrame (length (frames s)) a) (items_of s)"
  "items_of (s\<lparr>cb_results := cb_results s @ [r]\<rparr>) = add_mset (IResult r) (items_of s)"
  "items_of (s\<lparr>running := th\<rparr>) = items_of s"
  by (simp_all add: items_of_def frame_items_snoc)

text \<open>The operations on an embedded machine.\<close>

lemma embeds_add:
  assumes "embeds K f s t" and "items_of s' = add_mset a (items_of s)" and "items_of t' = add_mset b (items_of t)"
    and "item_rel f a b" and "length (frames s') = length (frames s)" and "running s' = running t'"
  shows "embeds K f s' t'"
proof -
  from assms(1) obtain V where V: "items_of t = K + V" "rel_mset (item_rel f) (items_of s) V" "length f = length (frames s)"
    by (auto simp: embeds_def)
  then have "rel_mset (item_rel f) (items_of s') (add_mset b V)"
    unfolding assms(2) using assms(4) by (intro rel_mset_Plus)
  with assms V show ?thesis unfolding embeds_def by (intro conjI exI [of _ "add_mset b V"]) simp_all
qed

lemma embeds_frame:
  assumes "embeds K f s t" and "handle_rel f h k"
  obtains V where "items_of t = K + add_mset (IFrame k (frames t ! k)) V" and "k < length (frames t)"
    and "h < length (frames s)" and "rel_option (frame_rel f) (frames s ! h) (frames t ! k)"
    and "\<And>R. items_of s = add_mset (IFrame h (frames s ! h)) R \<Longrightarrow> rel_mset (item_rel f) R V"
proof -
  from assms have h: "h < length (frames s)" by (simp add: embeds_def handle_rel_def)
  from assms(1) obtain V where V: "items_of t = K + V" "rel_mset (item_rel f) (items_of s) V"
    by (auto simp: embeds_def)
  obtain R where R: "items_of s = add_mset (IFrame h (frames s ! h)) R" using items_of_frames [OF h] by metis
  from V(2) [unfolded R] obtain W x where W: "V = add_mset x W" "item_rel f (IFrame h (frames s ! h)) x" "rel_mset (item_rel f) R W"
    by (metis msed_rel_invL)
  from W(2) assms(2) obtain b where x: "x = IFrame k b" "rel_option (frame_rel f) (frames s ! h) b"
    by (cases x) (auto simp: handle_rel_def)
  with V(1) W(1) have "IFrame k b \<in># items_of t" by simp
  then have k: "k < length (frames t)" "b = frames t ! k" by (simp_all add: item_frame_iff)
  show ?thesis
    by (rule that [of W]) (use V(1) W x k h R in auto)
qed

lemma embeds_set_frame:
  assumes "embeds K f s t" and "handle_rel f h k" and "rel_option (frame_rel f) a b"
  shows "embeds K f (s\<lparr>frames := (frames s)[h := a]\<rparr>) (t\<lparr>frames := (frames t)[k := b]\<rparr>)"
proof -
  from embeds_frame [OF assms(1,2)] obtain V where V:
    "items_of t = K + add_mset (IFrame k (frames t ! k)) V" "k < length (frames t)" "h < length (frames s)"
    "\<And>R. items_of s = add_mset (IFrame h (frames s ! h)) R \<Longrightarrow> rel_mset (item_rel f) R V" by metis
  obtain R where R: "\<And>x. items_of (s\<lparr>frames := (frames s)[h := x]\<rparr>) = add_mset (IFrame h x) R"
    "items_of s = add_mset (IFrame h (frames s ! h)) R" using items_of_frames [OF V(3)] by blast
  obtain S where S: "\<And>x. items_of (t\<lparr>frames := (frames t)[k := x]\<rparr>) = add_mset (IFrame k x) S"
    "items_of t = add_mset (IFrame k (frames t ! k)) S" using items_of_frames [OF V(2)] by blast
  from V(1) S(2) have "S = K + V" by simp
  moreover have "rel_mset (item_rel f) (add_mset (IFrame h a) R) (add_mset (IFrame k b) V)"
    using V(4) [OF R(2)] assms(2,3) by (intro rel_mset_Plus) simp_all
  ultimately show ?thesis
    using assms(1) R(1) S(1) unfolding embeds_def
    by (intro conjI exI [of _ "add_mset (IFrame k b) V"]) simp_all
qed

lemma embeds_new_frame:
  assumes "embeds K f s t" and "rel_option (frame_rel (f @ [length (frames t)])) a b"
  shows "embeds K (f @ [length (frames t)]) (s\<lparr>frames := frames s @ [a]\<rparr>) (t\<lparr>frames := frames t @ [b]\<rparr>)"
proof -
  let ?g = "f @ [length (frames t)]"
  from assms(1) obtain V where V: "items_of t = K + V" "rel_mset (item_rel f) (items_of s) V" "length f = length (frames s)"
    by (auto simp: embeds_def)
  have "grows f ?g" by (simp add: grows_def)
  from items_grow [OF V(2) this] assms(2) V(3)
  have "rel_mset (item_rel ?g) (add_mset (IFrame (length (frames s)) a) (items_of s)) (add_mset (IFrame (length (frames t)) b) V)"
    by (intro rel_mset_Plus) (simp_all add: handle_rel_def nth_append)
  with assms(1) V show ?thesis
    unfolding embeds_def by (intro conjI exI [of _ "add_mset (IFrame (length (frames t)) b) V"]) simp_all
qed

section \<open>The same operation in both machines\<close>

text \<open>
  \<open>M\<close> does in the large machine what \<open>m\<close> does in the small one, with related results, as long as \<open>m\<close>
  returns or throws.
\<close>

definition follows ::
  "'a cmachine \<Rightarrow> 'a item multiset \<Rightarrow> nat list \<Rightarrow> (nat list \<Rightarrow> 'x \<Rightarrow> 'y \<Rightarrow> bool) \<Rightarrow>
     'x outcome \<Rightarrow> 'y outcome \<times> 'a cmachine \<Rightarrow> bool" where
  "follows s' K f A x y \<longleftrightarrow>
     (case x of
        Return v \<Rightarrow> \<exists>w g. fst y = Return w \<and> grows f g \<and> embeds K g s' (snd y) \<and> A g v w
      | Throw e \<Rightarrow> \<exists>g. fst y = Throw e \<and> grows f g \<and> embeds K g s' (snd y)
      | _ \<Rightarrow> True)"

definition sim ::
  "'a item multiset \<Rightarrow> nat list \<Rightarrow> (nat list \<Rightarrow> 'x \<Rightarrow> 'y \<Rightarrow> bool) \<Rightarrow>
     ('a cmachine, 'x) action \<Rightarrow> ('a cmachine, 'y) action \<Rightarrow> bool" where
  "sim K f A m M \<longleftrightarrow> (\<forall>s t. embeds K f s t \<longrightarrow> follows (snd (m s)) K f A (fst (m s)) (M t))"

abbreviation same :: "nat list \<Rightarrow> 'x \<Rightarrow> 'x \<Rightarrow> bool" where
  "same \<equiv> \<lambda>_. (=)"

named_theorems sims \<open>operations that do the same in an embedded machine\<close>

lemma simI:
  assumes "\<And>s t. embeds K f s t \<Longrightarrow> follows (snd (m s)) K f A (fst (m s)) (M t)"
  shows "sim K f A m M"
  using assms by (simp add: sim_def)

lemma sim_bind [sims]:
  assumes "sim K f A m M" and "\<And>g x y. grows f g \<Longrightarrow> A g x y \<Longrightarrow> sim K g B (k x) (l y)"
  shows "sim K f B (bind m k) (bind M l)"
proof (rule simI)
  fix s t assume e: "embeds K f s t"
  obtain r s' where m: "m s = (r, s')" by (cases "m s")
  obtain q t' where M: "M t = (q, t')" by (cases "M t")
  from assms(1) e have fo: "follows s' K f A r (q, t')" unfolding sim_def by (metis m M fst_conv snd_conv)
  show "follows (snd (bind m k s)) K f B (fst (bind m k s)) (bind M l t)"
  proof (cases r)
    case (Return v)
    with fo obtain w g where w: "q = Return w" "grows f g" "embeds K g s' t'" "A g v w" by (auto simp: follows_def)
    from assms(2) [OF w(2,4)] w(3) have "follows (snd (k v s')) K g B (fst (k v s')) (l w t')" by (simp add: sim_def)
    with w(2) Return show ?thesis
      by (auto simp: run_bind m M w(1) follows_def intro: grows_trans split: outcome.splits)
  qed (use fo in \<open>auto simp: run_bind m M follows_def\<close>)
qed

lemma sim_seq [sims]:
  assumes "sim K f same m M" and "\<And>g. grows f g \<Longrightarrow> sim K g B k l"
  shows "sim K f B (seq m k) (seq M l)"
  unfolding seq_def by (rule sim_bind [OF assms(1)]) (rule assms(2))

lemma sim_ret [sims]: "A f x y \<Longrightarrow> sim K f A (ret x) (ret y)"
  by (rule simI) (auto simp: run_method follows_def intro: grows_refl)

lemma sim_throw [sims]: "sim K f A (throw e) (throw e)"
  by (rule simI) (auto simp: run_method follows_def intro: grows_refl)

lemma sim_stuck [sims]: "sim K f A undef M" "sim K f A abort M"
  by (rule simI, simp add: run_method follows_def)+

lemma sim_try_catch [sims]:
  assumes "sim K f A m M" and "\<And>g e. grows f g \<Longrightarrow> sim K g A (h e) (l e)"
  shows "sim K f A (try_catch m h) (try_catch M l)"
proof (rule simI)
  fix s t assume e: "embeds K f s t"
  obtain r s' where m: "m s = (r, s')" by (cases "m s")
  obtain q t' where M: "M t = (q, t')" by (cases "M t")
  from assms(1) e have fo: "follows s' K f A r (q, t')" unfolding sim_def by (metis m M fst_conv snd_conv)
  show "follows (snd (try_catch m h s)) K f A (fst (try_catch m h s)) (try_catch M l t)"
  proof (cases r)
    case (Throw x)
    with fo obtain g where w: "q = Throw x" "grows f g" "embeds K g s' t'" by (auto simp: follows_def)
    from assms(2) [OF w(2)] w(3) have "follows (snd (h x s')) K g A (fst (h x s')) (l x t')" by (simp add: sim_def)
    with w(2) Throw show ?thesis
      by (auto simp: try_catch_def m M w(1) follows_def intro: grows_trans split: outcome.splits)
  qed (use fo in \<open>auto simp: try_catch_def m M follows_def\<close>)
qed

lemma sim_running [sims]: "sim K f same (gets running) (gets running)"
  by (rule simI) (auto simp: run_method follows_def embeds_def intro: exI [of _ f])

lemma sim_if [sims]:
  assumes "P \<longleftrightarrow> Q" and "P \<Longrightarrow> sim K f A m M" and "\<not> P \<Longrightarrow> sim K f A n N"
  shows "sim K f A (if P then m else n) (if Q then M else N)"
  using assms by simp

lemma sim_option:
  assumes "rel_option R a b" and "sim K f A m M" and "\<And>x y. R x y \<Longrightarrow> sim K f A (k x) (l y)"
  shows "sim K f A (case_option m k a) (case_option M l b)"
  using assms by (cases a; cases b) simp_all

section \<open>Frames\<close>

lemma sim_frame_at [sims]:
  assumes "handle_rel f h k"
  shows "sim K f frame_rel (frame_at h) (frame_at k)"
proof (rule simI)
  fix s t assume "embeds K f s t"
  from embeds_frame [OF this assms] have "k < length (frames t)" "h < length (frames s)"
    "rel_option (frame_rel f) (frames s ! h) (frames t ! k)" by metis+
  with \<open>embeds K f s t\<close> show "follows (snd (frame_at h s)) K f frame_rel (fst (frame_at h s)) (frame_at k t)"
    by (auto simp: frame_at_def follows_def split: option.splits intro: grows_refl)
qed

lemma sim_set_frame [sims]:
  assumes "handle_rel f h k" and "rel_option (frame_rel f) a b"
  shows "sim K f same (set_frame h a) (set_frame k b)"
  by (rule simI) (auto simp: set_frame_def run_method follows_def intro!: exI [of _ f] embeds_set_frame assms)

lemma sim_new_frame [sims]:
  assumes "\<And>g. grows f g \<Longrightarrow> frame_rel g a b"
  shows "sim K f handle_rel (new_frame a) (new_frame b)"
proof (rule simI)
  fix s t assume e: "embeds K f s t"
  let ?g = "f @ [length (frames t)]"
  have g: "grows f ?g" by (simp add: grows_def)
  have "embeds K ?g (s\<lparr>frames := frames s @ [Some a]\<rparr>) (t\<lparr>frames := frames t @ [Some b]\<rparr>)"
    by (rule embeds_new_frame [OF e]) (simp add: assms [OF g])
  moreover have "handle_rel ?g (length (frames s)) (length (frames t))"
    using e by (simp add: embeds_def handle_rel_def nth_append)
  ultimately show "follows (snd (new_frame a s)) K f handle_rel (fst (new_frame a s)) (new_frame b t)"
    using g by (auto simp: new_frame_def follows_def intro!: exI [of _ ?g])
qed

text \<open>Operations of a promise, and \<open>promise()\<close>.\<close>

definition psim ::
  "nat list \<Rightarrow> (nat list \<Rightarrow> 'x \<Rightarrow> 'y \<Rightarrow> bool) \<Rightarrow> ('v lazy_promise, 'x) action \<Rightarrow> ('v lazy_promise, 'y) action \<Rightarrow> bool" where
  "psim f A m M \<longleftrightarrow>
     (\<forall>p q. promise_rel f p q \<longrightarrow>
        (case fst (m p) of
           Return x \<Rightarrow> \<exists>y. fst (M q) = Return y \<and> A f x y \<and> promise_rel f (snd (m p)) (snd (M q))
         | Throw e \<Rightarrow> fst (M q) = Throw e \<and> promise_rel f (snd (m p)) (snd (M q))
         | _ \<Rightarrow> True))"

lemma sim_promise_of [sims]:
  assumes h: "handle_rel f h k" and m: "psim f A m M" and A: "\<And>g x y. A f x y \<Longrightarrow> grows f g \<Longrightarrow> A g x y"
  shows "sim K f A (promise_of h m) (promise_of k M)"
  unfolding promise_of_def
proof (rule simI)
  fix s t assume e: "embeds K f s t"
  from embeds_frame [OF this h] have k: "k < length (frames t)" "h < length (frames s)"
    "rel_option (frame_rel f) (frames s ! h) (frames t ! k)" by metis+
  show "follows (snd (bind (frame_at h) (case_frame (\<lambda>pt p. case m p of (r, p') \<Rightarrow> seq (set_frame h (Some (LazyFrame pt p'))) (\<lambda>s. (r, s))) (\<lambda>_ _. undef) (\<lambda>_ _. undef)) s)) K f A
      (fst (bind (frame_at h) (case_frame (\<lambda>pt p. case m p of (r, p') \<Rightarrow> seq (set_frame h (Some (LazyFrame pt p'))) (\<lambda>s. (r, s))) (\<lambda>_ _. undef) (\<lambda>_ _. undef)) s))
      (bind (frame_at k) (case_frame (\<lambda>pt p. case M p of (r, p') \<Rightarrow> seq (set_frame k (Some (LazyFrame pt p'))) (\<lambda>s. (r, s))) (\<lambda>_ _. undef) (\<lambda>_ _. undef)) t)"
  proof (cases "frames s ! h")
    case None
    then show ?thesis using k by (simp add: frame_at_def run_bind follows_def)
  next
    case (Some F)
    with k(3) obtain G where G: "frames t ! k = Some G" "frame_rel f F G" by (cases "frames t ! k") auto
    show ?thesis
    proof (cases F)
      case (LazyFrame pt p)
      with G(2) obtain pu q where G': "G = LazyFrame pu q" "point_rel f pt pu" "promise_rel f p q" by (cases G) auto
      obtain r p' where mp: "m p = (r, p')" by (cases "m p")
      obtain r2 q' where Mq: "M q = (r2, q')" by (cases "M q")
      note fo = m [unfolded psim_def, rule_format, OF G'(3), unfolded mp Mq fst_conv snd_conv]
      have "embeds K f (s\<lparr>frames := (frames s)[h := Some (LazyFrame pt p')]\<rparr>) (t\<lparr>frames := (frames t)[k := Some (LazyFrame pu q')]\<rparr>)"
        if "promise_rel f p' q'" using that G'(2) by (intro embeds_set_frame [OF e h]) simp
      with fo k Some G LazyFrame G' show ?thesis
        by (cases r) (auto simp: frame_at_def run_bind run_seq mp Mq follows_def set_frame_def run_method intro!: exI [of _ f])
    qed (use k Some in \<open>simp_all add: frame_at_def run_bind follows_def run_method\<close>)
  qed
qed

end
