(* ===== verification/Embedded_Operations.thy ===== *)
theory Embedded_Operations
  imports Coroutine_Embedding
begin

text \<open>
  Every operation of the coroutine machine does in a machine that embeds another what it does in the small
  one: the operations of promises, executors, \<open>ViaCoroutine\<close> and awaiters, and \<open>resume\<close>.
\<close>

section \<open>Promises\<close>

lemmas psim_unfold = psim_def promise_rel_def run_method

lemma psim_ops [sims]:
  "psim f same (gets lp_executor) (gets lp_executor)"
  "psim f (\<lambda>g. rel_option (handle_rel g)) (gets lp_continuation) (gets lp_continuation)"
  "psim f same (lp_set_executor ex) (lp_set_executor ex)"
  "rel_option (handle_rel f) a b \<Longrightarrow> psim f same (lp_set_continuation a) (lp_set_continuation b)"
  by (simp_all add: psim_unfold lp_set_executor_def lp_set_continuation_def)

lemma psim_results [sims]:
  "psim f same LazyPromise_dtor LazyPromise_dtor"
  "psim f same (LazyPromise_return_value v) (LazyPromise_return_value v)"
  "psim f same (LazyPromise_unhandled_exception e) (LazyPromise_unhandled_exception e)"
  "psim f same LazyPromise_Result LazyPromise_Result"
  "psim f same LazyPromise_TryResult LazyPromise_TryResult"
  by (auto simp: psim_unfold lazy_promise_defs run_bind run_seq noexcept_def ASSERT_def
      split: result_type.splits storage.splits option.splits)

section \<open>Cases\<close>

lemma sim_frame_cases [sims]:
  assumes "frame_rel f a b"
    and "\<And>pt p pu q. point_rel f pt pu \<Longrightarrow> promise_rel f p q \<Longrightarrow> sim K f A (m1 pt p) (n1 pu q)"
    and "\<And>x p q. via_rel f p q \<Longrightarrow> sim K f A (m2 x p) (n2 x q)"
    and "\<And>c d cb. handle_rel f c d \<Longrightarrow> sim K f A (m3 c cb) (n3 d cb)"
  shows "sim K f A (case_frame m1 m2 m3 a) (case_frame n1 n2 n3 b)"
  using assms by (cases a; cases b) auto

lemma sim_frame_use:
  assumes "handle_rel f h k" and "\<And>a b. frame_rel f a b \<Longrightarrow> sim K f A (m a) (n b)"
  shows "sim K f A (bind (frame_at h) m) (bind (frame_at k) n)"
proof (rule simI)
  fix s t assume e: "embeds K f s t"
  from embeds_frame [OF this assms(1)] have k: "k < length (frames t)" "h < length (frames s)"
    "rel_option (frame_rel f) (frames s ! h) (frames t ! k)" by metis+
  show "follows (snd (bind (frame_at h) m s)) K f A (fst (bind (frame_at h) m s)) (bind (frame_at k) n t)"
  proof (cases "frames s ! h")
    case None
    then show ?thesis using k by (simp add: frame_at_def run_bind follows_def)
  next
    case (Some F)
    with k(3) obtain G where "frames t ! k = Some G" "frame_rel f F G" by (cases "frames t ! k") auto
    with assms(2) [of F G] e k Some show ?thesis by (simp add: frame_at_def run_bind sim_def)
  qed
qed

lemma sim_point_cases [sims]:
  assumes "point_rel f a b"
    and "\<And>x. sim K f A (m1 x) (n1 x)"
    and "\<And>x y k. awaiter_rel f x y \<Longrightarrow> sim K f A (m2 x k) (n2 y k)"
    and "sim K f A m3 n3"
  shows "sim K f A (case_point m1 m2 m3 a) (case_point n1 n2 n3 b)"
  using assms by (cases a; cases b) auto

section \<open>Frames\<close>

lemma sim_set_point [sims]:
  assumes "handle_rel f h k" and "point_rel f a b"
  shows "sim K f same (set_point h a) (set_point k b)"
  unfolding set_point_def by (intro sim_frame_use sims) (use assms in simp_all)

lemma sim_destroy [sims]:
  assumes "handle_rel f h k"
  shows "sim K f same (destroy h) (destroy k)"
  unfolding destroy_def
  by (intro sim_frame_use sims) (use assms in \<open>auto intro: growing\<close>)

lemma sim_executor_of [sims]: "handle_rel f h k \<Longrightarrow> sim K f same (executor_of h) (executor_of k)"
  unfolding executor_of_def by (intro sims) simp_all

lemma sim_new_lazy [sims]: "sim K f handle_rel (new_lazy b) (new_lazy b)"
  unfolding new_lazy_def by (intro sims) (simp add: promise_rel_def LazyPromise_ctor_def)

section \<open>Executors\<close>

lemma sim_add:
  assumes "\<And>s :: 'a cmachine. items_of (u s) = add_mset a (items_of s) \<and> frames (u s) = frames s \<and> running (u s) = running s"
    and "\<And>s :: 'a cmachine. items_of (v s) = add_mset b (items_of s) \<and> frames (v s) = frames s \<and> running (v s) = running s"
    and "item_rel f a b"
  shows "sim K f same (modify u) (modify v)"
proof (rule simI)
  fix s t :: "'a cmachine"
  assume e: "embeds K f s t"
  then have "running s = running t" by (simp add: embeds_def)
  with embeds_add [OF e, of "u s" a "v t" b] assms have "embeds K f (u s) (v t)" by simp
  then show "follows (snd (modify u s)) K f same (fst (modify u s)) (modify v t)"
    by (auto simp: run_method follows_def intro!: exI [of _ f])
qed

lemma sim_schedule [sims]: "handle_rel f h k \<Longrightarrow> sim K f same (schedule env e h) (schedule env e k)"
  unfolding schedule_def
  by (intro sims sim_add [where a = "ITask (e, None, Resume h)" and b = "ITask (e, None, Resume k)"])
    (simp_all add: task_rel_def)

lemma sim_schedule_after [sims]: "handle_rel f h k \<Longrightarrow> sim K f same (schedule_after e h) (schedule_after e k)"
  unfolding schedule_after_def
  by (intro sim_add [where a = "ITimer (e, h)" and b = "ITimer (e, k)"]) (simp_all add: event_rel_def)

lemma sim_extern [sims]: "handle_rel f h k \<Longrightarrow> sim K f same (extern_await_suspend th h) (extern_await_suspend th k)"
  unfolding extern_await_suspend_def
  by (intro sim_add [where a = "IArrival (th, h)" and b = "IArrival (th, k)"]) (simp_all add: event_rel_def)

lemma sim_gets_running:
  "sim K f same (gets (\<lambda>s. g (running s))) (gets (\<lambda>s. g (running s)))"
  by (rule simI) (auto simp: run_method follows_def embeds_def intro: exI [of _ f])

lemma sim_queries [sims]:
  "sim K f same (in_executor e) (in_executor e)"
  "sim K f same (checkout e) (checkout e)"
  unfolding in_executor_def checkout_def by (rule sim_gets_running)+

lemma sim_post:
  assumes "job_rel f i j"
  shows "sim K f same (modify (\<lambda>s. s\<lparr>tasks := add_mset (e, w, i) (tasks s)\<rparr>)) (modify (\<lambda>s. s\<lparr>tasks := add_mset (e, w, j) (tasks s)\<rparr>))"
  by (rule sim_add [where a = "ITask (e, w, i)" and b = "ITask (e, w, j)"]) (simp_all add: task_rel_def assms)

lemma sim_checkin [sims]:
  assumes "rel_option (job_rel f) i j"
  shows "sim K f same (checkin env e ctx i) (checkin env e ctx j)"
proof (cases i)
  case None
  with assms have "i = None" "j = None" by simp_all
  then show ?thesis unfolding checkin_def Let_def by (auto intro!: sims)
next
  case (Some x)
  with assms obtain y where y: "j = Some y" "job_rel f x y" by (cases j) auto
  have "sim K g same (seq (modify (\<lambda>s. s\<lparr>tasks := add_mset (e, w, x) (tasks s)\<rparr>)) (ret False))
      (seq (modify (\<lambda>s. s\<lparr>tasks := add_mset (e, w, y) (tasks s)\<rparr>)) (ret False))" if "grows f g" for g w
    using y(2) that by (intro sims sim_post) (auto intro: job_grows)
  with Some y(1) show ?thesis unfolding checkin_def Let_def by (auto intro!: sims)
qed

section \<open>ViaCoroutine\<close>

lemma sim_Via_Create [sims]: "sim K f handle_rel (Via_Create ex) (Via_Create ex)"
  unfolding Via_Create_def by (intro sims) (simp add: via_rel_def)

lemma sim_via_promise_of [sims]:
  "handle_rel f v w \<Longrightarrow> sim K f via_rel (via_promise_of v) (via_promise_of w)"
  unfolding via_promise_of_def by (intro sim_frame_use sims)

lemma sim_continuation_of [sims]:
  "handle_rel f v w \<Longrightarrow> sim K f handle_rel (continuation_of v) (continuation_of w)"
  unfolding continuation_of_def
  by (rule sims, rule sims, assumption, rule sim_option [where R = "handle_rel g" for g])
    (auto simp: via_rel_def intro: sims)

lemma sim_wrapped [sims]:
  assumes "handle_rel f v w" and "handle_rel f h k"
  shows "sim K f handle_rel (Via_GetWrappedContinuation v h) (Via_GetWrappedContinuation w k)"
  unfolding Via_GetWrappedContinuation_def
proof (rule sim_bind [OF sim_via_promise_of [OF assms(1)]])
  fix g p q assume g: "grows f g" and pq: "via_rel g p q"
  then have same_ex: "via_executor q = via_executor p" "via_context q = via_context p" by (simp_all add: via_rel_def)
  have "sim K g same (case via_executor p of None \<Rightarrow> ret (via_context p) | Some e \<Rightarrow> checkout e)
     (case via_executor p of None \<Rightarrow> ret (via_context p) | Some e \<Rightarrow> checkout e)"
    by (cases "via_executor p") (auto intro: sims)
  then show "sim K g handle_rel
     (bind (case via_executor p of None \<Rightarrow> ret (via_context p) | Some e \<Rightarrow> checkout e)
       (\<lambda>ctx. seq (set_frame v (Some (ViaFrame False (p\<lparr>via_context := ctx, via_continuation := Some h\<rparr>)))) (ret v)))
     (bind (case via_executor q of None \<Rightarrow> ret (via_context q) | Some e \<Rightarrow> checkout e)
       (\<lambda>ctx. seq (set_frame w (Some (ViaFrame False (q\<lparr>via_context := ctx, via_continuation := Some k\<rparr>)))) (ret w)))"
    unfolding same_ex
    by (elim sim_bind, intro sims) (use g pq assms in \<open>auto simp: via_rel_def intro: growing grows_trans\<close>)
qed

lemma sim_Via_Checkin [sims]:
  assumes "handle_rel f v w"
  shows "sim K f same (Via_Checkin env v) (Via_Checkin env w)"
  unfolding Via_Checkin_def
  by (rule sim_bind [OF sim_via_promise_of [OF assms]])
    (auto simp: via_rel_def intro!: sims sim_option [where R = "(=)"] split: option.splits)

end
