(* ===== verification/Embedded_Await.thy ===== *)
theory Embedded_Await
  imports Embedded_Operations
begin

section \<open>Awaiting\<close>

text \<open>The handle that a thread goes on with, and the result of starting to await.\<close>

abbreviation next_rel :: "nat list \<Rightarrow> nat option \<Rightarrow> nat option \<Rightarrow> bool" where
  "next_rel f \<equiv> rel_option (handle_rel f)"

abbreviation await_rel :: "nat list \<Rightarrow> 'r + nat option \<Rightarrow> 'r + nat option \<Rightarrow> bool" where
  "await_rel f \<equiv> rel_sum (=) (next_rel f)"

lemmas growing_trans = growing grows_trans

lemma sim_same_option:
  assumes "b = None \<Longrightarrow> sim K f A m M" and "\<And>x. b = Some x \<Longrightarrow> sim K f A (k x) (l x)"
  shows "sim K f A (case_option m k b) (case_option M l b)"
  using assms by (cases b) simp_all

lemma sim_bind_same:
  assumes "sim K f same m M" and "\<And>g x. grows f g \<Longrightarrow> sim K g B (k x) (l x)"
  shows "sim K f B (bind m k) (bind M l)"
  by (rule sim_bind [OF assms(1)]) (simp add: assms(2))

lemma sim_bind_executor_of:
  assumes "handle_rel f h k" and "\<And>g ex. grows f g \<Longrightarrow> sim K g B (m ex) (n ex)"
  shows "sim K f B (bind (executor_of h) m) (bind (executor_of k) n)"
  by (rule sim_bind_same [OF sim_executor_of [OF assms(1)]]) (rule assms(2))

lemmas sim_rules = sim_bind_executor_of sim_same_option sims

lemma sim_suspend [sims]:
  "handle_rel f h k \<Longrightarrow> awaiter_rel f a b \<Longrightarrow> sim K f same (suspend h a l) (suspend k b l)"
  unfolding suspend_def by (intro sims) simp_all

lemma sim_Lazy_await_suspend [sims]:
  "handle_rel f c d \<Longrightarrow> handle_rel f h k \<Longrightarrow> sim K f next_rel (Lazy_await_suspend c h) (Lazy_await_suspend d k)"
  unfolding Lazy_await_suspend_def by (intro sims) (auto intro: growing_trans)

lemma sim_Lazy_CoAwait [sims]: "handle_rel f c d \<Longrightarrow> sim K f same (Lazy_CoAwait ex c) (Lazy_CoAwait ex d)"
  unfolding Lazy_CoAwait_def by (intro sims) auto

lemma sim_Reschedule_await_suspend [sims]:
  "handle_rel f c d \<Longrightarrow> handle_rel f h k \<Longrightarrow>
   sim K f next_rel (Reschedule_await_suspend env c h) (Reschedule_await_suspend env d k)"
  unfolding Reschedule_await_suspend_def by (rule sim_rules | fastforce intro: growing_trans)+

lemma sim_ViaAsync_await [sims]:
  assumes "handle_rel f v w" and "handle_rel f h k"
  shows "sim K f await_rel (ViaAsync_await env arr r l v h) (ViaAsync_await env arr r l w k)"
  unfolding ViaAsync_await_def using assms
  by (cases arr; simp only: arrival.case) (rule sim_rules sim_suspend | fastforce intro: growing_trans)+

lemma sim_awaitable_cases:
  assumes "\<And>x. sim K f A (m1 x) (n1 x)" and "\<And>x y. sim K f A (m2 x y) (n2 x y)" and "sim K f A m3 n3" and "sim K f A m4 n4"
    and "\<And>x. sim K f A (m5 x) (n5 x)" and "\<And>x. sim K f A (m6 x) (n6 x)" and "\<And>x y z. sim K f A (m7 x y z) (n7 x y z)"
  shows "sim K f A (case_awaitable m1 m2 m3 m4 m5 m6 m7 a) (case_awaitable n1 n2 n3 n4 n5 n6 n7 a)"
  using assms by (cases a) simp_all

lemma sim_arrival_cases:
  assumes "sim K f A m1 n1" and "sim K f A m2 n2" and "\<And>x. sim K f A (m3 x) (n3 x)"
  shows "sim K f A (case_arrival m1 m2 m3 a) (case_arrival n1 n2 n3 a)"
  using assms by (cases a) simp_all

lemma sim_bool_cases:
  assumes "sim K f A m n" and "sim K f A m' n'"
  shows "sim K f A (case_bool m m' b) (case_bool n n' b)"
  using assms by (cases b) simp_all

lemmas sim_cases = sim_awaitable_cases sim_arrival_cases sim_bool_cases

lemma sim_awaiters [sims]:
  "handle_rel f h k \<Longrightarrow> sim K f same (Yield_await_suspend env ex h) (Yield_await_suspend env ex k)"
  "handle_rel f h k \<Longrightarrow> sim K f same (Executor_await_suspend env e h) (Executor_await_suspend env e k)"
  "handle_rel f h k \<Longrightarrow> sim K f same (TimeAwaiter_await_suspend e h) (TimeAwaiter_await_suspend e k)"
  "sim K f same (ReadyAwaiter_await_resume v) (ReadyAwaiter_await_resume v)"
  "sim K f same (Executor_await_ready e) (Executor_await_ready e)"
  unfolding Yield_await_suspend_def Executor_await_suspend_def TimeAwaiter_await_suspend_def
    ReadyAwaiter_await_resume_def Executor_await_ready_def
  by (intro sims sim_same_option | simp)+

lemma sim_begin_await [sims]:
  assumes h: "handle_rel f h k"
  shows "sim K f await_rel (begin_await env a l h) (begin_await env a l k)"
  unfolding begin_await_def
  by (rule sim_bind_executor_of [OF h], drule handle_grows [OF h])
    (rule sim_cases sim_rules sims | fastforce intro: growing_trans)+

text \<open>The end of an await.\<close>

lemma sim_AwaitResume [sims]:
  "handle_rel f c d \<Longrightarrow> sim K f same (AwaitResume c) (AwaitResume d)"
  "handle_rel f c d \<Longrightarrow> sim K f same (AwaitResumeTry c) (AwaitResumeTry d)"
  unfolding AwaitResume_def AwaitResumeTry_def
  by (rule sim_rules | fastforce intro: growing_trans)+

lemma sim_finish_await [sims]:
  "awaiter_rel f a b \<Longrightarrow> sim K f same (finish_await a) (finish_await b)"
proof (induction f a b rule: awaiter_rel.induct)
  case (5 f v a w b)
  then have v: "handle_rel f v w" and IH: "sim K f same (finish_await a) (finish_await b)" by simp_all
  show ?case
    unfolding finish_await.simps
    by (rule sim_bind [OF IH]) (auto intro!: sims intro: growing v)
qed (auto intro: sims)

section \<open>Running\<close>

lemma sim_final_suspend [sims]:
  "handle_rel f h k \<Longrightarrow> sim K f next_rel (final_suspend h) (final_suspend k)"
  unfolding final_suspend_def
  by (rule sims sim_option [where R = "handle_rel g" for g] | fastforce intro: growing_trans)+

lemma sim_exec_body_awaitable:
  fixes b :: "'a body" and a :: "'a awaitable"
  shows "handle_rel f h k \<Longrightarrow> sim K f next_rel (exec_body b env h) (exec_body b env k)" and True
proof (induction b and a arbitrary: f and f)
  case (CoAwait a l)
  show ?case
    unfolding exec_body.simps
  proof (rule sim_bind [OF sim_begin_await [OF CoAwait.prems]])
    fix g and x y :: "(exn + 'a val) + nat option"
    assume g: "grows f g" and xy: "await_rel g x y"
    have "sim K g next_rel (exec_body (l r) env h) (exec_body (l r) env k)" for r
      using CoAwait.IH(2) handle_grows [OF CoAwait.prems g] by blast
    with xy show "sim K g next_rel (case x of Inl r \<Rightarrow> exec_body (l r) env h | Inr t \<Rightarrow> ret t)
        (case y of Inl r \<Rightarrow> exec_body (l r) env k | Inr t \<Rightarrow> ret t)"
      by (cases x; cases y) (auto intro: sims)
  qed
qed (simp_all only: exec_body.simps, (rule sims | fastforce intro: growing_trans)+)

lemmas sim_exec_body [sims] = sim_exec_body_awaitable(1)

lemma sim_run_callback [sims]: "sim K f same (run_callback cb t) (run_callback cb t)"
proof (cases cb)
  case (StoreResult v)
  show ?thesis
    unfolding StoreResult run_callback_def callback.case
    by (rule sim_add [where a = "IResult (v, t)" and b = "IResult (v, t)"]) simp_all
next
  case RethrowResult
  then show ?thesis by (auto simp: run_callback_def intro!: sims split: try_val.splits option.splits)
qed

lemma sim_Detached_finish [sims]:
  "handle_rel f d d' \<Longrightarrow> handle_rel f c c' \<Longrightarrow> sim K f next_rel (Detached_finish d c cb) (Detached_finish d' c' cb)"
  unfolding Detached_finish_def
  by (rule sim_bind_same, rule sims, assumption) (rule sim_rules sims | fastforce intro: growing_trans)+

lemma sim_Via_final [sims]:
  assumes v: "handle_rel f v w" and p: "via_rel f p q"
  shows "sim K f next_rel (Via_final env v p) (Via_final env w q)"
proof -
  have ex: "via_executor q = via_executor p" "via_context q = via_context p" using p by (simp_all add: via_rel_def)
  show ?thesis
    unfolding Via_final_def ex using v p
    by - (rule sim_rules sims | fastforce intro: growing_trans)+
qed

lemma sim_resume [sims]:
  fixes K :: "'a item multiset"
  assumes "handle_rel f h k"
  shows "sim K f next_rel (resume env h) (resume env k)"
  unfolding resume_def
proof (rule sim_frame_use [OF assms], rule sim_frame_cases, assumption)
  fix pt pu :: "'a point" and p q :: "'a val lazy_promise" assume "point_rel f pt pu"
  with assms show "sim K f next_rel
     (case pt of AtStart b \<Rightarrow> exec_body b env h | AtAwait aw l \<Rightarrow> bind (finish_await aw) (\<lambda>r. exec_body (l r) env h) | AtFinal \<Rightarrow> undef)
     (case pu of AtStart b \<Rightarrow> exec_body b env k | AtAwait aw l \<Rightarrow> bind (finish_await aw) (\<lambda>r. exec_body (l r) env k) | AtFinal \<Rightarrow> undef)"
    by - (rule sim_point_cases sim_bind_same [OF sim_finish_await] sims | fastforce intro: growing_trans)+
qed (use assms in \<open>auto intro!: sims\<close>)

lemma sim_start_job [sims]: "job_rel f i j \<Longrightarrow> sim K f handle_rel (start_job i) (start_job j)"
  by (cases "(f, i, j)" rule: job_rel.cases) (auto simp: start_job_def intro: sims)

end
