(* ===== verification/Single_Flow.thy ===== *)
theory Single_Flow
  imports Lazy_Sync
begin

text \<open>
  A coroutine is in one place at a time: a run of \<open>resume\<close> either goes on with a handle on the same thread,
  or it leaves at most one task, timer or event behind. So a machine that starts with one flow of control
  keeps one, and while it runs nothing of it waits anywhere.
\<close>

definition load :: "'a cmachine \<Rightarrow> nat" where
  "load s = size (tasks s) + size (timers s) + size (arrivals s)"

text \<open>\<open>m\<close> adds at most as many tasks, timers and events as \<open>n\<close> says of its result, and none when it throws.\<close>

definition adds :: "('x \<Rightarrow> nat) \<Rightarrow> ('a cmachine, 'x) action \<Rightarrow> bool" where
  "adds n m \<longleftrightarrow>
     (\<forall>s. case fst (m s) of
            Return x \<Rightarrow> load (snd (m s)) \<le> load s + n x
          | Throw e \<Rightarrow> load (snd (m s)) \<le> load s
          | _ \<Rightarrow> True)"

abbreviation keeps :: "('a cmachine, 'x) action \<Rightarrow> bool" where
  "keeps \<equiv> adds (\<lambda>_. 0)"

text \<open>A thread that goes on has left nothing; one that returns has left one thing at most.\<close>

definition leaves :: "nat option \<Rightarrow> nat" where
  "leaves x = (if x = None then 1 else 0)"

definition leaves_await :: "'r + nat option \<Rightarrow> nat" where
  "leaves_await x = (case x of Inl _ \<Rightarrow> 0 | Inr t \<Rightarrow> leaves t)"

lemma leaves_simps [simp]:
  "leaves None = 1" "leaves (Some h) = 0" "leaves_await (Inl r) = 0" "leaves_await (Inr t) = leaves t"
  by (simp_all add: leaves_def leaves_await_def)

named_theorems flow \<open>how much an operation leaves behind\<close>

lemma addsI:
  assumes "\<And>s x t. m s = (Return x, t) \<Longrightarrow> load t \<le> load s + n x" and "\<And>s e t. m s = (Throw e, t) \<Longrightarrow> load t \<le> load s"
  shows "adds n m"
  unfolding adds_def
proof
  fix s
  obtain r t where m: "m s = (r, t)" by (cases "m s")
  with assms [of s] show "case fst (m s) of Return x \<Rightarrow> load (snd (m s)) \<le> load s + n x
      | Throw e \<Rightarrow> load (snd (m s)) \<le> load s | _ \<Rightarrow> True"
    by (cases r) simp_all
qed

lemma addsD:
  assumes "adds n m"
  shows "m s = (Return x, t) \<Longrightarrow> load t \<le> load s + n x" and "m s = (Throw e, t) \<Longrightarrow> load t \<le> load s"
  using assms unfolding adds_def by (auto dest: spec [of _ s])

lemma adds_bind [flow]:
  assumes m: "keeps m" and k: "\<And>x. adds n (k x)"
  shows "adds n (bind m k)"
proof (rule addsI)
  show "load u \<le> load s + n y" if "bind m k s = (Return y, u)" for s y u
    using that addsD(1) [OF m, of s] addsD(1) [OF k]
    by (fastforce simp: run_bind split: outcome.splits prod.splits)
  show "load u \<le> load s" if "bind m k s = (Throw e, u)" for s e u
    using that addsD [OF m, of s] addsD(2) [OF k]
    by (fastforce simp: run_bind split: outcome.splits prod.splits)
qed

lemma adds_seq [flow]: "keeps m \<Longrightarrow> adds n k \<Longrightarrow> adds n (seq m k)"
  unfolding seq_def by (rule adds_bind)

lemma adds_basic [flow]: "adds n (ret x)" "adds n (throw e)" "adds n undef" "adds n abort" "adds n (gets g)"
  by (simp_all add: adds_def run_method)

lemma adds_then_ret:
  assumes m: "adds n m" and le: "\<And>x. n x \<le> n' (g x)"
  shows "adds n' (bind m (\<lambda>x. ret (g x)))"
proof (rule addsI)
  show "load u \<le> load s + n' y" if "bind m (\<lambda>x. ret (g x)) s = (Return y, u)" for s y u
    using that addsD(1) [OF m, of s] le
    by (fastforce simp: run_bind run_method split: outcome.splits prod.splits intro: order_trans)
  show "load u \<le> load s" if "bind m (\<lambda>x. ret (g x)) s = (Throw e, u)" for s e u
    using that addsD(2) [OF m, of s] by (auto simp: run_bind run_method split: outcome.splits prod.splits)
qed

lemma adds_last:
  assumes "adds (\<lambda>_. 1) m" and "n x = 1"
  shows "adds n (seq m (ret x))"
  unfolding seq_def by (rule adds_then_ret [OF assms(1)]) (simp add: assms(2))

lemma adds_try_catch [flow]:
  assumes m: "adds n m" and h: "\<And>e. adds n (h e)"
  shows "adds n (try_catch m h)"
proof (rule addsI)
  show "load u \<le> load s + n y" if "try_catch m h s = (Return y, u)" for s y u
    using that addsD [OF m, of s] addsD(1) [OF h]
    by (fastforce simp: try_catch_def split: outcome.splits prod.splits)
  show "load u \<le> load s" if "try_catch m h s = (Throw e, u)" for s e u
    using that addsD(2) [OF m, of s] addsD(2) [OF h]
    by (fastforce simp: try_catch_def split: outcome.splits prod.splits)
qed

lemma adds_option [flow]: "adds n m \<Longrightarrow> (\<And>x. adds n (k x)) \<Longrightarrow> adds n (case_option m k b)"
  by (cases b) simp_all

lemma adds_if [flow]: "adds n m \<Longrightarrow> adds n k \<Longrightarrow> adds n (if b then m else k)"
  by simp

lemma adds_frame_cases [flow]:
  "(\<And>pt p. adds n (m1 pt p)) \<Longrightarrow> (\<And>b p. adds n (m2 b p)) \<Longrightarrow> (\<And>c cb. adds n (m3 c cb)) \<Longrightarrow> adds n (case_frame m1 m2 m3 f)"
  by (cases f) simp_all

section \<open>The operations\<close>

lemma keeps_frames [flow]:
  "keeps (frame_at h)" "keeps (set_frame h f)" "keeps (new_frame g)"
  by (simp_all add: adds_def frame_at_def set_frame_def new_frame_def run_method load_def split: option.splits)

lemma flow_promise_of [flow]: "keeps (promise_of h m)"
proof -
  have "keeps (case m p of (r, p') \<Rightarrow> seq (set_frame h (Some (LazyFrame pt p'))) (\<lambda>s. (r, s)))" for pt :: "'b point" and p
    by (intro addsI) (auto simp: run_seq run_bind set_frame_def run_method load_def split: prod.splits)
  then show ?thesis unfolding promise_of_def by (intro flow)
qed

lemma keeps_ops [flow]:
  "keeps (set_point h pt)" "keeps (destroy h)" "keeps (new_lazy b)" "keeps (executor_of h)" "keeps (in_executor e)"
  "keeps (checkout e)" "keeps (Via_Create ex)" "keeps (via_promise_of v)" "keeps (continuation_of v)"
  unfolding set_point_def destroy_def new_lazy_def executor_of_def in_executor_def checkout_def Via_Create_def
    continuation_of_def via_promise_of_def
  by (intro flow)+

lemma adds_posts [flow]:
  "adds (\<lambda>_. 1) (schedule env e h)" "adds (\<lambda>_. 1) (schedule_after e h)" "adds (\<lambda>_. 1) (extern_await_suspend th h)"
  by (simp_all add: adds_def schedule_def schedule_after_def extern_await_suspend_def run_method load_def)

lemma adds_checkin:
  "adds (\<lambda>here. if here then 0 else 1) (checkin env e ctx (Some j))" "keeps (checkin env e ctx None)"
  by (auto simp: adds_def checkin_def run_bind run_seq run_method load_def Let_def)

lemma flow_via [flow]:
  "keeps (Via_GetWrappedContinuation v h)" "keeps (Via_Checkin env v)"
  unfolding Via_GetWrappedContinuation_def Via_Checkin_def by (intro flow adds_checkin(2))+

lemma keeps_await_suspend [flow]:
  "adds leaves (Lazy_await_suspend c h)" "keeps (Lazy_CoAwait ex c)" "keeps (suspend h aw k)"
  unfolding Lazy_await_suspend_def Lazy_CoAwait_def suspend_def by (intro flow)+

lemma adds_Reschedule [flow]: "adds leaves (Reschedule_await_suspend env c h)"
  unfolding Reschedule_await_suspend_def by (intro flow adds_last leaves_simps(1))

lemma adds_Inr: "adds leaves m \<Longrightarrow> adds leaves_await (bind m (\<lambda>t. ret (Inr t)))"
  by (rule adds_then_ret [where n = leaves]) simp_all

lemma adds_cases [flow]:
  "adds n m1 \<Longrightarrow> adds n m2 \<Longrightarrow> (\<And>x. adds n (m3 x)) \<Longrightarrow> adds n (case_arrival m1 m2 m3 arr)"
  "adds n m4 \<Longrightarrow> adds n m5 \<Longrightarrow> adds n (case_bool m4 m5 b)"
  by (cases arr; simp) (cases b; simp)

lemma adds_awaitable_cases [flow]:
  assumes "\<And>x. adds n (m1 x)" and "\<And>x y. adds n (m2 x y)" and "adds n m3" and "adds n m4"
    and "\<And>x. adds n (m5 x)" and "\<And>x. adds n (m6 x)" and "\<And>x y z. adds n (m7 x y z)"
  shows "adds n (case_awaitable m1 m2 m3 m4 m5 m6 m7 a)"
  using assms by (cases a) simp_all

lemma adds_begin_await [flow]: "adds leaves_await (begin_await env a k h)"
proof -
  have yield: "adds (\<lambda>_. 1) (Yield_await_suspend env ex h)" for ex
    unfolding Yield_await_suspend_def by (intro flow)
  note last = adds_last [where n = leaves_await, OF _ leaves_simps(4) [of None, unfolded leaves_simps(1)]]
  show ?thesis
    unfolding begin_await_def ViaAsync_await_def ReadyAwaiter_await_resume_def Executor_await_ready_def
      Executor_await_suspend_def TimeAwaiter_await_suspend_def
    by (intro flow adds_Inr last yield | rule last)+
qed

section \<open>Running\<close>

lemma keeps_finish [flow]: "keeps (AwaitResume c)" "keeps (AwaitResumeTry c)"
  unfolding AwaitResume_def AwaitResumeTry_def by (intro flow)+

lemma flow_finish_await [flow]: "keeps (finish_await aw)"
  by (induction aw) (simp_all add: flow)

lemma adds_final_suspend [flow]: "adds leaves (final_suspend h)"
  unfolding final_suspend_def by (intro flow)

lemma adds_exec_body_awaitable:
  fixes b :: "'a body" and a :: "'a awaitable"
  shows "adds leaves (exec_body b env h)" and True
proof (induction b and a)
  case (CoAwait a k)
  note starts = adds_begin_await [of env a k h]
  show ?case
  proof (rule addsI)
    show "load u \<le> load s + leaves y" if "exec_body (CoAwait a k) env h s = (Return y, u)" for s y u
      using that addsD(1) [OF starts, of s] addsD(1) [OF CoAwait(2)]
      by (fastforce simp: run_bind run_method split: outcome.splits prod.splits sum.splits)
    show "load u \<le> load s" if "exec_body (CoAwait a k) env h s = (Throw e, u)" for s e u
      using that addsD [OF starts, of s] addsD(2) [OF CoAwait(2)]
      by (fastforce simp: run_bind run_method split: outcome.splits prod.splits sum.splits)
  qed
qed (auto intro: flow)

lemma keeps_run_callback [flow]: "keeps (run_callback cb t)"
  by (auto simp: run_callback_def adds_def run_method load_def split: callback.splits try_val.splits option.splits)

lemma adds_Detached_finish [flow]: "adds leaves (Detached_finish d c cb)"
  unfolding Detached_finish_def by (intro flow)

lemma adds_Via_final [flow]: "adds leaves (Via_final env v p)"
proof -
  have final: "adds leaves (bind (checkin env e (via_context p) (Some (ResumeContinuationOf v)))
     (\<lambda>here. if here then bind (continuation_of v) (\<lambda>h. ret (Some h)) else ret None))" for e
  proof (rule addsI)
    let ?m = "checkin env e (via_context p) (Some (ResumeContinuationOf v))"
    note one = adds_checkin(1) [of env e "via_context p" "ResumeContinuationOf v"]
    note here = keeps_ops(9) [of v]
    show "load u \<le> load s + leaves y"
      if "bind ?m (\<lambda>here. if here then bind (continuation_of v) (\<lambda>h. ret (Some h)) else ret None) s = (Return y, u)" for s y u
      using that addsD(1) [OF one, of s] addsD(1) [OF here]
      by (fastforce simp: run_bind run_method split: outcome.splits prod.splits if_splits)
    show "load u \<le> load s"
      if "bind ?m (\<lambda>here. if here then bind (continuation_of v) (\<lambda>h. ret (Some h)) else ret None) s = (Throw x, u)" for s x u
      using that addsD [OF one, of s] addsD(2) [OF here]
      by (fastforce simp: run_bind run_method split: outcome.splits prod.splits if_splits)
  qed
  show ?thesis unfolding Via_final_def by (intro flow final)
qed

lemma adds_point_cases:
  "(\<And>b. adds n (m1 b)) \<Longrightarrow> (\<And>aw k. adds n (m2 aw k)) \<Longrightarrow> adds n m3 \<Longrightarrow> adds n (case_point m1 m2 m3 pt)"
  by (cases pt) simp_all

lemma adds_resume: "adds leaves (resume env h)"
  unfolding resume_def
  by (intro flow adds_point_cases adds_exec_body_awaitable(1))

section \<open>One flow of control\<close>

definition single_flow :: "'a config \<Rightarrow> bool" where
  "single_flow x \<longleftrightarrow> (case fst x of Going h \<Rightarrow> load (snd x) = 0 | Idle \<Rightarrow> load (snd x) \<le> 1 | Stopped _ \<Rightarrow> True)"

lemma single_after:
  assumes "adds leaves m" and "load s = 0"
  shows "single_flow (after (m s))"
proof -
  obtain r t where "m s = (r, t)" by (cases "m s")
  with addsD(1) [OF assms(1), of s _ t] assms(2) show ?thesis
    by (cases "r = Return None"; cases r) (auto simp: single_flow_def leaves_def split: if_splits)
qed

lemma load_drop:
  "x \<in># tasks s \<Longrightarrow> load (s\<lparr>tasks := tasks s - {#x#}, running := th\<rparr>) = load s - 1"
  "y \<in># timers s \<Longrightarrow> load (s\<lparr>timers := timers s - {#y#}, running := th\<rparr>) = load s - 1"
  "z \<in># arrivals s \<Longrightarrow> load (s\<lparr>arrivals := arrivals s - {#z#}, running := th\<rparr>) = load s - 1"
  by (auto simp: load_def dest!: multi_member_split)

lemma single_step:
  assumes "cstep env x y" and "single_flow x"
  shows "single_flow y"
  using assms
proof (cases rule: cstep.cases)
  case (run h s)
  with assms(2) single_after [OF adds_resume] show ?thesis by (simp add: single_flow_def)
next
  case (take e target j s w)
  have "keeps (start_job j)" unfolding start_job_def by (cases j) (auto intro: flow)
  then have "adds leaves (bind (start_job j) (\<lambda>h. ret (Some h)))" by (rule adds_then_ret) simp
  then show ?thesis
    unfolding take(2) by (rule single_after) (use take assms(2) in \<open>simp add: single_flow_def load_drop\<close>)
next
  case (wake e h s)
  have "adds leaves (seq (schedule env e h) (ret None))" by (intro adds_last flow leaves_simps)
  then show ?thesis
    unfolding wake(2) by (rule single_after) (use wake assms(2) in \<open>simp add: single_flow_def load_drop\<close>)
next
  case (arrive loc h s th)
  with assms(2) show ?thesis by (simp add: single_flow_def load_drop)
qed

end
