(* ===== verification/Lazy_Parallel.thy ===== *)
theory Lazy_Parallel
  imports Embedded_Await Single_Flow
begin

text \<open>
  Many coroutines at once. In \<^verbatim>\<open>Coroutine_Machine.thy\<close> one thread runs at a time. Here any number of threads
  call \<open>SyncAwait\<close> (\<^verbatim>\<open>coro/lazy.hpp\<close>), at any moment, and every worker runs its own task: a step of
  the machine is the next turn of one of the threads. A call is a \<open>SyncAwait\<close>, or the \<open>Start\<close> of an input by a collector
  on a thread of some executor; its callback stores the result in the place of the call. The machines of \<^verbatim>\<open>Lazy_Sync.thy\<close> are embedded in the
  large one, so what each call does is what it does alone.
\<close>

section \<open>The parallel machine\<close>

datatype 'a call =
    CallLazy nat "nat option" "'a body"
  | CallReschedule nat nat "'a body"
  | StartLazy nat "nat option" "nat option" "'a body"
  | StartReschedule nat "nat option" nat "'a body"

fun sync_call :: "coro_env \<Rightarrow> 'a call \<Rightarrow> ('a cmachine, nat option) action" where
  "sync_call env (CallLazy v ex b) = Lazy_sync_at v ex b"
| "sync_call env (CallReschedule v e b) = Reschedule_sync_at v env (Some e) b"
| "sync_call env (StartLazy v loc ex b) =
     bind (new_lazy b) (\<lambda>c. bind (Lazy_SetExecutor ex (Some c)) (Lazy_Start (StoreResult v)))"
| "sync_call env (StartReschedule v loc e b) =
     bind (new_lazy b) (\<lambda>c. bind (Lazy_Via (Some e) (Some c)) (Reschedule_Start env (StoreResult v)))"

fun call_place :: "'a call \<Rightarrow> nat" where
  "call_place (CallLazy v ex b) = v"
| "call_place (CallReschedule v e b) = v"
| "call_place (StartLazy v loc ex b) = v"
| "call_place (StartReschedule v loc e b) = v"

text \<open>Where the calling thread belongs: to no executor, or to the one that the call names.\<close>

fun call_loc :: "'a call \<Rightarrow> nat option" where
  "call_loc (StartLazy v loc ex b) = loc"
| "call_loc (StartReschedule v loc e b) = loc"
| "call_loc _ = None"

fun call_meaning :: "'a call \<Rightarrow> 'a val outcome" where
  "call_meaning (CallLazy v ex b) = fst (sem b ex None)"
| "call_meaning (CallReschedule v e b) = fst (sem b (Some e) (Some e))"
| "call_meaning (StartLazy v loc ex b) = fst (sem b ex loc)"
| "call_meaning (StartReschedule v loc e b) = fst (sem b (Some e) (Some e))"

text \<open>The calls to come, the handles that threads are about to resume, and the machine.\<close>

datatype 'a pconfig =
    PRun "'a call multiset" "(cthread \<times> nat) multiset" "'a cmachine"
  | PStopped "unit outcome"

definition pafter ::
  "'a call multiset \<Rightarrow> (cthread \<times> nat) multiset \<Rightarrow> nat option outcome \<times> 'a cmachine \<Rightarrow> 'a pconfig" where
  "pafter L R x =
     (case x of
        (Return (Some h), s) \<Rightarrow> PRun L (add_mset (running s, h) R) s
      | (Return None, s) \<Rightarrow> PRun L R s
      | (Throw e, s) \<Rightarrow> PStopped (Throw e)
      | (Abort, s) \<Rightarrow> PStopped Abort
      | (Undefined, s) \<Rightarrow> PStopped Undefined)"

text \<open>A worker does one thing at a time; there are as many other threads as are needed.\<close>

definition free_thread :: "(cthread \<times> nat) multiset \<Rightarrow> cthread \<Rightarrow> bool" where
  "free_thread R th \<longleftrightarrow> th = None \<or> th \<notin># image_mset fst R"

inductive pstep :: "coro_env \<Rightarrow> 'a pconfig \<Rightarrow> 'a pconfig \<Rightarrow> bool" for env where
  p_call: "l \<in># L \<Longrightarrow> thread_in env (call_loc l) th \<Longrightarrow> free_thread R th \<Longrightarrow>
    pstep env (PRun L R s) (pafter (L - {#l#}) R (sync_call env l (s\<lparr>running := th\<rparr>)))"
| p_run: "(th, h) \<in># R \<Longrightarrow>
    pstep env (PRun L R s) (pafter L (R - {#(th, h)#}) (resume env h (s\<lparr>running := th\<rparr>)))"
| p_take: "(e, target, j) \<in># tasks s \<Longrightarrow> w < num_workers env e \<Longrightarrow> (\<forall>i. target = Some i \<longrightarrow> w = i) \<Longrightarrow>
    free_thread R (Some (e, w)) \<Longrightarrow>
    pstep env (PRun L R s) (pafter L R (bind (start_job j) (\<lambda>h. ret (Some h))
      (s\<lparr>tasks := tasks s - {#(e, target, j)#}, running := Some (e, w)\<rparr>)))"
| p_wake: "(e, h) \<in># timers s \<Longrightarrow>
    pstep env (PRun L R s) (pafter L R (seq (schedule env e h) (ret None)
      (s\<lparr>timers := timers s - {#(e, h)#}, running := None\<rparr>)))"
| p_arrive: "(loc, h) \<in># arrivals s \<Longrightarrow> thread_in env loc th \<Longrightarrow> free_thread R th \<Longrightarrow>
    pstep env (PRun L R s)
      (PRun L (add_mset (th, h) R) (s\<lparr>arrivals := arrivals s - {#(loc, h)#}, running := th\<rparr>))"

abbreviation pmust :: "coro_env \<Rightarrow> ('a pconfig \<Rightarrow> bool) \<Rightarrow> 'a pconfig \<Rightarrow> bool" where
  "pmust env \<equiv> inevitably (pstep env)"

text \<open>Every result is in the place of its caller.\<close>

definition all_finished :: "(nat \<times> (exn + 'a val)) list \<Rightarrow> 'a pconfig \<Rightarrow> bool" where
  "all_finished rs x \<longleftrightarrow>
     (\<exists>s. x = PRun {#} {#} s \<and> quiet s \<and> list_all (\<lambda>f. f = None) (frames s) \<and>
        mset (cb_results s) = mset (map (\<lambda>(v, r). (v, try_of r)) rs))"

section \<open>One call alone\<close>

definition finished :: "'a call \<times> (exn + 'a val) \<Rightarrow> 'a config \<Rightarrow> bool" where
  "finished c y \<longleftrightarrow>
     fst y = Idle \<and> quiet (snd y) \<and> list_all (\<lambda>f. f = None) (frames (snd y)) \<and>
     cb_results (snd y) = [(call_place (fst c), try_of (snd c))]"

lemma launched_finishes:
  assumes ok: "env_ok env" and th: "thread_in env loc th" and r: "fst (sem b ex loc) = outcome_of r"
  shows "must env (finished (l, r)) (Going 0, st (launched b ex (StoreResult (call_place l))) th idle_machine)"
proof (rule launch_runs [OF ok th])
  fix q l' m th' assume "sem b ex loc = (outcome_of q, l')"
  with r have "outcome_of q = outcome_of r" by simp
  then have q: "q = r" by (cases q; cases r) simp_all
  have "list_all (\<lambda>f. f = None) (replicate m (None :: 'a frame option))" by (simp add: list_all_iff)
  then show "must env (finished (l, r))
      (after (seq (try_catch (run_callback (StoreResult (call_place l)) (try_of q)) (\<lambda>e. bind (gets running) (\<lambda>th. if th = None then throw e else abort)))
           (seq (set_frame 1 None) (ret None))
         (st (None # Some (DetachedFrame 0 (StoreResult (call_place l))) # replicate m None) th' idle_machine)))"
    by (intro inevitably_now)
      (simp add: q run_callback_def outcome_simps set_frame_def finished_def st_def idle_machine_def quiet_def)
qed (use r in \<open>cases r; simp\<close>)+

lemma scheduled_finishes:
  assumes ok: "env_ok env" and r: "fst (sem b (Some e) (Some e)) = outcome_of r"
  shows "must env (finished (l, r))
    (after (seq (schedule env e 0) (ret None) (st (launched b (Some e) (StoreResult (call_place l))) th idle_machine)))"
proof -
  have "accepting env e" using ok by (simp add: env_ok_def)
  then have "after (seq (schedule env e 0) (ret None) (st (launched b (Some e) (StoreResult (call_place l))) th idle_machine)) =
      (Idle, st (launched b (Some e) (StoreResult (call_place l))) th (idle_machine\<lparr>tasks := {#(e, None, Resume 0)#}\<rparr>))"
    by (simp add: schedule_def outcome_simps) (simp add: st_def idle_machine_def)
  moreover have "must env (finished (l, r))
      (Idle, st (launched b (Some e) (StoreResult (call_place l))) th (idle_machine\<lparr>tasks := {#(e, None, Resume 0)#}\<rparr>))"
    by (rule must_take [OF ok quiet_idle])
      (use r in \<open>simp_all add: start_job_def outcome_simps launched_finishes [OF ok thread_in_worker]\<close>)
  ultimately show ?thesis by simp
qed

lemma call_finishes:
  assumes ok: "env_ok env" and r: "call_meaning l = outcome_of r" and th: "thread_in env (call_loc l) th"
  shows "must env (finished (l, r)) (after (sync_call env l (idle_machine\<lparr>running := th\<rparr>)))"
proof (cases l)
  case (CallLazy v ex b)
  then have "th = None" using th by (simp add: thread_in_def)
  with CallLazy launched_finishes [OF ok thread_outside, of b ex r l] r show ?thesis
    by (simp add: idle_outside Lazy_sync_at_def Lazy_SetExecutor_def made_lazy launch_now)
next
  case (CallReschedule v e b)
  then have "th = None" using th by (simp add: thread_in_def)
  with CallReschedule scheduled_finishes [OF ok, of b e r l] r show ?thesis
    by (simp add: idle_outside Reschedule_sync_at_def Lazy_Via_def made_lazy launch_scheduled)
next
  case (StartLazy v loc ex b)
  with launched_finishes [OF ok, of loc th b ex r l] r th show ?thesis
    by (simp add: Lazy_SetExecutor_def launch_on)
next
  case (StartReschedule v loc e b)
  with scheduled_finishes [OF ok, of b e r l] r show ?thesis
    by (simp add: Lazy_Via_def launch_scheduled_on)
qed

lemma keeps_set_executor [flow]: "keeps (Lazy_set_executor msg ex z)"
  unfolding Lazy_set_executor_def LOGIC_ASSERT_def by (intro flow)

lemma adds_starts:
  "adds leaves (Lazy_Start cb z)" "adds leaves (Reschedule_Start env cb z)"
  unfolding Lazy_Start_def Reschedule_Start_def by (intro flow)+

lemma adds_SyncAwait: "(\<And>z. adds leaves (start (StoreResult v) z)) \<Longrightarrow> adds leaves (SyncAwait_begin v start z)"
  unfolding SyncAwait_begin_def LOGIC_ASSERT_def by (intro flow)

lemma single_call: "single_flow (after (sync_call env l (idle_machine\<lparr>running := th\<rparr>)))"
proof (rule single_after)
  show "adds leaves (sync_call env l)"
    by (cases l; simp only: sync_call.simps Lazy_sync_at_def Reschedule_sync_at_def Lazy_SetExecutor_def Lazy_Via_def)
      (intro flow adds_SyncAwait adds_starts)+
qed (simp add: load_def idle_machine_def)

section \<open>One call next to others\<close>

lemma sim_set_executor [sims]:
  assumes "next_rel f y z"
  shows "sim K f next_rel (Lazy_set_executor msg ex y) (Lazy_set_executor msg ex z)"
proof -
  have "y = None \<longleftrightarrow> z = None" using assms by (cases y; cases z) simp_all
  with assms show ?thesis
    unfolding Lazy_set_executor_def LOGIC_ASSERT_def
    by (cases y; cases z) (auto intro!: sims intro: growing_trans)
qed

lemma sim_starts:
  assumes "handle_rel f c d"
  shows "sim K f next_rel (Lazy_Start cb (Some c)) (Lazy_Start cb (Some d))"
    and "sim K f next_rel (Reschedule_Start env cb (Some c)) (Reschedule_Start env cb (Some d))"
  unfolding Lazy_Start_def Reschedule_Start_def option.case
  by (rule sims | fastforce intro: growing_trans assms)+

lemma sim_start_null:
  "sim K f next_rel (Lazy_Start cb None) M"
  "sim K f next_rel (Reschedule_Start env cb None) M"
  by (simp_all add: Lazy_Start_def Reschedule_Start_def sim_stuck)

lemma sim_starts_any:
  assumes "next_rel f y z"
  shows "sim K f next_rel (Lazy_Start cb y) (Lazy_Start cb z)"
    and "sim K f next_rel (Reschedule_Start env cb y) (Reschedule_Start env cb z)"
proof -
  have "y = None \<or> (\<exists>c d. y = Some c \<and> z = Some d \<and> handle_rel f c d)"
    using assms by (cases y; cases z) auto
  then show "sim K f next_rel (Lazy_Start cb y) (Lazy_Start cb z)"
    "sim K f next_rel (Reschedule_Start env cb y) (Reschedule_Start env cb z)"
    by (elim disjE exE conjE; simp only: sim_start_null sim_starts)+
qed

lemma sim_SyncAwait:
  assumes z: "next_rel f y z"
    and start: "\<And>g c d. grows f g \<Longrightarrow> handle_rel g c d \<Longrightarrow> sim K g next_rel (start (StoreResult v) (Some c)) (start (StoreResult v) (Some d))"
  shows "sim K f next_rel (SyncAwait_begin v start y) (SyncAwait_begin v start z)"
proof (cases y)
  case None
  with z show ?thesis by (auto simp: SyncAwait_begin_def LOGIC_ASSERT_def intro!: sims)
next
  case (Some c)
  with z obtain d where d: "z = Some d" "handle_rel f c d" by (cases z) auto
  have guards: "sim K g next_rel (bind (in_executor e) (\<lambda>inside. seq (LOGIC_ASSERT (\<not> inside) msg) (start (StoreResult v) (Some c))))
      (bind (in_executor e) (\<lambda>inside. seq (LOGIC_ASSERT (\<not> inside) msg) (start (StoreResult v) (Some d))))"
    if "grows f g" for g e msg
    using d(2) that unfolding LOGIC_ASSERT_def
    by - (rule sim_bind_same [OF sim_queries(1)] sims start | fastforce intro: growing_trans)+
  show ?thesis
    unfolding Some d(1) SyncAwait_begin_def LOGIC_ASSERT_def option.case using d(2) guards [unfolded LOGIC_ASSERT_def]
    by - (rule sim_bind_executor_of sim_same_option sims start guards [unfolded LOGIC_ASSERT_def] | fastforce intro: growing_trans)+
qed

lemma sim_sync_call: "sim K f next_rel (sync_call env l) (sync_call env l)"
  by (cases l; simp only: sync_call.simps Lazy_sync_at_def Reschedule_sync_at_def Lazy_SetExecutor_def Lazy_Via_def)
    (rule sim_bind sim_new_lazy sim_set_executor sim_SyncAwait sim_starts sim_starts_any | fastforce)+

section \<open>The calls as parts of the machine\<close>

text \<open>
  A call with the result that it will give: it is still to come, or it is the configuration of its own machine
  together with the places of its frames. Its share of the large machine: the call, the handle that a thread
  is about to resume, the items.
\<close>

type_synonym 'a part = "('a call \<times> (exn + 'a val)) \<times> ('a config \<times> nat list) option"

type_synonym 'a share = "'a call multiset \<times> (cthread \<times> nat) multiset \<times> 'a item multiset"

definition flows :: "nat list \<Rightarrow> 'a config \<Rightarrow> (cthread \<times> nat) multiset \<Rightarrow> bool" where
  "flows f x R \<longleftrightarrow>
     (case fst x of
        Going h \<Rightarrow> \<exists>k. handle_rel f h k \<and> R = {#(running (snd x), k)#}
      | Idle \<Rightarrow> R = {#}
      | Stopped _ \<Rightarrow> False)"

fun part :: "coro_env \<Rightarrow> 'a part \<Rightarrow> 'a share \<Rightarrow> bool" where
  "part env ((l, r), None) V \<longleftrightarrow> call_meaning l = outcome_of r \<and> V = ({#l#}, {#}, {#})"
| "part env ((l, r), Some (x, f)) V \<longleftrightarrow>
     must env (finished (l, r)) x \<and> single_flow x \<and> length f = length (frames (snd x)) \<and> fst V = {#} \<and>
     flows f x (fst (snd V)) \<and> rel_mset (item_rel f) (items_of (snd x)) (snd (snd V))"

abbreviation calls_of :: "'a share multiset \<Rightarrow> 'a call multiset" where
  "calls_of S \<equiv> \<Sum>\<^sub># (image_mset fst S)"

abbreviation flows_of :: "'a share multiset \<Rightarrow> (cthread \<times> nat) multiset" where
  "flows_of S \<equiv> \<Sum>\<^sub># (image_mset (\<lambda>V. fst (snd V)) S)"

abbreviation all_items :: "'a share multiset \<Rightarrow> 'a item multiset" where
  "all_items S \<equiv> \<Sum>\<^sub># (image_mset (\<lambda>V. snd (snd V)) S)"

text \<open>
  The machine is made of the parts \<open>C\<close> with the shares \<open>S\<close>, next to frames \<open>K\<close> that belong to none of them: nothing
  refers to these, so nothing happens to them.
\<close>

definition inert :: "'a item multiset \<Rightarrow> bool" where
  "inert K \<longleftrightarrow> (\<forall>b \<in># K. \<exists>h F. b = IFrame h F)"

definition consists_with ::
  "'a item multiset \<Rightarrow> coro_env \<Rightarrow> 'a part multiset \<Rightarrow> 'a share multiset \<Rightarrow> 'a pconfig \<Rightarrow> bool" where
  "consists_with K env C S p \<longleftrightarrow>
     rel_mset (part env) C S \<and> inert K \<and>
     (\<exists>t. p = PRun (calls_of S) (flows_of S) t \<and> items_of t = K + all_items S)"

abbreviation consists_of :: "coro_env \<Rightarrow> 'a part multiset \<Rightarrow> 'a share multiset \<Rightarrow> 'a pconfig \<Rightarrow> bool" where
  "consists_of \<equiv> consists_with {#}"

lemma inert_simps [simp]:
  "inert {#}" "inert (K + M) \<longleftrightarrow> inert K \<and> inert M" "inert (add_mset b K) \<longleftrightarrow> (\<exists>h F. b = IFrame h F) \<and> inert K"
  by (auto simp: inert_def)

text \<open>A step of one part.\<close>

definition moves :: "coro_env \<Rightarrow> ('a part \<times> 'a part) set" where
  "moves env = {(d, c). fst d = fst c \<and>
     (case (snd d, snd c) of
        (Some y, Some x) \<Rightarrow> must env (finished (fst c)) (fst x) \<and> \<not> finished (fst c) (fst x) \<and> cstep env (fst x) (fst y)
      | (Some y, None) \<Rightarrow> True
      | _ \<Rightarrow> False)}"

lemma finished_stuck: "finished c x \<Longrightarrow> \<not> cstep env x y"
  by (auto simp: finished_def quiet_def elim: cstep.cases)

lemma must_step:
  assumes "must env (finished (l, r)) x" and "cstep env x y"
  shows "must env (finished (l, r)) y \<and> \<not> finished (l, r) x"
  using assms(1)
proof (cases rule: inevitably.cases)
  case inevitably_now
  with assms(2) finished_stuck show ?thesis by blast
next
  case inevitably_next
  with assms(2) finished_stuck show ?thesis by blast
qed

lemma must_not_stopped: "\<not> must env (finished (l, r)) (Stopped z, s)"
  by (auto simp: finished_def elim: inevitably.cases cstep.cases)

lemma moves_from:
  "(d, ((l, r), None)) \<in> moves env \<Longrightarrow> \<exists>y g. d = ((l, r), Some (y, g))"
  "(d, ((l, r), Some (x, f))) \<in> moves env \<Longrightarrow>
     must env (finished (l, r)) x \<and> \<not> finished (l, r) x \<and> (\<exists>y g. d = ((l, r), Some (y, g)) \<and> cstep env x y)"
  by (cases d; auto simp: moves_def split: option.splits)+

lemma moves_to:
  "(((l, r), Some (y, g)), ((l, r), None)) \<in> moves env"
  "must env (finished (l, r)) x \<Longrightarrow> cstep env x y \<Longrightarrow> (((l, r), Some (y, g)), ((l, r), Some (x, f))) \<in> moves env"
  using must_step [of env l r x y] by (auto simp: moves_def)

lemma wf_moves: "wf (moves env)"
  unfolding wf_def
proof (intro allI impI)
  fix P :: "'a part \<Rightarrow> bool" and c
  assume step: "\<forall>x. (\<forall>y. (y, x) \<in> moves env \<longrightarrow> P y) \<longrightarrow> P x"
  have going: "P ((l, r), Some (x, f))" if "must env (finished (l, r)) x" for l r x f
    using that
  proof (induction arbitrary: f rule: inevitably.induct)
    case (inevitably_now x)
    show ?case
    proof (rule step [rule_format])
      fix d assume "(d, ((l, r), Some (x, f))) \<in> moves env"
      then show "P d" using moves_from(2) inevitably_now by blast
    qed
  next
    case (inevitably_next x)
    show ?case
    proof (rule step [rule_format])
      fix d assume "(d, ((l, r), Some (x, f))) \<in> moves env"
      then obtain y g where "d = ((l, r), Some (y, g))" "cstep env x y" using moves_from(2) by blast
      with inevitably_next show "P d" by simp
    qed
  qed
  have some: "P ((l, r), Some (x, f))" for l r x f
  proof (rule step [rule_format])
    fix d assume "(d, ((l, r), Some (x, f))) \<in> moves env"
    from moves_from(2) [OF this] obtain y g where "d = ((l, r), Some (y, g))" "must env (finished (l, r)) x" "cstep env x y" by blast
    with must_step going show "P d" by blast
  qed
  have none: "P ((l, r), None)" for l r
  proof (rule step [rule_format])
    fix d assume "(d, ((l, r), None)) \<in> moves env"
    from moves_from(1) [OF this] some show "P d" by blast
  qed
  show "P c"
  proof -
    obtain l r z where c: "c = ((l, r), z)" by (cases c) auto
    show ?thesis
    proof (cases z)
      case None
      with c none show ?thesis by simp
    next
      case (Some y)
      with c some [of l r "fst y" "snd y"] show ?thesis by simp
    qed
  qed
qed

text \<open>One part, and the others.\<close>

lemma focus:
  assumes "rel_mset (part env) C S" and "V \<in># S"
  obtains c C' S' where "C = add_mset c C'" and "S = add_mset V S'" and "part env c V" and "rel_mset (part env) C' S'"
proof -
  from assms(2) obtain S' where S': "S = add_mset V S'" by (metis multi_member_split)
  from assms(1) [unfolded S'] obtain c C' where "C = add_mset c C'" "part env c V" "rel_mset (part env) C' S'"
    by (metis msed_rel_invR)
  with S' that show ?thesis by blast
qed

lemma part_some:
  assumes "part env c V" and "fst (snd V) \<noteq> {#} \<or> snd (snd V) \<noteq> {#}"
  obtains l r x f R W where "c = ((l, r), Some (x, f))" and "V = ({#}, R, W)" and "must env (finished (l, r)) x"
    and "single_flow x" and "length f = length (frames (snd x))" and "flows f x R"
    and "rel_mset (item_rel f) (items_of (snd x)) W"
proof -
  obtain l r z where c: "c = ((l, r), z)" by (cases c) auto
  obtain L R W where V: "V = (L, R, W)" by (cases V)
  show ?thesis
  proof (cases z)
    case None
    with assms c V show ?thesis by simp
  next
    case (Some y)
    obtain x f where "y = (x, f)" by (cases y)
    with assms(1) c V Some show ?thesis by (intro that [of l r x f R W]) auto
  qed
qed

lemma advance:
  fixes m M :: "('a cmachine, nat option) action"
  assumes s: "sim K f next_rel m M" and e: "embeds K f s t"
    and y: "must env (finished (l, r)) (after (m s))" "single_flow (after (m s))"
  shows "\<exists>R' t' g W. (\<forall>L R. pafter L R (M t) = PRun L (R' + R) t') \<and> items_of t' = K + W \<and>
    part env ((l, r), Some (after (m s), g)) ({#}, R', W)"
proof -
  obtain z s' where m: "m s = (z, s')" by (cases "m s")
  with y(1) obtain n where z: "z = Return n" by (cases z) (auto simp: must_not_stopped)
  obtain q t' where M: "M t = (q, t')" by (cases "M t")
  from s [unfolded sim_def, rule_format, OF e] m z M obtain w g where
    g: "q = Return w" "embeds K g s' t'" "next_rel g n w" by (auto simp: follows_def)
  from g(2) obtain W where W: "items_of t' = K + W" "rel_mset (item_rel g) (items_of s') W" "length g = length (frames s')" "running s' = running t'"
    by (auto simp: embeds_def)
  show ?thesis
  proof (cases n)
    case None
    with g(3) have "w = None" by (cases w) simp_all
    then show ?thesis
      using y m z None M g(1) W by (intro exI [of _ "{#}"] exI [of _ t'] exI [of _ g] exI [of _ W]) (simp_all add: pafter_def flows_def)
  next
    case (Some h)
    with g(3) obtain k where "w = Some k" "handle_rel g h k" by (cases w) auto
    then show ?thesis
      using y m z Some M g(1) W by (intro exI [of _ "{#(running t', k)#}"] exI [of _ t'] exI [of _ g] exI [of _ W]) (simp_all add: pafter_def flows_def)
  qed
qed

definition advances :: "coro_env \<Rightarrow> 'a part multiset \<Rightarrow> 'a part multiset \<Rightarrow> bool" where
  "advances env D C \<longleftrightarrow> (D, C) \<in> mult1 (moves env) \<and> image_mset fst D = image_mset fst C"

lemma replaced:
  assumes inert: "inert K" and rel: "rel_mset (part env) C' S'" and d: "part env d (L', R', W)"
    and t: "items_of t' = K + all_items S' + W" and move: "(d, c) \<in> moves env"
    and p: "p = PRun (L' + calls_of S') (R' + flows_of S') t'"
  shows "\<exists>D T. consists_with K env D T p \<and> advances env D (add_mset c C')"
proof (intro exI conjI)
  show "consists_with K env (add_mset d C') (add_mset (L', R', W) S') p"
    unfolding consists_with_def using inert rel d t p by (auto intro: rel_mset_Plus)
  have "(add_mset d C', add_mset c C') \<in> mult1 (moves env)"
    using move by (intro mult1I [of _ _ C' _ "{#d#}"]) simp_all
  moreover have "fst d = fst c" using move by (simp add: moves_def)
  ultimately show "advances env (add_mset d C') (add_mset c C')" by (simp add: advances_def)
qed

section \<open>Steps of the parallel machine\<close>

lemma consists_parts:
  assumes "consists_with K env C S (PRun L R t)"
  shows "rel_mset (part env) C S" and "L = calls_of S" and "R = flows_of S" and "items_of t = K + all_items S"
    and "inert K"
  using assms by (auto simp: consists_with_def)

lemma embeds_thread:
  assumes "length f = length (frames s)" and "rel_mset (item_rel f) (items_of s) W" and "items_of t = K + W"
    and "running s = running t"
  shows "embeds K f s t"
  using assms by (auto simp: embeds_def)

lemma call_step:
  assumes ok: "env_ok env" and C: "consists_with K env C S (PRun L R t)" and l: "l \<in># L" and th: "thread_in env (call_loc l) th"
  shows "\<exists>D T. consists_with K env D T (pafter (L - {#l#}) R (sync_call env l (t\<lparr>running := th\<rparr>))) \<and>
    advances env D C"
proof -
  note parts = consists_parts [OF C]
  from l parts(2) obtain V where V: "V \<in># S" "l \<in># fst V" by auto
  from focus [OF parts(1) V(1)] obtain c C' S' where
    f: "C = add_mset c C'" "S = add_mset V S'" "part env c V" "rel_mset (part env) C' S'" .
  from f(3) V(2) obtain r where c: "c = ((l, r), None)" "call_meaning l = outcome_of r" "V = ({#l#}, {#}, {#})"
    by (cases "(env, c, V)" rule: part.cases) auto
  have e: "embeds (K + all_items S') [] (idle_machine\<lparr>running := th\<rparr>) (t\<lparr>running := th\<rparr>)"
    using parts(4) f(2) c(3) by (intro embeds_thread [where W = "{#}"])
      (simp_all add: idle_machine_def items_of_def frame_items_def)
  from advance [OF sim_sync_call e call_finishes [OF ok c(2) th] single_call] obtain R' t' g W where
    a: "\<forall>L R. pafter L R (sync_call env l (t\<lparr>running := th\<rparr>)) = PRun L (R' + R) t'" "items_of t' = K + all_items S' + W"
    "part env ((l, r), Some (after (sync_call env l (idle_machine\<lparr>running := th\<rparr>)), g)) ({#}, R', W)" by (elim exE conjE) (rule that)
  show ?thesis
    unfolding f(1) c(1)
    by (rule replaced [OF parts(5) f(4) a(3,2) moves_to(1)]) (simp add: a(1) parts(2,3) f(2) c(3))
qed

text \<open>
  A frame that nothing referred to is started: \<open>m\<close> does in a machine that has only this frame what \<open>M\<close> does here.
\<close>

lemma adopt_step:
  fixes m M :: "('a cmachine, nat option) action"
  assumes C: "consists_with (add_mset (IFrame k (Some F)) K) env C S (PRun L R t)" and F: "frame_rel [k] F F"
    and sim: "sim (K + all_items S) [k] next_rel m M"
    and own: "must env (finished (l, r)) (after (m (idle_machine\<lparr>frames := [Some F], running := th\<rparr>)))"
      "single_flow (after (m (idle_machine\<lparr>frames := [Some F], running := th\<rparr>)))"
  shows "\<exists>D T. consists_with K env D T (pafter L R (M (t\<lparr>running := th\<rparr>))) \<and> advances env D (add_mset ((l, r), None) C)"
proof -
  note parts = consists_parts [OF C]
  have "rel_mset (item_rel [k]) {#IFrame 0 (Some F)#} {#IFrame k (Some F)#}"
    using F by (intro rel_mset_Plus rel_mset_Zero) (simp add: handle_rel_def)
  moreover have "items_of (idle_machine\<lparr>frames := [Some F], running := th\<rparr>) = {#IFrame 0 (Some F)#}"
    by (simp add: idle_machine_def items_of_def frame_items_def lessThan_Suc)
  ultimately have e: "embeds (K + all_items S) [k] (idle_machine\<lparr>frames := [Some F], running := th\<rparr>) (t\<lparr>running := th\<rparr>)"
    using parts(4) by (intro embeds_thread [where W = "{#IFrame k (Some F)#}"]) (simp_all add: ac_simps)
  from advance [OF sim e own] obtain R' t' g W where
    a: "\<forall>L R. pafter L R (M (t\<lparr>running := th\<rparr>)) = PRun L (R' + R) t'" "items_of t' = K + all_items S + W"
    "part env ((l, r), Some (after (m (idle_machine\<lparr>frames := [Some F], running := th\<rparr>)), g)) ({#}, R', W)" by (elim exE conjE) (rule that)
  have "inert K" using parts(5) by simp
  from replaced [OF this parts(1) a(3,2) moves_to(1)] show ?thesis by (simp add: a(1) parts(2,3))
qed

lemma flows_at:
  "(th, k) \<in># Q \<Longrightarrow> flows f x Q \<Longrightarrow>
   \<exists>h. fst x = Going h \<and> handle_rel f h k \<and> Q = {#(th, k)#} \<and> running (snd x) = th"
  by (cases "fst x") (auto simp: flows_def)

lemma run_step:
  assumes C: "consists_with K env C S (PRun L R t)" and h: "(th, k) \<in># R"
  shows "\<exists>D T. consists_with K env D T (pafter L (R - {#(th, k)#}) (resume env k (t\<lparr>running := th\<rparr>))) \<and>
    advances env D C"
proof -
  note parts = consists_parts [OF C]
  from h parts(3) obtain V where V: "V \<in># S" "(th, k) \<in># fst (snd V)" by auto
  from focus [OF parts(1) V(1)] obtain c C' S' where
    f: "C = add_mset c C'" "S = add_mset V S'" "part env c V" "rel_mset (part env) C' S'" .
  have "fst (snd V) \<noteq> {#} \<or> snd (snd V) \<noteq> {#}" using V(2) by auto
  from part_some [OF f(3) this] obtain l r x f' Q W where c: "c = ((l, r), Some (x, f'))" "V = ({#}, Q, W)"
    "must env (finished (l, r)) x" "single_flow x" "length f' = length (frames (snd x))" "flows f' x Q"
    "rel_mset (item_rel f') (items_of (snd x)) W" .
  have "(th, k) \<in># Q" using V(2) c(2) by simp
  from flows_at [OF this c(6)] obtain h s where
    x: "x = (Going h, s)" "handle_rel f' h k" "Q = {#(th, k)#}" "running s = th"
    by (metis prod.collapse)
  have e: "embeds (K + all_items S') f' s (t\<lparr>running := th\<rparr>)"
    using c(2,5,7) parts(4) x(1,4) f(2) by (intro embeds_thread [where W = W]) simp_all
  have step: "cstep env x (after (resume env h s))" unfolding x(1) by (rule run)
  from advance [OF sim_resume [OF x(2)] e conjunct1 [OF must_step [OF c(3) step]] single_step [OF step c(4)]]
  obtain R' t' g W' where
    a: "\<forall>L R. pafter L R (resume env k (t\<lparr>running := th\<rparr>)) = PRun L (R' + R) t'" "items_of t' = K + all_items S' + W'"
    "part env ((l, r), Some (after (resume env h s), g)) ({#}, R', W')" by (elim exE conjE) (rule that)
  show ?thesis
    unfolding f(1) c(1)
    by (rule replaced [OF parts(5) f(4) a(3,2) moves_to(2) [OF c(3) step]])
      (simp add: a(1) parts(2,3) f(2) x(3) c(2))
qed

text \<open>A task, a timer or an event belongs to a part that waits for it and does nothing else.\<close>

fun waiting_item :: "'a item \<Rightarrow> bool" where
  "waiting_item (ITask _) = True"
| "waiting_item (ITimer _) = True"
| "waiting_item (IArrival _) = True"
| "waiting_item _ = False"

lemma waiting: "waiting_item (ITask x)" "waiting_item (ITimer y)" "waiting_item (IArrival z)"
  by simp_all

lemma waiting_load: "a \<in># items_of s \<Longrightarrow> waiting_item a \<Longrightarrow> load s \<noteq> 0"
  by (cases a) (auto simp: item_other_iff load_def)

lemma waiting_rel: "item_rel f a b \<Longrightarrow> waiting_item a = waiting_item b"
  by (cases "(f, a, b)" rule: item_rel.cases) auto

lemma waiting_part:
  assumes C: "consists_with K env C S (PRun L R t)" and b: "b \<in># items_of t" "waiting_item b"
  obtains l r s f C' S' a M W where "C = add_mset ((l, r), Some ((Idle, s), f)) C'" and "rel_mset (part env) C' S'"
    and "L = calls_of S'" and "R = flows_of S'" and "items_of t = add_mset b (K + all_items S' + W)"
    and "items_of s = add_mset a M" and "item_rel f a b" and "rel_mset (item_rel f) M W"
    and "must env (finished (l, r)) (Idle, s)" and "single_flow (Idle, s)" and "length f = length (frames s)" and "inert K"
proof -
  note parts = consists_parts [OF C]
  have "b \<notin># K" using parts(5) b(2) by (auto simp: inert_def)
  with b(1) parts(4) obtain V where V: "V \<in># S" "b \<in># snd (snd V)" by auto
  from focus [OF parts(1) V(1)] obtain c C' S' where
    f: "C = add_mset c C'" "S = add_mset V S'" "part env c V" "rel_mset (part env) C' S'" .
  have "fst (snd V) \<noteq> {#} \<or> snd (snd V) \<noteq> {#}" using V(2) by auto
  from part_some [OF f(3) this] obtain l r x f' Q U where c: "c = ((l, r), Some (x, f'))" "V = ({#}, Q, U)"
    "must env (finished (l, r)) x" "single_flow x" "length f' = length (frames (snd x))" "flows f' x Q"
    "rel_mset (item_rel f') (items_of (snd x)) U" .
  from V(2) c(2) obtain W where W: "U = add_mset b W" by (metis mset_add prod.sel(2))
  from c(7) [unfolded W] obtain a M where a: "items_of (snd x) = add_mset a M" "item_rel f' a b" "rel_mset (item_rel f') M W"
    by (metis msed_rel_invR)
  have "load (snd x) \<noteq> 0" using a(1,2) b(2) by (intro waiting_load [of a]) (auto dest: waiting_rel)
  then have idle: "fst x = Idle" using c(4,6) by (auto simp: single_flow_def flows_def split: control.splits)
  then have x: "x = (Idle, snd x)" by (metis prod.collapse)
  have "Q = {#}" using c(6) idle by (simp add: flows_def)
  with that [of l r "snd x" f' C' S' W a M] c f parts W a x show ?thesis by (simp add: ac_simps)
qed

lemma embeds_rest:
  assumes "rel_mset (item_rel f) M W" and "items_of s' = M" and "items_of t' = K + W" and "length f = length (frames s')"
    and "running s' = running t'"
  shows "embeds K f s' t'"
  using assms by (auto simp: embeds_def)

lemma items_of_remove:
  "x \<in># tasks s \<Longrightarrow> items_of (s\<lparr>tasks := tasks s - {#x#}\<rparr>) = items_of s - {#ITask x#}"
  "y \<in># timers s \<Longrightarrow> items_of (s\<lparr>timers := timers s - {#y#}\<rparr>) = items_of s - {#ITimer y#}"
  "z \<in># arrivals s \<Longrightarrow> items_of (s\<lparr>arrivals := arrivals s - {#z#}\<rparr>) = items_of s - {#IArrival z#}"
  by (auto simp: items_of_def image_mset_Diff dest!: multi_member_split)

text \<open>What a part does when it goes on after \<open>s'\<close>, if the large machine goes on after \<open>t'\<close>.\<close>

lemma continued:
  fixes m M :: "('a cmachine, nat option) action"
  assumes inert: "inert K" and C: "C = add_mset ((l, r), Some (x, f)) C'" "rel_mset (part env) C' S'"
    and sim: "sim (K + all_items S') f next_rel m M" and e: "embeds (K + all_items S') f s' t'"
    and step: "cstep env x (after (m s'))" and must: "must env (finished (l, r)) x" and single: "single_flow x"
  shows "\<exists>D T. consists_with K env D T (pafter (calls_of S') (flows_of S') (M t')) \<and> advances env D C"
proof -
  from advance [OF sim e conjunct1 [OF must_step [OF must step]] single_step [OF step single]]
  obtain R' u g W' where
    a: "\<forall>L R. pafter L R (M t') = PRun L (R' + R) u" "items_of u = K + all_items S' + W'"
    "part env ((l, r), Some (after (m s'), g)) ({#}, R', W')" by (elim exE conjE) (rule that)
  show ?thesis
    unfolding C(1)
    by (rule replaced [OF inert C(2) a(3,2) moves_to(2) [OF must step]]) (simp add: a(1))
qed

lemma take_step:
  assumes C: "consists_with K env C S (PRun L R t)" and j: "(e, target, j) \<in># tasks t"
    and w: "w < num_workers env e" "\<forall>i. target = Some i \<longrightarrow> w = i"
  shows "\<exists>D T. consists_with K env D T (pafter L R (bind (start_job j) (\<lambda>h. ret (Some h))
      (t\<lparr>tasks := tasks t - {#(e, target, j)#}, running := Some (e, w)\<rparr>))) \<and> advances env D C"
proof -
  have b: "ITask (e, target, j) \<in># items_of t" using j by (simp add: item_other_iff)
  from waiting_part [OF C b waiting(1)] obtain l r s f C' S' a M W where
    p: "C = add_mset ((l, r), Some ((Idle, s), f)) C'" "rel_mset (part env) C' S'" "L = calls_of S'" "R = flows_of S'"
    "items_of t = add_mset (ITask (e, target, j)) (K + all_items S' + W)" "items_of s = add_mset a M"
    "item_rel f a (ITask (e, target, j))" "rel_mset (item_rel f) M W"
    "must env (finished (l, r)) (Idle, s)" "single_flow (Idle, s)" "length f = length (frames s)" "inert K" .
  from p(7) obtain i where i: "a = ITask (e, target, i)" "job_rel f i j"
    by (cases a) (auto simp: task_rel_def rel_prod_sel)
  have s: "(e, target, i) \<in># tasks s" using p(6) i(1) item_other_iff(1) [of "(e, target, i)" s] by simp
  have go: "sim (K + all_items S') f next_rel (bind (start_job i) (\<lambda>h. ret (Some h))) (bind (start_job j) (\<lambda>h. ret (Some h)))"
    by (rule sim_bind [OF sim_start_job [OF i(2)]]) (auto intro: sims)
  have em: "embeds (K + all_items S') f (s\<lparr>tasks := tasks s - {#(e, target, i)#}, running := Some (e, w)\<rparr>)
     (t\<lparr>tasks := tasks t - {#(e, target, j)#}, running := Some (e, w)\<rparr>)"
    by (rule embeds_rest [OF p(8)]) (simp_all add: items_of_remove s j p(5,6,11) i(1))
  show ?thesis
    unfolding p(3,4) by (rule continued [OF p(12,1,2) go em take [OF s w] p(9,10)])
qed

lemma wake_step:
  assumes C: "consists_with K env C S (PRun L R t)" and j: "(e, k) \<in># timers t"
  shows "\<exists>D T. consists_with K env D T (pafter L R (seq (schedule env e k) (ret None)
      (t\<lparr>timers := timers t - {#(e, k)#}, running := None\<rparr>))) \<and> advances env D C"
proof -
  have b: "ITimer (e, k) \<in># items_of t" using j by (simp add: item_other_iff)
  from waiting_part [OF C b waiting(2)] obtain l r s f C' S' a M W where
    p: "C = add_mset ((l, r), Some ((Idle, s), f)) C'" "rel_mset (part env) C' S'" "L = calls_of S'" "R = flows_of S'"
    "items_of t = add_mset (ITimer (e, k)) (K + all_items S' + W)" "items_of s = add_mset a M"
    "item_rel f a (ITimer (e, k))" "rel_mset (item_rel f) M W"
    "must env (finished (l, r)) (Idle, s)" "single_flow (Idle, s)" "length f = length (frames s)" "inert K" .
  from p(7) obtain h where h: "a = ITimer (e, h)" "handle_rel f h k"
    by (cases a) (auto simp: event_rel_def rel_prod_sel)
  have s: "(e, h) \<in># timers s" using p(6) h(1) item_other_iff(2) [of "(e, h)" s] by simp
  have go: "sim (K + all_items S') f next_rel (seq (schedule env e h) (ret None)) (seq (schedule env e k) (ret None))"
    by (rule sim_seq [OF sim_schedule [OF h(2)]]) (auto intro: sims)
  have em: "embeds (K + all_items S') f (s\<lparr>timers := timers s - {#(e, h)#}, running := None\<rparr>)
     (t\<lparr>timers := timers t - {#(e, k)#}, running := None\<rparr>)"
    by (rule embeds_rest [OF p(8)]) (simp_all add: items_of_remove s j p(5,6,11) h(1))
  show ?thesis
    unfolding p(3,4) by (rule continued [OF p(12,1,2) go em wake [OF s] p(9,10)])
qed

lemma arrive_step:
  assumes C: "consists_with K env C S (PRun L R t)" and j: "(loc, k) \<in># arrivals t" and th: "thread_in env loc th"
  shows "\<exists>D T. consists_with K env D T (PRun L (add_mset (th, k) R)
      (t\<lparr>arrivals := arrivals t - {#(loc, k)#}, running := th\<rparr>)) \<and> advances env D C"
proof -
  have b: "IArrival (loc, k) \<in># items_of t" using j by (simp add: item_other_iff)
  from waiting_part [OF C b waiting(3)] obtain l r s f C' S' a M W where
    p: "C = add_mset ((l, r), Some ((Idle, s), f)) C'" "rel_mset (part env) C' S'" "L = calls_of S'" "R = flows_of S'"
    "items_of t = add_mset (IArrival (loc, k)) (K + all_items S' + W)" "items_of s = add_mset a M"
    "item_rel f a (IArrival (loc, k))" "rel_mset (item_rel f) M W"
    "must env (finished (l, r)) (Idle, s)" "single_flow (Idle, s)" "length f = length (frames s)" "inert K" .
  from p(7) obtain h where h: "a = IArrival (loc, h)" "handle_rel f h k"
    by (cases a) (auto simp: event_rel_def rel_prod_sel)
  have s: "(loc, h) \<in># arrivals s" using p(6) h(1) item_other_iff(3) [of "(loc, h)" s] by simp
  let ?s = "s\<lparr>arrivals := arrivals s - {#(loc, h)#}, running := th\<rparr>"
  let ?t = "t\<lparr>arrivals := arrivals t - {#(loc, k)#}, running := th\<rparr>"
  have e: "embeds (K + all_items S') f ?s ?t"
    by (rule embeds_rest [OF p(8)]) (simp_all add: items_of_remove s j p(5,6,11) h(1))
  have go: "sim (K + all_items S') f next_rel (ret (Some h)) (ret (Some k))" using h(2) by (auto intro: sims)
  have "cstep env (Idle, s) (after (ret (Some h) ?s))" using arrive [OF s th] by (simp add: run_method)
  from continued [OF p(12,1,2) go e this p(9,10)] show ?thesis
    by (simp add: p(3,4) run_method pafter_def)
qed

lemma parallel_step:
  assumes ok: "env_ok env" and C: "consists_with K env C S p" and "pstep env p q"
  shows "\<exists>D T. consists_with K env D T q \<and> advances env D C"
  using assms(3)
proof cases
  case p_call
  show ?thesis unfolding p_call(2) by (rule call_step [OF ok C [unfolded p_call(1)] p_call(3,4)])
next
  case p_run
  show ?thesis unfolding p_run(2) by (rule run_step [OF C [unfolded p_run(1)] p_run(3)])
next
  case p_take
  show ?thesis unfolding p_take(2) by (rule take_step [OF C [unfolded p_take(1)] p_take(3,4,5)])
next
  case p_wake
  show ?thesis unfolding p_wake(2) by (rule wake_step [OF C [unfolded p_wake(1)] p_wake(3)])
next
  case p_arrive
  show ?thesis unfolding p_arrive(2) by (rule arrive_step [OF C [unfolded p_arrive(1)] p_arrive(3,4)])
qed

end
