(* ===== verification/Parallel_Calls.thy ===== *)
theory Parallel_Calls
  imports Lazy_Parallel
begin

text \<open>
  The parallel machine of \<^verbatim>\<open>Lazy_Parallel.thy\<close> always goes on until every call has returned: some thread can
  take a turn, the turns are finite in number because each is a step of one call's own machine, and at the
  end the results are those of the calls.
\<close>

section \<open>Until all calls have returned\<close>

definition done_part :: "'a part \<Rightarrow> bool" where
  "done_part c \<longleftrightarrow> (case snd c of None \<Rightarrow> False | Some y \<Rightarrow> finished (fst c) (fst y))"

lemma free_none: "R = {#} \<Longrightarrow> free_thread R th"
  by (simp add: free_thread_def)

lemma related_item:
  assumes "rel_mset (item_rel f) M W" and "a \<in># M"
  obtains b where "b \<in># W" and "item_rel f a b"
  using assms by (metis multi_member_split msed_rel_invL union_single_eq_member)

lemma free_worker:
  assumes "env_ok env"
  obtains th where "thread_in env loc th"
  using assms by (cases loc) (auto simp: env_ok_def thread_in_def intro: that [of None] that [of "Some (_, 0)"])

lemma parallel_progress:
  assumes ok: "env_ok env" and C: "consists_with K env C S p" and c: "c \<in># C" "\<not> done_part c"
  shows "\<exists>q. pstep env p q"
proof -
  obtain L R t where p: "p = PRun L R t" using C by (auto simp: consists_with_def)
  note parts = consists_parts [OF C [unfolded p]]
  consider (flow) "R \<noteq> {#}" | (call) "L \<noteq> {#}" "R = {#}" | (wait) "L = {#}" "R = {#}" by blast
  then show ?thesis
  proof cases
    case call
    then obtain l where l: "l \<in># L" by blast
    obtain th where "thread_in env (call_loc l) th" by (rule free_worker [OF ok])
    from p_call [OF l this free_none [OF call(2)]] show ?thesis unfolding p by blast
  next
    case flow
    then obtain th h where "(th, h) \<in># R" by (metis multiset_nonemptyE surj_pair)
    then show ?thesis unfolding p by (blast intro: p_run)
  next
    case wait
    from c(1) obtain C' where "C = add_mset c C'" by (metis mset_add)
    with parts(1) obtain V S' where V: "S = add_mset V S'" "part env c V" by (metis msed_rel_invL)
    obtain l r z where cz: "c = ((l, r), z)" by (cases c) auto
    from V wait parts(2) have "z \<noteq> None" by (cases z) (auto simp: cz)
    then obtain x f where z: "z = Some (x, f)" by auto
    from V(2) have x: "must env (finished (l, r)) x" "flows f x (fst (snd V))" "rel_mset (item_rel f) (items_of (snd x)) (snd (snd V))"
      by (simp_all add: cz z)
    from wait V(1) parts(3) have "fst (snd V) = {#}" by simp
    with x(2) have idle: "fst x = Idle" by (auto simp: flows_def split: control.splits)
    have "\<not> finished (l, r) x" using c(2) by (simp add: done_part_def cz z)
    with x(1) obtain y where y: "cstep env x y" by (auto elim: inevitably.cases)
    have here: "b \<in># items_of t" if "b \<in># snd (snd V)" for b using that V(1) parts(4) by simp
    from y idle show ?thesis
    proof (cases rule: cstep.cases)
      case (take e target j s w)
      then have "ITask (e, target, j) \<in># items_of (snd x)" by (simp add: item_other_iff)
      from related_item [OF x(3) this] obtain b where "b \<in># items_of t" "item_rel f (ITask (e, target, j)) b" using here by blast
      then obtain i where "(e, target, i) \<in># tasks t"
        by (cases b) (auto simp: task_rel_def rel_prod_sel item_other_iff)
      with take show ?thesis unfolding p by (blast intro: p_take [where R = R] free_none [OF wait(2)])
    next
      case (wake e h s)
      then have "ITimer (e, h) \<in># items_of (snd x)" by (simp add: item_other_iff)
      from related_item [OF x(3) this] obtain b where "b \<in># items_of t" "item_rel f (ITimer (e, h)) b" using here by blast
      then obtain k where "(e, k) \<in># timers t"
        by (cases b) (auto simp: event_rel_def rel_prod_sel item_other_iff)
      then show ?thesis unfolding p by (blast intro: p_wake)
    next
      case (arrive loc h s th)
      then have "IArrival (loc, h) \<in># items_of (snd x)" by (simp add: item_other_iff)
      from related_item [OF x(3) this] obtain b where "b \<in># items_of t" "item_rel f (IArrival (loc, h)) b" using here by blast
      then obtain k where "(loc, k) \<in># arrivals t"
        by (cases b) (auto simp: event_rel_def rel_prod_sel item_other_iff)
      with arrive show ?thesis unfolding p by (blast intro: p_arrive [where R = R] free_none [OF wait(2)])
    qed simp
  qed
qed

text \<open>The end: all parts have finished.\<close>

definition results_in :: "'a item multiset \<Rightarrow> (nat \<times> 'a val try_val) multiset" where
  "results_in M = image_mset (\<lambda>i. case i of IResult r \<Rightarrow> r | _ \<Rightarrow> (0, Nothing))
     (filter_mset (\<lambda>i. case i of IResult r \<Rightarrow> True | _ \<Rightarrow> False) M)"

lemma results_in_simps [simp]:
  "results_in {#} = {#}" "results_in (M + N) = results_in M + results_in N"
  "results_in (add_mset i M) = (case i of IResult r \<Rightarrow> add_mset r (results_in M) | _ \<Rightarrow> results_in M)"
  by (simp_all add: results_in_def split: item.splits)

lemma results_in_machine:
  fixes s :: "'a cmachine"
  shows "results_in (items_of s) = mset (cb_results s)"
proof -
  have "results_in (image_mset (\<lambda>i. IFrame (f i) (g i)) A) = {#}" for f :: "nat \<Rightarrow> nat" and g :: "nat \<Rightarrow> 'a frame option" and A
    by (induction A) simp_all
  moreover have "results_in (image_mset ITask A :: 'a item multiset) = {#}" for A by (induction A) simp_all
  moreover have "results_in (image_mset ITimer A :: 'a item multiset) = {#}" for A by (induction A) simp_all
  moreover have "results_in (image_mset IArrival A :: 'a item multiset) = {#}" for A by (induction A) simp_all
  moreover have "results_in (image_mset IResult A) = A" for A :: "(nat \<times> 'a val try_val) multiset"
    by (induction A) simp_all
  ultimately show ?thesis by (simp add: items_of_def frame_items_def)
qed

lemma related_induct [consumes 1, case_names empty add]:
  assumes "rel_mset R M N" and "P {#} {#}"
    and "\<And>a b M N. R a b \<Longrightarrow> rel_mset R M N \<Longrightarrow> P M N \<Longrightarrow> P (add_mset a M) (add_mset b N)"
  shows "P M N"
  using assms(1)
proof (induction M arbitrary: N)
  case empty
  then show ?case using assms(2) by (simp add: rel_mset_Zero_iff)
next
  case (add a M)
  from add.prems obtain b N' where "N = add_mset b N'" "R a b" "rel_mset R M N'" by (metis msed_rel_invL)
  with add.IH assms(3) show ?case by simp
qed

lemma results_in_rel: "rel_mset (item_rel f) M N \<Longrightarrow> results_in M = results_in N"
proof (induction rule: related_induct)
  case (add a b M N)
  then show ?case by (cases "(f, a, b)" rule: item_rel.cases) simp_all
qed simp

lemma parts_done:
  assumes "rel_mset (part env) C S" and "\<forall>c \<in># C. done_part c"
  shows "calls_of S = {#} \<and> flows_of S = {#} \<and> results_in (all_items S) = image_mset (\<lambda>c. (call_place (fst (fst c)), try_of (snd (fst c)))) C \<and>
    (\<forall>b \<in># all_items S. \<not> waiting_item b \<and> (\<forall>k F. b = IFrame k F \<longrightarrow> F = None))"
  using assms
proof (induction rule: related_induct)
  case (add c V C S)
  obtain l r z where cz: "c = ((l, r), z)" by (cases c) auto
  from add.prems have "done_part c" by simp
  then obtain x f where z: "z = Some (x, f)" "finished (l, r) x" by (auto simp: done_part_def cz split: option.splits)
  with add.hyps have V: "fst V = {#}" "flows f x (fst (snd V))" "rel_mset (item_rel f) (items_of (snd x)) (snd (snd V))"
    by (simp_all add: cz)
  have "fst (snd V) = {#}" using V(2) z(2) by (simp add: flows_def finished_def)
  moreover have "results_in (snd (snd V)) = {#(call_place l, try_of r)#}"
    using results_in_rel [OF V(3)] z(2) by (simp add: results_in_machine finished_def)
  moreover have "\<not> waiting_item b \<and> (\<forall>k F. b = IFrame k F \<longrightarrow> F = None)" if "b \<in># snd (snd V)" for b
  proof -
    from V(3) that obtain a where a: "a \<in># items_of (snd x)" "item_rel f a b"
      by (metis multi_member_split msed_rel_invR union_single_eq_member)
    have "\<not> waiting_item a"
      using a(1) z(2) by (cases a) (auto simp: item_other_iff finished_def quiet_def)
    moreover have "F = None" if "a = IFrame h F" for h F
      using a(1) z(2) that by (auto simp: item_frame_iff finished_def list_all_length)
    ultimately show ?thesis using a(2) by (cases "(f, a, b)" rule: item_rel.cases) auto
  qed
  ultimately show ?case using add.IH add.prems V(1) by (auto simp: cz)
qed simp

text \<open>The end with frames left: those of \<open>A\<close> are the ones that are alive.\<close>

definition finished_but :: "nat set \<Rightarrow> (nat \<times> (exn + 'a val)) list \<Rightarrow> 'a pconfig \<Rightarrow> bool" where
  "finished_but A rs x \<longleftrightarrow>
     (\<exists>s. x = PRun {#} {#} s \<and> quiet s \<and> {i. i < length (frames s) \<and> frames s ! i \<noteq> None} = A \<and>
        mset (cb_results s) = mset (map (\<lambda>(v, r). (v, try_of r)) rs))"

lemma finished_but_none: "finished_but {} rs x = all_finished rs x"
  by (auto simp: finished_but_def all_finished_def list_all_length)

lemma results_in_inert: "inert K \<Longrightarrow> results_in K = {#}"
  by (induction K) auto

lemma all_done_but:
  assumes C: "consists_with K env C S p" and d: "\<forall>c \<in># C. done_part c"
    and rs: "image_mset (\<lambda>c. (call_place (fst (fst c)), snd (fst c))) C = mset rs"
  shows "finished_but {h. \<exists>F. IFrame h (Some F) \<in># K} rs p"
proof -
  obtain t where p: "p = PRun (calls_of S) (flows_of S) t" "items_of t = K + all_items S" "rel_mset (part env) C S" "inert K"
    using C by (auto simp: consists_with_def)
  from parts_done [OF p(3) d] p(2) results_in_inert [OF p(4)] have done':
    "calls_of S = {#}" "flows_of S = {#}" "results_in (items_of t) = image_mset (\<lambda>c. (call_place (fst (fst c)), try_of (snd (fst c)))) C"
    "\<forall>b \<in># all_items S. \<not> waiting_item b \<and> (\<forall>k F. b = IFrame k F \<longrightarrow> F = None)" by auto
  have "image_mset (\<lambda>c. (call_place (fst (fst c)), try_of (snd (fst c)))) C = image_mset (\<lambda>(v, r). (v, try_of r)) (mset rs)"
    by (simp flip: rs add: image_mset.compositionality comp_def)
  with done'(3) have res: "mset (cb_results t) = mset (map (\<lambda>(v, r). (v, try_of r)) rs)" by (simp add: results_in_machine)
  have "b \<notin># K" if "waiting_item b" for b using p(4) that by (auto simp: inert_def)
  then have "b \<notin># items_of t" if "waiting_item b" for b using done'(4) p(2) that by auto
  then have "ITask x \<notin># items_of t" "ITimer y \<notin># items_of t" "IArrival z \<notin># items_of t" for x y z
    using waiting by blast+
  then have "x \<notin># tasks t" "y \<notin># timers t" "z \<notin># arrivals t" for x y z by (simp_all add: item_other_iff)
  then have quiet: "quiet t" by (metis quiet_def multiset_nonemptyE)
  have "(i < length (frames t) \<and> frames t ! i \<noteq> None) = (\<exists>F. IFrame i (Some F) \<in># items_of t)" for i
    by (auto simp: item_frame_iff)
  moreover have "(IFrame i (Some F) \<in># items_of t) = (IFrame i (Some F) \<in># K)" for i F
    using done'(4) p(2) by auto
  ultimately show ?thesis using quiet res done'(1,2) p(1) by (simp add: finished_but_def)
qed

lemma all_done_finished:
  assumes C: "consists_of env C S p" and d: "\<forall>c \<in># C. done_part c"
    and rs: "image_mset (\<lambda>c. (call_place (fst (fst c)), snd (fst c))) C = mset rs"
  shows "all_finished rs p"
  using all_done_but [OF C d rs] by (simp add: finished_but_none)

definition calls_inv :: "coro_env \<Rightarrow> (nat \<times> (exn + 'a val)) list \<Rightarrow> 'a part multiset \<Rightarrow> 'a pconfig \<Rightarrow> bool" where
  "calls_inv env rs C p \<longleftrightarrow>
     env_ok env \<and> (\<exists>S. consists_of env C S p) \<and> image_mset (\<lambda>c. (call_place (fst (fst c)), snd (fst c))) C = mset rs"

interpretation calls: ranked_system "pstep env" "calls_inv env rs" "all_finished rs" "inv_image (mult1 (moves env)) fst" for env rs
proof
  show "wf (inv_image (mult1 (moves env)) fst)" by (intro wf_inv_image wf_mult1 wf_moves)
next
  fix C p
  assume "calls_inv env rs C p" and unfinished: "\<not> all_finished rs p"
  then obtain S where S: "env_ok env" "consists_of env C S p" "image_mset (\<lambda>c. (call_place (fst (fst c)), snd (fst c))) C = mset rs"
    by (auto simp: calls_inv_def)
  with unfinished all_done_finished obtain c where "c \<in># C" "\<not> done_part c" by blast
  with parallel_progress [OF S(1,2)] show "\<exists>q. pstep env p q" by blast
next
  fix C p q
  assume "calls_inv env rs C p" and step: "pstep env p q"
  then obtain S where S: "env_ok env" "consists_of env C S p" "image_mset (\<lambda>c. (call_place (fst (fst c)), snd (fst c))) C = mset rs"
    by (auto simp: calls_inv_def)
  from parallel_step [OF S(1,2) step] obtain D T where D: "consists_of env D T q" "advances env D C" by blast
  have "image_mset (\<lambda>c. (call_place (fst (fst c)), snd (fst c))) D = image_mset (\<lambda>x. (call_place (fst x), snd x)) (image_mset fst D)"
    by (simp add: image_mset.compositionality comp_def)
  also have "\<dots> = mset rs"
    using D(2) S(3) by (simp add: advances_def image_mset.compositionality comp_def)
  finally show "\<exists>D. calls_inv env rs D q \<and> ((D, q), (C, p)) \<in> inv_image (mult1 (moves env)) fst"
    using D S(1) by (intro exI [of _ D]) (auto simp: calls_inv_def advances_def)
qed

text \<open>Before the first turn every part is a call that is still to come.\<close>

lemma parts_at_start:
  fixes ls :: "'a call list"
  assumes "list_all2 (\<lambda>l r. call_meaning l = outcome_of r) ls rs"
  shows "consists_of env (mset (map (\<lambda>x. (x, None)) (zip ls rs))) (mset (map (\<lambda>l. ({#l#}, {#}, {#})) ls)) (PRun (mset ls) {#} idle_machine)"
proof -
  let ?C = "map (\<lambda>x. (x, None)) (zip ls rs)" and ?S = "map (\<lambda>l. ({#l#}, {#}, {#}) :: 'a share) ls"
  have "list_all2 (part env) ?C ?S"
    using assms list_all2_lengthD [OF assms] by (auto simp: list_all2_conv_all_nth)
  then have "rel_mset (part env) (mset ?C) (mset ?S)" unfolding rel_mset_def by blast
  moreover have "\<Sum>\<^sub># (image_mset fst (mset ?S)) = mset ls" "flows_of (mset ?S) = {#}" "all_items (mset ?S) = {#}"
    by (induction ls) simp_all
  ultimately show "consists_of env (mset ?C) (mset ?S) (PRun (mset ls) {#} idle_machine)"
    unfolding consists_with_def by (auto simp: idle_machine_def items_of_def frame_items_def)
qed

text \<open>What each caller returns with.\<close>

definition returned :: "nat \<Rightarrow> 'a val outcome \<Rightarrow> 'a pconfig \<Rightarrow> bool" where
  "returned v x p \<longleftrightarrow> (case p of PRun L R s \<Rightarrow> fst (SyncAwait_end v s) = x | PStopped y \<Rightarrow> False)"

lemma filter_own: "distinct (map fst xs) \<Longrightarrow> i < length xs \<Longrightarrow> filter (\<lambda>x. fst x = fst (xs ! i)) xs = [xs ! i]"
proof (induction xs arbitrary: i)
  case (Cons x xs)
  show ?case
  proof (cases i)
    case 0
    have "fst y \<noteq> fst x" if "y \<in> set xs" for y
      using Cons.prems(1) that by (metis distinct.simps(2) image_eqI list.set_map list.simps(9))
    then have "filter (\<lambda>y. fst y = fst x) xs = []" by (simp add: filter_empty_conv)
    with 0 show ?thesis by simp
  next
    case (Suc j)
    with Cons show ?thesis by auto
  qed
qed simp

lemma finished_returned:
  assumes fin: "all_finished (zip vs rs) p" and vs: "distinct vs" "length vs = length rs" and i: "i < length vs"
  shows "returned (vs ! i) (outcome_of (rs ! i)) p"
proof -
  from fin obtain s where p: "p = PRun {#} {#} s" and
    res: "mset (cb_results s) = mset (map (\<lambda>(v, r). (v, try_of r)) (zip vs rs))" by (auto simp: all_finished_def)
  let ?xs = "map (\<lambda>(v, r). (v, try_of r)) (zip vs rs)"
  have "map fst ?xs = vs" using vs(2) by (simp add: comp_def case_prod_beta)
  with filter_own [of ?xs i] vs i have own: "filter (\<lambda>x. fst x = vs ! i) ?xs = [(vs ! i, try_of (rs ! i))]" by simp
  have "mset (filter (\<lambda>x. fst x = vs ! i) (cb_results s)) = mset (filter (\<lambda>x. fst x = vs ! i) ?xs)"
    using res by (simp only: mset_filter)
  then have "mset (filter (\<lambda>x. fst x = vs ! i) (cb_results s)) = {#(vs ! i, try_of (rs ! i))#}" unfolding own by simp
  then have "filter (\<lambda>x. fst x = vs ! i) (cb_results s) = [(vs ! i, try_of (rs ! i))]" by (simp only: mset_single_iff)
  then show ?thesis by (simp add: p returned_def SyncAwait_end_def try_of_replays)
qed

text \<open>
  Claim C36. Coroutines that run truly in parallel do what each of them does alone. Any number of threads call
  \<open>SyncAwait\<close> on a \<open>Lazy\<close> or a \<open>RescheduleLazy\<close>, each at any moment, on executors that they share, and at
  every moment any thread may take the next turn: if calling each body returns or throws, then every run ends,
  no worker is left stuck, every coroutine frame is destroyed, nothing is left in the executors, and every
  caller has in its variable what calling its own body gives, stored once.\<close>

theorem parallel_calls_independent:
  fixes ls :: "'a call list"
  assumes ok: "env_ok env" and meanings: "list_all2 (\<lambda>l r. call_meaning l = outcome_of r) ls rs"
    and places: "distinct (map call_place ls)"
  shows "pmust env (\<lambda>p. all_finished (zip (map call_place ls) rs) p \<and>
      (\<forall>i < length ls. returned (call_place (ls ! i)) (call_meaning (ls ! i)) p)) (PRun (mset ls) {#} idle_machine)"
proof (rule inevitably_mono [OF calls.ends])
  show "all_finished (zip (map call_place ls) rs) p \<and> (\<forall>i < length ls. returned (call_place (ls ! i)) (call_meaning (ls ! i)) p)"
    if "all_finished (zip (map call_place ls) rs) p" for p
    using that finished_returned [OF that places] meanings by (simp add: list_all2_conv_all_nth)
  let ?C = "map (\<lambda>x. (x, None)) (zip ls rs)"
  have "map (\<lambda>c. (call_place (fst (fst c)), snd (fst c))) ?C = zip (map call_place ls) rs"
    using list_all2_lengthD [OF meanings] by (simp add: zip_map1 comp_def case_prod_beta)
  then have "image_mset (\<lambda>c. (call_place (fst (fst c)), snd (fst c))) (mset ?C) = mset (zip (map call_place ls) rs)"
    by (metis mset_map)
  then show "calls_inv env (zip (map call_place ls) rs) (mset ?C) (PRun (mset ls) {#} idle_machine)"
    using ok parts_at_start [OF meanings] unfolding calls_inv_def by blast
qed

theorem parallel_calls_independent_witness:
  "pmust two_workers (returned 6 (Return (VVal 3)))
     (PRun {#CallReschedule 5 0 errand, CallLazy 6 None (CoReturn (VVal 3)), CallReschedule 7 1 errand#} {#} idle_machine)"
proof -
  let ?ls = "[CallReschedule 5 0 errand, CallLazy 6 None (CoReturn (VVal 3)), CallReschedule 7 1 errand]"
  have "list_all2 (\<lambda>l r. call_meaning l = outcome_of r) ?ls [Inl (UserExn 7), Inr (VVal 3), Inl (UserExn 7)]"
    by (simp add: errand_def home_def)
  from parallel_calls_independent [OF two_workers_ok this] show ?thesis
    by (auto elim!: inevitably_mono dest!: spec [of _ 1])
qed

end
