(* ===== verification/Sync_Schedule.thy ===== *)
theory Sync_Schedule
  imports Executor_Model
begin

text \<open>
  \<open>Executor::SyncSchedule\<close> of \<^verbatim>\<open>include/async_simple/executor/executor.hpp\<close>: it schedules a closure that calls the
  function and releases a semaphore, and waits for the semaphore. The executor is a \<open>SimpleExecutor\<close>;
  its workers, the caller and others who schedule functions take turns in any order. The caller may be a
  worker of the same executor, which then does nothing else until the call returns.
\<close>

section \<open>The call\<close>

text \<open>What is in the queues: functions of others and the closure.\<close>

datatype 'f posted = Other 'f | Closure

datatype sync_point = SyncEntry | SyncBlocked | SyncReturned bool | SyncAborted

record 'f sync_call =
  sy_pool :: "'f posted pool"
  sy_sem :: nat
  sy_runs :: nat
  sy_point :: sync_point

definition SyncSchedule_begin ::
  "('f posted option \<Rightarrow> ('f posted pool, bool) action) \<Rightarrow> 'f sync_call \<Rightarrow> 'f sync_call option" where
  "SyncSchedule_begin Schedule s =
     (case Schedule (Some Closure) (sy_pool s) of
        (Return b, p) \<Rightarrow>
          Some (s\<lparr>sy_pool := p, sy_sem := 0, sy_point := (if b then SyncBlocked else SyncReturned False)\<rparr>)
      | _ \<Rightarrow> None)"

text \<open>The closure; when the function throws on a worker, the process ends (\<open>throws\<close> is a parameter).\<close>

definition sync_closure :: "bool \<Rightarrow> 'f sync_call \<Rightarrow> 'f sync_call" where
  "sync_closure throws s =
     (if throws then s\<lparr>sy_runs := Suc (sy_runs s), sy_point := SyncAborted\<rparr>
      else s\<lparr>sy_runs := Suc (sy_runs s), sy_sem := Suc (sy_sem s)\<rparr>)"

definition run_posted :: "bool \<Rightarrow> 'f posted \<Rightarrow> 'f sync_call \<Rightarrow> 'f sync_call" where
  "run_posted throws g s = (case g of Other f \<Rightarrow> s | Closure \<Rightarrow> sync_closure throws s)"

definition inside_call :: "sync_point \<Rightarrow> bool" where
  "inside_call x \<longleftrightarrow> x = SyncEntry \<or> x = SyncBlocked"

text \<open>Who takes the turn: the caller, a worker, or somebody who schedules something.\<close>

datatype actor = Caller | Worker nat | Poster

inductive sync_step :: "nat option \<Rightarrow> bool \<Rightarrow> actor \<Rightarrow> 'f sync_call \<Rightarrow> 'f sync_call \<Rightarrow> bool" for caller throws where
  sync_begin: "sy_point s = SyncEntry \<Longrightarrow> SyncSchedule_begin (Simple_Schedule lk rand) s = Some t \<Longrightarrow>
     sync_step caller throws Caller s t"
| sync_acquire: "sy_point s = SyncBlocked \<Longrightarrow> sy_sem s = Suc n \<Longrightarrow>
     sync_step caller throws Caller s (s\<lparr>sy_sem := n, sy_point := SyncReturned True\<rparr>)"
| sync_turn: "sy_point s \<noteq> SyncAborted \<Longrightarrow> w < thread_num (sy_pool s) \<Longrightarrow>
     \<not> (caller = Some w \<and> inside_call (sy_point s)) \<Longrightarrow> Pool_worker_turn lk w (sy_pool s) = (Runs g, p) \<Longrightarrow>
     sync_step caller throws (Worker w) s (run_posted throws g (s\<lparr>sy_pool := p\<rparr>))"
| sync_post: "sy_point s \<noteq> SyncAborted \<Longrightarrow> Simple_Schedule lk rand (Some (Other f)) (sy_pool s) = (Return b, p) \<Longrightarrow>
     sync_step caller throws Poster s (s\<lparr>sy_pool := p\<rparr>)"

inductive sync_path :: "nat option \<Rightarrow> bool \<Rightarrow> nat \<Rightarrow> nat \<Rightarrow> 'f sync_call \<Rightarrow> 'f sync_call \<Rightarrow> bool" for caller throws w where
  sync_here: "sync_path caller throws w 0 s s"
| sync_more: "sync_step caller throws a s t \<Longrightarrow> sync_path caller throws w n t u \<Longrightarrow>
     sync_path caller throws w (if a = Worker w then Suc n else n) s u"

text \<open>The executor before the call: its queues hold functions of others.\<close>

definition sync_start :: "'f sync_call \<Rightarrow> bool" where
  "sync_start s \<longleftrightarrow>
     sy_point s = SyncEntry \<and> sy_sem s = 0 \<and> sy_runs s = 0 \<and> pool_wf (sy_pool s) \<and>
     \<not> enable_work_steal (sy_pool s) \<and> Closure \<notin># pool_fns (sy_pool s)"

section \<open>Queues\<close>

lemma pool_fns_queued:
  assumes "pool_wf p"
  shows "pool_fns p = sum_list (map (\<lambda>i. mset (queued_fns i p)) [0..<thread_num p])"
proof -
  have "map queue_fns (queues p) = map (\<lambda>i. queue_fns (queues p ! i)) [0..<thread_num p]"
    using assms by (intro nth_equalityI) (simp_all add: pool_wf_def)
  then show ?thesis by (simp add: pool_fns_def queue_fns_def queued_fns_def comp_def)
qed

lemma queued_in_pool:
  assumes "pool_wf p"
  shows "g \<in># pool_fns p \<longleftrightarrow> (\<exists>w < thread_num p. g \<in> set (queued_fns w p))"
proof -
  have "g \<in># sum_list (map (\<lambda>i. mset (queued_fns i p)) xs) \<longleftrightarrow> (\<exists>w \<in> set xs. g \<in> set (queued_fns w p))" for xs
    by (induction xs) auto
  then show ?thesis by (auto simp: pool_fns_queued [OF assms])
qed

lemma plain_turn:
  assumes "\<not> enable_work_steal p"
  shows "Pool_worker_turn lk w p =
    (case Queue_Pop (queues p ! w) of
       None \<Rightarrow> (Waits, p)
     | Some (None, q) \<Rightarrow> (Leaves, p)
     | Some (Some it, q) \<Rightarrow> (case fn it of Some f \<Rightarrow> (Runs f, set_queue w q p) | None \<Rightarrow> (Skips, set_queue w q p)))"
  using assms by (simp add: Pool_worker_turn_def WorkItem_default_def)

lemma turn_queues:
  assumes wf: "pool_wf p" and w: "w < thread_num p" and steal: "\<not> enable_work_steal p"
    and turn: "Pool_worker_turn lk w p = (Runs g, q)"
  shows "queued_fns w p = g # queued_fns w q" and "j \<noteq> w \<Longrightarrow> queued_fns j q = queued_fns j p"
    and "\<not> enable_work_steal q"
proof -
  have len: "w < length (queues p)" using wf w by (simp add: pool_wf_def)
  obtain item r where r: "Queue_Pop (queues p ! w) = Some (Some item, r)" "fn item = Some g" "q = set_queue w r p"
    using turn unfolding plain_turn [OF steal] by (simp split: option.splits prod.splits)
  have "items (queues p ! w) = item # items r" using wq.pop_item [of "queues p ! w" item r] r(1) by simp
  with r len show "queued_fns w p = g # queued_fns w q" "j \<noteq> w \<Longrightarrow> queued_fns j q = queued_fns j p"
    "\<not> enable_work_steal q" using steal by (simp_all add: queued_fns_def)
qed

lemma schedule_queues:
  assumes wf: "pool_wf p" and run: "Simple_Schedule lk rand (Some g) p = (Return b, q)"
  shows "pool_wf q \<and> enable_work_steal q = enable_work_steal p \<and> thread_num q = thread_num p \<and>
    (if b then \<exists>i < thread_num p. queued_fns i q = queued_fns i p @ [g] \<and> (\<forall>j. j \<noteq> i \<longrightarrow> queued_fns j q = queued_fns j p) \<and>
                 pool_fns q = add_mset g (pool_fns p)
     else q = p)"
proof (cases b)
  case True
  from run True have "Pool_ScheduleById lk rand (Some g) (- 1) p = (Return kErrorNone, q)"
    by (auto simp: Simple_Schedule_def run_method elim!: bind_Return)
  from schedule_accepts [OF wf this] obtain i steal where i: "i < thread_num p" "q = push_to i \<lparr>can_steal = steal, fn = Some g\<rparr> p"
    by auto
  from i push_to_fields [OF wf i(1), where item = "\<lparr>can_steal = steal, fn = Some g\<rparr>"] push_to_spec [OF wf i(1), where item = "\<lparr>can_steal = steal, fn = Some g\<rparr>"] True
  show ?thesis by (auto simp: callable_def push_to_def)
next
  case False
  with simple.schedule_false [OF wf, of "(lk, rand)" "Some g" q] run wf show ?thesis by simp
qed

section \<open>The invariant\<close>

definition sync_inv :: "bool \<Rightarrow> 'f sync_call \<Rightarrow> bool" where
  "sync_inv throws s \<longleftrightarrow>
     pool_wf (sy_pool s) \<and> \<not> enable_work_steal (sy_pool s) \<and>
     (let n = count (pool_fns (sy_pool s)) Closure in
      case sy_point s of
        SyncEntry \<Rightarrow> sy_runs s = 0 \<and> sy_sem s = 0 \<and> n = 0
      | SyncBlocked \<Rightarrow> (sy_runs s = 0 \<and> sy_sem s = 0 \<and> n = 1) \<or> (sy_runs s = 1 \<and> sy_sem s = 1 \<and> n = 0 \<and> \<not> throws)
      | SyncReturned True \<Rightarrow> sy_runs s = 1 \<and> n = 0 \<and> \<not> throws
      | SyncReturned False \<Rightarrow> sy_runs s = 0 \<and> n = 0
      | SyncAborted \<Rightarrow> sy_runs s = 1 \<and> throws)"

lemma sync_inv_step:
  assumes "sync_step caller throws a s t" and "sync_inv throws s"
  shows "sync_inv throws t"
  using assms
proof (cases rule: sync_step.cases)
  case (sync_begin lk rand)
  then obtain b p where b: "Simple_Schedule lk rand (Some Closure) (sy_pool s) = (Return b, p)"
    "t = s\<lparr>sy_pool := p, sy_sem := 0, sy_point := (if b then SyncBlocked else SyncReturned False)\<rparr>"
    by (auto simp: SyncSchedule_begin_def split: prod.splits outcome.splits)
  from schedule_queues [OF _ b(1)] b(2) sync_begin assms(2) show ?thesis
    by (cases b) (auto simp: sync_inv_def Let_def)
next
  case (sync_acquire n)
  with assms(2) show ?thesis by (auto simp: sync_inv_def Let_def)
next
  case (sync_turn w lk g p)
  have wf: "pool_wf (sy_pool s)" "\<not> enable_work_steal (sy_pool s)" using assms(2) by (simp_all add: sync_inv_def)
  from worker_turn_cases [OF wf(1) sync_turn(4,6)] turn_queues(3) [OF wf(1) sync_turn(4) wf(2) sync_turn(6)]
  have p: "pool_wf p" "pool_fns (sy_pool s) = add_mset g (pool_fns p)" "\<not> enable_work_steal p" by simp_all
  with assms(2) sync_turn(2,3) show ?thesis
    by (cases g; cases "sy_point s")
      (auto simp: sync_inv_def Let_def run_posted_def sync_closure_def split: bool.splits if_splits)
next
  case (sync_post lk rand f b p)
  from schedule_queues [OF _ sync_post(4)] sync_post assms(2) show ?thesis
    by (cases b; cases "sy_point s") (auto simp: sync_inv_def Let_def split: bool.splits)
qed

lemma sync_inv_path: "sync_path caller throws w n s t \<Longrightarrow> sync_inv throws s \<Longrightarrow> sync_inv throws t"
  by (induction rule: sync_path.induct) (auto dest: sync_inv_step)

lemma sync_inv_start: "sync_start s \<Longrightarrow> sync_inv throws s"
  by (simp add: sync_start_def sync_inv_def count_eq_zero_iff)

section \<open>Waiting for a turn\<close>

text \<open>How many functions a worker runs before the closure.\<close>

definition ahead :: "nat \<Rightarrow> 'f sync_call \<Rightarrow> nat" where
  "ahead w s = length (takeWhile (\<lambda>g. g \<noteq> Closure) (queued_fns w (sy_pool s)))"

definition waits_at :: "nat \<Rightarrow> 'f sync_call \<Rightarrow> bool" where
  "waits_at w s \<longleftrightarrow> sy_point s = SyncBlocked \<and> sy_runs s = 0 \<and> w < thread_num (sy_pool s) \<and>
     Closure \<in> set (queued_fns w (sy_pool s))"

lemma waits_inv: "sync_inv throws s \<Longrightarrow> waits_at w s \<Longrightarrow> sy_sem s = 0"
  by (auto simp: sync_inv_def waits_at_def Let_def)

lemma waits_step:
  assumes step: "sync_step caller throws a s t" and inv: "sync_inv throws s" and w: "waits_at w s"
  shows "(waits_at w t \<and> (if a = Worker w then ahead w t < ahead w s else ahead w t = ahead w s)) \<or>
    (a = Worker w \<and> sy_runs t = 1)"
  using step
proof (cases rule: sync_step.cases)
  case (sync_begin lk rand)
  with w show ?thesis by (simp add: waits_at_def)
next
  case (sync_acquire n)
  with waits_inv [OF inv w] show ?thesis by simp
next
  case (sync_turn v lk g p)
  have wf: "pool_wf (sy_pool s)" "\<not> enable_work_steal (sy_pool s)" using inv by (simp_all add: sync_inv_def)
  note q = turn_queues [OF wf(1) sync_turn(4) wf(2) sync_turn(6)]
  have num: "thread_num p = thread_num (sy_pool s)" using worker_turn_cases [OF wf(1) sync_turn(4,6)] by simp
  show ?thesis
  proof (cases "v = w")
    case True
    show ?thesis
    proof (cases g)
      case (Other f)
      with q(1) True sync_turn(1,2) w num show ?thesis
        by (simp add: waits_at_def ahead_def run_posted_def)
    next
      case Closure
      with True sync_turn(1,2) w show ?thesis
        by (auto simp: waits_at_def run_posted_def sync_closure_def)
    qed
  next
    case False
    have "g \<noteq> Closure"
    proof
      assume g: "g = Closure"
      have "Closure \<in># pool_fns p"
        using w q(2) [of w] False num worker_turn_cases [OF wf(1) sync_turn(4,6)]
        by (auto simp: queued_in_pool waits_at_def)
      moreover have "pool_fns (sy_pool s) = add_mset Closure (pool_fns p)"
        using worker_turn_cases [OF wf(1) sync_turn(4,6)] g by simp
      ultimately have "2 \<le> count (pool_fns (sy_pool s)) Closure" by simp
      with inv w show False by (auto simp: sync_inv_def waits_at_def Let_def)
    qed
    with q(2) [of w] False sync_turn(1,2) w num show ?thesis
      by (cases g) (simp_all add: waits_at_def ahead_def run_posted_def)
  qed
next
  case (sync_post lk rand f b p)
  from inv have "pool_wf (sy_pool s)" by (simp add: sync_inv_def)
  from schedule_queues [OF this sync_post(4)] have "thread_num p = thread_num (sy_pool s)"
    "queued_fns w p = queued_fns w (sy_pool s) \<or> queued_fns w p = queued_fns w (sy_pool s) @ [Other f]"
    by (cases b; simp; metis)+
  moreover have "takeWhile (\<lambda>g. g \<noteq> Closure) (queued_fns w (sy_pool s) @ [Other f]) =
      takeWhile (\<lambda>g. g \<noteq> Closure) (queued_fns w (sy_pool s))"
    using w by (intro takeWhile_append1 [of Closure]) (simp_all add: waits_at_def)
  ultimately show ?thesis using sync_post(1,2) w by (auto simp: waits_at_def ahead_def)
qed

lemma runs_kept:
  assumes "sync_step caller throws a s t" and "sync_inv throws s" and "sy_runs s = 1"
  shows "sy_runs t = 1"
proof -
  have "sync_inv throws t" by (rule sync_inv_step [OF assms(1,2)])
  moreover have "sy_runs s \<le> sy_runs t"
    using assms(1) by cases (auto simp: SyncSchedule_begin_def run_posted_def sync_closure_def split: prod.splits outcome.splits posted.splits)
  ultimately show ?thesis
    using assms(3) by (cases "sy_point t") (auto simp: sync_inv_def Let_def split: bool.splits)
qed

lemma runs_kept_path:
  "sync_path caller throws w n s t \<Longrightarrow> sync_inv throws s \<Longrightarrow> sy_runs s = 1 \<Longrightarrow> sy_runs t = 1"
proof (induction rule: sync_path.induct)
  case (sync_more a s t n u)
  from runs_kept [OF sync_more.hyps(1) sync_more.prems] sync_inv_step [OF sync_more.hyps(1) sync_more.prems(1)]
  show ?case by (intro sync_more.IH)
qed

lemma served:
  "sync_path caller throws w n s t \<Longrightarrow> sync_inv throws s \<Longrightarrow> waits_at w s \<Longrightarrow> ahead w s < n \<Longrightarrow> sy_runs t = 1"
proof (induction rule: sync_path.induct)
  case (sync_more a s t n u)
  have t: "sync_inv throws t" by (rule sync_inv_step [OF sync_more.hyps(1) sync_more.prems(1)])
  from waits_step [OF sync_more.hyps(1) sync_more.prems(1,2)] show ?case
  proof
    assume "waits_at w t \<and> (if a = Worker w then ahead w t < ahead w s else ahead w t = ahead w s)"
    with sync_more.prems(3) sync_more.IH [OF t] show ?thesis by (auto split: if_splits)
  next
    assume "a = Worker w \<and> sy_runs t = 1"
    with runs_kept_path [OF sync_more.hyps(2) t] show ?thesis by simp
  qed
qed simp

lemma turn_enabled:
  assumes "sync_inv throws s" and "waits_at w s" and "caller \<noteq> Some w"
  shows "\<exists>t. sync_step caller throws (Worker w) s t"
proof -
  have wf: "pool_wf (sy_pool s)" "\<not> enable_work_steal (sy_pool s)" using assms(1) by (simp_all add: sync_inv_def)
  have w: "w < thread_num (sy_pool s)" "items (queues (sy_pool s) ! w) \<noteq> []"
    using assms(2) by (auto simp: waits_at_def queued_fns_def)
  obtain r p where turn: "Pool_worker_turn (\<lambda>_. True) w (sy_pool s) = (r, p)"
    by (cases "Pool_worker_turn (\<lambda>_. True) w (sy_pool s)")
  from worker_turn_cases [OF wf(1) w(1) turn] w(2) obtain g where "r = Runs g" by (cases r) auto
  with sync_turn [of s w caller "\<lambda>_. True" g p throws] turn w(1) assms(2,3) show ?thesis by (auto simp: waits_at_def)
qed

text \<open>The caller's own worker never takes a turn while it waits.\<close>

lemma own_worker_stuck:
  "sync_path (Some w) throws v n s t \<Longrightarrow> sync_inv throws s \<Longrightarrow> waits_at w s \<Longrightarrow> waits_at w t"
proof (induction rule: sync_path.induct)
  case (sync_more a s t n u)
  have "\<not> (a = Worker w)"
    using sync_more.hyps(1) sync_more.prems(2) by (auto elim!: sync_step.cases simp: waits_at_def inside_call_def)
  with waits_step [OF sync_more.hyps(1) sync_more.prems] sync_inv_step [OF sync_more.hyps(1) sync_more.prems(1)]
  show ?case by (intro sync_more.IH) auto
qed

text \<open>The executor gives the closure to the worker that the random number picks.\<close>

lemma begins_at:
  assumes "sync_start s" and "w < thread_num (sy_pool s)" and "\<not> stop_flag (sy_pool s)" and "rand mod thread_num (sy_pool s) = w"
  shows "\<exists>t. SyncSchedule_begin (Simple_Schedule lk rand) s = Some t \<and> waits_at w t \<and> sync_inv throws t"
proof -
  have wf: "pool_wf (sy_pool s)" and start: "sy_point s = SyncEntry" "\<not> enable_work_steal (sy_pool s)" "sy_runs s = 0"
    using assms(1) by (simp_all add: sync_start_def)
  let ?p = "push_to w \<lparr>can_steal = False, fn = Some Closure\<rparr> (sy_pool s)"
  let ?t = "s\<lparr>sy_pool := ?p, sy_sem := 0, sy_point := SyncBlocked\<rparr>"
  have "Simple_Schedule lk rand (Some Closure) (sy_pool s) = (Return True, ?p)"
    using assms(2,3,4) start(2) by (auto simp: Simple_Schedule_def Pool_ScheduleById_def run_bind run_method)
  then have go: "SyncSchedule_begin (Simple_Schedule lk rand) s = Some ?t" by (simp add: SyncSchedule_begin_def)
  moreover have "waits_at w ?t"
    using push_to_fields(1,3) [OF wf assms(2), where item = "\<lparr>can_steal = False, fn = Some Closure\<rparr>"] assms(2) start(3)
    by (simp add: waits_at_def)
  moreover have "sync_inv throws ?t"
    by (rule sync_inv_step [OF sync_begin [OF start(1) go] sync_inv_start [OF assms(1)]])
  ultimately show ?thesis by blast
qed

section \<open>Properties\<close>

text \<open>
  Claim C37. \<open>SyncSchedule\<close> over \<open>SimpleExecutor\<close>, with other functions scheduled and run in any order: it returns true only after
  the function has been called, once, and false only if it never will be. While it waits, the function has
  been called and the semaphore is free, or the closure is in the queue of one worker; if that worker is not
  the caller, it can take a turn, and after as many turns as functions are queued before the closure,
  and one more, the function has been called, whatever all others do.\<close>

theorem sync_schedule_calls_once:
  assumes "sync_start s" and "sync_path caller throws v n s t"
  shows "case sy_point t of
      SyncEntry \<Rightarrow> sy_runs t = 0
    | SyncReturned b \<Rightarrow> sy_runs t = (if b then 1 else 0) \<and> Closure \<notin># pool_fns (sy_pool t)
    | SyncAborted \<Rightarrow> throws \<and> sy_runs t = 1
    | SyncBlocked \<Rightarrow>
        (sy_runs t = 1 \<and> sy_sem t = 1 \<and> \<not> throws) \<or>
        (\<exists>w. waits_at w t \<and>
           (caller \<noteq> Some w \<longrightarrow> (\<exists>u. sync_step caller throws (Worker w) t u)) \<and>
           (\<forall>m u. sync_path caller throws w m t u \<and> ahead w t < m \<longrightarrow> sy_runs u = 1))"
proof -
  have inv: "sync_inv throws t" by (rule sync_inv_path [OF assms(2) sync_inv_start [OF assms(1)]])
  show ?thesis
  proof (cases "sy_point t = SyncBlocked \<and> sy_runs t = 0")
    case True
    with inv have "Closure \<in># pool_fns (sy_pool t)" "pool_wf (sy_pool t)"
      by (auto simp: sync_inv_def Let_def simp flip: count_greater_zero_iff)
    then obtain w where w: "waits_at w t" using True by (auto simp: queued_in_pool waits_at_def)
    with turn_enabled [OF inv w, of caller] served [OF _ inv w] True show ?thesis by auto
  next
    case False
    with inv show ?thesis
      by (cases "sy_point t") (auto simp: sync_inv_def Let_def count_eq_zero_iff split: bool.splits)
  qed
qed

text \<open>
  Claim C38. \<open>SyncSchedule\<close> called on a worker of the same executor can wait for ever: the function goes to the worker
  that the random number picks, without regard to who calls; when it is the caller's own worker, the call
  never returns and the function is never called, on any schedule, however many workers there are.\<close>

theorem sync_schedule_own_worker_hangs:
  assumes "sync_start s" and "w < thread_num (sy_pool s)" and "\<not> stop_flag (sy_pool s)" and "rand mod thread_num (sy_pool s) = w"
  shows "\<exists>t. SyncSchedule_begin (Simple_Schedule lk rand) s = Some t \<and> sync_step (Some w) throws Caller s t \<and>
    (\<forall>v n u. sync_path (Some w) throws v n t u \<longrightarrow> sy_point u = SyncBlocked \<and> sy_runs u = 0)"
proof -
  from begins_at [OF assms] obtain t where t: "SyncSchedule_begin (Simple_Schedule lk rand) s = Some t" "waits_at w t"
    "sync_inv throws t" by blast
  have "sync_step (Some w) throws Caller s t"
    by (rule sync_begin [OF _ t(1)]) (use assms(1) in \<open>simp add: sync_start_def\<close>)
  with t(1) own_worker_stuck [OF _ t(3,2)] show ?thesis by (auto simp: waits_at_def)
qed

text \<open>Two workers; a function of somebody else is in the queue of worker 1.\<close>

definition demo_sync :: "nat sync_call" where
  "demo_sync = \<lparr>sy_pool = push_to 1 \<lparr>can_steal = False, fn = Some (Other 8)\<rparr> (Simple_ctor 4 2), sy_sem = 0, sy_runs = 0,
     sy_point = SyncEntry\<rparr>"

lemma demo_sync_start: "sync_start demo_sync"
proof -
  have wf: "pool_wf (Simple_ctor 4 2 :: nat posted pool)" unfolding Simple_ctor_def by (rule Pool_ctor_wf) simp_all
  moreover have "1 < thread_num (Simple_ctor 4 2 :: nat posted pool)" by (simp add: Simple_ctor_def Pool_ctor_def)
  ultimately have "pool_wf (sy_pool demo_sync) \<and> pool_fns (sy_pool demo_sync) = {#Other 8#}"
    using push_to_spec [of "Simple_ctor 4 2" 1 "\<lparr>can_steal = False, fn = Some (Other (8 :: nat))\<rparr>"]
    by (simp add: demo_sync_def callable_def Simple_ctor_def Pool_ctor_fns)
  then show ?thesis
    by (simp add: sync_start_def) (simp add: demo_sync_def push_to_def Simple_ctor_def Pool_ctor_def)
qed

theorem sync_schedule_own_worker_hangs_witness:
  "\<exists>t. SyncSchedule_begin (Simple_Schedule (\<lambda>_. True) 5) demo_sync = Some t \<and> sync_step (Some 1) False Caller demo_sync t \<and>
    (\<forall>v n u. sync_path (Some 1) False v n t u \<longrightarrow> sy_point u = SyncBlocked \<and> sy_runs u = 0)"
  by (rule sync_schedule_own_worker_hangs [OF demo_sync_start])
    (simp_all add: demo_sync_def push_to_def Simple_ctor_def Pool_ctor_def)

theorem sync_schedule_calls_once_witness:
  "\<exists>t. sync_path None False 1 0 demo_sync t \<and> sy_point t = SyncBlocked \<and> (\<exists>w. waits_at w t \<and>
     (\<forall>m u. sync_path None False w m t u \<and> ahead w t < m \<longrightarrow> sy_runs u = 1))"
proof -
  have "\<exists>t. SyncSchedule_begin (Simple_Schedule (\<lambda>_. True) 5) demo_sync = Some t \<and> waits_at 1 t \<and> sync_inv False t"
    by (rule begins_at [OF demo_sync_start]) (simp_all add: demo_sync_def push_to_def Simple_ctor_def Pool_ctor_def)
  then obtain t where t: "SyncSchedule_begin (Simple_Schedule (\<lambda>_. True) 5) demo_sync = Some t" "waits_at 1 t" by blast
  then have blocked: "sy_point t = SyncBlocked" "sy_runs t = 0" by (simp_all add: waits_at_def)
  have "sync_step None False Caller demo_sync t"
    by (rule sync_begin [OF _ t(1)]) (simp add: demo_sync_def)
  from sync_more [OF this sync_here, of 1] have path: "sync_path None False 1 0 demo_sync t" by simp
  from sync_schedule_calls_once [OF demo_sync_start path] blocked path show ?thesis by auto
qed

end
