(* ===== verification/Future_Refs.thy ===== *)
theory Future_Refs
  imports Future_State
begin

text \<open>
  Two small classes of \<^verbatim>\<open>include/async_simple/sync/future_state.hpp\<close>: the operators of the enumeration \<open>State\<close>, and
  \<open>ContinuationReference\<close> as an object with constructors and a destructor. The closures that
  \<open>ScheduleContinuation\<close> posts own such an object, and a \<open>std::function\<close> may copy what it holds.
\<close>

section \<open>The enumeration\<close>

definition State_or :: "8 word \<Rightarrow> 8 word \<Rightarrow> 8 word" where
  "State_or lhs rhs = lhs OR rhs"

definition State_and :: "8 word \<Rightarrow> 8 word \<Rightarrow> 8 word" where
  "State_and lhs rhs = lhs AND rhs"

text \<open>The four states are told apart by one bit each, so the masks of the two queries mean what they say.\<close>

lemma state_masks:
  assumes "s \<in> {kStart, kOnlyResult, kOnlyContinuation, kDone}"
  shows "State_and s (State_or kDone kOnlyResult) \<noteq> 0 \<longleftrightarrow> s = kDone \<or> s = kOnlyResult"
    and "State_and s (State_or kDone kOnlyContinuation) \<noteq> 0 \<longleftrightarrow> s = kDone \<or> s = kOnlyContinuation"
  using assms by (auto simp: State_and_def State_or_def state_defs)

lemma queries_by_masks:
  "HasResult p = bind (fs_read p fs_state) (\<lambda>s. ret (State_and s (State_or kDone kOnlyResult) \<noteq> 0))"
  "HasContinuation p = bind (fs_read p fs_state) (\<lambda>s. ret (State_and s (State_or kDone kOnlyContinuation) \<noteq> 0))"
  by (simp_all add: HasResult_def HasContinuation_def State_and_def State_or_def)

section \<open>ContinuationReference\<close>

type_synonym cont_ref = "nat option"

definition ContRef_default :: cont_ref where
  "ContRef_default = None"

definition ContRef_ctor :: "nat option \<Rightarrow> (('v, 'k, 'x) world, cont_ref) action" where
  "ContRef_ctor fs = (case fs of None \<Rightarrow> ret None | Some p \<Rightarrow> seq (Cont_Attach p) (ret (Some p)))"

definition ContRef_copy_ctor :: "cont_ref \<Rightarrow> (('v, 'k, 'x) world, cont_ref) action" where
  "ContRef_copy_ctor other = (case other of None \<Rightarrow> ret None | Some p \<Rightarrow> seq (Cont_Attach p) (ret (Some p)))"

definition ContRef_move_ctor :: "cont_ref \<Rightarrow> cont_ref \<times> cont_ref" where
  "ContRef_move_ctor other = (other, None)"

definition ContRef_dtor :: "('v, 'k, 'x) env \<Rightarrow> cont_ref \<Rightarrow> (('v, 'k, 'x) world, unit) action" where
  "ContRef_dtor env r = (case r of None \<Rightarrow> ret () | Some p \<Rightarrow> Cont_Detach env p)"

definition ContRef_GetFutureState :: "cont_ref \<Rightarrow> nat option" where
  "ContRef_GetFutureState r = r"

text \<open>The guards of \<open>ScheduleContinuation\<close> are such objects: made, and destroyed at the end of the scope.\<close>

lemma with_guard_is_scope:
  "with_guard env p m = bind (ContRef_ctor (Some p)) (\<lambda>r. finally_do m (ContRef_dtor env r))"
  by (rule ext) (simp add: with_guard_def ContRef_ctor_def ContRef_dtor_def outcome_simps split: prod.split outcome.split)

lemma run_posted_owns:
  "run_posted env p = finally_do
     (case ContRef_GetFutureState (Some p) of None \<Rightarrow> undef | Some fs \<Rightarrow> invoke env fs) (ContRef_dtor env (Some p))"
  by (simp add: run_posted_def ContRef_GetFutureState_def ContRef_dtor_def)

text \<open>A moved-from reference is null, so its destructor does nothing.\<close>

lemma moved_reference:
  "ContRef_dtor env (snd (ContRef_move_ctor r)) w = (Return (), w)"
  by (simp add: ContRef_move_ctor_def ContRef_dtor_def run_method)

lemma run_Cont_Detach_not_last:
  assumes live: "live w p t" and r: "2 \<le> unat (fs_continuation_ref t)" and a: "2 \<le> unat (fs_attached t)"
  shows "Cont_Detach env p w =
    (Return (), (put p (t\<lparr>fs_continuation_ref := fs_continuation_ref t - 1, fs_attached := fs_attached t - 1\<rparr>) w)
      \<lparr>conts := conts w - {#p#}\<rparr>)"
proof -
  let ?t1 = "t\<lparr>fs_continuation_ref := fs_continuation_ref t - 1\<rparr>"
  have more: "1 \<le> x \<and> x \<noteq> 1" if "2 \<le> unat x" for x :: "8 word"
    using that by (auto simp: word_le_nat_alt)
  have l1: "live ((put p ?t1 w)\<lparr>conts := conts w - {#p#}\<rparr>) p ?t1" using live by simp
  have "DerefContinuation env p w = (Return (), put p ?t1 w)"
    using more [OF r] by (simp add: DerefContinuation_def run_fetch [OF live] outcome_simps)
  moreover have "DetachOne p ((put p ?t1 w)\<lparr>conts := conts w - {#p#}\<rparr>) =
      (Return (), (put p (t\<lparr>fs_continuation_ref := fs_continuation_ref t - 1, fs_attached := fs_attached t - 1\<rparr>) w)
        \<lparr>conts := conts w - {#p#}\<rparr>)"
    using more [OF a] by (simp add: DetachOne_def run_fetch [OF l1] outcome_simps put_frame)
  ultimately show ?thesis by (simp add: Cont_Detach_def outcome_simps)
qed

text \<open>
  An executor may copy the closure that it was given, and destroys its copies: while another reference is
  alive, a copy that is made and destroyed leaves everything as it was.
\<close>

lemma copy_and_destroy:
  assumes live: "live w p t" and r: "1 \<le> unat (fs_continuation_ref t)" "unat (fs_continuation_ref t) < 255"
    and a: "1 \<le> unat (fs_attached t)" "unat (fs_attached t) < 255"
  shows "bind (ContRef_copy_ctor (Some p)) (ContRef_dtor env) w = (Return (), w)"
proof -
  have plus: "unat (x + 1) = unat x + 1" if "unat x < 255" for x :: "8 word"
    using that by (simp add: unsigned_of_nat unat_word_ariths take_bit_nat_eq_self)
  have "live ((put p (guarded t) w)\<lparr>conts := add_mset p (conts w)\<rparr>) p (guarded t)" using live by simp
  from run_Cont_Detach_not_last [OF this, of env] r a plus [OF r(2)] plus [OF a(2)] run_Cont_Attach [OF live]
  show ?thesis
    by (simp add: ContRef_copy_ctor_def ContRef_dtor_def outcome_simps guarded_def put_frame put_same [OF live])
qed

end
