(* ===== verification/Await_Dispatch.thy ===== *)
theory Await_Dispatch
  imports Lazy_Model
begin

text \<open>
  How \<open>co_await x\<close> in a \<open>Lazy\<close> finds its awaiter: the concepts and \<open>GetAwaiter\<close> of \<^verbatim>\<open>coro/coro_concept.hpp\<close>, the
  two \<open>CoAwait\<close> of \<^verbatim>\<open>coro/via_coroutine.hpp\<close>, the overloads of \<open>await_transform\<close> in \<^verbatim>\<open>coro/lazy.hpp\<close>, and the
  awaitables of \<^verbatim>\<open>executor/executor.hpp\<close>. The choice is made by the compiler from what a class declares and
  from what is declared before the concepts; a choice that does not compile is \<open>None\<close>. The last
  section shows that \<open>begin_await\<close> of the coroutine machine follows the choice.
\<close>

section \<open>What is declared\<close>

text \<open>
  A class of awaitables: does it have a method \<open>CoAwait(Executor *)\<close>, a member \<open>operator co_await\<close>, a free
  \<open>operator co_await\<close> in a namespace of its own, and is it a \<open>Future\<close>. The free operator for futures is in
  the namespace of the coroutines, where lookup by argument does not search.
\<close>

record awaitable_class =
  CoAwait_method :: bool
  member_co_await :: bool
  adl_co_await :: bool
  is_future :: bool

definition no_members :: awaitable_class where
  "no_members = \<lparr>CoAwait_method = False, member_co_await = False, adl_co_await = False, is_future = False\<rparr>"

text \<open>The headers that matter, in the order in which a translation unit gets to see them.\<close>

datatype header = CoroConceptHpp | ViaCoroutineHpp | LazyHpp | CollectHpp | FutureAwaiterHpp

fun includes_of :: "header \<Rightarrow> header list" where
  "includes_of LazyHpp = [ViaCoroutineHpp]"
| "includes_of ViaCoroutineHpp = [CoroConceptHpp]"
| "includes_of CollectHpp = [LazyHpp]"
| "includes_of _ = []"

text \<open>Guarded inclusion, depth first; no chain of these headers is longer than four.\<close>

fun include_all :: "nat \<Rightarrow> header list \<Rightarrow> header list \<Rightarrow> header list" where
  "include_all 0 seen hs = seen"
| "include_all (Suc n) seen [] = seen"
| "include_all (Suc n) seen (h # hs) =
     include_all (Suc n) (if h \<in> set seen then seen else include_all n seen (includes_of h) @ [h]) hs"

definition unit_order :: "header list \<Rightarrow> header list" where
  "unit_order hs = include_all 5 [] hs"

fun before_in :: "header list \<Rightarrow> header \<Rightarrow> header \<Rightarrow> bool" where
  "before_in [] a b = False"
| "before_in (h # hs) a b = (if h = b then False else if h = a then b \<in> set hs else before_in hs a b)"

section \<open>The concepts\<close>

definition HasCoAwaitMethod :: "awaitable_class \<Rightarrow> bool" where
  "HasCoAwaitMethod c = CoAwait_method c"

definition HasMemberCoAwaitOperator :: "awaitable_class \<Rightarrow> bool" where
  "HasMemberCoAwaitOperator c = member_co_await c"

definition HasGlobalCoAwaitOperator :: "header list \<Rightarrow> awaitable_class \<Rightarrow> bool" where
  "HasGlobalCoAwaitOperator tu c =
     (adl_co_await c \<or> (is_future c \<and> before_in tu FutureAwaiterHpp CoroConceptHpp))"

datatype awaiter_source = MemberOperator | GlobalOperator | ItselfAwaiter

text \<open>The overloads whose constraints hold; none is more specialised than another, so there must be one.\<close>

definition GetAwaiter_viable :: "header list \<Rightarrow> awaitable_class \<Rightarrow> awaiter_source list" where
  "GetAwaiter_viable tu c =
     (if HasMemberCoAwaitOperator c then [MemberOperator] else []) @
     (if HasGlobalCoAwaitOperator tu c then [GlobalOperator] else []) @
     (if \<not> HasMemberCoAwaitOperator c \<and> \<not> HasGlobalCoAwaitOperator tu c then [ItselfAwaiter] else [])"

definition only_one :: "'o list \<Rightarrow> 'o option" where
  "only_one xs = (case xs of [x] \<Rightarrow> Some x | _ \<Rightarrow> None)"

definition GetAwaiter :: "header list \<Rightarrow> awaitable_class \<Rightarrow> awaiter_source option" where
  "GetAwaiter tu c = only_one (GetAwaiter_viable tu c)"

text \<open>\<open>CoAwait\<close>: the method of the class with the executor of the coroutine, or the awaiter inside a \<open>ViaAsyncAwaiter\<close>.\<close>

datatype transformed =
    ByMethod
  | Wrapped awaiter_source
  | ReadyExecutor
  | YieldAwaited

definition CoAwait_of :: "header list \<Rightarrow> awaitable_class \<Rightarrow> transformed option" where
  "CoAwait_of tu c =
     (if \<not> HasCoAwaitMethod c then map_option Wrapped (GetAwaiter tu c) else Some ByMethod)"

datatype operand = OfClass awaitable_class | CurrentExecutorTag | YieldTag

definition await_transform :: "header list \<Rightarrow> operand \<Rightarrow> transformed option" where
  "await_transform tu x =
     (case x of
        OfClass c \<Rightarrow> CoAwait_of tu c
      | CurrentExecutorTag \<Rightarrow> Some ReadyExecutor
      | YieldTag \<Rightarrow> Some YieldAwaited)"

lemmas dispatch_defs =
  HasCoAwaitMethod_def HasMemberCoAwaitOperator_def HasGlobalCoAwaitOperator_def GetAwaiter_viable_def
  only_one_def GetAwaiter_def CoAwait_of_def await_transform_def no_members_def

text \<open>Two operators are ambiguous, and the method \<open>CoAwait\<close> hides them.\<close>

lemma GetAwaiter_fails_iff:
  "GetAwaiter tu c = None \<longleftrightarrow> HasMemberCoAwaitOperator c \<and> HasGlobalCoAwaitOperator tu c"
  by (simp add: GetAwaiter_def GetAwaiter_viable_def only_one_def)

lemma transform_fails_iff:
  "await_transform tu x = None \<longleftrightarrow>
     (\<exists>c. x = OfClass c \<and> \<not> HasCoAwaitMethod c \<and> HasMemberCoAwaitOperator c \<and> HasGlobalCoAwaitOperator tu c)"
  by (cases x) (simp_all add: await_transform_def CoAwait_of_def GetAwaiter_fails_iff)

section \<open>The classes of the library\<close>

definition LazyClass :: awaitable_class where
  "LazyClass = no_members\<lparr>CoAwait_method := True, member_co_await := True\<rparr>"

definition RescheduleLazyClass :: awaitable_class where
  "RescheduleLazyClass = no_members\<lparr>member_co_await := True\<rparr>"

definition ExecutorAwaitableClass :: awaitable_class where
  "ExecutorAwaitableClass = no_members\<lparr>CoAwait_method := True\<rparr>"

definition FutureClass :: awaitable_class where
  "FutureClass = no_members\<lparr>is_future := True\<rparr>"

definition AwaiterClass :: awaitable_class where
  "AwaiterClass = no_members"

lemmas library_classes =
  LazyClass_def RescheduleLazyClass_def ExecutorAwaitableClass_def FutureClass_def AwaiterClass_def

lemma library_dispatch:
  "await_transform tu (OfClass LazyClass) = Some ByMethod"
  "await_transform tu (OfClass RescheduleLazyClass) = Some (Wrapped MemberOperator)"
  "await_transform tu (OfClass ExecutorAwaitableClass) = Some ByMethod"
  "await_transform tu (OfClass AwaiterClass) = Some (Wrapped ItselfAwaiter)"
  by (simp_all add: dispatch_defs library_classes)

text \<open>
  A future is awaited through its operator only where that operator was declared before the concepts: the
  order of the includes decides. Otherwise the future is taken for an awaiter, which it is not.
\<close>

lemma future_dispatch:
  "await_transform tu (OfClass FutureClass) =
     Some (Wrapped (if before_in tu FutureAwaiterHpp CoroConceptHpp then GlobalOperator else ItselfAwaiter))"
  by (simp add: dispatch_defs library_classes)

lemma include_all_keeps: "\<exists>more. include_all n seen hs = seen @ more"
proof (induction n seen hs rule: include_all.induct)
  case (3 n seen h hs)
  show ?case
  proof (cases "h \<in> set seen")
    case True
    with 3(2) show ?thesis by simp
  next
    case False
    from 3(1) [OF False] obtain more where m: "include_all n seen (includes_of h) = seen @ more" by blast
    from 3(2) False m obtain rest where "include_all (Suc n) (seen @ more @ [h]) hs = (seen @ more @ [h]) @ rest" by auto
    with False m show ?thesis by auto
  qed
qed simp_all

lemma before_in_append: "b \<in> set xs \<Longrightarrow> before_in (xs @ ys) a b = before_in xs a b"
  by (induction xs) auto

lemma future_after_lazy:
  "await_transform (unit_order (LazyHpp # hs)) (OfClass FutureClass) = Some (Wrapped ItselfAwaiter)"
  "await_transform (unit_order (CollectHpp # hs)) (OfClass FutureClass) = Some (Wrapped ItselfAwaiter)"
proof -
  have start: "before_in (include_all 5 (start @ [h]) hs) FutureAwaiterHpp CoroConceptHpp = False"
    if "CoroConceptHpp \<in> set start" "\<not> before_in (start @ [h]) FutureAwaiterHpp CoroConceptHpp" for start h
  proof -
    from include_all_keeps [of 5 "start @ [h]" hs]
    obtain more where "include_all 5 (start @ [h]) hs = (start @ [h]) @ more" by blast
    with that show ?thesis by (metis before_in_append in_set_conv_decomp UnI1 set_append)
  qed
  show "await_transform (unit_order (LazyHpp # hs)) (OfClass FutureClass) = Some (Wrapped ItselfAwaiter)"
    using start [of "[CoroConceptHpp, ViaCoroutineHpp]" LazyHpp]
    by (simp add: future_dispatch unit_order_def numeral_eq_Suc)
  show "await_transform (unit_order (CollectHpp # hs)) (OfClass FutureClass) = Some (Wrapped ItselfAwaiter)"
    using start [of "[CoroConceptHpp, ViaCoroutineHpp, LazyHpp]" CollectHpp]
    by (simp add: future_dispatch unit_order_def numeral_eq_Suc)
qed

lemma future_before_lazy:
  "await_transform (unit_order (FutureAwaiterHpp # LazyHpp # hs)) (OfClass FutureClass) = Some (Wrapped GlobalOperator)"
proof -
  have "before_in (include_all 5 [FutureAwaiterHpp, CoroConceptHpp, ViaCoroutineHpp, LazyHpp] hs)
      FutureAwaiterHpp CoroConceptHpp"
    using include_all_keeps [of 5 "[FutureAwaiterHpp, CoroConceptHpp, ViaCoroutineHpp, LazyHpp]" hs] by auto
  then show ?thesis by (simp add: future_dispatch unit_order_def numeral_eq_Suc)
qed


section \<open>The awaitables of an executor\<close>

text \<open>
  \<open>executor.Schedule()\<close> and \<open>executor.ScheduleAfter(d)\<close> give objects that remember the executor they were
  asked of; their \<open>CoAwait\<close> ignores the executor of the awaiting coroutine.
\<close>

record exec_awaitable =
  ab_executor :: nat

record exec_awaiter =
  aw_executor :: nat

record 'd time_awaitable =
  tab_executor :: nat
  tab_duration :: 'd

record 'd time_awaiter =
  taw_executor :: nat
  taw_duration :: 'd

definition Awaitable_ctor :: "nat \<Rightarrow> exec_awaitable" where
  "Awaitable_ctor ex = \<lparr>ab_executor = ex\<rparr>"

definition Awaiter_ctor :: "nat \<Rightarrow> exec_awaiter" where
  "Awaiter_ctor ex = \<lparr>aw_executor = ex\<rparr>"

definition Awaitable_CoAwait :: "exec_awaitable \<Rightarrow> nat option \<Rightarrow> exec_awaiter" where
  "Awaitable_CoAwait a ex = Awaiter_ctor (ab_executor a)"

definition Executor_Schedule_awaitable :: "nat \<Rightarrow> exec_awaitable" where
  "Executor_Schedule_awaitable this = Awaitable_ctor this"

definition TimeAwaitable_ctor :: "nat \<Rightarrow> 'd \<Rightarrow> 'd time_awaitable" where
  "TimeAwaitable_ctor ex duration = \<lparr>tab_executor = ex, tab_duration = duration\<rparr>"

definition TimeAwaiter_ctor :: "nat \<Rightarrow> 'd \<Rightarrow> 'd time_awaiter" where
  "TimeAwaiter_ctor ex duration = \<lparr>taw_executor = ex, taw_duration = duration\<rparr>"

definition TimeAwaitable_CoAwait :: "'d time_awaitable \<Rightarrow> nat option \<Rightarrow> 'd time_awaiter" where
  "TimeAwaitable_CoAwait a ex = TimeAwaiter_ctor (tab_executor a) (tab_duration a)"

definition Executor_ScheduleAfter :: "nat \<Rightarrow> 'd \<Rightarrow> 'd time_awaitable" where
  "Executor_ScheduleAfter this duration = TimeAwaitable_ctor this duration"

lemmas awaitable_defs =
  Awaitable_ctor_def Awaiter_ctor_def Awaitable_CoAwait_def Executor_Schedule_awaitable_def
  TimeAwaitable_ctor_def TimeAwaiter_ctor_def TimeAwaitable_CoAwait_def Executor_ScheduleAfter_def

text \<open>Awaiting with these objects is what the machine does for its own two awaitables.\<close>

lemma awaits_asked_executor:
  "begin_await env (ASchedule e) k h =
     bind (executor_of h) (\<lambda>ex.
       (let aw = Awaitable_CoAwait (Executor_Schedule_awaitable e) ex in
        bind (Executor_await_ready (aw_executor aw)) (\<lambda>ready.
          if ready then ret (Inl (Inr VUnit))
          else seq (suspend h AwUnit k) (seq (Executor_await_suspend env (aw_executor aw) h) (ret (Inr None))))))"
  "begin_await env (AScheduleAfter e) k h =
     bind (executor_of h) (\<lambda>ex.
       (let aw = TimeAwaitable_CoAwait (Executor_ScheduleAfter e d) ex in
        seq (suspend h AwUnit k) (seq (TimeAwaiter_await_suspend (taw_executor aw) h) (ret (Inr None)))))"
  by (simp_all add: begin_await_def awaitable_defs Let_def cong: if_cong)

section \<open>The machine follows the choice\<close>

fun class_of :: "'a awaitable \<Rightarrow> operand" where
  "class_of (ALazy b) = OfClass LazyClass"
| "class_of (AReschedule e b) = OfClass RescheduleLazyClass"
| "class_of ACurrentExecutor = CurrentExecutorTag"
| "class_of AYield = YieldTag"
| "class_of (ASchedule e) = OfClass ExecutorAwaitableClass"
| "class_of (AScheduleAfter e) = OfClass ExecutorAwaitableClass"
| "class_of (AExtern via arr r) = OfClass (if via then AwaiterClass else ExecutorAwaitableClass)"

fun is_wrapped :: "transformed option \<Rightarrow> bool" where
  "is_wrapped (Some (Wrapped src)) = True"
| "is_wrapped _ = False"

fun via_awaiter :: "'a awaiter \<Rightarrow> bool" where
  "via_awaiter (AwVia v aw) = True"
| "via_awaiter _ = False"

definition waits_with :: "nat \<Rightarrow> 'a awaiter \<Rightarrow> 'a cmachine \<Rightarrow> bool" where
  "waits_with h aw s \<longleftrightarrow> (\<exists>k p. h < length (frames s) \<and> frames s ! h = Some (LazyFrame (AtAwait aw k) p))"

lemma frame_at_same: "frame_at c s = (Return f, t) \<Longrightarrow> t = s"
  by (auto simp: frame_at_def split: if_splits option.splits)

lemma suspend_waits:
  assumes "suspend h aw k s = (Return x, t)"
  shows "waits_with h aw t"
proof -
  from assms [unfolded suspend_def set_point_def] obtain f u where f: "frame_at h s = (Return f, u)"
    and rest: "(case f of LazyFrame _ p \<Rightarrow> set_frame h (Some (LazyFrame (AtAwait aw k) p)) | _ \<Rightarrow> undef) u = (Return x, t)"
    by (rule bind_Return)
  from frame_at_same [OF f] f have "u = s" "h < length (frames s)" by (auto simp: frame_at_def split: if_splits)
  with rest show ?thesis by (cases f) (auto simp: set_frame_def run_method waits_with_def)
qed

text \<open>What runs after the suspension leaves the awaiter where it is.\<close>

definition rests :: "nat \<Rightarrow> 'a awaiter \<Rightarrow> ('a cmachine, 'b) action \<Rightarrow> bool" where
  "rests h aw m \<longleftrightarrow> (\<forall>s x t. waits_with h aw s \<longrightarrow> m s = (Return x, t) \<longrightarrow> waits_with h aw t)"

named_theorems rest

lemma rests_bind [rest]: "rests h aw m \<Longrightarrow> (\<And>x. rests h aw (f x)) \<Longrightarrow> rests h aw (bind m f)"
  unfolding rests_def by (intro allI impI, erule bind_Return) blast

lemma rests_seq [rest]: "rests h aw m \<Longrightarrow> rests h aw n \<Longrightarrow> rests h aw (seq m n)"
  unfolding seq_def by (rule rests_bind)

lemma rests_basic [rest]:
  "rests h aw (ret x)" "rests h aw undef" "rests h aw (gets g)" "rests h aw (schedule env e c)"
  "rests h aw (schedule_after e c)" "rests h aw (extern_await_suspend th c)" "rests h aw (checkout e)"
  by (auto simp: rests_def run_method schedule_def schedule_after_def extern_await_suspend_def checkout_def
      waits_with_def)

lemma waits_update:
  assumes "waits_with h aw s" and "frame_at c s = (Return f, s)"
    and "c = h \<Longrightarrow> \<exists>k p q. f = LazyFrame (AtAwait aw k) p \<and> g = LazyFrame (AtAwait aw k) q"
  shows "waits_with h aw (s\<lparr>frames := (frames s)[c := Some g]\<rparr>)"
  using assms by (cases "c = h") (auto simp: waits_with_def)

lemma waits_frame:
  assumes "waits_with h aw s" and "frame_at h s = (Return f, t)"
  shows "\<exists>k p. f = LazyFrame (AtAwait aw k) p"
  using assms by (auto simp: waits_with_def frame_at_def)

lemma rests_promise [rest]: "rests h aw (promise_of c m)"
  unfolding rests_def
proof (intro allI impI)
  fix s x t assume w: "waits_with h aw s" and run: "promise_of c m s = (Return x, t)"
  from run [unfolded promise_of_def] obtain f u where f: "frame_at c s = (Return f, u)"
    and rest: "(case f of LazyFrame pt p \<Rightarrow> (case m p of (r, p') \<Rightarrow> seq (set_frame c (Some (LazyFrame pt p'))) (\<lambda>s. (r, s)))
       | _ \<Rightarrow> undef) u = (Return x, t)" by (rule bind_Return)
  from frame_at_same [OF f] have u: "u = s" .
  from rest obtain pt p where lazy: "f = LazyFrame pt p" by (cases f) (simp_all add: run_method)
  obtain r q where q: "m p = (r, q)" by fastforce
  from rest u lazy q have t: "t = s\<lparr>frames := (frames s)[c := Some (LazyFrame pt q)]\<rparr>"
    by (simp add: set_frame_def outcome_simps)
  show "waits_with h aw t" unfolding t
  proof (rule waits_update [OF w])
    show "frame_at c s = (Return f, s)" using f u by simp
    show "\<exists>k p' q'. f = LazyFrame (AtAwait aw k) p' \<and> LazyFrame pt q = LazyFrame (AtAwait aw k) q'" if "c = h"
      using waits_frame [OF w] f lazy that by auto
  qed
qed

lemma rests_option [rest]: "rests h aw m \<Longrightarrow> (\<And>x. rests h aw (f x)) \<Longrightarrow> rests h aw (case_option m f y)"
  by (cases y) simp_all

lemma rests_wrapped [rest]: "rests h aw (Via_GetWrappedContinuation v c)"
  unfolding rests_def
proof (intro allI impI)
  fix s x t assume w: "waits_with h aw s" and run: "Via_GetWrappedContinuation v c s = (Return x, t)"
  from run [unfolded Via_GetWrappedContinuation_def] obtain p u where p: "via_promise_of v s = (Return p, u)"
    and rest: "bind (case via_executor p of None \<Rightarrow> ret (via_context p) | Some e \<Rightarrow> checkout e) (\<lambda>ctx.
       seq (set_frame v (Some (ViaFrame False (p\<lparr>via_context := ctx, via_continuation := Some c\<rparr>))))
         (ret v)) u = (Return x, t)" by (rule bind_Return)
  from p [unfolded via_promise_of_def] obtain f u' where f: "frame_at v s = (Return f, u')"
    and via: "(case f of ViaFrame _ p \<Rightarrow> ret p | _ \<Rightarrow> undef) u' = (Return p, u)" by (rule bind_Return)
  from via obtain b where b: "f = ViaFrame b p" "u = u'" by (cases f) (simp_all add: run_method)
  with frame_at_same [OF f] have u: "u = s" "u' = s" by simp_all
  from rest u obtain g where t: "t = s\<lparr>frames := (frames s)[v := Some g]\<rparr>"
    by (cases "via_executor p") (auto simp: set_frame_def checkout_def outcome_simps)
  show "waits_with h aw t" unfolding t
  proof (rule waits_update [OF w])
    show "frame_at v s = (Return f, s)" using f u by simp
    show "\<exists>k p' q. f = LazyFrame (AtAwait aw k) p' \<and> g = LazyFrame (AtAwait aw k) q" if "v = h"
      using waits_frame [OF w] f b that by auto
  qed
qed

lemma rests_await [rest]:
  "rests h aw (Lazy_await_suspend c w)" "rests h aw (Reschedule_await_suspend env c w)"
  "rests h aw (Yield_await_suspend env ex w)" "rests h aw (Executor_await_suspend env e w)"
  "rests h aw (TimeAwaiter_await_suspend e w)"
  unfolding Lazy_await_suspend_def Reschedule_await_suspend_def executor_of_def Yield_await_suspend_def
    Executor_await_suspend_def TimeAwaiter_await_suspend_def
  by (intro rest)+

lemmas before_suspending =
  seq_def [of "destroy v" for v] seq_def [of "Via_Checkin env v" for env v] seq_def [of "Lazy_CoAwait ex c" for ex c]
  seq_def [of "promise_of c m" for c m]

lemma seq_suspend_rests:
  "seq (suspend h aw k) m s = (Return x, t) \<Longrightarrow> rests h aw m \<Longrightarrow> waits_with h aw t"
  unfolding seq_def rests_def by (blast elim: bind_Return dest: suspend_waits)

text \<open>
  A coroutine that is suspended by a \<open>co_await\<close> holds an awaiter inside a \<open>ViaAsyncAwaiter\<close> exactly when
  \<open>await_transform\<close> chose to wrap it, whatever the translation unit.
\<close>

lemma suspended_as_transformed:
  assumes "begin_await env a k h s = (Return (Inr t), s')"
  shows "\<exists>aw. waits_with h aw s' \<and> (via_awaiter aw \<longleftrightarrow> is_wrapped (await_transform tu (class_of a)))"
proof -
  let ?idle = "ret (Inr None) :: ('a cmachine, (exn + 'a val) + nat option) action"
  let ?goon = "\<lambda>t. ret (Inr t) :: ('a cmachine, (exn + 'a val) + nat option) action"
  let ?wrapped = "is_wrapped (await_transform tu (class_of a))"
  have via: "\<exists>aw. waits_with h aw s' \<and> (via_awaiter aw \<longleftrightarrow> ?wrapped)"
    if "via_awaiter aw \<longleftrightarrow> ?wrapped" "rests h aw m" "seq (suspend h aw k) m u = (Return x, s')"
    for aw u x and m :: "('a cmachine, (exn + 'a val) + nat option) action"
    using seq_suspend_rests [OF that(3,2)] that(1) by blast
  show ?thesis
  proof (cases a)
    case (AExtern wrap arr r)
    show ?thesis
    proof (cases wrap)
      case True
      note start = assms [unfolded AExtern begin_await_def]
      have "\<exists>th. arr = Arrives th"
        using start True by (cases arr) (auto simp: ViaAsync_await_def before_suspending run_method elim!: bind_Return)
      then obtain th where th: "arr = Arrives th" by blast
      with start True obtain ex v u where "ViaAsync_await env (Arrives th) r k v h u = (Return (Inr t), s')"
        by (auto elim!: bind_Return)
      then have run: "seq (suspend h (AwVia v (AwExtern r)) k)
          (bind (Via_GetWrappedContinuation v h) (\<lambda>w. seq (extern_await_suspend th w) ?idle)) u = (Return (Inr t), s')"
        by (simp add: ViaAsync_await_def)
      show ?thesis
        by (rule via [OF _ _ run]) (use AExtern True in \<open>simp add: library_dispatch\<close>, intro rest)
    next
      case False
      with assms AExtern obtain th u where
        run: "seq (suspend h (AwExtern r) k) (seq (extern_await_suspend th h) ?idle) u = (Return (Inr t), s')"
        by (cases arr) (auto simp: begin_await_def run_method elim!: bind_Return)
      show ?thesis
        by (rule via [OF _ _ run]) (use AExtern False in \<open>simp add: library_dispatch\<close>, intro rest)
    qed
  next
    case (ALazy b)
    with assms obtain c u where
      run: "seq (suspend h (AwLazy c) k) (bind (Lazy_await_suspend c h) ?goon) u = (Return (Inr t), s')"
      by (auto simp: begin_await_def before_suspending elim!: bind_Return)
    show ?thesis by (rule via [OF _ _ run]) (use ALazy in \<open>simp add: library_dispatch\<close>, intro rest)
  next
    case (AReschedule e b)
    with assms obtain c v u where
      run: "seq (suspend h (AwVia v (AwReschedule c)) k) (bind (Via_GetWrappedContinuation v h) (\<lambda>w.
         bind (Reschedule_await_suspend env c w) ?goon)) u = (Return (Inr t), s')"
      by (auto simp: begin_await_def before_suspending elim!: bind_Return)
    show ?thesis by (rule via [OF _ _ run]) (use AReschedule in \<open>simp add: library_dispatch\<close>, intro rest)
  next
    case (ASchedule e)
    with assms obtain u where
      run: "seq (suspend h AwUnit k) (seq (Executor_await_suspend env e h) ?idle) u = (Return (Inr t), s')"
      by (auto simp: begin_await_def run_method elim!: bind_Return split: if_splits)
    show ?thesis by (rule via [OF _ _ run]) (use ASchedule in \<open>simp add: library_dispatch\<close>, intro rest)
  next
    case ACurrentExecutor
    with assms show ?thesis
      by (auto simp: begin_await_def run_method ReadyAwaiter_await_resume_def elim!: bind_Return)
  next
    case AYield
    with assms obtain ex u where
      run: "seq (suspend h AwUnit k) (seq (Yield_await_suspend env ex h) ?idle) u = (Return (Inr t), s')"
      by (auto simp: begin_await_def elim!: bind_Return)
    show ?thesis by (rule via [OF _ _ run]) (use AYield in \<open>simp add: await_transform_def\<close>, intro rest)
  next
    case (AScheduleAfter e)
    with assms obtain u where
      run: "seq (suspend h AwUnit k) (seq (TimeAwaiter_await_suspend e h) ?idle) u = (Return (Inr t), s')"
      by (auto simp: begin_await_def elim!: bind_Return)
    show ?thesis by (rule via [OF _ _ run]) (use AScheduleAfter in \<open>simp add: library_dispatch\<close>, intro rest)
  qed
qed

end
