(* ===== verification/Type_Traits.thy ===== *)
theory Type_Traits
  imports Future_Then
begin

text \<open>
  The types that the compiler computes: \<^verbatim>\<open>sync/future_trait.hpp\<close>, the return types of \<open>ThenTry\<close> and \<open>ThenValue\<close> and
  the choice between the two \<open>ThenImpl\<close> in \<^verbatim>\<open>sync/future.hpp\<close>, and \<^verbatim>\<open>base/unit.hpp\<close>. Types are terms without references
  and qualifiers. What calling an object of type \<open>F\<close> with an argument gives is a function on types,
  undefined where the call does not compile.
\<close>

section \<open>Unit\<close>

definition Unit_eq :: "unit \<Rightarrow> unit \<Rightarrow> bool" where
  "Unit_eq x y = True"

definition Unit_neq :: "unit \<Rightarrow> unit \<Rightarrow> bool" where
  "Unit_neq x y = False"

lemma unit_operators: "Unit_eq x y \<longleftrightarrow> x = y" "Unit_neq x y \<longleftrightarrow> x \<noteq> y"
  by (simp_all add: Unit_eq_def Unit_neq_def)

section \<open>Types\<close>

datatype cxx_type =
    VoidT
  | UnitT
  | NamedT string
  | TryT cxx_type
  | FutureT cxx_type

type_synonym callable = "cxx_type \<Rightarrow> cxx_type option"

text \<open>The trait with its two specialisations.\<close>

fun IsFuture_value :: "cxx_type \<Rightarrow> bool" where
  "IsFuture_value (FutureT t) = True"
| "IsFuture_value VoidT = False"
| "IsFuture_value t = False"

fun IsFuture_Inner :: "cxx_type \<Rightarrow> cxx_type" where
  "IsFuture_Inner (FutureT t) = t"
| "IsFuture_Inner VoidT = UnitT"
| "IsFuture_Inner t = t"

record callable_result =
  cr_Result :: cxx_type
  cr_is_try :: bool

definition ReturnsFuture_value :: "callable_result \<Rightarrow> bool" where
  "ReturnsFuture_value r = IsFuture_value (cr_Result r)"

definition ReturnsFuture_Inner :: "callable_result \<Rightarrow> cxx_type" where
  "ReturnsFuture_Inner r = IsFuture_Inner (cr_Result r)"

definition TryCallableResult :: "cxx_type \<Rightarrow> callable \<Rightarrow> callable_result option" where
  "TryCallableResult t f = map_option (\<lambda>r. \<lparr>cr_Result = r, cr_is_try = True\<rparr>) (f (TryT t))"

definition ValueCallableResult :: "cxx_type \<Rightarrow> callable \<Rightarrow> callable_result option" where
  "ValueCallableResult t f = map_option (\<lambda>r. \<lparr>cr_Result = r, cr_is_try = False\<rparr>) (f t)"

section \<open>Then\<close>

datatype then_impl = ThenImplFuture | ThenImplValue

text \<open>The overloads of \<open>ThenImpl\<close> whose constraint holds for \<open>R\<close>, and the type they give.\<close>

definition ThenImpl_viable :: "callable_result \<Rightarrow> then_impl list" where
  "ThenImpl_viable r =
     (if ReturnsFuture_value r then [ThenImplFuture] else []) @ (if \<not> ReturnsFuture_value r then [ThenImplValue] else [])"

record then_instance =
  ti_overload :: "then_impl list"
  ti_is_try :: bool
  ti_type :: cxx_type

definition ThenImpl_of :: "callable_result \<Rightarrow> then_instance" where
  "ThenImpl_of r =
     \<lparr>ti_overload = ThenImpl_viable r, ti_is_try = cr_is_try r, ti_type = FutureT (ReturnsFuture_Inner r)\<rparr>"

text \<open>The lambda of \<open>ThenValue\<close> takes a \<open>Try\<close> of the type and gives what the callback gives for its value.\<close>

definition on_value_type :: "cxx_type \<Rightarrow> callable \<Rightarrow> callable" where
  "on_value_type t f = (\<lambda>a. if a = TryT t then f t else None)"

text \<open>Each gives the declared return type and the instance of \<open>ThenImpl\<close> whose result it returns.\<close>

definition ThenTry_of :: "cxx_type \<Rightarrow> callable \<Rightarrow> (cxx_type \<times> then_instance) option" where
  "ThenTry_of t f =
     map_option (\<lambda>r. (FutureT (ReturnsFuture_Inner r), ThenImpl_of r)) (TryCallableResult t f)"

definition ThenValue_of :: "cxx_type \<Rightarrow> callable \<Rightarrow> (cxx_type \<times> then_instance) option" where
  "ThenValue_of t f =
     (case ValueCallableResult t f of
        None \<Rightarrow> None
      | Some r \<Rightarrow>
          map_option (\<lambda>r'. (FutureT (ReturnsFuture_Inner r), ThenImpl_of r')) (TryCallableResult t (on_value_type t f)))"

lemmas trait_defs =
  ReturnsFuture_value_def ReturnsFuture_Inner_def TryCallableResult_def ValueCallableResult_def
  ThenImpl_viable_def ThenImpl_of_def on_value_type_def ThenTry_of_def ThenValue_of_def

text \<open>Exactly one overload applies, and what it gives has the declared type.\<close>

lemma then_well_typed:
  "ThenTry_of t f = Some (d, i) \<Longrightarrow> ti_type i = d \<and> (\<exists>o1. ti_overload i = [o1])"
  "ThenValue_of t f = Some (d, i) \<Longrightarrow> ti_type i = d \<and> (\<exists>o1. ti_overload i = [o1])"
  by (auto simp: trait_defs split: option.splits if_splits)

text \<open>
  \<open>ThenValue\<close> too instantiates \<open>ThenImpl\<close> with a callback that takes a \<open>Try\<close>: the branches for a callback
  that does not, which keep an exception away from it, are never compiled in.
\<close>

lemma always_is_try:
  "ThenTry_of t f = Some (d, i) \<Longrightarrow> ti_is_try i"
  "ThenValue_of t f = Some (d, i) \<Longrightarrow> ti_is_try i"
  by (auto simp: trait_defs split: option.splits)

text \<open>A callback that gives a future adds no level, one that gives nothing makes a future of \<open>Unit\<close>, one that gives a future of a future keeps a level.\<close>

lemma then_types:
  "f t = Some (FutureT u) \<Longrightarrow> map_option fst (ThenValue_of t f) = Some (FutureT u)"
  "f t = Some VoidT \<Longrightarrow> map_option fst (ThenValue_of t f) = Some (FutureT UnitT)"
  "f t = Some u \<Longrightarrow> \<not> IsFuture_value u \<Longrightarrow> u \<noteq> VoidT \<Longrightarrow> map_option fst (ThenValue_of t f) = Some (FutureT u)"
  by (cases u; simp add: trait_defs)+

text \<open>The model of \<open>Then\<close> takes the overloads apart in the same way: its three entry points use \<open>is_try\<close> true.\<close>

definition then_by_overload ::
  "('v, 'x) tenv \<Rightarrow> then_instance \<Rightarrow> nat \<Rightarrow> ('v try_val \<Rightarrow> 'v outcome) \<Rightarrow> ('v try_val \<Rightarrow> nat outcome) \<Rightarrow> (('v, 'x) tworld, nat) action" where
  "then_by_overload env i l f g =
     (case ti_overload i of
        [ThenImplFuture] \<Rightarrow> ThenImpl_future env (ti_is_try i) l g
      | [ThenImplValue] \<Rightarrow> ThenImpl env (ti_is_try i) l f
      | _ \<Rightarrow> undef)"

lemma then_by_overload:
  "ThenTry_of t F = Some (d, i) \<Longrightarrow> F (TryT t) = Some u \<Longrightarrow>
     then_by_overload env i l f g = (if IsFuture_value u then ThenImpl_future env True l g else Future_ThenTry env l f)"
  "ThenValue_of t F = Some (d, i) \<Longrightarrow> F t = Some u \<Longrightarrow>
     then_by_overload env i l (on_value h) g = (if IsFuture_value u then ThenImpl_future env True l g else Future_ThenValue env l h)"
  by (auto simp: trait_defs then_by_overload_def Future_ThenTry_def Future_ThenValue_def)

end
