(* ===== verification/Result_Log.thy ===== *)
theory Result_Log
  imports Lazy_Parallel
begin

text \<open>
  The results that callbacks store are a log: every operation of the coroutine machine leaves it alone, but for
  the callback that adds one entry at its end. So a call of \<^verbatim>\<open>Lazy_Parallel.thy\<close> has no result or its own.
\<close>

section \<open>Operations\<close>

definition logs :: "bool \<Rightarrow> ('a cmachine, 'x) action \<Rightarrow> bool" where
  "logs silent m \<longleftrightarrow>
     (\<forall>s. running (snd (m s)) = running s \<and> (\<exists>new. cb_results (snd (m s)) = cb_results s @ new \<and> (silent \<longrightarrow> new = [])))"

named_theorems log \<open>operations that only add to the results\<close>

lemma logs_basic [log]:
  "logs q (ret x)" "logs q (throw e)" "logs q undef" "logs q abort" "logs q (gets g)"
  by (simp_all add: logs_def run_method)

lemma logs_same: "(\<And>s. running (snd (m s)) = running s \<and> cb_results (snd (m s)) = cb_results s) \<Longrightarrow> logs q m"
  by (simp add: logs_def)

lemma logs_bind [log]:
  assumes m: "logs q m" and k: "\<And>x. logs q (k x)"
  shows "logs q (bind m k)"
  unfolding logs_def
proof
  fix s
  obtain r t where run: "m s = (r, t)" by (cases "m s")
  from m obtain new where new: "running t = running s" "cb_results t = cb_results s @ new" "q \<longrightarrow> new = []" unfolding logs_def by (metis run snd_conv)
  show "running (snd (bind m k s)) = running s \<and> (\<exists>new. cb_results (snd (bind m k s)) = cb_results s @ new \<and> (q \<longrightarrow> new = []))"
  proof (cases r)
    case (Return x)
    from k [of x] obtain more where "running (snd (k x t)) = running t" "cb_results (snd (k x t)) = cb_results t @ more" "q \<longrightarrow> more = []" unfolding logs_def by blast
    with new show ?thesis by (simp add: run_bind run Return)
  qed (simp_all add: run_bind run new)
qed

lemma logs_seq [log]: "logs q m \<Longrightarrow> logs q k \<Longrightarrow> logs q (seq m k)"
  unfolding seq_def by (rule logs_bind)

lemma logs_try_catch [log]:
  assumes m: "logs q m" and h: "\<And>e. logs q (h e)"
  shows "logs q (try_catch m h)"
  unfolding logs_def
proof
  fix s
  obtain r t where run: "m s = (r, t)" by (cases "m s")
  from m obtain new where new: "running t = running s" "cb_results t = cb_results s @ new" "q \<longrightarrow> new = []" unfolding logs_def by (metis run snd_conv)
  show "running (snd (try_catch m h s)) = running s \<and> (\<exists>new. cb_results (snd (try_catch m h s)) = cb_results s @ new \<and> (q \<longrightarrow> new = []))"
  proof (cases r)
    case (Throw x)
    from h [of x] obtain more where "running (snd (h x t)) = running t" "cb_results (snd (h x t)) = cb_results t @ more" "q \<longrightarrow> more = []" unfolding logs_def by blast
    with new show ?thesis by (simp add: run_try_catch run Throw)
  qed (simp_all add: run_try_catch run new)
qed

lemma logs_cases [log]:
  "logs q m1 \<Longrightarrow> (\<And>x. logs q (m2 x)) \<Longrightarrow> logs q (case_option m1 m2 b)"
  "(\<And>pt p. logs q (m3 pt p)) \<Longrightarrow> (\<And>b p. logs q (m4 b p)) \<Longrightarrow> (\<And>c cb. logs q (m5 c cb)) \<Longrightarrow> logs q (case_frame m3 m4 m5 f)"
  "(\<And>b. logs q (m6 b)) \<Longrightarrow> (\<And>aw k. logs q (m7 aw k)) \<Longrightarrow> logs q m8 \<Longrightarrow> logs q (case_point m6 m7 m8 pt)"
  "logs q m1 \<Longrightarrow> logs q m9 \<Longrightarrow> logs q (if t then m1 else m9)"
  "logs q n1 \<Longrightarrow> logs q n2 \<Longrightarrow> (\<And>x. logs q (n3 x)) \<Longrightarrow> logs q (case_arrival n1 n2 n3 arr)"
  "logs q n4 \<Longrightarrow> logs q n5 \<Longrightarrow> logs q (case_bool n4 n5 t)"
  "(\<And>x. logs q (n6 x)) \<Longrightarrow> (\<And>x. logs q (n7 x)) \<Longrightarrow> logs q (case_sum n6 n7 z)"
  by (cases b; simp; fail | cases f; simp; fail | cases pt; simp; fail | cases arr; simp; fail | cases t; simp; fail |
      cases z; simp; fail | simp)+

lemma logs_awaitable_cases [log]:
  assumes "\<And>x. logs q (m1 x)" and "\<And>x y. logs q (m2 x y)" and "logs q m3" and "logs q m4"
    and "\<And>x. logs q (m5 x)" and "\<And>x. logs q (m6 x)" and "\<And>x y z. logs q (m7 x y z)"
  shows "logs q (case_awaitable m1 m2 m3 m4 m5 m6 m7 a)"
  using assms by (cases a) simp_all

lemma logs_frames [log]:
  "logs q (frame_at h)" "logs q (set_frame h f)" "logs q (new_frame g)" "logs q (schedule env e h)" "logs q (schedule_after e h)"
  "logs q (extern_await_suspend th h)" "logs q (in_executor e)" "logs q (checkout e)"
  by (rule logs_same, simp add: frame_at_def set_frame_def new_frame_def schedule_def schedule_after_def
      extern_await_suspend_def in_executor_def checkout_def run_method split: option.splits)+

lemma logs_checkin [log]: "logs q (checkin env e ctx j)"
  by (rule logs_same, cases j) (simp_all add: checkin_def run_bind run_seq run_method Let_def)

lemma logs_promise_of [log]: "logs q (promise_of h m)"
proof -
  have "logs q (case m p of (r, p') \<Rightarrow> seq (set_frame h (Some (LazyFrame pt p'))) (\<lambda>s. (r, s)))" for pt :: "'a point" and p
    by (rule logs_same) (simp add: run_seq run_bind set_frame_def run_method split: prod.splits)
  then show ?thesis unfolding promise_of_def by (intro log)
qed

lemma logs_ops [log]:
  "logs q (set_point h pt)" "logs q (destroy h)" "logs q (new_lazy b)" "logs q (executor_of h)"
  "logs q (Via_Create ex)" "logs q (via_promise_of v)"
  unfolding set_point_def destroy_def new_lazy_def executor_of_def Via_Create_def via_promise_of_def
  by (intro log)+

lemma logs_via [log]:
  "logs q (continuation_of v)" "logs q (Via_GetWrappedContinuation v h)" "logs q (Via_Checkin env v)"
  unfolding continuation_of_def Via_GetWrappedContinuation_def Via_Checkin_def by (intro log)+

lemma logs_await [log]:
  "logs q (Lazy_await_suspend c h)" "logs q (Reschedule_await_suspend env c h)" "logs q (Lazy_CoAwait ex c)"
  "logs q (suspend h aw k)" "logs q (Yield_await_suspend env ex h)" "logs q (AwaitResume c)" "logs q (AwaitResumeTry c)"
  "logs q (final_suspend h)"
  unfolding Lazy_await_suspend_def Reschedule_await_suspend_def Lazy_CoAwait_def suspend_def Yield_await_suspend_def
    AwaitResume_def AwaitResumeTry_def final_suspend_def
  by (intro log)+

lemma logs_via_final [log]: "logs q (Via_final env v p)"
  unfolding Via_final_def by (intro log)

lemma logs_begin_await [log]: "logs q (begin_await env a k h)"
  unfolding begin_await_def ViaAsync_await_def ReadyAwaiter_await_resume_def Executor_await_ready_def
    Executor_await_suspend_def TimeAwaiter_await_suspend_def
  by (intro log)

lemma logs_finish_await [log]: "logs q (finish_await aw)"
  by (induction aw) (simp_all add: log)

lemma logs_exec_body_awaitable:
  fixes b :: "'a body" and a :: "'a awaitable"
  shows "logs q (exec_body b env h)" and True
proof (induction b and a)
  case (CoAwait a k)
  then show ?case by (simp only: exec_body.simps) (intro log CoAwait(2) rangeI)
qed (simp_all only: exec_body.simps, (intro log)+)

lemma logs_callback [log]: "logs False (run_callback cb t)"
  by (cases cb) (auto simp: run_callback_def logs_def run_method split: try_val.splits option.splits)

lemma logs_resume [log]: "logs False (resume env h)"
  unfolding resume_def Detached_finish_def by (intro log logs_exec_body_awaitable(1))

lemma logs_start_job [log]: "logs q (start_job j)"
  unfolding start_job_def by (cases j) (simp_all add: log)

lemma logs_starts [log]:
  "logs q (Lazy_set_executor msg ex z)" "logs q (Lazy_Start cb z)" "logs q (Reschedule_Start env cb z)"
  unfolding Lazy_set_executor_def LOGIC_ASSERT_def Lazy_Start_def Reschedule_Start_def by (intro log)+

lemma logs_SyncAwait: "(\<And>z. logs q (start (StoreResult v) z)) \<Longrightarrow> logs q (SyncAwait_begin v start z)"
  unfolding SyncAwait_begin_def LOGIC_ASSERT_def by (intro log)

lemma logs_sync_call: "logs True (sync_call env l)"
  by (cases l; simp only: sync_call.simps Lazy_sync_at_def Reschedule_sync_at_def Lazy_SetExecutor_def Lazy_Via_def)
    (intro log logs_SyncAwait)+

section \<open>Steps\<close>

lemma snd_after: "snd (after (m s)) = snd (m s)"
  by (simp add: after_def split: prod.splits outcome.splits option.splits)

lemma logs_after:
  "logs q m \<Longrightarrow> running (snd (after (m s))) = running s \<and> (\<exists>new. cb_results (snd (after (m s))) = cb_results s @ new)"
  unfolding logs_def snd_after by blast

lemma step_logs: "cstep env x y \<Longrightarrow> \<exists>new. cb_results (snd y) = cb_results (snd x) @ new"
proof (induction rule: cstep.induct)
  case (run h s)
  then show ?case using logs_after [OF logs_resume, of env h s] by simp
next
  case (take e target j s w)
  have "logs False (bind (start_job j) (\<lambda>h. ret (Some h)))" by (intro log)
  from logs_after [OF this, of "s\<lparr>tasks := tasks s - {#(e, target, j)#}, running := Some (e, w)\<rparr>"] show ?case by simp
next
  case (wake e h s)
  have "logs False (seq (schedule env e h) (ret None))" by (intro log)
  from logs_after [OF this, of "s\<lparr>timers := timers s - {#(e, h)#}, running := None\<rparr>"] show ?case by simp
qed simp

lemma pafter_run: "pafter L R x = PRun L' R' s \<Longrightarrow> L' = L \<and> s = snd x \<and> (R' = R \<or> (\<exists>h. R' = add_mset (running s, h) R))"
  by (auto simp: pafter_def split: prod.splits outcome.splits option.splits)

lemma pafter_logs:
  assumes "logs q m" and "pafter L R (m s) = PRun L' R' s'"
  shows "L' = L" and "\<exists>new. cb_results s' = cb_results s @ new \<and> (q \<longrightarrow> new = [])"
    and "set_mset R' \<subseteq> set_mset R \<union> {running s} \<times> UNIV"
  using assms pafter_run [OF assms(2)] unfolding logs_def by auto

lemma pstep_logs:
  assumes "pstep env p q" and "p = PRun L R s" and "q = PRun L' R' s'"
  shows "\<exists>new. cb_results s' = cb_results s @ new"
  using assms
proof (induction rule: pstep.induct)
  case (p_call l L th R s)
  then show ?case using pafter_logs(2) [OF logs_sync_call] by fastforce
next
  case (p_run th h R L s)
  then show ?case using pafter_logs(2) [OF logs_resume] by fastforce
next
  case (p_take e target j s w R L)
  have "logs False (bind (start_job j) (\<lambda>h. ret (Some h)))" by (intro log)
  from pafter_logs(2) [OF this] p_take show ?case by fastforce
next
  case (p_wake e h s L R)
  have "logs False (seq (schedule env e h) (ret None))" by (intro log)
  from pafter_logs(2) [OF this] p_wake show ?case by fastforce
qed auto

text \<open>A call that must end with its result has no result yet, or this one.\<close>

lemma must_results:
  assumes "must env (finished c) x"
  shows "cb_results (snd x) = [] \<or> cb_results (snd x) = [(call_place (fst c), try_of (snd c))]"
  using assms
proof (induction rule: inevitably.induct)
  case (inevitably_now x)
  then show ?case by (simp add: finished_def)
next
  case (inevitably_next x)
  then obtain y where y: "cstep env x y" by blast
  from step_logs [OF this] inevitably_next.IH [OF y] show ?case by (auto simp: Cons_eq_append_conv)
qed

end
