(* ===== verification/Group_Machine.thy ===== *)
theory Group_Machine
  imports Parallel_Calls Result_Log
begin

text \<open>
  What the machines of \<^verbatim>\<open>Collect_Machine.thy\<close> and \<^verbatim>\<open>Race_Machine.thy\<close> share: the inputs of a collector and how
  they are started, and the coroutine machine of \<^verbatim>\<open>Lazy_Parallel.thy\<close> next to the thread that runs
  \<open>await_suspend\<close> (\<^verbatim>\<open>coro/collect.hpp\<close>).
\<close>

section \<open>Groups of inputs\<close>

text \<open>
  An input with the executor of its promise: for a \<open>Lazy\<close> it may be null, for a \<open>RescheduleLazy\<close> it is the one
  that \<open>Via\<close> gave. A vector holds one kind of them; the model allows both at once. \<open>gr_executor\<close> is the executor of the awaiting
  coroutine as \<open>await_suspend\<close> reads it (for \<open>RescheduleLazy\<close> inputs through the promise of the \<open>ViaCoroutine\<close> around the await,
  whose first member it is as well: that this reads the right member is assumed), \<open>gr_thread\<close> the thread that runs \<open>await_suspend\<close>.
\<close>

datatype 'a group_input = LazyInput "nat option" "'a body" | RescheduleInput nat "'a body"

record 'a group =
  gr_para :: bool
  gr_executor :: "nat option"
  gr_thread :: cthread
  gr_inputs :: "'a group_input list"

text \<open>\<open>input[i].Start\<close>, with the executor inherited; the callback stores in \<open>output[i]\<close>.\<close>

fun start_input :: "nat option \<Rightarrow> nat option \<Rightarrow> nat \<Rightarrow> 'a group_input \<Rightarrow> 'a call" where
  "start_input executor' loc i (LazyInput own b) =
     StartLazy i loc (case own of None \<Rightarrow> executor' | Some e \<Rightarrow> Some e) b"
| "start_input executor' loc i (RescheduleInput e b) = StartReschedule i loc e b"

text \<open>
  While it is in \<open>await_suspend\<close> the thread does nothing else than the inputs it starts there. A thread that
  is not a worker stands for any number of threads.
\<close>

definition loop_busy :: "'a group \<Rightarrow> bool \<Rightarrow> bool" where
  "loop_busy G in_loop \<longleftrightarrow> in_loop \<and> gr_thread G \<noteq> None"

definition keeps_thread :: "bool \<Rightarrow> cthread \<Rightarrow> (cthread \<times> nat) multiset \<Rightarrow> 'a pconfig \<Rightarrow> bool" where
  "keeps_thread is_busy th R q \<longleftrightarrow>
     (case q of
        PRun L' R' s' \<Rightarrow> is_busy \<longrightarrow> th \<in> fst ` set_mset R' \<longrightarrow> th \<in> fst ` set_mset R
      | PStopped y \<Rightarrow> True)"

text \<open>The machine with the calls that are still to come.\<close>

definition with_calls :: "'a call multiset \<Rightarrow> 'a pconfig \<Rightarrow> 'a pconfig" where
  "with_calls L q = (case q of PRun L' R' s' \<Rightarrow> PRun (L + L') R' s' | PStopped y \<Rightarrow> PStopped y)"

lemma with_calls_run [simp]:
  "with_calls L (PRun L' R s) = PRun (L + L') R s" "with_calls L (pafter {#} R x) = pafter L R x"
  by (auto simp: with_calls_def pafter_def split: prod.splits outcome.splits option.splits)

lemma pstep_with_calls:
  assumes "pstep env p q" and "p = PRun {#} R s"
  shows "pstep env (PRun L R s) (with_calls L q)"
  using assms
  by (induction rule: pstep.induct)
    (auto intro: pstep.intros)

lemma no_calls_kept:
  assumes "pstep env p q" and "p = PRun {#} R s" and "q = PRun L' R' s'"
  shows "L' = {#}"
  using assms by (induction rule: pstep.induct) (auto dest: pafter_run)

text \<open>A flow can always go on.\<close>

lemma flow_goes_on:
  assumes "R \<noteq> {#}"
  obtains q where "pstep env (PRun {#} R s) q" and "keeps_thread is_busy th' R q"
proof -
  obtain th k where k: "(th, k) \<in># R" using assms by (metis multiset_nonemptyE surj_pair)
  let ?q = "pafter {#} (R - {#(th, k)#}) (resume env k (s\<lparr>running := th\<rparr>))"
  have "keeps_thread is_busy th' R ?q"
  proof (cases ?q)
    case (PRun L' R' s')
    from pafter_logs(3) [OF logs_resume PRun] have "set_mset R' \<subseteq> set_mset R \<union> {th} \<times> UNIV" by (auto dest: in_diffD)
    then have "fst ` set_mset R' \<subseteq> fst ` set_mset R" using k by force
    with PRun show ?thesis by (auto simp: keeps_thread_def)
  qed (simp add: keeps_thread_def)
  with that [OF p_run [OF k]] show ?thesis .
qed

section \<open>Calls and results of the parts\<close>

text \<open>What a part has in the calls and in the results.\<close>

lemma part_share:
  assumes "part env c V"
  shows "results_in (snd (snd V)) = {#} \<and> fst V \<subseteq># {#fst (fst c)#} \<or>
    fst V = {#} \<and> results_in (snd (snd V)) = {#(call_place (fst (fst c)), try_of (snd (fst c)))#}"
proof -
  obtain l r z where c: "c = ((l, r), z)" by (cases c) auto
  show ?thesis
  proof (cases z)
    case None
    with assms c show ?thesis by auto
  next
    case (Some y)
    then obtain x f where z: "z = Some (x, f)" by (cases y) simp
    with assms c have x: "must env (finished (l, r)) x" "fst V = {#}" "rel_mset (item_rel f) (items_of (snd x)) (snd (snd V))"
      by simp_all
    from must_results [OF x(1)] x(2) results_in_rel [OF x(3)] show ?thesis
      by (auto simp: results_in_machine c)
  qed
qed

lemma parts_share:
  assumes "rel_mset (part env) C S"
  shows "image_mset call_place (calls_of S) + image_mset fst (results_in (all_items S)) \<subseteq>#
      image_mset (\<lambda>c. call_place (fst (fst c))) C \<and>
    (\<forall>x \<in># results_in (all_items S). \<exists>c \<in># C. x = (call_place (fst (fst c)), try_of (snd (fst c))))"
  using assms
proof (induction rule: related_induct)
  case (add c V C S)
  have "image_mset call_place (fst V) + image_mset fst (results_in (snd (snd V))) \<subseteq># {#call_place (fst (fst c))#}"
    using part_share [OF add.hyps(1)] by (auto simp: image_mset_subseteq_mono dest: image_mset_subseteq_mono [of _ _ call_place])
  with add.IH have "(image_mset call_place (fst V) + image_mset fst (results_in (snd (snd V)))) +
      (image_mset call_place (calls_of S) + image_mset fst (results_in (all_items S))) \<subseteq>#
      {#call_place (fst (fst c))#} + image_mset (\<lambda>c. call_place (fst (fst c))) C" by (intro subset_mset.add_mono) simp_all
  with add part_share [OF add.hyps(1)] show ?case by (auto simp: ac_simps)
qed simp

end
