(* ===== verification/Collect_Machine.thy ===== *)
theory Collect_Machine
  imports Group_Machine Collect_All
begin

text \<open>
  The awaiter of \<^verbatim>\<open>Collect_All.thy\<close> on the coroutine machine of \<^verbatim>\<open>Lazy_Parallel.thy\<close>: the inputs of the group are
  \<open>Lazy\<close> or \<open>RescheduleLazy\<close> coroutines that the loop of \<open>await_suspend\<close> (\<^verbatim>\<open>coro/collect.hpp\<close>) starts, or
  posts to the executor; they run on the workers, in any interleaving, and their callbacks count down the
  event. What \<^verbatim>\<open>Collect_All.thy\<close> assumes of an input, that it calls its callback once with its result,
  is what the coroutines do here.
\<close>

section \<open>The group\<close>

definition posted :: "'a group \<Rightarrow> bool" where
  "posted G \<longleftrightarrow> gr_para G \<and> 1 < length (gr_inputs G) \<and> gr_executor G \<noteq> None"

definition group_call :: "'a group \<Rightarrow> nat \<Rightarrow> 'a call" where
  "group_call G i =
     start_input (gr_executor G) (if posted G then gr_executor G else map_option fst (gr_thread G)) i (gr_inputs G ! i)"

text \<open>The callbacks of a turn write the outputs.\<close>

definition store_all :: "(nat \<times> 'v try_val) list \<Rightarrow> ('v, 'h) collect_all \<Rightarrow> ('v, 'h) collect_all" where
  "store_all rs c = fold (\<lambda>(i, t). CollectAll_store i t) rs c"

definition stored_by :: "'a cmachine \<Rightarrow> 'a pconfig \<Rightarrow> ('a val, 'h) collect_all \<Rightarrow> ('a val, 'h) collect_all" where
  "stored_by s q c =
     (case q of PRun L' R' s' \<Rightarrow> store_all (drop (length (cb_results s)) (cb_results s')) c | PStopped y \<Rightarrow> c)"

section \<open>Steps\<close>

type_synonym ('a, 'h) gconfig = "'a pconfig \<times> ('a val, 'h) collect_all"

inductive gstep :: "coro_env \<Rightarrow> 'a group \<Rightarrow> 'h \<Rightarrow> ('a, 'h) gconfig \<Rightarrow> ('a, 'h) gconfig \<Rightarrow> bool" for env G h where
  g_inline: "phase c = InLoop i \<Longrightarrow> i < length (inputs c) \<Longrightarrow> \<not> posted G \<Longrightarrow> free_thread R (gr_thread G) \<Longrightarrow>
    gstep env G h (PRun L R s, c)
      (pafter (L - {#group_call G i#}) R (sync_call env (group_call G i) (s\<lparr>running := gr_thread G\<rparr>)),
       CollectAll_launch (gr_para G) (gr_executor G \<noteq> None) True i c)"
| g_post: "phase c = InLoop i \<Longrightarrow> i < length (inputs c) \<Longrightarrow> posted G \<Longrightarrow> gr_executor G = Some e \<Longrightarrow>
    gstep env G h (PRun L R s, c)
      (PRun L R s, CollectAll_launch (gr_para G) (gr_executor G \<noteq> None) (accepting env e) i c)"
| g_begin: "i < length (inputs c) \<Longrightarrow> inputs c ! i = Scheduled \<Longrightarrow> thread_in env (gr_executor G) th \<Longrightarrow>
    free_thread R th \<Longrightarrow> \<not> (loop_busy G (phase c \<noteq> Suspended) \<and> th = gr_thread G) \<Longrightarrow>
    gstep env G h (PRun L R s, c)
      (pafter (L - {#group_call G i#}) R (sync_call env (group_call G i) (s\<lparr>running := th\<rparr>)),
       c\<lparr>inputs := (inputs c)[i := Started]\<rparr>)"
| g_set_handle: "phase c = InLoop (length (inputs c)) \<Longrightarrow> free_thread R (gr_thread G) \<Longrightarrow>
    gstep env G h (PRun L R s, c) (PRun L R s, CollectAll_set_handle h c)"
| g_own_down: "phase c = HandleSet \<Longrightarrow>
    gstep env G h (PRun L R s, c) (PRun L R s, CollectAll_down (c\<lparr>phase := Suspended\<rparr>))"
| g_input_down: "i < length (inputs c) \<Longrightarrow> inputs c ! i = Stored \<Longrightarrow>
    gstep env G h (PRun L R s, c) (PRun L R s, CollectAll_down (c\<lparr>inputs := (inputs c)[i := Finished]\<rparr>))"
| g_work: "pstep env (PRun {#} R s) q \<Longrightarrow> keeps_thread (loop_busy G (phase c \<noteq> Suspended)) (gr_thread G) R q \<Longrightarrow>
    gstep env G h (PRun L R s, c) (with_calls L q, stored_by s q c)"

abbreviation gmust :: "coro_env \<Rightarrow> 'a group \<Rightarrow> 'h \<Rightarrow> (('a, 'h) gconfig \<Rightarrow> bool) \<Rightarrow> ('a, 'h) gconfig \<Rightarrow> bool" where
  "gmust env G h \<equiv> inevitably (gstep env G h)"

definition group_start :: "'a group \<Rightarrow> ('a, 'h) gconfig" where
  "group_start G =
     (PRun (mset (map (group_call G) [0..<length (gr_inputs G)])) {#} idle_machine, CollectAll_ctor (length (gr_inputs G)))"

definition group_finished :: "'h \<Rightarrow> (exn + 'a val) list \<Rightarrow> ('a, 'h) gconfig \<Rightarrow> bool" where
  "group_finished h rs x \<longleftrightarrow>
     all_finished (zip [0..<length rs] rs) (fst x) \<and> resumes (snd x) = [(h, map try_of rs)]"

section \<open>The callbacks of a turn\<close>

lemma group_call_place [simp]: "call_place (group_call G i) = i"
  by (cases "gr_inputs G ! i") (simp_all add: group_call_def)

lemma store_all_steps:
  assumes "collect_all_reachable para ex h res n c" and "distinct (map fst new)"
    and "\<forall>x \<in> set new. fst x < n \<and> inputs c ! fst x = Started \<and> snd x = res (fst x)"
  shows "collect_all_reachable para ex h res n (store_all new c) \<and> phase (store_all new c) = phase c \<and>
    (\<forall>j < n. inputs (store_all new c) ! j = (if j \<in> fst ` set new then Stored else inputs c ! j))"
  using assms
proof (induction new arbitrary: c)
  case Nil
  then show ?case by (simp add: store_all_def)
next
  case (Cons x new)
  obtain i t where x: "x = (i, t)" by (cases x)
  have i: "i < n" "inputs c ! i = Started" "t = res i" using Cons.prems(3) by (simp_all add: x)
  have len: "length (inputs c) = n" using collect_reachable_ok [OF Cons.prems(1)] by (simp add: collect_ok_def)
  let ?c = "CollectAll_store i t c"
  have "collect_all_reachable para ex h res n ?c"
    using collect_all_step.store [of i c para ex h res] Cons.prems(1) i len by (simp add: collect_next)
  moreover have "\<forall>y \<in> set new. fst y < n \<and> inputs ?c ! fst y = Started \<and> snd y = res (fst y)"
    using Cons.prems(2,3) by (auto simp: x CollectAll_store_def nth_list_update image_iff)
  ultimately have "collect_all_reachable para ex h res n (store_all new ?c) \<and> phase (store_all new ?c) = phase ?c \<and>
      (\<forall>j < n. inputs (store_all new ?c) ! j = (if j \<in> fst ` set new then Stored else inputs ?c ! j))"
    using Cons.IH Cons.prems(2) by simp
  then show ?case using len by (auto simp: x store_all_def CollectAll_store_def nth_list_update)
qed

section \<open>The invariant\<close>

definition pending :: "('v, 'h) collect_all \<Rightarrow> nat \<Rightarrow> bool" where
  "pending c i \<longleftrightarrow> inputs c ! i = NotStarted \<or> inputs c ! i = Scheduled"

definition written :: "('v, 'h) collect_all \<Rightarrow> nat \<Rightarrow> bool" where
  "written c i \<longleftrightarrow> inputs c ! i = Stored \<or> inputs c ! i = Finished"

text \<open>
  The parts of the machine are the inputs; those that have not been started are the calls to come, those
  that have stored their output are the ones with a result.
\<close>

definition group_inv :: "coro_env \<Rightarrow> 'a group \<Rightarrow> 'h \<Rightarrow> (exn + 'a val) list \<Rightarrow> 'a part multiset \<Rightarrow> ('a, 'h) gconfig \<Rightarrow> bool" where
  "group_inv env G h rs C x \<longleftrightarrow>
     (\<exists>S L R s. consists_of env C S (PRun L R s) \<and> fst x = PRun L R s \<and>
        image_mset fst C = mset (zip (map (group_call G) [0..<length rs]) rs) \<and>
        collect_all_reachable (gr_para G) (gr_executor G \<noteq> None) h (\<lambda>i. try_of (rs ! i)) (length rs) (snd x) \<and>
        Refused \<notin> set (inputs (snd x)) \<and>
        L = image_mset (group_call G) (mset_set {i. i < length rs \<and> pending (snd x) i}) \<and>
        (\<forall>i < length rs. written (snd x) i \<longleftrightarrow> i \<in> fst ` set (cb_results s)))"

lemma group_parts:
  assumes "image_mset fst C = mset (zip (map (group_call G) [0..<length rs]) rs)"
  shows "image_mset (\<lambda>c. call_place (fst (fst c))) C = mset [0..<length rs]"
    and "c \<in># C \<Longrightarrow> \<exists>i < length rs. fst c = (group_call G i, rs ! i)"
proof -
  have "image_mset (\<lambda>c. call_place (fst (fst c))) C = image_mset (\<lambda>x. call_place (fst x)) (image_mset fst C)"
    by (simp add: image_mset.compositionality comp_def)
  also have "\<dots> = mset (map (\<lambda>x. call_place (fst x)) (zip (map (group_call G) [0..<length rs]) rs))"
    using assms by simp
  also have "map (\<lambda>x. call_place (fst x)) (zip (map (group_call G) [0..<length rs]) rs) = [0..<length rs]"
    by (rule nth_equalityI) simp_all
  finally show "image_mset (\<lambda>c. call_place (fst (fst c))) C = mset [0..<length rs]" .
next
  assume "c \<in># C"
  then have "fst c \<in># image_mset fst C" by simp
  then show "\<exists>i < length rs. fst c = (group_call G i, rs ! i)" unfolding assms by (auto simp: in_set_zip)
qed

lemma split_distinct:
  assumes "M + mset ys \<subseteq># mset xs" and "distinct xs"
  shows "distinct ys" and "x \<in># M \<Longrightarrow> x \<notin> set ys"
proof -
  from assms(1) obtain K where "mset xs = M + mset ys + K" by (metis subset_mset.le_iff_add)
  moreover obtain ms ks where lists: "M = mset ms" "K = mset ks" using ex_mset by metis
  ultimately have "mset xs = mset (ms @ ys @ ks)" by simp
  then have "distinct (ms @ ys @ ks)" using assms(2) mset_eq_imp_distinct_iff by blast
  then show "distinct ys" "x \<in># M \<Longrightarrow> x \<notin> set ys" by (auto simp: lists)
qed

text \<open>The results are those of different inputs, none of which is still to be called.\<close>

lemma group_results:
  assumes C: "consists_of env C S (PRun L R s)" and parts: "image_mset fst C = mset (zip (map (group_call G) [0..<length rs]) rs)"
  shows "distinct (map fst (cb_results s))"
    and "x \<in> set (cb_results s) \<Longrightarrow> fst x < length rs \<and> snd x = try_of (rs ! fst x) \<and> group_call G (fst x) \<notin># L"
proof -
  note p = consists_parts [OF C]
  have res: "results_in (all_items S) = mset (cb_results s)" using p(4) results_in_machine [of s] by simp
  note share = parts_share [OF p(1), folded p(2), unfolded res group_parts(1) [OF parts]]
  have sub: "image_mset call_place L + mset (map fst (cb_results s)) \<subseteq># mset [0..<length rs]" using share by simp
  show "distinct (map fst (cb_results s))" by (rule split_distinct(1) [OF sub]) simp
  assume x: "x \<in> set (cb_results s)"
  with share obtain c where c: "c \<in># C" "x = (call_place (fst (fst c)), try_of (snd (fst c)))" by auto
  with group_parts(2) [OF parts c(1)] have here: "fst x < length rs" "snd x = try_of (rs ! fst x)" by auto
  have "group_call G (fst x) \<notin># L"
  proof
    assume "group_call G (fst x) \<in># L"
    then have "fst x \<in># image_mset call_place L" by (force simp: image_iff)
    from split_distinct(2) [OF sub distinct_upt this] x show False by simp
  qed
  with here show "fst x < length rs \<and> snd x = try_of (rs ! fst x) \<and> group_call G (fst x) \<notin># L" by blast
qed


section \<open>Steps keep the invariant\<close>

lemma group_call_loc: "\<not> posted G \<Longrightarrow> call_loc (group_call G i) = map_option fst (gr_thread G)"
  "posted G \<Longrightarrow> call_loc (group_call G i) = gr_executor G"
  by (cases "gr_inputs G ! i"; simp add: group_call_def)+

lemma group_length:
  assumes "collect_all_reachable para ex h res n c"
  shows "length (inputs c) = n"
  using collect_reachable_ok [OF assms] by (simp add: collect_ok_def)

lemma scheduled_posted:
  "collect_all_reachable para ex h res n c \<Longrightarrow> Scheduled \<in> set (inputs c) \<Longrightarrow> para \<and> 1 < n \<and> ex"
proof (induction rule: collect_all_reachable.induct)
  case collect_start
  then show ?case by (simp add: CollectAll_ctor_def)
next
  case (collect_next c d)
  from collect_next(2,1,3,4) group_length [OF collect_next(1)] show ?case
    by (induction rule: collect_all_step.induct)
      (auto simp: CollectAll_launch_def CollectAll_set_handle_def CollectAll_store_def
        dest: set_update_subset_insert [THEN subsetD] split: if_splits)
qed

text \<open>An input is started, by the loop or by a worker that took the function.\<close>

lemma group_starts:
  assumes ok: "env_ok env" and inv: "group_inv env G h rs C (PRun L R s, c)" and i: "i < length rs" "pending c i"
    and th: "thread_in env (call_loc (group_call G i)) th"
    and c': "collect_all_reachable (gr_para G) (gr_executor G \<noteq> None) h (\<lambda>i. try_of (rs ! i)) (length rs) c'"
      "inputs c' = (inputs c)[i := Started]"
  shows "\<exists>D. group_inv env G h rs D (pafter (L - {#group_call G i#}) R (sync_call env (group_call G i) (s\<lparr>running := th\<rparr>)), c') \<and>
    (D, C) \<in> mult1 (moves env)"
proof -
  from inv obtain S where S: "consists_of env C S (PRun L R s)" "image_mset fst C = mset (zip (map (group_call G) [0..<length rs]) rs)"
    "Refused \<notin> set (inputs c)" "L = image_mset (group_call G) (mset_set {i. i < length rs \<and> pending c i})"
    "\<forall>i < length rs. written c i \<longleftrightarrow> i \<in> fst ` set (cb_results s)" "length (inputs c) = length rs"
    by (auto simp: group_inv_def dest: group_length)
  have "group_call G i \<in># L" using i by (simp add: S(4))
  from call_step [OF ok S(1) this th] obtain D T where D:
    "consists_of env D T (pafter (L - {#group_call G i#}) R (sync_call env (group_call G i) (s\<lparr>running := th\<rparr>)))" "advances env D C"
    by blast
  then obtain L' R' t where q: "pafter (L - {#group_call G i#}) R (sync_call env (group_call G i) (s\<lparr>running := th\<rparr>)) = PRun L' R' t"
    by (auto simp: consists_with_def)
  from pafter_logs(1,2) [OF logs_sync_call q] have t: "L' = L - {#group_call G i#}" "cb_results t = cb_results s" by simp_all
  have states: "pending c' j \<longleftrightarrow> j \<noteq> i \<and> pending c j" "written c' j \<longleftrightarrow> written c j" if "j < length rs" for j
    using i S(6) that by (auto simp: pending_def written_def c'(2) nth_list_update)
  have "{j. j < length rs \<and> pending c' j} = {j. j < length rs \<and> pending c j} - {i}" using states(1) by auto
  then have "image_mset (group_call G) (mset_set {j. j < length rs \<and> pending c' j}) = L - {#group_call G i#}"
    using i by (simp add: S(4) mset_set_Diff image_mset_Diff)
  moreover have "Refused \<notin> set (inputs c')" using S(3) set_update_subset_insert [of "inputs c" i Started] by (auto simp: c'(2))
  ultimately show ?thesis
    using D S(2,5) c'(1) states(2) unfolding group_inv_def q by (intro exI [of _ D]) (auto simp: advances_def t)
qed

text \<open>The awaiter goes on while the machine rests.\<close>

lemma group_awaits:
  assumes inv: "group_inv env G h rs C (PRun L R s, c)"
    and c': "collect_all_step (gr_para G) (gr_executor G \<noteq> None) h (\<lambda>i. try_of (rs ! i)) c c'"
    and same: "\<And>j. j < length rs \<Longrightarrow> pending c' j = pending c j" "\<And>j. j < length rs \<Longrightarrow> written c' j = written c j"
      "Refused \<notin> set (inputs c')"
  shows "group_inv env G h rs C (PRun L R s, c') \<and> collect_measure c' < collect_measure c"
proof -
  from inv have reach: "collect_all_reachable (gr_para G) (gr_executor G \<noteq> None) h (\<lambda>i. try_of (rs ! i)) (length rs) c"
    by (auto simp: group_inv_def)
  have "{i. i < length rs \<and> pending c' i} = {i. i < length rs \<and> pending c i}" using same(1) by blast
  moreover have "collect_measure c' < collect_measure c" by (rule collect_step_measure [OF c' collect_reachable_ok [OF reach]])
  ultimately show ?thesis using inv same(2,3) collect_next [OF reach c'] by (force simp: group_inv_def)
qed

text \<open>The machine works, and callbacks store.\<close>

lemma group_works:
  assumes ok: "env_ok env" and inv: "group_inv env G h rs C (PRun L R s, c)" and step: "pstep env (PRun {#} R s) q"
  shows "\<exists>D. group_inv env G h rs D (with_calls L q, stored_by s q c) \<and> (D, C) \<in> mult1 (moves env)"
proof -
  from inv obtain S where S: "consists_of env C S (PRun L R s)" "image_mset fst C = mset (zip (map (group_call G) [0..<length rs]) rs)"
    "collect_all_reachable (gr_para G) (gr_executor G \<noteq> None) h (\<lambda>i. try_of (rs ! i)) (length rs) c"
    "Refused \<notin> set (inputs c)" "L = image_mset (group_call G) (mset_set {i. i < length rs \<and> pending c i})"
    "\<forall>i < length rs. written c i \<longleftrightarrow> i \<in> fst ` set (cb_results s)"
    by (auto simp: group_inv_def)
  from parallel_step [OF ok S(1) pstep_with_calls [OF step refl]] obtain D T where
    D: "consists_of env D T (with_calls L q)" "advances env D C" by blast
  obtain L' R' s' where q: "q = PRun L' R' s'" using D(1) by (cases q) (auto simp: with_calls_def consists_with_def)
  have L': "L' = {#}" by (rule no_calls_kept [OF step refl q])
  from pstep_logs [OF step refl q] obtain new where new: "cb_results s' = cb_results s @ new" by blast
  have D': "consists_of env D T (PRun L R' s')" "image_mset fst D = mset (zip (map (group_call G) [0..<length rs]) rs)"
    using D S(2) by (simp_all add: q L' advances_def)
  have dist: "distinct (map fst (cb_results s @ new))" using group_results(1) [OF D'] by (simp add: new)
  have fresh: "fst x < length rs \<and> inputs c ! fst x = Started \<and> snd x = try_of (rs ! fst x)" if x: "x \<in> set new" for x
  proof -
    from group_results(2) [OF D', of x] x have r: "fst x < length rs" "snd x = try_of (rs ! fst x)" "group_call G (fst x) \<notin># L"
      by (simp_all add: new)
    have "fst x \<notin> fst ` set (cb_results s)" using dist x by auto
    with S(6) r(1) have "\<not> written c (fst x)" by blast
    moreover have "\<not> pending c (fst x)" using r by (auto simp: S(5))
    moreover have "inputs c ! fst x \<noteq> Refused" using S(4) r(1) group_length [OF S(3)] by (metis nth_mem)
    ultimately have "inputs c ! fst x = Started" by (cases "inputs c ! fst x") (simp_all add: pending_def written_def)
    with r show ?thesis by blast
  qed
  have "distinct (map fst new)" using dist by simp
  from store_all_steps [OF S(3) this] fresh have stored:
    "collect_all_reachable (gr_para G) (gr_executor G \<noteq> None) h (\<lambda>i. try_of (rs ! i)) (length rs) (store_all new c)"
    "\<And>j. j < length rs \<Longrightarrow> inputs (store_all new c) ! j = (if j \<in> fst ` set new then Stored else inputs c ! j)" by blast+
  have at: "inputs c ! j = Started" if "j \<in> fst ` set new" for j using that fresh by auto
  have states: "pending (store_all new c) j = pending c j" "written (store_all new c) j \<longleftrightarrow> written c j \<or> j \<in> fst ` set new"
    "inputs (store_all new c) ! j \<noteq> Refused" if "j < length rs" for j
  proof -
    have "inputs c ! j \<noteq> Refused" using that S(4) group_length [OF S(3)] by (metis nth_mem)
    then show "pending (store_all new c) j = pending c j" "written (store_all new c) j \<longleftrightarrow> written c j \<or> j \<in> fst ` set new"
      "inputs (store_all new c) ! j \<noteq> Refused"
      using that at [of j] by (auto simp: pending_def written_def stored(2))
  qed
  have "{i. i < length rs \<and> pending (store_all new c) i} = {i. i < length rs \<and> pending c i}" using states(1) by blast
  moreover have "Refused \<notin> set (inputs (store_all new c))"
    using states(3) group_length [OF stored(1)] by (auto simp: in_set_conv_nth)
  moreover have "stored_by s q c = store_all new c" by (simp add: stored_by_def q new)
  moreover have "written (store_all new c) i \<longleftrightarrow> i \<in> fst ` set (cb_results s')" if "i < length rs" for i
    using states(2) [OF that] S(6) that by (auto simp: new)
  ultimately show ?thesis
    using D D' S(5) stored(1) unfolding group_inv_def by (intro exI [of _ D]) (auto simp: q L' advances_def)
qed

lemma group_step:
  assumes ok: "env_ok env" and th: "thread_in env (map_option fst (gr_thread G)) (gr_thread G)" and n: "length (gr_inputs G) = length rs"
    and step: "gstep env G h x y" and inv: "group_inv env G h rs C x"
  shows "\<exists>D. group_inv env G h rs D y \<and> ((D, C) \<in> mult1 (moves env) \<or> D = C \<and> collect_measure (snd y) < collect_measure (snd x))"
  using step inv
proof (induction rule: gstep.induct)
  case (g_inline c i R L s)
  have reach: "collect_all_reachable (gr_para G) (gr_executor G \<noteq> None) h (\<lambda>i. try_of (rs ! i)) (length rs) c"
    using g_inline by (auto simp: group_inv_def)
  note len = group_length [OF reach]
  have "pending c i" using collect_reachable_ok [OF reach] g_inline(1,2) len by (simp add: collect_ok_def pending_def)
  moreover have "inputs (CollectAll_launch (gr_para G) (gr_executor G \<noteq> None) True i c) = (inputs c)[i := Started]"
    using g_inline(3) n len by (auto simp: CollectAll_launch_def posted_def)
  ultimately show ?case
    using group_starts [OF ok g_inline(5), of i, OF _ _ _ collect_next [OF reach collect_all_step.launch [OF g_inline(1,2)]]]
      g_inline(2) len th group_call_loc(1) [OF g_inline(3)] by fastforce
next
  case (g_post c i e R L s)
  have reach: "collect_all_reachable (gr_para G) (gr_executor G \<noteq> None) h (\<lambda>i. try_of (rs ! i)) (length rs) c"
    using g_post by (auto simp: group_inv_def)
  note len = group_length [OF reach]
  let ?c = "CollectAll_launch (gr_para G) (gr_executor G \<noteq> None) (accepting env e) i c"
  have "inputs c ! i = NotStarted" using collect_reachable_ok [OF reach] g_post(1,2) len by (simp add: collect_ok_def)
  moreover have now: "inputs ?c = (inputs c)[i := Scheduled]"
    using g_post(3,4) n len ok by (simp add: CollectAll_launch_def posted_def env_ok_def)
  ultimately have "pending ?c j = pending c j" "written ?c j = written c j" if "j < length rs" for j
    using that g_post(2) by (auto simp: pending_def written_def nth_list_update)
  moreover have "Refused \<notin> set (inputs ?c)"
    using g_post(5) set_update_subset_insert [of "inputs c" i Scheduled]
    by (auto simp: now group_inv_def simp del: not_None_eq)
  ultimately show ?case using group_awaits [OF g_post(5) collect_all_step.launch [OF g_post(1,2)]] by auto
next
  case (g_begin i c th' R L s)
  have reach: "collect_all_reachable (gr_para G) (gr_executor G \<noteq> None) h (\<lambda>i. try_of (rs ! i)) (length rs) c"
    using g_begin by (auto simp: group_inv_def)
  have "Scheduled \<in> set (inputs c)" using g_begin(1,2) by (metis nth_mem)
  then have "posted G" using scheduled_posted [OF reach] n by (simp add: posted_def)
  then show ?case
    using group_starts [OF ok g_begin(6), of i, OF _ _ _ collect_next [OF reach collect_all_step.begin_input [OF g_begin(1,2)]]]
      g_begin(1,2,3) group_length [OF reach] group_call_loc(2) by (fastforce simp: pending_def)
next
  case (g_set_handle c R L s)
  have "Refused \<notin> set (inputs (CollectAll_set_handle h c))" using g_set_handle(3) by (auto simp: group_inv_def CollectAll_set_handle_def)
  with group_awaits [OF g_set_handle(3) collect_all_step.set_handle [OF g_set_handle(1)]] show ?case
    by (auto simp: pending_def written_def CollectAll_set_handle_def)
next
  case (g_own_down c L R s)
  have "Refused \<notin> set (inputs (CollectAll_down (c\<lparr>phase := Suspended\<rparr>)))" using g_own_down(2) by (auto simp: group_inv_def)
  with group_awaits [OF g_own_down(2) collect_all_step.own_down [OF g_own_down(1)]] show ?case
    by (auto simp: pending_def written_def)
next
  case (g_input_down i c L R s)
  let ?c = "CollectAll_down (c\<lparr>inputs := (inputs c)[i := Finished]\<rparr>)"
  have "Refused \<notin> set (inputs ?c)"
    using g_input_down(3) set_update_subset_insert [of "inputs c" i Finished] by (auto simp: group_inv_def)
  moreover have "pending ?c j = pending c j" "written ?c j = written c j" for j
    using g_input_down(1,2) by (auto simp: pending_def written_def nth_list_update)
  ultimately show ?case using group_awaits [OF g_input_down(3) collect_all_step.input_down [OF g_input_down(1,2)]] by auto
next
  case (g_work R s q c L)
  from group_works [OF ok g_work(3,1)] show ?case by auto
qed


section \<open>The group goes on until it is finished\<close>

lemma group_end:
  assumes C: "consists_of env C S (PRun L R s)" and parts: "image_mset fst C = mset (zip (map (group_call G) [0..<length rs]) rs)"
    and reach: "collect_all_reachable para ex h (\<lambda>i. try_of (rs ! i)) (length rs) c"
    and d: "\<forall>p \<in># C. done_part p" and at: "phase c = Suspended" "\<forall>i < length rs. inputs c ! i = Started \<or> inputs c ! i = Finished"
    and w: "\<forall>i < length rs. written c i \<longleftrightarrow> i \<in> fst ` set (cb_results s)"
  shows "group_finished h rs (PRun L R s, c)"
proof -
  note p = consists_parts [OF C]
  from parts_done [OF p(1) d] have "results_in (all_items S) = image_mset (\<lambda>c. (call_place (fst (fst c)), try_of (snd (fst c)))) C" by blast
  then have "mset (cb_results s) = image_mset (\<lambda>c. (call_place (fst (fst c)), try_of (snd (fst c)))) C"
    using p(4) results_in_machine [of s] by simp
  then have "image_mset fst (mset (cb_results s)) = image_mset (\<lambda>c. call_place (fst (fst c))) C"
    by (simp add: image_mset.compositionality comp_def)
  then have "mset (map fst (cb_results s)) = mset [0..<length rs]" using group_parts(1) [OF parts] by simp
  then have "fst ` set (cb_results s) = {0..<length rs}" by (metis list.set_map mset_eq_setD set_upt)
  with w have "written c i" if "i < length rs" for i using that by simp
  with at(2) have "inputs c ! i = Finished" if "i < length rs" for i using that unfolding written_def by force
  then have "sum_list (map cost (inputs c)) = 0"
    unfolding sum_cost_zero using group_length [OF reach] by (auto simp: in_set_conv_nth)
  with at(1) have "remaining c = 0" by (simp add: remaining_def)
  moreover have "map (\<lambda>i. try_of (rs ! i)) [0..<length rs] = map try_of rs" by (rule nth_equalityI) simp_all
  ultimately have "resumes c = [(h, map try_of rs)]" using collect_reachable_ok [OF reach] by (simp add: collect_ok_def)
  moreover have "all_finished (zip [0..<length rs] rs) (PRun L R s)"
  proof (rule all_done_finished [OF C d])
    have "image_mset (\<lambda>c. (call_place (fst (fst c)), snd (fst c))) C = image_mset (\<lambda>x. (call_place (fst x), snd x)) (image_mset fst C)"
      by (simp add: image_mset.compositionality comp_def)
    also have "\<dots> = mset (map (\<lambda>x. (call_place (fst x), snd x)) (zip (map (group_call G) [0..<length rs]) rs))"
      using parts by simp
    also have "map (\<lambda>x. (call_place (fst x), snd x)) (zip (map (group_call G) [0..<length rs]) rs) = zip [0..<length rs] rs"
      by (rule nth_equalityI) simp_all
    finally show "image_mset (\<lambda>c. (call_place (fst (fst c)), snd (fst c))) C = mset (zip [0..<length rs] rs)" .
  qed
  ultimately show ?thesis by (simp add: group_finished_def)
qed

lemma group_progress:
  assumes ok: "env_ok env" and inv: "group_inv env G h rs C x" and unfinished: "\<not> group_finished h rs x"
  shows "\<exists>y. gstep env G h x y"
proof -
  from inv obtain S L R s c where x: "x = (PRun L R s, c)" and S: "consists_of env C S (PRun L R s)"
    "image_mset fst C = mset (zip (map (group_call G) [0..<length rs]) rs)"
    "collect_all_reachable (gr_para G) (gr_executor G \<noteq> None) h (\<lambda>i. try_of (rs ! i)) (length rs) c"
    "Refused \<notin> set (inputs c)" "L = image_mset (group_call G) (mset_set {i. i < length rs \<and> pending c i})"
    "\<forall>i < length rs. written c i \<longleftrightarrow> i \<in> fst ` set (cb_results s)"
    by (cases x) (auto simp: group_inv_def simp del: not_None_eq)
  note inv' = collect_reachable_ok [OF S(3)] and len = group_length [OF S(3)]
  have free: "free_thread {#} th" for th by (rule free_none) simp
  show ?thesis
  proof (cases "R = {#}")
    case False
    from flow_goes_on [OF False] show ?thesis unfolding x by (blast intro: g_work)
  next
    case R: True
    show ?thesis
    proof (cases "phase c")
      case (InLoop i)
      show ?thesis
      proof (cases "i < length (inputs c)")
        case True
        show ?thesis
        proof (cases "posted G")
          case True
          then obtain e where "gr_executor G = Some e" by (auto simp: posted_def)
          with g_post [OF InLoop \<open>i < length (inputs c)\<close> True] show ?thesis unfolding x by blast
        next
          case False
          with g_inline [OF InLoop True] free show ?thesis unfolding x R by blast
        qed
      next
        case False
        with InLoop inv' len have "phase c = InLoop (length (inputs c))" by (simp add: collect_ok_def)
        from g_set_handle [OF this free] show ?thesis unfolding x R by blast
      qed
    next
      case HandleSet
      from g_own_down [OF this] show ?thesis unfolding x by blast
    next
      case Suspended
      consider (stored) i where "i < length (inputs c)" "inputs c ! i = Stored"
        | (scheduled) i where "i < length (inputs c)" "inputs c ! i = Scheduled"
        | (rest) "\<forall>i < length (inputs c). inputs c ! i \<noteq> Stored \<and> inputs c ! i \<noteq> Scheduled" by blast
      then show ?thesis
      proof cases
        case stored
        from g_input_down [OF this] show ?thesis unfolding x by blast
      next
        case scheduled
        obtain th where "thread_in env (gr_executor G) th" by (rule free_worker [OF ok])
        moreover have "\<not> (loop_busy G (phase c \<noteq> Suspended) \<and> th = gr_thread G)" using Suspended by (simp add: loop_busy_def)
        ultimately show ?thesis unfolding x R using g_begin [OF scheduled _ free] by blast
      next
        case rest
        have states: "inputs c ! i = Started \<or> inputs c ! i = Finished" if "i < length rs" for i
        proof -
          have "inputs c ! i \<noteq> Refused" using S(4) that len by (metis nth_mem)
          moreover have "inputs c ! i \<noteq> NotStarted" using inv' Suspended that by (simp add: collect_ok_def)
          ultimately show ?thesis using rest that len by (cases "inputs c ! i") auto
        qed
        then have "\<not> pending c i" if "i < length rs" for i using that unfolding pending_def by fastforce
        then have none: "{i. i < length rs \<and> pending c i} = {}" by blast
        have "L = {#}" unfolding S(5) none by simp
        have "\<not> (\<forall>p \<in># C. done_part p)"
          using group_end [OF S(1,2,3) _ Suspended _ S(6)] states unfinished unfolding x by blast
        then obtain p where p: "p \<in># C" "\<not> done_part p" by blast
        from parallel_progress [OF ok S(1) p] obtain q where "pstep env (PRun {#} R s) q" unfolding \<open>L = {#}\<close> by blast
        moreover have "keeps_thread (loop_busy G (phase c \<noteq> Suspended)) (gr_thread G) R q"
          using Suspended by (simp add: keeps_thread_def loop_busy_def split: pconfig.splits)
        ultimately show ?thesis unfolding x by (blast intro: g_work)
      qed
    qed
  qed
qed

text \<open>When it is finished, nothing can happen any more.\<close>

definition group_ended :: "coro_env \<Rightarrow> 'a group \<Rightarrow> 'h \<Rightarrow> (exn + 'a val) list \<Rightarrow> ('a, 'h) gconfig \<Rightarrow> bool" where
  "group_ended env G h rs x \<longleftrightarrow> group_finished h rs x \<and> (\<forall>y. \<not> gstep env G h x y)"

lemma idle_stuck:
  assumes "pstep env p q" and "p = PRun {#} {#} s" and "quiet s"
  shows False
  using assms by (induction rule: pstep.induct) (auto simp: quiet_def)

lemma group_finished_stuck:
  assumes inv: "group_inv env G h rs C x" and f: "group_finished h rs x"
  shows "\<not> gstep env G h x y"
proof
  have reach: "collect_all_reachable (gr_para G) (gr_executor G \<noteq> None) h (\<lambda>i. try_of (rs ! i)) (length rs) (snd x)"
    using inv by (auto simp: group_inv_def)
  have "resumes (snd x) \<noteq> []" using f by (simp add: group_finished_def)
  then have no: "\<not> collect_all_step (gr_para G) (gr_executor G \<noteq> None) h (\<lambda>i. try_of (rs ! i)) (snd x) d" for d
    using collect_resumed_stuck [OF collect_reachable_ok [OF reach]] by blast
  assume "gstep env G h x y"
  then show False
    using no f
  proof (induction rule: gstep.induct)
    case (g_begin i c th R L s)
    from g_begin(6) [of "c\<lparr>inputs := (inputs c)[i := Started]\<rparr>"] collect_all_step.begin_input [OF g_begin(1,2)] show ?case by simp
  next
    case (g_work R s q c L)
    from g_work(4) have "R = {#}" "quiet s" by (auto simp: group_finished_def all_finished_def)
    with g_work(1) idle_stuck show ?case by blast
  qed (auto intro: collect_all_step.intros)
qed

text \<open>The group is a system that ends: each step takes a coroutine or the awaiter further.\<close>

definition group_sound :: "coro_env \<Rightarrow> 'a group \<Rightarrow> 'h \<Rightarrow> (exn + 'a val) list \<Rightarrow> 'a part multiset \<Rightarrow> ('a, 'h) gconfig \<Rightarrow> bool" where
  "group_sound env G h rs C x \<longleftrightarrow>
     env_ok env \<and> thread_in env (map_option fst (gr_thread G)) (gr_thread G) \<and> length (gr_inputs G) = length rs \<and> group_inv env G h rs C x"

interpretation group: ranked_system "gstep env G h" "group_sound env G h rs" "group_ended env G h rs"
    "inv_image (mult1 (moves env) <*lex*> less_than) (\<lambda>(C, x). (C, collect_measure (snd x)))" for env G h rs
proof
  show "wf (inv_image (mult1 (moves env) <*lex*> less_than) (\<lambda>(C, x). (C, collect_measure (snd x))))"
    by (intro wf_inv_image wf_lex_prod wf_mult1 wf_moves wf_less_than)
  show "\<exists>y. gstep env G h x y" if "group_sound env G h rs C x" and "\<not> group_ended env G h rs x" for C x
    using that group_progress [of env G h rs C x] group_finished_stuck [of env G h rs C x]
    by (auto simp: group_sound_def group_ended_def)
  show "\<exists>D. group_sound env G h rs D y \<and>
      ((D, y), (C, x)) \<in> inv_image (mult1 (moves env) <*lex*> less_than) (\<lambda>(C, x). (C, collect_measure (snd x)))"
    if "group_sound env G h rs C x" and "gstep env G h x y" for C x y
    using that group_step [of env G rs h x y C] by (auto simp: group_sound_def)
qed

lemma group_inv_start:
  fixes h :: 'h and rs :: "(exn + 'a val) list"
  assumes m: "\<forall>i < length rs. call_meaning (group_call G i) = outcome_of (rs ! i)" and n: "length (gr_inputs G) = length rs"
    and size: "0 < length rs" "length rs + 1 < 2 ^ 64"
  shows "group_inv env G h rs (mset (map (\<lambda>x. (x, None)) (zip (map (group_call G) [0..<length rs]) rs))) (group_start G)"
proof -
  let ?ls = "map (group_call G) [0..<length rs]"
  have "list_all2 (\<lambda>l r. call_meaning l = outcome_of r) ?ls rs" using m by (simp add: list_all2_conv_all_nth)
  then obtain S where S: "consists_of env (mset (map (\<lambda>x. (x, None)) (zip ?ls rs))) S (PRun (mset ?ls) {#} idle_machine)"
    using parts_at_start by blast
  have pend: "pending (CollectAll_ctor (length rs) :: ('a val, 'h) collect_all) i" "\<not> written (CollectAll_ctor (length rs) :: ('a val, 'h) collect_all) i"
    if "i < length rs" for i using that by (simp_all add: pending_def written_def CollectAll_ctor_def)
  have "{i. i < length rs \<and> pending (CollectAll_ctor (length rs) :: ('a val, 'h) collect_all) i} = {0..<length rs}" using pend(1) by auto
  then have "image_mset (group_call G) (mset_set {i. i < length rs \<and> pending (CollectAll_ctor (length rs) :: ('a val, 'h) collect_all) i}) = mset ?ls"
    by (simp add: mset_map mset_upt)
  moreover have "image_mset fst (mset (map (\<lambda>x. (x, None)) (zip ?ls rs))) = mset (zip ?ls rs)"
    by (simp add: image_mset.compositionality comp_def)
  moreover have "Refused \<notin> set (inputs (CollectAll_ctor (length rs)))" by (simp add: CollectAll_ctor_def)
  moreover have "cb_results (idle_machine :: 'a cmachine) = []" by (simp add: idle_machine_def)
  ultimately show ?thesis
    using S pend(2) collect_start [OF size] unfolding group_inv_def by (auto simp: group_start_def n)
qed


section \<open>Properties\<close>

text \<open>
  Claim C13. \<open>CollectAll\<close> and \<open>CollectAllPara\<close> of coroutines, on real workers: for any group of \<open>Lazy\<close> and \<open>RescheduleLazy\<close>
  inputs, from any thread and with or without an executor, if calling each body on its executor returns or throws, then every
  interleaving of the loop, the workers, the timers and the callbacks comes to an end; the awaiting coroutine has then
  been resumed exactly once, with the value or the exception of every input in its place; every frame of the inputs is
  destroyed, the executors are empty and no step is left that could touch the awaiter. The executors accept
  every function (\<open>env_ok\<close>).\<close>

theorem collect_all_on_machine:
  fixes rs :: "(exn + 'a val) list"
  assumes ok: "env_ok env" and th: "thread_in env (map_option fst (gr_thread G)) (gr_thread G)"
    and meanings: "list_all2 (\<lambda>i r. call_meaning (group_call G i) = outcome_of r) [0..<length (gr_inputs G)] rs"
    and size: "0 < length rs" "length rs + 1 < 2 ^ 64"
  shows "gmust env G h (group_ended env G h rs) (group_start G)"
proof (rule group.ends)
  have n: "length (gr_inputs G) = length rs" using list_all2_lengthD [OF meanings] by simp
  have "\<forall>i < length rs. call_meaning (group_call G i) = outcome_of (rs ! i)"
    using meanings n by (simp add: list_all2_conv_all_nth)
  from group_inv_start [OF this n size]
  show "group_sound env G h rs (mset (map (\<lambda>x. (x, None)) (zip (map (group_call G) [0..<length rs]) rs))) (group_start G)"
    using ok th n by (simp add: group_sound_def)
qed

text \<open>Two inputs on two executors, one of which throws, collected from the first worker of the first.\<close>

definition demo_group :: "nat group" where
  "demo_group = \<lparr>gr_para = True, gr_executor = Some 0, gr_thread = Some (0, 0),
     gr_inputs = [RescheduleInput 1 errand, LazyInput None (CoReturn (VVal 3))]\<rparr>"

theorem collect_all_on_machine_witness:
  "gmust two_workers demo_group ''co''
     (\<lambda>x. resumes (snd x) = [(''co'', [Exception (Some (UserExn 7)), Value (VVal 3)])]) (group_start demo_group)"
proof -
  let ?rs = "[Inl (UserExn 7), Inr (VVal 3)] :: (exn + nat val) list"
  have th: "thread_in two_workers (map_option fst (gr_thread demo_group)) (gr_thread demo_group)"
    by (simp add: thread_in_def demo_group_def two_workers_def)
  have "list_all2 (\<lambda>i r. call_meaning (group_call demo_group i) = outcome_of r) [0..<length (gr_inputs demo_group)] ?rs"
    by (simp add: demo_group_def group_call_def posted_def errand_def home_def upt_rec)
  from collect_all_on_machine [OF two_workers_ok th this, of "''co''"] show ?thesis
    by (auto elim!: inevitably_mono simp: group_ended_def group_finished_def)
qed

end
