(* ===== verification/Race_Machine.thy ===== *)
theory Race_Machine
  imports Group_Machine Collect_Any Lazy_Handles
begin

text \<open>
  The awaiter of \<^verbatim>\<open>Collect_Any.thy\<close> on the coroutine machine of \<^verbatim>\<open>Lazy_Parallel.thy\<close>: the loop of \<open>await_suspend\<close>
  (\<^verbatim>\<open>coro/collect.hpp\<close>) starts one input after the other while it sees no winner, the inputs run on the
  workers in any interleaving, and the callbacks of all that were started count down. The winner
  resumes the awaiting coroutine; the losers run on to their own end. The frames of the inputs are in the machine from the
  beginning; the vector \<open>in\<close> holds their handles until they are started or the vector is destroyed.
\<close>

section \<open>The vector\<close>

text \<open>
  An input as it comes in the vector: its coroutine has been called and has not run. A \<open>Lazy\<close> may have an executor, a
  \<open>RescheduleLazy\<close> has the one that \<open>Via\<close> gave it.
\<close>

fun input_frame :: "'a group_input \<Rightarrow> 'a frame" where
  "input_frame (LazyInput own b) = LazyFrame (AtStart b) (LazyPromise_ctor\<lparr>lp_executor := own\<rparr>)"
| "input_frame (RescheduleInput e b) = LazyFrame (AtStart b) (LazyPromise_ctor\<lparr>lp_executor := Some e\<rparr>)"

text \<open>One turn of the loop: an input without an executor inherits one; then \<open>in[i].Start\<close>.\<close>

definition inherit_executor :: "nat option \<Rightarrow> lazy \<Rightarrow> ('a cmachine, unit) action" where
  "inherit_executor executor' z =
     (case z of
        None \<Rightarrow> undef
      | Some c \<Rightarrow> bind (executor_of c) (\<lambda>own.
          case own of None \<Rightarrow> promise_of c (lp_set_executor executor') | Some e \<Rightarrow> ret ()))"

fun Start_input :: "coro_env \<Rightarrow> nat \<Rightarrow> 'a group_input \<Rightarrow> lazy \<Rightarrow> ('a cmachine, nat option) action" where
  "Start_input env i (LazyInput own b) z = Lazy_Start (StoreResult i) z"
| "Start_input env i (RescheduleInput e b) z = Reschedule_Start env (StoreResult i) z"

definition start_held :: "coro_env \<Rightarrow> 'a group \<Rightarrow> nat \<Rightarrow> lazy \<Rightarrow> ('a cmachine, nat option) action" where
  "start_held env G i z = seq (inherit_executor (gr_executor G) z) (Start_input env i (gr_inputs G ! i) z)"

text \<open>\<open>~Lazy\<close> destroys the frame of an input that was not started; \<open>RescheduleLazy\<close> has no destructor and leaves it.\<close>

fun input_dtor :: "'a group_input \<Rightarrow> lazy \<Rightarrow> ('a cmachine, unit) action" where
  "input_dtor (LazyInput own b) z = Lazy_dtor z"
| "input_dtor (RescheduleInput e b) z = Reschedule_dtor z"

fun vector_dtor :: "('a group_input \<times> lazy) list \<Rightarrow> ('a cmachine, unit) action" where
  "vector_dtor [] = ret ()"
| "vector_dtor ((x, z) # xs) = seq (input_dtor x z) (vector_dtor xs)"

fun rescheduled :: "'a group_input \<Rightarrow> bool" where
  "rescheduled (LazyInput own b) = False"
| "rescheduled (RescheduleInput e b) = True"

section \<open>Steps\<close>

type_synonym ('a, 'h) rconfig = "'a pconfig \<times> lazy list \<times> ('a val, 'h) collect_any"

text \<open>What a started input does to its end, as a call of its own machine.\<close>

definition race_call :: "'a group \<Rightarrow> nat \<Rightarrow> 'a call" where
  "race_call G i = start_input (gr_executor G) (map_option fst (gr_thread G)) i (gr_inputs G ! i)"

text \<open>
  \<open>Start\<close> moves the object away, so that null is left in the vector. An input counts down once its callback has been called. When
  the loop ends, the vector is destroyed with all that it still holds.
\<close>

inductive rstep ::
  "coro_env \<Rightarrow> 'a val any_type \<Rightarrow> 'a group \<Rightarrow> 'h \<Rightarrow> ('a, 'h) rconfig \<Rightarrow> ('a, 'h) rconfig \<Rightarrow> bool" for env ty G h where
  r_launch: "any_phase c = Looping i \<Longrightarrow> i < length (any_inputs c) \<Longrightarrow> index c = - 1 \<Longrightarrow> free_thread R (gr_thread G) \<Longrightarrow>
    rstep env ty G h (PRun {#} R s, v, c)
      (pafter {#} R (start_held env G i (v ! i) (s\<lparr>running := gr_thread G\<rparr>)), v[i := snd (Lazy_move_ctor (v ! i))],
       CollectAny_launch i c)"
| r_leave: "any_phase c = Looping i \<Longrightarrow> \<not> (i < length (any_inputs c) \<and> index c = - 1) \<Longrightarrow> free_thread R (gr_thread G) \<Longrightarrow>
    rstep env ty G h (PRun {#} R s, v, c)
      (pafter {#} R (seq (vector_dtor (zip (gr_inputs G) v)) (ret None) (s\<lparr>running := gr_thread G\<rparr>)), [], CollectAny_leave c)"
| r_count: "i < length (any_inputs c) \<Longrightarrow> any_inputs c ! i = Running \<Longrightarrow> i \<in> fst ` set (cb_results s) \<Longrightarrow>
    rstep env ty G h (PRun {#} R s, v, c) (PRun {#} R s, v, CollectAny_count i c)"
| r_set_index: "i < length (any_inputs c) \<Longrightarrow> any_inputs c ! i = First \<Longrightarrow>
    rstep env ty G h (PRun {#} R s, v, c) (PRun {#} R s, v, CollectAny_set_index i c)"
| r_finish: "i < length (any_inputs c) \<Longrightarrow> any_inputs c ! i = Indexed \<Longrightarrow> (i, t) \<in> set (cb_results s) \<Longrightarrow>
    rstep env ty G h (PRun {#} R s, v, c) (PRun {#} R s, v, CollectAny_finish h t i c)"
| r_take: "any_resumes c \<noteq> [] \<Longrightarrow> any_taken c = None \<Longrightarrow>
    rstep env ty G h (PRun {#} R s, v, c) (PRun {#} R s, v, CollectAny_take ty c)"
| r_work: "pstep env (PRun {#} R s) q \<Longrightarrow> keeps_thread (loop_busy G (any_phase c \<noteq> LoopLeft)) (gr_thread G) R q \<Longrightarrow>
    rstep env ty G h (PRun {#} R s, v, c) (q, v, c)"

abbreviation rmust ::
  "coro_env \<Rightarrow> 'a val any_type \<Rightarrow> 'a group \<Rightarrow> 'h \<Rightarrow> (('a, 'h) rconfig \<Rightarrow> bool) \<Rightarrow> ('a, 'h) rconfig \<Rightarrow> bool" where
  "rmust env ty G h \<equiv> inevitably (rstep env ty G h)"

abbreviation race_of :: "('a, 'h) rconfig \<Rightarrow> ('a val, 'h) collect_any" where
  "race_of x \<equiv> snd (snd x)"

definition race_start :: "'a group \<Rightarrow> ('a, 'h) rconfig" where
  "race_start G =
     (PRun {#} {#} (idle_machine\<lparr>frames := map (\<lambda>x. Some (input_frame x)) (gr_inputs G)\<rparr>),
      map Some [0..<length (gr_inputs G)], CollectAny_start (length (gr_inputs G)))"

definition entered :: "('v, 'h) collect_any \<Rightarrow> nat \<Rightarrow> bool" where
  "entered c i \<longleftrightarrow> any_inputs c ! i \<noteq> Waiting \<and> any_inputs c ! i \<noteq> Dropped"

text \<open>
  The end: some input that was started has won, its result has been taken, and all that were started have run to their end. The
  frames that are left are those of the \<open>RescheduleLazy\<close> inputs that were never started; nothing refers to them.
\<close>

definition race_ended ::
  "coro_env \<Rightarrow> 'a val any_type \<Rightarrow> 'a group \<Rightarrow> 'h \<Rightarrow> (exn + 'a val) list \<Rightarrow> ('a, 'h) rconfig \<Rightarrow> bool" where
  "race_ended env ty G h rs x \<longleftrightarrow>
     (\<exists>w < length rs. entered (race_of x) w \<and> w = hd (order (race_of x)) \<and>
        any_resumes (race_of x) = [(h, of_nat w, try_of (rs ! w))] \<and>
        any_taken (race_of x) = Some \<lparr>result_index = of_nat w, result_value = try_of (rs ! w)\<rparr>) \<and>
     finished_but {i. i < length rs \<and> \<not> entered (race_of x) i \<and> rescheduled (gr_inputs G ! i)}
       (map (\<lambda>i. (i, rs ! i)) (filter (entered (race_of x)) [0..<length rs])) (fst x) \<and>
     (\<forall>y. \<not> rstep env ty G h x y)"

section \<open>Starting and destroying what the vector holds\<close>

lemma logs_start_held: "logs True (start_held env G i z)"
  by (cases "gr_inputs G ! i") (simp_all only: start_held_def inherit_executor_def Start_input.simps, (intro log)+)

lemma sim_start_held:
  assumes "handle_rel f c d"
  shows "sim K f next_rel (start_held env G i (Some c)) (start_held env G i (Some d))"
proof -
  have "sim K f same (inherit_executor ex (Some c)) (inherit_executor ex (Some d))" for ex
    unfolding inherit_executor_def option.case
    by (rule sim_bind_executor_of [OF assms]) (auto intro!: sims intro: handle_grows [OF assms] split: option.split)
  then show ?thesis unfolding start_held_def
    by (cases "gr_inputs G ! i") (auto intro!: sim_seq sim_starts intro: handle_grows [OF assms])
qed

text \<open>An input that is held does, started, what a call that makes it does.\<close>

lemma start_held_alone:
  "start_held env G i (Some 0) (idle_machine\<lparr>frames := [Some (input_frame (gr_inputs G ! i))], running := th\<rparr>) =
     sync_call env (race_call G i) (idle_machine\<lparr>running := th\<rparr>)"
  by (cases "gr_inputs G ! i")
    (auto simp: start_held_def inherit_executor_def race_call_def executor_of_def promise_of_def frame_at_def set_frame_def
      new_lazy_def new_frame_def Lazy_SetExecutor_def Lazy_Via_def Lazy_set_executor_def LOGIC_ASSERT_def lp_set_executor_def
      idle_machine_def outcome_simps split: option.split)

text \<open>The handles that the vector holds, and what its destructor does to their frames.\<close>

fun held_inputs :: "('a group_input \<times> lazy) list \<Rightarrow> ('a group_input \<times> nat) list" where
  "held_inputs [] = []"
| "held_inputs ((x, None) # xs) = held_inputs xs"
| "held_inputs ((x, Some k) # xs) = (x, k) # held_inputs xs"

lemma held_zip:
  "held_inputs (map (\<lambda>i. (f i, if P i then None else Some i)) is) = map (\<lambda>i. (f i, i)) (filter (\<lambda>i. \<not> P i) is)"
  by (induction "is") auto

lemma destroy_unstarted:
  assumes "items_of s = add_mset (IFrame k (Some (input_frame x))) M"
  obtains s' where "destroy k s = (Return (), s')" and "items_of s' = add_mset (IFrame k None) M"
proof -
  have "IFrame k (Some (input_frame x)) \<in># items_of s" using assms by simp
  then have k: "k < length (frames s)" "frames s ! k = Some (input_frame x)" by (simp_all add: item_frame_iff)
  from k have "destroy k s = (Return (), s\<lparr>frames := (frames s)[k := None]\<rparr>)"
    by (cases x) (simp_all add: destroy_def frame_at_def promise_of_def set_frame_def LazyPromise_dtor_def LazyPromise_ctor_def
        outcome_simps)
  moreover have "items_of (s\<lparr>frames := (frames s)[k := None]\<rparr>) = add_mset (IFrame k None) M"
    using assms k by (metis add_mset_eq_single add_mset_remove_trivial items_of_frames)
  ultimately show thesis by (rule that)
qed

lemma vector_dtor_runs:
  assumes "items_of s = image_mset (\<lambda>(x, k). IFrame k (Some (input_frame x))) (mset (held_inputs xs)) + M"
  shows "\<exists>s'. vector_dtor xs s = (Return (), s') \<and>
    items_of s' = image_mset (\<lambda>(x, k). IFrame k (if rescheduled x then Some (input_frame x) else None)) (mset (held_inputs xs)) + M"
  using assms
proof (induction xs arbitrary: s M rule: held_inputs.induct)
  case 1
  then show ?case by (simp add: outcome_simps)
next
  case (2 x xs)
  have "input_dtor x None s = (Return (), s)"
    by (cases x) (simp_all add: Lazy_dtor_def Reschedule_dtor_def outcome_simps)
  with "2.IH" [of s M] "2.prems" show ?case by (auto simp: run_seq run_bind)
next
  case (3 x k xs)
  have "\<exists>s1. input_dtor x (Some k) s = (Return (), s1) \<and>
      items_of s1 = add_mset (IFrame k (if rescheduled x then Some (input_frame x) else None))
        (image_mset (\<lambda>(x, k). IFrame k (Some (input_frame x))) (mset (held_inputs xs)) + M)"
  proof (cases x)
    case (LazyInput own b)
    from "3.prems" obtain s1 where "destroy k s = (Return (), s1)"
      "items_of s1 = add_mset (IFrame k None) (image_mset (\<lambda>(x, k). IFrame k (Some (input_frame x))) (mset (held_inputs xs)) + M)"
      using destroy_unstarted [of s k x] by auto
    with LazyInput show ?thesis by (simp add: Lazy_dtor_def)
  next
    case (RescheduleInput e b)
    with "3.prems" show ?thesis by (simp add: Reschedule_dtor_def outcome_simps)
  qed
  then obtain s1 where s1: "input_dtor x (Some k) s = (Return (), s1)"
    "items_of s1 = image_mset (\<lambda>(x, k). IFrame k (Some (input_frame x))) (mset (held_inputs xs)) +
       add_mset (IFrame k (if rescheduled x then Some (input_frame x) else None)) M" by auto
  from "3.IH" [OF s1(2)] s1(1) show ?case by (auto simp: run_seq run_bind)
qed

section \<open>The invariant\<close>

lemma race_call_simps [simp]:
  "call_place (race_call G i) = i" "call_loc (race_call G i) = map_option fst (gr_thread G)"
  by (cases "gr_inputs G ! i"; simp add: race_call_def)+

text \<open>The frames of the inputs that have not been started, which belong to no part of the machine.\<close>

definition unstarted_frame :: "'a group \<Rightarrow> ('v, 'h) collect_any \<Rightarrow> nat \<Rightarrow> 'a item" where
  "unstarted_frame G c i =
     IFrame i (if any_inputs c ! i = Dropped \<and> \<not> rescheduled (gr_inputs G ! i) then None else Some (input_frame (gr_inputs G ! i)))"

definition unstarted :: "'a group \<Rightarrow> nat \<Rightarrow> ('v, 'h) collect_any \<Rightarrow> 'a item multiset" where
  "unstarted G n c = image_mset (unstarted_frame G c) (mset (filter (\<lambda>i. \<not> entered c i) [0..<n]))"

definition vector_ok :: "nat \<Rightarrow> ('v, 'h) collect_any \<Rightarrow> lazy list \<Rightarrow> bool" where
  "vector_ok n c v \<longleftrightarrow> any_phase c \<noteq> LoopLeft \<longrightarrow> v = map (\<lambda>i. if entered c i then None else Some i) [0..<n]"

definition race_inv :: "coro_env \<Rightarrow> 'a val any_type \<Rightarrow> 'a group \<Rightarrow> 'h \<Rightarrow> (exn + 'a val) list \<Rightarrow> 'a part multiset \<Rightarrow> ('a, 'h) rconfig \<Rightarrow> bool" where
  "race_inv env ty G h rs C x \<longleftrightarrow>
     (\<exists>S R s. consists_with (unstarted G (length rs) (race_of x)) env C S (PRun {#} R s) \<and> fst x = PRun {#} R s \<and>
        image_mset fst C = image_mset (\<lambda>i. (race_call G i, rs ! i)) (mset (filter (entered (race_of x)) [0..<length rs])) \<and>
        collect_any_reachable ty h (\<lambda>i. try_of (rs ! i)) (length rs) (race_of x) \<and>
        (\<forall>i < length rs. counted (any_inputs (race_of x) ! i) \<longrightarrow> i \<in> fst ` set (cb_results s)) \<and>
        vector_ok (length rs) (race_of x) (fst (snd x)))"

lemma race_invE:
  assumes "race_inv env ty G h rs C x"
  obtains S R s v c where "x = (PRun {#} R s, v, c)" and "consists_with (unstarted G (length rs) c) env C S (PRun {#} R s)"
    and "image_mset fst C = image_mset (\<lambda>i. (race_call G i, rs ! i)) (mset (filter (entered c) [0..<length rs]))"
    and "collect_any_reachable ty h (\<lambda>i. try_of (rs ! i)) (length rs) c"
    and "\<forall>i < length rs. counted (any_inputs c ! i) \<longrightarrow> i \<in> fst ` set (cb_results s)"
    and "vector_ok (length rs) c v"
  using assms by (cases x) (auto simp: race_inv_def)

lemma race_length:
  assumes "collect_any_reachable ty h res n c"
  shows "length (any_inputs c) = n"
  using any_okD(3) [OF any_reachable_ok [OF assms]] .

lemma counted_entered: "counted (any_inputs c ! i) \<Longrightarrow> entered c i"
  by (auto simp: entered_def)

text \<open>While the loop runs nothing is dropped; afterwards all that was not started is.\<close>

lemma unstarted_looping:
  assumes "collect_any_reachable ty h res n c" and "any_phase c = Looping k"
  shows "unstarted G n c = image_mset (\<lambda>i. IFrame i (Some (input_frame (gr_inputs G ! i)))) (mset (filter (\<lambda>i. \<not> entered c i) [0..<n]))"
proof -
  have "any_inputs c ! i \<noteq> Dropped" if "i < n" for i
    using any_okD(3,5) [OF any_reachable_ok [OF assms(1)]] assms(2) that by (simp add: phase_ok_def)
  then show ?thesis unfolding unstarted_def unstarted_frame_def by (intro image_mset_cong) simp
qed

lemma unstarted_left:
  assumes "\<And>i. i < n \<Longrightarrow> any_inputs c ! i \<noteq> Waiting"
  shows "unstarted G n c =
    image_mset (\<lambda>i. IFrame i (if rescheduled (gr_inputs G ! i) then Some (input_frame (gr_inputs G ! i)) else None))
      (mset (filter (\<lambda>i. \<not> entered c i) [0..<n]))"
  unfolding unstarted_def unstarted_frame_def using assms by (intro image_mset_cong) (auto simp: entered_def)

lemma unstarted_inert: "inert (unstarted G n c)"
  by (auto simp: inert_def unstarted_def unstarted_frame_def)

text \<open>A result is that of an input that was started.\<close>

lemma race_results:
  assumes C: "consists_with K env C S (PRun {#} R s)"
    and parts: "image_mset fst C = image_mset (\<lambda>i. (race_call G i, rs ! i)) (mset (filter (entered c) [0..<length rs]))"
    and x: "(i, t) \<in> set (cb_results s)"
  shows "i < length rs \<and> entered c i \<and> t = try_of (rs ! i)"
proof -
  note p = consists_parts [OF C]
  have "results_in (all_items S) = mset (cb_results s)"
    using p(4) results_in_machine [of s] results_in_inert [OF p(5)] by simp
  with parts_share [OF p(1)] x obtain d where d: "d \<in># C" "(i, t) = (call_place (fst (fst d)), try_of (snd (fst d)))" by auto
  then have "fst d \<in># image_mset fst C" by simp
  then obtain j where "j < length rs" "entered c j" "fst d = (race_call G j, rs ! j)" unfolding parts by auto
  with d(2) show ?thesis by simp
qed

section \<open>Steps keep the invariant\<close>

text \<open>An awaiter step that starts nothing: it changes the state of started inputs only.\<close>

lemma race_awaits:
  assumes inv: "race_inv env ty G h rs C (PRun {#} R s, v, c)" and c': "collect_any_step ty h (\<lambda>i. try_of (rs ! i)) c c'"
    and same: "\<And>j. j < length rs \<Longrightarrow> any_inputs c' ! j = any_inputs c ! j \<or> entered c j \<and> entered c' j"
      "\<And>j. j < length rs \<Longrightarrow> counted (any_inputs c' ! j) \<Longrightarrow> counted (any_inputs c ! j) \<or> j \<in> fst ` set (cb_results s)"
      "any_phase c' = any_phase c"
  shows "race_inv env ty G h rs C (PRun {#} R s, v, c')"
proof -
  have ent: "entered c' j = entered c j" if "j < length rs" for j using same(1) [OF that] by (auto simp: entered_def)
  then have f: "filter (entered c') [0..<length rs] = filter (entered c) [0..<length rs]"
    "filter (\<lambda>i. \<not> entered c' i) [0..<length rs] = filter (\<lambda>i. \<not> entered c i) [0..<length rs]"
    by (intro filter_cong; simp)+
  have "unstarted_frame G c' j = unstarted_frame G c j" if "j < length rs" "\<not> entered c j" for j
    using same(1) [OF that(1)] that(2) by (simp add: unstarted_frame_def)
  then have "unstarted G (length rs) c' = unstarted G (length rs) c"
    unfolding unstarted_def f(2) by (intro image_mset_cong) simp
  moreover have "map (\<lambda>i. if entered c' i then None else Some i) [0..<length rs] =
      map (\<lambda>i. if entered c i then None else Some i) [0..<length rs]" using ent by (intro map_cong) simp_all
  then have "vector_ok (length rs) c' v = vector_ok (length rs) c v" by (simp only: vector_ok_def same(3))
  ultimately show ?thesis using inv c' same(2) f(1) by (fastforce simp: race_inv_def intro: any_next)
qed

lemma entered_launch:
  assumes "i < length (any_inputs c)"
  shows "entered (CollectAny_launch i c) j \<longleftrightarrow> j = i \<or> entered c j"
  using assms by (auto simp: entered_def CollectAny_launch_def nth_list_update)

lemma mset_filter_insert:
  assumes "i < n" and "\<not> P i" and "\<And>j. Q j \<longleftrightarrow> j = i \<or> P j"
  shows "mset (filter Q [0..<n]) = add_mset i (mset (filter P [0..<n]))"
    and "mset (filter (\<lambda>j. \<not> P j) [0..<n]) = add_mset i (mset (filter (\<lambda>j. \<not> Q j) [0..<n]))"
proof -
  have "i \<notin> set (filter P [0..<n])" "set (filter Q [0..<n]) = insert i (set (filter P [0..<n]))"
    "i \<notin> set (filter (\<lambda>j. \<not> Q j) [0..<n])" "set (filter (\<lambda>j. \<not> P j) [0..<n]) = insert i (set (filter (\<lambda>j. \<not> Q j) [0..<n]))"
    using assms by auto
  then show "mset (filter Q [0..<n]) = add_mset i (mset (filter P [0..<n]))"
    and "mset (filter (\<lambda>j. \<not> P j) [0..<n]) = add_mset i (mset (filter (\<lambda>j. \<not> Q j) [0..<n]))"
    by (metis distinct_filter distinct_upt distinct.simps(2) list.simps(15) mset.simps(2) set_eq_iff_mset_eq_distinct)+
qed

lemma race_starts:
  assumes ok: "env_ok env" and th: "thread_in env (map_option fst (gr_thread G)) (gr_thread G)"
    and m: "\<forall>i < length rs. call_meaning (race_call G i) = outcome_of (rs ! i)"
    and inv: "race_inv env ty G h rs C (PRun {#} R s, v, c)"
    and i: "any_phase c = Looping i" "i < length (any_inputs c)" "index c = - 1"
  shows "\<exists>D. race_inv env ty G h rs D (pafter {#} R (start_held env G i (v ! i) (s\<lparr>running := gr_thread G\<rparr>)),
    v[i := snd (Lazy_move_ctor (v ! i))], CollectAny_launch i c)"
proof -
  from inv obtain S where S: "consists_with (unstarted G (length rs) c) env C S (PRun {#} R s)"
    "image_mset fst C = image_mset (\<lambda>i. (race_call G i, rs ! i)) (mset (filter (entered c) [0..<length rs]))"
    "collect_any_reachable ty h (\<lambda>i. try_of (rs ! i)) (length rs) c"
    "\<forall>i < length rs. counted (any_inputs c ! i) \<longrightarrow> i \<in> fst ` set (cb_results s)" "vector_ok (length rs) c v"
    by (auto simp: race_inv_def)
  let ?c = "CollectAny_launch i c" and ?F = "input_frame (gr_inputs G ! i)" and ?l = "race_call G i" and ?th = "gr_thread G"
  have len: "i < length rs" using race_length [OF S(3)] i(2) by simp
  have "any_inputs c ! i = Waiting" using any_okD(5) [OF any_reachable_ok [OF S(3)]] i(1,2) by (simp add: phase_ok_def)
  then have fresh: "\<not> entered c i" by (simp add: entered_def)
  note ins = mset_filter_insert [of i "length rs" "entered c" "entered ?c", OF len fresh entered_launch [OF i(2)]]
  have reach: "collect_any_reachable ty h (\<lambda>i. try_of (rs ! i)) (length rs) ?c"
    by (rule any_next [OF S(3) collect_any_step.launch [OF i]])
  have ph: "any_phase ?c = Looping (Suc i)" by (simp add: CollectAny_launch_def)
  have v: "v ! i = Some i" using S(5) i(1) len fresh by (simp add: vector_ok_def)
  have K: "unstarted G (length rs) c = add_mset (IFrame i (Some ?F)) (unstarted G (length rs) ?c)"
    unfolding unstarted_looping [OF S(3) i(1)] unstarted_looping [OF reach ph] ins(2) by simp
  have F: "frame_rel [i] ?F ?F"
    by (cases "gr_inputs G ! i") (simp_all add: promise_rel_def LazyPromise_ctor_def)
  have sim: "sim (unstarted G (length rs) ?c + all_items S) [i] next_rel (start_held env G i (Some 0)) (start_held env G i (Some i))"
    by (rule sim_start_held) (simp add: handle_rel_def)
  have own: "must env (finished (?l, rs ! i)) (after (start_held env G i (Some 0) (idle_machine\<lparr>frames := [Some ?F], running := ?th\<rparr>)))"
    "single_flow (after (start_held env G i (Some 0) (idle_machine\<lparr>frames := [Some ?F], running := ?th\<rparr>)))"
    unfolding start_held_alone using call_finishes [OF ok, of ?l "rs ! i" ?th] single_call m len th by simp_all
  from adopt_step [OF S(1) [unfolded K] F sim own] obtain D T where D:
    "consists_with (unstarted G (length rs) ?c) env D T (pafter {#} R (start_held env G i (Some i) (s\<lparr>running := ?th\<rparr>)))"
    "image_mset fst D = add_mset (?l, rs ! i) (image_mset fst C)" by (auto simp: advances_def)
  then obtain L' R' t where q: "pafter {#} R (start_held env G i (Some i) (s\<lparr>running := ?th\<rparr>)) = PRun L' R' t"
    by (auto simp: consists_with_def)
  from pafter_logs(1,2) [OF logs_start_held q] have t: "L' = {#}" "cb_results t = cb_results s" by simp_all
  have "image_mset fst D = image_mset (\<lambda>i. (race_call G i, rs ! i)) (mset (filter (entered ?c) [0..<length rs]))"
    unfolding ins(1) by (simp add: D(2) S(2))
  moreover have "\<forall>j < length rs. counted (any_inputs ?c ! j) \<longrightarrow> j \<in> fst ` set (cb_results t)"
    using S(4) i(2) by (auto simp: t CollectAny_launch_def nth_list_update)
  moreover have "vector_ok (length rs) ?c (v[i := snd (Lazy_move_ctor (v ! i))])"
    using S(5) i(1) len by (auto simp: vector_ok_def Lazy_move_ctor_def entered_launch [OF i(2)] intro!: nth_equalityI simp: nth_list_update)
  ultimately show ?thesis
    using D(1) reach unfolding race_inv_def v q by (intro exI [of _ D]) (auto simp: t)
qed

text \<open>The end of the loop destroys the frames that the vector still holds, those of \<open>RescheduleLazy\<close> inputs excepted.\<close>

lemma race_leaves:
  assumes inv: "race_inv env ty G h rs C (PRun {#} R s, v, c)" and n: "length (gr_inputs G) = length rs"
    and i: "any_phase c = Looping i" "\<not> (i < length (any_inputs c) \<and> index c = - 1)"
  shows "race_inv env ty G h rs C
    (pafter {#} R (seq (vector_dtor (zip (gr_inputs G) v)) (ret None) (s\<lparr>running := gr_thread G\<rparr>)), [], CollectAny_leave c)"
proof -
  from inv obtain S where S: "consists_with (unstarted G (length rs) c) env C S (PRun {#} R s)"
    "image_mset fst C = image_mset (\<lambda>i. (race_call G i, rs ! i)) (mset (filter (entered c) [0..<length rs]))"
    "collect_any_reachable ty h (\<lambda>i. try_of (rs ! i)) (length rs) c"
    "\<forall>i < length rs. counted (any_inputs c ! i) \<longrightarrow> i \<in> fst ` set (cb_results s)" "vector_ok (length rs) c v"
    by (auto simp: race_inv_def)
  let ?c = "CollectAny_leave c"
  note len = race_length [OF S(3)] and parts = consists_parts [OF S(1)]
  have reach: "collect_any_reachable ty h (\<lambda>i. try_of (rs ! i)) (length rs) ?c"
    by (rule any_next [OF S(3) collect_any_step.leave [OF i]])
  have same: "entered ?c j = entered c j" "counted (any_inputs ?c ! j) = counted (any_inputs c ! j)" "any_inputs ?c ! j \<noteq> Waiting"
    if "j < length rs" for j using that len by (auto simp: entered_def CollectAny_leave_def)
  then have f: "filter (entered ?c) [0..<length rs] = filter (entered c) [0..<length rs]"
    "filter (\<lambda>i. \<not> entered ?c i) [0..<length rs] = filter (\<lambda>i. \<not> entered c i) [0..<length rs]"
    by (intro filter_cong; simp)+
  have "zip (gr_inputs G) v = map (\<lambda>i. (gr_inputs G ! i, if entered c i then None else Some i)) [0..<length rs]"
    using S(5) i(1) n by (intro nth_equalityI) (simp_all add: vector_ok_def)
  then have held: "held_inputs (zip (gr_inputs G) v) = map (\<lambda>i. (gr_inputs G ! i, i)) (filter (\<lambda>i. \<not> entered c i) [0..<length rs])"
    by (simp add: held_zip)
  have "items_of (s\<lparr>running := gr_thread G\<rparr>) =
      image_mset (\<lambda>(x, k). IFrame k (Some (input_frame x))) (mset (held_inputs (zip (gr_inputs G) v))) + all_items S"
    using parts(4) unstarted_looping [OF S(3) i(1), of G]
    by (simp add: held image_mset.compositionality comp_def)
  note run = vector_dtor_runs [OF this]
  have "unstarted G (length rs) ?c = image_mset (\<lambda>(x, k). IFrame k (if rescheduled x then Some (input_frame x) else None))
      (mset (held_inputs (zip (gr_inputs G) v)))"
    unfolding held mset_map image_mset.compositionality comp_def prod.case
    by (rule unstarted_left [where n = "length rs" and c = ?c, OF same(3), unfolded f(2)])
  from run [folded this] obtain t where t: "vector_dtor (zip (gr_inputs G) v) (s\<lparr>running := gr_thread G\<rparr>) = (Return (), t)"
    "items_of t = unstarted G (length rs) ?c + all_items S" by blast
  have q: "pafter {#} R (seq (vector_dtor (zip (gr_inputs G) v)) (ret None) (s\<lparr>running := gr_thread G\<rparr>)) = PRun {#} R t"
    by (simp add: run_seq run_bind t(1) outcome_simps pafter_def)
  have "mset (cb_results t) = mset (cb_results s)"
    using results_in_machine [of t] results_in_machine [of s] t(2) parts(4,5) unstarted_inert results_in_inert by (metis results_in_simps(2))
  then have "set (cb_results t) = set (cb_results s)" by (metis set_mset_mset)
  moreover have "consists_with (unstarted G (length rs) ?c) env C S (PRun {#} R t)"
    using parts t(2) by (auto simp: consists_with_def unstarted_inert)
  moreover have "vector_ok (length rs) ?c []" by (simp add: vector_ok_def CollectAny_leave_def)
  ultimately show ?thesis
    using S(2,4) same(2) reach unfolding race_inv_def q by (intro exI [of _ S] exI [of _ R] exI [of _ t]) (simp add: f(1))
qed

lemma race_works:
  assumes ok: "env_ok env" and inv: "race_inv env ty G h rs C (PRun {#} R s, v, c)" and step: "pstep env (PRun {#} R s) q"
  shows "\<exists>D. race_inv env ty G h rs D (q, v, c) \<and> (D, C) \<in> mult1 (moves env)"
proof -
  from inv obtain S where S: "consists_with (unstarted G (length rs) c) env C S (PRun {#} R s)"
    "image_mset fst C = image_mset (\<lambda>i. (race_call G i, rs ! i)) (mset (filter (entered c) [0..<length rs]))"
    "collect_any_reachable ty h (\<lambda>i. try_of (rs ! i)) (length rs) c"
    "\<forall>i < length rs. counted (any_inputs c ! i) \<longrightarrow> i \<in> fst ` set (cb_results s)" "vector_ok (length rs) c v"
    by (auto simp: race_inv_def)
  from parallel_step [OF ok S(1) step] obtain D T where
    D: "consists_with (unstarted G (length rs) c) env D T q" "advances env D C" by blast
  obtain L' R' s' where q: "q = PRun L' R' s'" using D(1) by (auto simp: consists_with_def)
  have L': "L' = {#}" by (rule no_calls_kept [OF step refl q])
  from pstep_logs [OF step refl q] obtain new where "cb_results s' = cb_results s @ new" by blast
  then show ?thesis
    using D S(2-5) unfolding race_inv_def q L' by (intro exI [of _ D]) (auto simp: advances_def)
qed

lemma race_finish_step:
  assumes inv: "race_inv env ty G h rs C (PRun {#} R s, v, c)" and t: "(i, t) \<in> set (cb_results s)"
    and i: "i < length (any_inputs c)" "any_inputs c ! i = Indexed"
  shows "collect_any_step ty h (\<lambda>i. try_of (rs ! i)) c (CollectAny_finish h t i c)"
proof -
  from inv obtain S where "consists_with (unstarted G (length rs) c) env C S (PRun {#} R s)"
    "image_mset fst C = image_mset (\<lambda>i. (race_call G i, rs ! i)) (mset (filter (entered c) [0..<length rs]))"
    by (auto simp: race_inv_def)
  from race_results [OF this t] have "t = try_of (rs ! i)" by blast
  with collect_any_step.finish [OF i, of ty h "\<lambda>i. try_of (rs ! i)"] show ?thesis by simp
qed

text \<open>Every step but those of the machine is a step of the awaiter.\<close>

lemma race_awaiter_step:
  assumes "rstep env ty G h x y" and "race_inv env ty G h rs C x"
  shows "collect_any_step ty h (\<lambda>i. try_of (rs ! i)) (race_of x) (race_of y) \<or>
    race_of y = race_of x \<and> (\<exists>R s. fst x = PRun {#} R s \<and> pstep env (fst x) (fst y))"
  using assms
proof (induction rule: rstep.induct)
  case (r_finish i c t s R v)
  then show ?case using race_finish_step [OF r_finish(4,3,1,2)] by simp
qed (auto intro: collect_any_step.intros)

lemma race_step:
  assumes ok: "env_ok env" and th: "thread_in env (map_option fst (gr_thread G)) (gr_thread G)"
    and m: "\<forall>i < length rs. call_meaning (race_call G i) = outcome_of (rs ! i)" and n: "length (gr_inputs G) = length rs"
    and step: "rstep env ty G h x y" and inv: "race_inv env ty G h rs C x"
  shows "\<exists>D. race_inv env ty G h rs D y \<and>
    (any_measure (race_of y) < any_measure (race_of x) \<or> race_of y = race_of x \<and> (D, C) \<in> mult1 (moves env))"
proof -
  let ?step = "collect_any_step ty h (\<lambda>i. try_of (rs ! i))"
  have reach: "collect_any_reachable ty h (\<lambda>i. try_of (rs ! i)) (length rs) (race_of x)" using inv by (auto simp: race_inv_def)
  note len = race_length [OF reach]
  have "\<exists>D. race_inv env ty G h rs D y \<and> (race_of y = race_of x \<longrightarrow> (D, C) \<in> mult1 (moves env) \<or> ?step (race_of x) (race_of y))"
    using step inv len
  proof (induction rule: rstep.induct)
    case (r_launch c i R s v)
    from race_starts [OF ok th m r_launch(5,1,2,3)] show ?case
      using collect_any_step.launch [OF r_launch(1,2,3)] by auto
  next
    case (r_leave c i R s v)
    from race_leaves [OF r_leave(4) n r_leave(1,2)] show ?case
      using collect_any_step.leave [OF r_leave(1,2)] by auto
  next
    case (r_count i c s R v)
    have "any_inputs (CollectAny_count i c) ! j = any_inputs c ! j \<or> entered c j \<and> entered (CollectAny_count i c) j"
      "counted (any_inputs (CollectAny_count i c) ! j) \<Longrightarrow> counted (any_inputs c ! j) \<or> j \<in> fst ` set (cb_results s)"
      "any_phase (CollectAny_count i c) = any_phase c"
      for j using r_count(1,2,3) by (cases "j = i"; simp add: entered_def CollectAny_count_def split: prod.splits)+
    with race_awaits [OF r_count(4) collect_any_step.count [OF r_count(1,2)]] show ?case
      using collect_any_step.count [OF r_count(1,2)] by auto
  next
    case (r_set_index i c R s v)
    have "any_inputs (CollectAny_set_index i c) ! j = any_inputs c ! j \<or> entered c j \<and> entered (CollectAny_set_index i c) j"
      "counted (any_inputs (CollectAny_set_index i c) ! j) = counted (any_inputs c ! j)"
      "any_phase (CollectAny_set_index i c) = any_phase c"
      for j using r_set_index(1,2) by (cases "j = i"; simp add: entered_def CollectAny_set_index_def)+
    with race_awaits [OF r_set_index(3) collect_any_step.set_index [OF r_set_index(1,2)]] show ?case
      using collect_any_step.set_index [OF r_set_index(1,2)] by auto
  next
    case (r_finish i c t s R v)
    have "any_inputs (CollectAny_finish h t i c) ! j = any_inputs c ! j \<or> entered c j \<and> entered (CollectAny_finish h t i c) j"
      "counted (any_inputs (CollectAny_finish h t i c) ! j) = counted (any_inputs c ! j)"
      "any_phase (CollectAny_finish h t i c) = any_phase c"
      for j using r_finish(1,2) by (cases "j = i"; simp add: entered_def CollectAny_finish_def)+
    with race_awaits [OF r_finish(4) race_finish_step [OF r_finish(4,3,1,2)]] show ?case
      using race_finish_step [OF r_finish(4,3,1,2)] by auto
  next
    case (r_take c R s v)
    have "CollectAny_take ty c \<noteq> c" using r_take(2) CollectAny_take_fields(1) [of ty c] by auto
    with race_awaits [OF r_take(3) collect_any_step.take_result [OF r_take(1,2)]] show ?case
      by (auto simp: CollectAny_take_fields)
  next
    case (r_work R s q c v)
    from race_works [OF ok r_work(3,1)] show ?case by auto
  qed
  then obtain D where D: "race_inv env ty G h rs D y"
    "race_of y = race_of x \<Longrightarrow> (D, C) \<in> mult1 (moves env) \<or> ?step (race_of x) (race_of y)" by blast
  from race_awaiter_step [OF step inv] any_step_measure [OF _ any_reachable_ok [OF reach]] D show ?thesis by blast
qed

section \<open>The race goes on until it is ended\<close>

lemma race_end:
  assumes C: "consists_with (unstarted G (length rs) c) env C S (PRun {#} R s)"
    and parts: "image_mset fst C = image_mset (\<lambda>i. (race_call G i, rs ! i)) (mset (filter (entered c) [0..<length rs]))"
    and reach: "collect_any_reachable ty h res (length rs) c" and left: "any_phase c = LoopLeft"
    and d: "\<forall>p \<in># C. done_part p"
  shows "finished_but {i. i < length rs \<and> \<not> entered c i \<and> rescheduled (gr_inputs G ! i)}
      (map (\<lambda>i. (i, rs ! i)) (filter (entered c) [0..<length rs])) (PRun {#} R s)"
    and "i < length rs \<Longrightarrow> entered c i \<Longrightarrow> i \<in> fst ` set (cb_results s)"
proof -
  have "image_mset (\<lambda>c. (call_place (fst (fst c)), snd (fst c))) C = image_mset (\<lambda>x. (call_place (fst x), snd x)) (image_mset fst C)"
    by (simp add: image_mset.compositionality comp_def)
  also have "\<dots> = mset (map (\<lambda>i. (i, rs ! i)) (filter (entered c) [0..<length rs]))"
    by (simp add: parts image_mset.compositionality comp_def)
  finally have f: "finished_but {h. \<exists>F. IFrame h (Some F) \<in># unstarted G (length rs) c}
      (map (\<lambda>i. (i, rs ! i)) (filter (entered c) [0..<length rs])) (PRun {#} R s)"
    by (intro all_done_but [OF C d])
  have "any_inputs c ! j \<noteq> Waiting" if "j < length rs" for j
    using any_okD(3,5) [OF any_reachable_ok [OF reach]] left that by (simp add: phase_ok_def)
  from unstarted_left [OF this, where G = G and n = "length rs"]
  have "{h. \<exists>F. IFrame h (Some F) \<in># unstarted G (length rs) c} = {i. i < length rs \<and> \<not> entered c i \<and> rescheduled (gr_inputs G ! i)}"
    by (auto simp: image_iff split: if_splits)
  with f show f': "finished_but {i. i < length rs \<and> \<not> entered c i \<and> rescheduled (gr_inputs G ! i)}
      (map (\<lambda>i. (i, rs ! i)) (filter (entered c) [0..<length rs])) (PRun {#} R s)" by simp
  assume i: "i < length rs" "entered c i"
  from f' have "mset (cb_results s) = mset (map (\<lambda>i. (i, try_of (rs ! i))) (filter (entered c) [0..<length rs]))"
    by (simp add: finished_but_def comp_def)
  then have "set (cb_results s) = set (map (\<lambda>i. (i, try_of (rs ! i))) (filter (entered c) [0..<length rs]))"
    by (metis set_mset_mset)
  with i show "i \<in> fst ` set (cb_results s)" by force
qed

lemma race_progress:
  assumes ok: "env_ok env" and inv: "race_inv env ty G h rs C x"
  shows "race_ended env ty G h rs x \<or> (\<exists>y. rstep env ty G h x y)"
proof -
  obtain S R s v c where x: "x = (PRun {#} R s, v, c)" and S: "consists_with (unstarted G (length rs) c) env C S (PRun {#} R s)"
    "image_mset fst C = image_mset (\<lambda>i. (race_call G i, rs ! i)) (mset (filter (entered c) [0..<length rs]))"
    "collect_any_reachable ty h (\<lambda>i. try_of (rs ! i)) (length rs) c"
    "\<forall>i < length rs. counted (any_inputs c ! i) \<longrightarrow> i \<in> fst ` set (cb_results s)" "vector_ok (length rs) c v"
    by (rule race_invE [OF inv])
  note len = race_length [OF S(3)] and inv' = any_reachable_ok [OF S(3)]
  have free: "free_thread {#} th" for th by (rule free_none) simp
  show ?thesis
  proof (cases "R = {#}")
    case False
    from flow_goes_on [OF this] show ?thesis unfolding x by (blast intro: r_work)
  next
    case R: True
    show ?thesis
    proof (cases "any_phase c")
      case (Looping i)
      with r_launch [OF Looping _ _ free] r_leave [OF Looping _ free] show ?thesis unfolding x R by blast
    next
      case LoopLeft
      show ?thesis
      proof (cases "\<forall>p \<in># C. done_part p")
        case False
        then obtain p where p: "p \<in># C" "\<not> done_part p" by blast
        from parallel_progress [OF ok S(1) p] obtain q where "pstep env (PRun {#} R s) q" by blast
        moreover have "keeps_thread (loop_busy G (any_phase c \<noteq> LoopLeft)) (gr_thread G) R q"
          using LoopLeft by (simp add: keeps_thread_def loop_busy_def split: pconfig.splits)
        ultimately show ?thesis unfolding x by (blast intro: r_work)
      next
        case True
        note f = race_end [OF S(1,2,3) LoopLeft True]
        show ?thesis
        proof (cases "\<exists>y. rstep env ty G h x y")
          case False
          have no: "any_inputs c ! i \<notin> {Running, First, Indexed}" if i: "i < length (any_inputs c)" for i
          proof
            assume st: "any_inputs c ! i \<in> {Running, First, Indexed}"
            then have "i \<in> fst ` set (cb_results s)" using f(2) [of i] i len by (auto simp: entered_def)
            with st i False r_count [of i c] r_set_index [of i c] r_finish [of i c] show False unfolding x by fastforce
          qed
          have untaken: "\<not> (any_resumes c \<noteq> [] \<and> any_taken c = None)" using False r_take [of c] unfolding x by blast
          have "\<not> collect_any_step ty h (\<lambda>i. try_of (rs ! i)) c d" for d
            using no untaken LoopLeft by (auto elim!: collect_any_stepE simp del: not_None_eq)
          then have "any_resumes c \<noteq> []" "any_taken c \<noteq> None" using any_stuck [OF inv'] by blast+
          with any_resumed [OF inv'] obtain w where w: "w < length rs" "order c \<noteq> []" "w = hd (order c)"
            "any_resumes c = [(h, of_nat w, try_of (rs ! w))]"
            "any_taken c = Some \<lparr>result_index = of_nat w, result_value = try_of (rs ! w)\<rparr>" by blast
          then have "w \<in> set (order c)" by simp
          then have "counted (any_inputs c ! w)" using any_okD(4) [OF inv'] by (simp add: order_ok_def)
          then have "entered c w" by (rule counted_entered)
          with w f(1) False show ?thesis unfolding race_ended_def x by auto
        qed simp
      qed
    qed
  qed
qed

definition race_sound ::
  "coro_env \<Rightarrow> 'a val any_type \<Rightarrow> 'a group \<Rightarrow> 'h \<Rightarrow> (exn + 'a val) list \<Rightarrow> 'a part multiset \<Rightarrow> ('a, 'h) rconfig \<Rightarrow> bool" where
  "race_sound env ty G h rs C x \<longleftrightarrow>
     env_ok env \<and> thread_in env (map_option fst (gr_thread G)) (gr_thread G) \<and> length (gr_inputs G) = length rs \<and>
     (\<forall>i < length rs. call_meaning (race_call G i) = outcome_of (rs ! i)) \<and> race_inv env ty G h rs C x"

interpretation race: ranked_system "rstep env ty G h" "race_sound env ty G h rs" "race_ended env ty G h rs"
    "inv_image (less_than <*lex*> mult1 (moves env)) (\<lambda>(C, x). (any_measure (race_of x), C))" for env ty G h rs
proof
  show "wf (inv_image (less_than <*lex*> mult1 (moves env)) (\<lambda>(C, x). (any_measure (race_of x), C)))"
    by (intro wf_inv_image wf_lex_prod wf_mult1 wf_moves wf_less_than)
  show "\<exists>y. rstep env ty G h x y" if "race_sound env ty G h rs C x" and "\<not> race_ended env ty G h rs x" for C x
    using that race_progress [of env ty G h rs C x] by (auto simp: race_sound_def)
  show "\<exists>D. race_sound env ty G h rs D y \<and>
      ((D, y), (C, x)) \<in> inv_image (less_than <*lex*> mult1 (moves env)) (\<lambda>(C, x). (any_measure (race_of x), C))"
    if "race_sound env ty G h rs C x" and "rstep env ty G h x y" for C x y
    using that race_step [of env G rs ty h x y C] by (auto simp: race_sound_def)
qed

lemma race_inv_start:
  fixes h :: 'h and rs :: "(exn + 'a val) list"
  assumes n: "length (gr_inputs G) = length rs" and size: "0 < length rs" "length rs + 1 < 2 ^ 64"
  shows "race_inv env ty G h rs {#} (race_start G)"
proof -
  let ?c = "CollectAny_start (length rs) :: ('a val, 'h) collect_any"
  have none: "\<not> entered ?c i" "\<not> counted (any_inputs ?c ! i)" if "i < length rs" for i
    using that by (simp_all add: entered_def CollectAny_start_def)
  then have f: "filter (entered ?c) [0..<length rs] = []" "filter (\<lambda>i. \<not> entered ?c i) [0..<length rs] = [0..<length rs]"
    by (auto simp: filter_empty_conv filter_id_conv)
  have reach: "collect_any_reachable ty h (\<lambda>i. try_of (rs ! i)) (length rs) ?c" by (rule any_start [OF size])
  have "unstarted G (length rs) ?c = image_mset (\<lambda>i. IFrame i (Some (input_frame (gr_inputs G ! i)))) (mset [0..<length rs])"
    by (rule unstarted_looping [OF reach, of 0 G, unfolded f(2)]) (simp add: CollectAny_start_def)
  also have "\<dots> = items_of (idle_machine\<lparr>frames := map (\<lambda>x. Some (input_frame x)) (gr_inputs G)\<rparr>)"
  proof -
    have "image_mset (\<lambda>i. IFrame i (map (\<lambda>x. Some (input_frame x)) (gr_inputs G) ! i)) (mset_set {..<length rs}) =
        image_mset (\<lambda>i. IFrame i (Some (input_frame (gr_inputs G ! i)))) (mset_set {..<length rs})"
      using n by (intro image_mset_cong) simp
    then show ?thesis by (simp add: idle_machine_def items_of_def frame_items_def n atLeast0LessThan)
  qed
  finally have "consists_with (unstarted G (length rs) ?c) env {#} {#}
      (PRun {#} {#} (idle_machine\<lparr>frames := map (\<lambda>x. Some (input_frame x)) (gr_inputs G)\<rparr>))"
    using unstarted_inert [of G "length rs" ?c] by (simp add: consists_with_def rel_mset_Zero)
  moreover have "vector_ok (length rs) ?c (map Some [0..<length rs])"
    using none(1) by (auto simp: vector_ok_def)
  ultimately show ?thesis using reach none(2) by (auto simp: race_inv_def race_start_def n f(1))
qed

section \<open>A leak\<close>

text \<open>
  A leak does happen: of two \<open>RescheduleLazy\<close> inputs the first has counted down and stored its index before the loop comes to the second, which
  is then not started; its frame stays suspended at its start when the vector is gone. (While the loop tests the index, the result must
  not have been taken yet, which puts the index back.)
\<close>

definition leaky :: "nat group" where
  "leaky = \<lparr>gr_para = False, gr_executor = None, gr_thread = None,
     gr_inputs = [RescheduleInput 0 (CoReturn VUnit), RescheduleInput 0 (CoReturn VUnit)]\<rparr>"

definition leaky_machine ::
  "nat frame option \<Rightarrow> nat frame option \<Rightarrow> cthread \<Rightarrow> (nat \<times> nat option \<times> job) multiset \<Rightarrow> (nat \<times> nat val try_val) list \<Rightarrow> nat cmachine" where
  "leaky_machine f0 f2 th ts rs =
     \<lparr>frames = [f0, Some (input_frame (RescheduleInput 0 (CoReturn VUnit))), f2], running = th, tasks = ts, timers = {#},
      arrivals = {#}, cb_results = rs\<rparr>"

lemmas leaky_simps = leaky_def leaky_machine_def race_start_def start_held_def inherit_executor_def executor_of_def promise_of_def frame_at_def set_frame_def
  Reschedule_Start_def Reschedule_await_suspend_def schedule_def new_frame_def lp_set_continuation_def two_workers_def pafter_def
  LazyPromise_ctor_def idle_machine_def outcome_simps resume_def final_suspend_def set_point_def Detached_finish_def AwaitResumeTry_def
  lazy_promise_defs destroy_def run_callback_def start_job_def noexcept_def ASSERT_def Lazy_move_ctor_def Reschedule_dtor_def

lemma rescheduled_input_leaks:
  fixes h :: 'h
  shows "\<exists>s c. (rstep two_workers (OfValue id) leaky h)\<^sup>*\<^sup>* (race_start leaky) (PRun {#} {#} s, [], c) \<and>
    frames s = [None, Some (input_frame (RescheduleInput 0 (CoReturn VUnit))), None]"
proof -
  let ?R = "rstep two_workers (OfValue id) leaky h"
  let ?w = "Some (0, 0)"
  let ?p = "LazyPromise_ctor\<lparr>lp_executor := Some 0, lp_continuation := Some 2\<rparr> :: nat val lazy_promise"
  let ?s1 = "leaky_machine (Some (LazyFrame (AtStart (CoReturn VUnit)) ?p)) (Some (DetachedFrame 0 (StoreResult 0))) None {#(0, None, Resume 0)#} []"
  let ?s2 = "leaky_machine (Some (LazyFrame (AtStart (CoReturn VUnit)) ?p)) (Some (DetachedFrame 0 (StoreResult 0))) ?w {#} []"
  let ?s3 = "leaky_machine (Some (LazyFrame AtFinal (?p\<lparr>lp_result_type := kHasValue, lp_storage := ValueMember VUnit\<rparr>))) (Some (DetachedFrame 0 (StoreResult 0))) ?w {#} []"
  let ?s4 = "leaky_machine None None ?w {#} [(0, Value VUnit)]"
  let ?s5 = "leaky_machine None None None {#} [(0, Value VUnit)]"
  let ?c0 = "CollectAny_start 2 :: (nat val, 'h) collect_any"
  let ?c1 = "CollectAny_launch 0 ?c0"
  let ?c2 = "CollectAny_count 0 ?c1"
  let ?c3 = "CollectAny_set_index 0 ?c2"
  have f: "free_thread R (gr_thread leaky)" for R by (simp add: free_thread_def leaky_def)
  have keep: "keeps_thread (loop_busy leaky b) (gr_thread leaky) R q" for b R q
    by (simp add: keeps_thread_def loop_busy_def leaky_def split: pconfig.split)
  let ?s0 = "idle_machine\<lparr>frames := map (\<lambda>x. Some (input_frame x)) (gr_inputs leaky)\<rparr>"
  have e: "pafter {#} {#} (start_held two_workers leaky 0 ([Some 0, Some 1] ! 0) (?s0\<lparr>running := gr_thread leaky\<rparr>)) = PRun {#} {#} ?s1"
    by (simp add: leaky_simps)
  have 1: "?R (race_start leaky) (PRun {#} {#} ?s1, [None, Some 1], ?c1)"
    using r_launch [where c = ?c0 and i = 0 and R = "{#}" and G = leaky and env = two_workers and s = ?s0 and v = "[Some 0, Some 1]" and ty = "OfValue id" and h = h,
      OF _ _ _ f, unfolded e]
    by (simp add: leaky_simps CollectAny_start_def numeral_2_eq_2)
  have e: "pafter {#} {#} (bind (start_job (Resume 0)) (\<lambda>h. ret (Some h)) (?s1\<lparr>tasks := tasks ?s1 - {#(0, None, Resume 0)#}, running := ?w\<rparr>)) =
      PRun {#} {#(?w, 0)#} ?s2" by (simp add: leaky_simps)
  have "pstep two_workers (PRun {#} {#} ?s1) (PRun {#} {#(?w, 0)#} ?s2)"
    unfolding e [symmetric] by (rule p_take) (simp_all add: leaky_simps free_thread_def)
  then have 2: "?R (PRun {#} {#} ?s1, [None, Some 1], ?c1) (PRun {#} {#(?w, 0)#} ?s2, [None, Some 1], ?c1)" by (rule r_work [OF _ keep])
  have e: "pafter {#} ({#(?w, 0)#} - {#(?w, 0)#}) (resume two_workers 0 (?s2\<lparr>running := ?w\<rparr>)) = PRun {#} {#(?w, 2)#} ?s3"
    by (simp add: leaky_simps)
  have "pstep two_workers (PRun {#} {#(?w, 0)#} ?s2) (PRun {#} {#(?w, 2)#} ?s3)"
    unfolding e [symmetric] by (rule p_run) simp
  then have 3: "?R (PRun {#} {#(?w, 0)#} ?s2, [None, Some 1], ?c1) (PRun {#} {#(?w, 2)#} ?s3, [None, Some 1], ?c1)" by (rule r_work [OF _ keep])
  have e: "pafter {#} ({#(?w, 2)#} - {#(?w, 2)#}) (resume two_workers 2 (?s3\<lparr>running := ?w\<rparr>)) = PRun {#} {#} ?s4"
    by (simp add: leaky_simps numeral_2_eq_2)
  have "pstep two_workers (PRun {#} {#(?w, 2)#} ?s3) (PRun {#} {#} ?s4)"
    unfolding e [symmetric] by (rule p_run) simp
  then have 4: "?R (PRun {#} {#(?w, 2)#} ?s3, [None, Some 1], ?c1) (PRun {#} {#} ?s4, [None, Some 1], ?c1)" by (rule r_work [OF _ keep])
  have 5: "?R (PRun {#} {#} ?s4, [None, Some 1], ?c1) (PRun {#} {#} ?s4, [None, Some 1], ?c2)"
    by (rule r_count) (simp_all add: any_run_simps leaky_simps)
  have 6: "?R (PRun {#} {#} ?s4, [None, Some 1], ?c2) (PRun {#} {#} ?s4, [None, Some 1], ?c3)"
    by (rule r_set_index) (simp_all add: any_run_simps leaky_simps)
  have e: "pafter {#} {#} (seq (vector_dtor (zip (gr_inputs leaky) [None, Some 1])) (ret None) (?s4\<lparr>running := gr_thread leaky\<rparr>)) = PRun {#} {#} ?s5"
    by (simp add: leaky_simps)
  have 7: "?R (PRun {#} {#} ?s4, [None, Some 1], ?c3) (PRun {#} {#} ?s5, [], CollectAny_leave ?c3)"
    unfolding e [symmetric] by (rule r_leave [of _ 1]) (simp_all add: any_run_simps f)
  from 1 2 3 4 5 6 7 have "?R\<^sup>*\<^sup>* (race_start leaky) (PRun {#} {#} ?s5, [], CollectAny_leave ?c3)"
    by (meson converse_rtranclp_into_rtranclp rtranclp.rtrancl_refl)
  then show ?thesis by (force simp: leaky_machine_def)
qed

section \<open>Properties\<close>

text \<open>
  Claim C16. \<open>CollectAny\<close> of coroutines, on real workers: for any vector of \<open>Lazy\<close> or \<open>RescheduleLazy\<close> inputs, from any
  thread and with or without an executor, if calling each body on its executor returns or throws, then every interleaving of
  the loop, the workers, the timers and the callbacks comes to an end; the awaiting coroutine has then been resumed exactly
  once, and has taken out the index and the own result of the input that counted down first; the losers that were started have run to
  their end too, the executors are empty and no step is left. Every frame is destroyed, those of \<open>Lazy\<close> inputs that were never started
  with the vector, except exactly the frames of the \<open>RescheduleLazy\<close> inputs that were never started: these leak.\<close>

theorem collect_any_on_machine:
  fixes rs :: "(exn + 'a val) list"
  assumes ok: "env_ok env" and th: "thread_in env (map_option fst (gr_thread G)) (gr_thread G)"
    and meanings: "list_all2 (\<lambda>i r. call_meaning (race_call G i) = outcome_of r) [0..<length (gr_inputs G)] rs"
    and size: "0 < length rs" "length rs + 1 < 2 ^ 64"
  shows "rmust env ty G h (race_ended env ty G h rs) (race_start G)"
proof (rule race.ends)
  have n: "length (gr_inputs G) = length rs" using list_all2_lengthD [OF meanings] by simp
  then have "\<forall>i < length rs. call_meaning (race_call G i) = outcome_of (rs ! i)"
    using meanings by (simp add: list_all2_conv_all_nth)
  with ok th n race_inv_start [OF n size] show "race_sound env ty G h rs {#} (race_start G)" by (simp add: race_sound_def)
qed

text \<open>Two inputs on two executors, one of which throws.\<close>

definition demo_runners :: "nat group" where
  "demo_runners = \<lparr>gr_para = False, gr_executor = Some 0, gr_thread = Some (0, 0),
     gr_inputs = [RescheduleInput 1 errand, LazyInput None (CoReturn (VVal 3))]\<rparr>"

theorem collect_any_on_machine_witness:
  "rmust two_workers (OfValue id) demo_runners ''co''
     (\<lambda>x. any_resumes (race_of x) = [(''co'', 0, Exception (Some (UserExn 7)))] \<or> any_resumes (race_of x) = [(''co'', 1, Value (VVal 3))])
     (race_start demo_runners)"
proof -
  let ?rs = "[Inl (UserExn 7), Inr (VVal 3)] :: (exn + nat val) list"
  have th: "thread_in two_workers (map_option fst (gr_thread demo_runners)) (gr_thread demo_runners)"
    by (simp add: thread_in_def demo_runners_def two_workers_def)
  have "list_all2 (\<lambda>i r. call_meaning (race_call demo_runners i) = outcome_of r) [0..<length (gr_inputs demo_runners)] ?rs"
    by (simp add: demo_runners_def race_call_def errand_def home_def upt_rec)
  from collect_any_on_machine [OF two_workers_ok th this, of "OfValue id" "''co''"] show ?thesis
    by (auto elim!: inevitably_mono simp: race_ended_def less_Suc_eq)
qed

end
