(* ===== verification/Group_Contracts.thy ===== *)
theory Group_Contracts
  imports Collect_Machine Race_Machine Collect_Race
begin

text \<open>
  The coroutines of \<^verbatim>\<open>Collect_Coroutines.thy\<close> and \<^verbatim>\<open>Collect_Race.thy\<close> await a group as one awaitable from outside, with
  the result that the environment decides. Here the environment is the machine of \<^verbatim>\<open>Collect_Machine.thy\<close> or
  \<^verbatim>\<open>Race_Machine.thy\<close>: on every interleaving it resumes the coroutine once, with what the await gives.
\<close>

text \<open>\<open>collects\<close>: the collector knows what the inputs of the group end with.\<close>

definition collects :: "('a group_input, 'a) collector \<Rightarrow> 'a group \<Rightarrow> (exn + 'a val) list \<Rightarrow> bool" where
  "collects g G rs \<longleftrightarrow> map (cg_result g) (gr_inputs G) = map try_of rs"

definition resumed_as :: "'a awaitable \<Rightarrow> 'a val \<Rightarrow> bool" where
  "resumed_as a v \<longleftrightarrow> (\<exists>via l. a = AExtern via (Arrives l) (Inr v))"

lemma collect_group_by_machine:
  fixes rs :: "(exn + 'a val) list"
  assumes ok: "env_ok env" and th: "thread_in env (map_option fst (gr_thread G)) (gr_thread G)"
    and m: "\<forall>i < length rs. call_meaning (group_call G i) = outcome_of (rs ! i)" and n: "length (gr_inputs G) = length rs"
    and size: "0 < length rs" "length rs + 1 < 2 ^ 64" and g: "collects g G rs"
  shows "gmust env G h (\<lambda>x. \<exists>ts. resumes (snd x) = [(h, ts)] \<and> resumed_as (collect_group g (gr_para G) (gr_inputs G)) (VTries ts))
    (group_start G)"
proof (rule inevitably_mono [OF group.ends])
  show "group_sound env G h rs (mset (map (\<lambda>x. (x, None)) (zip (map (group_call G) [0..<length rs]) rs))) (group_start G)"
    using ok th n group_inv_start [OF m n size] by (simp add: group_sound_def)
next
  fix x assume "group_ended env G h rs x"
  moreover have "gr_inputs G \<noteq> []" using n size(1) by auto
  ultimately show "\<exists>ts. resumes (snd x) = [(h, ts)] \<and> resumed_as (collect_group g (gr_para G) (gr_inputs G)) (VTries ts)"
    using g by (simp add: group_ended_def group_finished_def collects_def resumed_as_def collect_group_def)
qed

text \<open>A racer that describes how the race ended gives what \<open>await_resume\<close> took out of the shared result there.\<close>

lemma any_group_by_machine:
  fixes rs :: "(exn + 'a val) list" and h :: 'h
  assumes ok: "env_ok env" and th: "thread_in env (map_option fst (gr_thread G)) (gr_thread G)"
    and m: "\<forall>i < length rs. call_meaning (race_call G i) = outcome_of (rs ! i)" and n: "length (gr_inputs G) = length rs"
    and size: "0 < length rs" "length rs + 1 < 2 ^ 64"
  shows "rmust env (ra_type r) G h (\<lambda>x. ended_race r (gr_inputs G) h (race_of x) \<longrightarrow>
      any_taken (race_of x) = Some (ra_result r (gr_inputs G))) (race_start G)"
proof (rule inevitably_mono [OF race.ends])
  show "race_sound env (ra_type r) G h rs {#} (race_start G)"
    using ok th m n race_inv_start [OF n size] by (simp add: race_sound_def)
next
  fix x :: "('a, 'h) rconfig" assume "race_ended env (ra_type r) G h rs x"
  then show "ended_race r (gr_inputs G) h (race_of x) \<longrightarrow> any_taken (race_of x) = Some (ra_result r (gr_inputs G))"
    by (auto simp: race_ended_def ended_race_def)
qed

end
