(* ===== verification/Handle_Bounds.thy ===== *)
theory Handle_Bounds
  imports Handle_Program
begin

text \<open>
  Where the bound of \<^verbatim>\<open>Handle_Program.thy\<close> comes from: the counter of references in \<^verbatim>\<open>sync/future_state.hpp\<close> has 8 bits.
  With 257 handles it has wrapped around to 1, and the next handle that is dropped deletes the state
  under all the others.
\<close>

primrec copies_of :: "nat \<Rightarrow> nat \<Rightarrow> (('v, 'k, 'x) world, unit) action" where
  "copies_of l 0 = ret ()"
| "copies_of l (Suc n) = bind (Promise_copy_ctor l) (\<lambda>_. copies_of l n)"

definition counted_up :: "nat \<Rightarrow> ('v, 'k) future_state \<Rightarrow> ('v, 'k) future_state" where
  "counted_up n s = s\<lparr>fs_promise_ref := fs_promise_ref s + of_nat n, fs_attached := fs_attached s + of_nat n\<rparr>"

lemma counted_up_simps [simp]:
  "counted_up 0 s = s" "counted_up n (counted_up m s) = counted_up (n + m) s" "fs_attached (counted_up n s) = fs_attached s + of_nat n"
  by (simp_all add: counted_up_def ac_simps)

lemma run_copy:
  assumes l: "l < length (promises w)" "promises w ! l = Some x" "p_shared x = Some p" and p: "live w p s"
  shows "Promise_copy_ctor l w = (Return (length (promises w)), (put p (counted_up 1 s) w)\<lparr>promises := promises w @ [Some x]\<rparr>)"
proof -
  have "live (put p (s\<lparr>fs_promise_ref := fs_promise_ref s + 1\<rparr>) w) p (s\<lparr>fs_promise_ref := fs_promise_ref s + 1\<rparr>)" using p by simp
  with p l show ?thesis
    by (simp add: Promise_copy_ctor_def promise_read_def AttachPromise_def AttachOne_def run_fs_write through_def promise_new_def
        outcome_simps counted_up_def put_def)
qed

lemma run_copies:
  assumes "l < length (promises w)" and "promises w ! l = Some x" and "p_shared x = Some p" and "live w p s"
  shows "copies_of l n w = (Return (), (put p (counted_up n s) w)\<lparr>promises := promises w @ replicate n (Some x)\<rparr>)"
  using assms
proof (induction n arbitrary: w s)
  case 0
  then show ?case by (simp add: outcome_simps put_same)
next
  case (Suc n)
  let ?w = "(put p (counted_up 1 s) w)\<lparr>promises := promises w @ [Some x]\<rparr>"
  have "live ?w p (counted_up 1 s)" using Suc.prems(4) by (simp add: live_def put_def)
  moreover have "l < length (promises ?w)" "promises ?w ! l = Some x" using Suc.prems(1,2) by (simp_all add: nth_append)
  ultimately have "copies_of l n ?w = (Return (), (put p (counted_up n (counted_up 1 s)) ?w)\<lparr>promises := promises ?w @ replicate n (Some x)\<rparr>)"
    using Suc.IH Suc.prems(3) by blast
  with run_copy [OF Suc.prems] show ?case
    by (simp add: outcome_simps) (simp add: put_def replicate_append_same)
qed

text \<open>A promise and its future, 255 copies of the promise: dropping the future deletes the state of 256 promises.\<close>

lemma references_wrap:
  assumes l: "l < length (promises w)" "promises w ! l = Some x" "p_shared x = Some p" and p: "live w p s" "fs_attached s = 2"
    and f: "j < length (futures w)" "futures w ! j = Some y" "f_shared y = Some p"
  shows "\<exists>w1 w2. copies_of l 255 w = (Return (), w1) \<and> Future_dtor j w1 = (Return (), w2) \<and>
    promises w2 = promises w @ replicate 255 (Some x) \<and> heap w2 ! p = None \<and>
    (\<forall>env t. fst (Promise_SetTry env l t w2) = Undefined)"
proof -
  define W where "W = (put p (counted_up 255 s) w)\<lparr>promises := promises w @ replicate 255 (Some x)\<rparr>"
  have run: "copies_of l 255 w = (Return (), W)" unfolding W_def by (rule run_copies [OF l p(1)])
  have one: "fs_attached (counted_up 255 s) = 1" by (simp add: p(2))
  have live: "live W p (counted_up 255 s)" using p(1) by (simp add: W_def live_def put_def)
  have W: "futures W = futures w" "heap W = (heap w)[p := Some (counted_up 255 s)]" "promises W = promises w @ replicate 255 (Some x)"
    by (simp_all add: W_def put_def)
  define w1 where "w1 = put p ((counted_up 255 s)\<lparr>fs_attached := 0\<rparr>) W"
  have "DetachOne p W = (Return (), w1\<lparr>heap := (heap w1)[p := None]\<rparr>)"
    by (simp add: DetachOne_def run_fetch [OF live] one fs_delete_def outcome_simps w1_def del: counted_up_simps)
  then have "Future_dtor j W = (Return (), w1\<lparr>heap := (heap w1)[p := None], futures := (futures w)[j := None]\<rparr>)"
    using f by (simp add: Future_dtor_def future_read_def future_set_def outcome_simps W(1)) (simp add: w1_def W(1))
  then obtain w2 where w2: "Future_dtor j W = (Return (), w2)" "heap w2 = (heap w)[p := None]" "promises w2 = promises W"
    by (simp add: w1_def put_def W(2))
  have "p < length (heap w)" using p(1) by (simp add: live_def)
  then have gone: "heap w2 ! p = None" using w2(2) by simp
  have "fst (Promise_SetTry env l t w2) = Undefined" for env :: "('a, 'b, 'c) env" and t
    using l gone
    by (simp add: Promise_SetTry_def promise_read_def w2(3) W(3) nth_append Promise_Valid_def LOGIC_ASSERT_def through_def SetResult_def HasResult_def
        fs_read_def outcome_simps)
  with run w2 gone W(3) show ?thesis by auto
qed

end
