(* ===== verification/Variadic_Collect.thy ===== *)
theory Variadic_Collect
  imports Collect_Coroutines Collect_All
begin

text \<open>
  \<open>CollectAll\<close> and \<open>CollectAllPara\<close> of a pack of coroutines (\<^verbatim>\<open>coro/collect.hpp\<close>): each input is wrapped in a \<open>Lazy<void>\<close> that
  writes what it gives into an element of a tuple through a reference; the wrappers are collected like any group
  (\<^verbatim>\<open>Collect_All.thy\<close>), the vector of that collection is discarded, and the tuple is returned. The tuple is a part of the state
  that the wrappers write while they run, in any interleaving.
\<close>

section \<open>The wrappers\<close>

text \<open>
  A wrapper task: its parameters, and where it is. \<open>wt_result\<close> is the element of the tuple that the parameter \<open>result\<close> refers to. It
  awaits its input, has got what \<open>co_await\<close> gives, or has returned.
\<close>

datatype 'a task_phase = AtAwaitable | Resumed "exn + 'a val" | TaskEnded

record 'a wrapper_task =
  wt_void :: bool
  wt_result :: nat
  wt_phase :: "'a task_phase"

definition MakeWrapperTask :: "bool \<Rightarrow> nat \<Rightarrow> 'a wrapper_task" where
  "MakeWrapperTask is_void result = \<lparr>wt_void = is_void, wt_result = result, wt_phase = AtAwaitable\<rparr>"

text \<open>
  The body after the \<open>co_await\<close>: the value of a \<open>void\<close> coroutine is not assigned, and the handler catches everything, so that
  the task itself always returns.
\<close>

definition wrapper_writes :: "exn + 'a val \<Rightarrow> 'a wrapper_task \<Rightarrow> 'a val try_val list \<Rightarrow> 'a val try_val list" where
  "wrapper_writes r t results =
     (case r of
        Inl e \<Rightarrow> results[wt_result t := Exception (Some e)]
      | Inr v \<Rightarrow> if wt_void t then results else results[wt_result t := Value v])"

section \<open>The coroutine\<close>

text \<open>
  \<open>vc_results\<close> is the local tuple, \<open>vc_group\<close> the collection of the wrappers, \<open>vc_returned\<close> lists what the coroutine has
  returned. The pack is given by its value types, of which only \<open>void\<close> matters, and \<open>Indices\<close>.
\<close>

record ('a, 'h) variadic =
  vc_para :: bool
  vc_results :: "'a val try_val list"
  vc_tasks :: "'a wrapper_task list"
  vc_group :: "('a val, 'h) collect_all"
  vc_returned :: "'a val try_val list list"

definition CollectAllVariadicImpl :: "bool \<Rightarrow> nat list \<Rightarrow> bool list \<Rightarrow> ('a, 'h) variadic" where
  "CollectAllVariadicImpl para indices voids =
     (let wrapper_tasks = map2 MakeWrapperTask voids indices in
        \<lparr>vc_para = para, vc_results = map default_try voids, vc_tasks = wrapper_tasks,
         vc_group = CollectAll_ctor (length wrapper_tasks), vc_returned = []\<rparr>)"

text \<open>The empty pack returns the empty tuple at once.\<close>

definition CollectAll_variadic :: "bool list \<Rightarrow> 'a val try_val list + ('a, 'h) variadic" where
  "CollectAll_variadic voids =
     (if voids = [] then Inl [] else Inr (CollectAllVariadicImpl False [0..<length voids] voids))"

definition CollectAllPara_variadic :: "bool list \<Rightarrow> 'a val try_val list + ('a, 'h) variadic" where
  "CollectAllPara_variadic voids =
     (if voids = [] then Inl [] else Inr (CollectAllVariadicImpl True [0..<length voids] voids))"

text \<open>
  The group does what \<^verbatim>\<open>Collect_All.thy\<close> says, where the callback of a task runs only after the task has returned, and
  stores \<open>void\<close>. A task goes on once its input ends, with \<open>gives i\<close>, and writes. When the group has resumed the
  coroutine, it drops the vector and returns the tuple as it is then.
\<close>

definition only_ended_store :: "('a, 'h) variadic \<Rightarrow> ('a val, 'h) collect_all \<Rightarrow> bool" where
  "only_ended_store s g \<longleftrightarrow> (\<forall>i < length (inputs g). inputs g ! i = Stored \<longrightarrow> wt_phase (vc_tasks s ! i) = TaskEnded)"

inductive variadic_step :: "bool \<Rightarrow> 'h \<Rightarrow> (nat \<Rightarrow> exn + 'a val) \<Rightarrow> ('a, 'h) variadic \<Rightarrow> ('a, 'h) variadic \<Rightarrow> bool"
  for has_executor h gives where
  v_group: "collect_all_step (vc_para s) has_executor h (\<lambda>_. Value VUnit) (vc_group s) g \<Longrightarrow> only_ended_store s g \<Longrightarrow>
    variadic_step has_executor h gives s (s\<lparr>vc_group := g\<rparr>)"
| v_resume: "i < length (vc_tasks s) \<Longrightarrow> inputs (vc_group s) ! i = Started \<Longrightarrow> wt_phase (vc_tasks s ! i) = AtAwaitable \<Longrightarrow>
    variadic_step has_executor h gives s
      (s\<lparr>vc_tasks := (vc_tasks s)[i := (vc_tasks s ! i)\<lparr>wt_phase := Resumed (gives i)\<rparr>]\<rparr>)"
| v_write: "i < length (vc_tasks s) \<Longrightarrow> wt_phase (vc_tasks s ! i) = Resumed r \<Longrightarrow>
    variadic_step has_executor h gives s
      (s\<lparr>vc_results := wrapper_writes r (vc_tasks s ! i) (vc_results s),
         vc_tasks := (vc_tasks s)[i := (vc_tasks s ! i)\<lparr>wt_phase := TaskEnded\<rparr>]\<rparr>)"
| v_return: "resumes (vc_group s) \<noteq> [] \<Longrightarrow> vc_returned s = [] \<Longrightarrow>
    variadic_step has_executor h gives s (s\<lparr>vc_returned := [vc_results s]\<rparr>)"

inductive_cases variadic_stepE: "variadic_step has_executor h gives s t"

section \<open>The invariant\<close>

text \<open>The element of an input that gives \<open>r\<close>.\<close>

definition place :: "bool \<Rightarrow> exn + 'a val \<Rightarrow> 'a val try_val" where
  "place is_void r = (case r of Inl e \<Rightarrow> Exception (Some e) | Inr v \<Rightarrow> if is_void then Value VUnit else Value v)"

definition element_ok :: "bool \<Rightarrow> exn + 'a val \<Rightarrow> nat \<Rightarrow> 'a wrapper_task \<Rightarrow> 'a val try_val \<Rightarrow> input_state \<Rightarrow> bool" where
  "element_ok is_void r i t x inp \<longleftrightarrow>
     wt_void t = is_void \<and> wt_result t = i \<and>
     (case wt_phase t of
        AtAwaitable \<Rightarrow> x = default_try is_void \<and> inp \<notin> {Stored, Finished}
      | Resumed q \<Rightarrow> q = r \<and> x = default_try is_void \<and> inp = Started
      | TaskEnded \<Rightarrow> x = place is_void r \<and> inp \<in> {Started, Stored, Finished})"

abbreviation task_ok :: "bool list \<Rightarrow> (nat \<Rightarrow> exn + 'a val) \<Rightarrow> ('a, 'h) variadic \<Rightarrow> nat \<Rightarrow> bool" where
  "task_ok voids gives s i \<equiv>
     element_ok (voids ! i) (gives i) i (vc_tasks s ! i) (vc_results s ! i) (inputs (vc_group s) ! i)"

definition tuple_of :: "bool list \<Rightarrow> (nat \<Rightarrow> exn + 'a val) \<Rightarrow> 'a val try_val list" where
  "tuple_of voids gives = map2 (\<lambda>v i. place v (gives i)) voids [0..<length voids]"

definition variadic_ok :: "'h \<Rightarrow> bool list \<Rightarrow> (nat \<Rightarrow> exn + 'a val) \<Rightarrow> ('a, 'h) variadic \<Rightarrow> bool" where
  "variadic_ok h voids gives s \<longleftrightarrow>
     collect_ok h (\<lambda>_. Value VUnit) (length voids) (vc_group s) \<and>
     length (vc_tasks s) = length voids \<and> length (vc_results s) = length voids \<and>
     (\<forall>i < length voids. task_ok voids gives s i) \<and>
     (vc_returned s = [] \<or> resumes (vc_group s) \<noteq> [] \<and> vc_returned s = [tuple_of voids gives])"

lemma variadic_okD:
  assumes "variadic_ok h voids gives s"
  shows "collect_ok h (\<lambda>_. Value VUnit) (length voids) (vc_group s)" "length (vc_tasks s) = length voids"
    "length (vc_results s) = length voids" "length (inputs (vc_group s)) = length voids"
    "i < length voids \<Longrightarrow> task_ok voids gives s i"
    "vc_returned s = [] \<or> resumes (vc_group s) \<noteq> [] \<and> vc_returned s = [tuple_of voids gives]"
  using assms by (auto simp: variadic_ok_def collect_ok_def)

text \<open>How a step of the group changes an input.\<close>

lemma collect_step_input:
  assumes "collect_all_step para ex h res s t" and "collect_ok h res n s" and "i < n"
  shows "inputs t ! i = inputs s ! i \<or> inputs s ! i \<notin> {Started, Stored, Finished} \<and> inputs t ! i \<notin> {Stored, Finished} \<or>
    inputs s ! i = Started \<and> inputs t ! i = Stored \<or> inputs s ! i = Stored \<and> inputs t ! i = Finished"
  using assms
proof (induction rule: collect_all_step.induct)
  case (launch s k acc)
  then have "inputs s ! k = NotStarted" by (simp add: collect_ok_def)
  with launch show ?case by (cases "i = k") (simp_all add: CollectAll_launch_def)
next
  case (begin_input k s)
  then show ?case by (cases "i = k") simp_all
next
  case (store k s)
  then show ?case by (cases "i = k") (simp_all add: CollectAll_store_def)
next
  case (input_down k s)
  then show ?case by (cases "i = k") simp_all
qed (simp_all add: CollectAll_set_handle_def)

lemma collect_step_length: "collect_all_step para ex h res s t \<Longrightarrow> length (inputs t) = length (inputs s)"
  by (induction rule: collect_all_step.induct) (simp_all add: CollectAll_launch_def CollectAll_store_def CollectAll_set_handle_def)

lemma variadic_ok_group:
  assumes ok: "variadic_ok h voids gives s" and step: "collect_all_step (vc_para s) ex h (\<lambda>_. Value VUnit) (vc_group s) g"
    and g: "only_ended_store s g"
  shows "variadic_ok h voids gives (s\<lparr>vc_group := g\<rparr>)"
proof -
  note okD = variadic_okD [OF ok]
  have len: "length (inputs g) = length voids" using collect_step_length [OF step] okD(4) by simp
  have "task_ok voids gives (s\<lparr>vc_group := g\<rparr>) i" if i: "i < length voids" for i
  proof -
    have "inputs g ! i = Stored \<longrightarrow> wt_phase (vc_tasks s ! i) = TaskEnded" using g i len by (simp add: only_ended_store_def)
    with collect_step_input [OF step okD(1) i] okD(5) [OF i] show ?thesis
      by (cases "wt_phase (vc_tasks s ! i)") (auto simp: element_ok_def)
  qed
  moreover have "vc_returned s = []"
    using okD(6) collect_resumed_stuck [OF okD(1)] step by blast
  ultimately show ?thesis using okD(2,3) collect_ok_step [OF step okD(1)] by (simp add: variadic_ok_def)
qed

lemma variadic_ok_resume:
  assumes ok: "variadic_ok h voids gives s" and i: "i < length (vc_tasks s)" "inputs (vc_group s) ! i = Started"
    "wt_phase (vc_tasks s ! i) = AtAwaitable"
  shows "variadic_ok h voids gives (s\<lparr>vc_tasks := (vc_tasks s)[i := (vc_tasks s ! i)\<lparr>wt_phase := Resumed (gives i)\<rparr>]\<rparr>)"
proof -
  note okD = variadic_okD [OF ok]
  have "task_ok voids gives (s\<lparr>vc_tasks := (vc_tasks s)[i := (vc_tasks s ! i)\<lparr>wt_phase := Resumed (gives i)\<rparr>]\<rparr>) j"
    if "j < length voids" for j
    using okD(5) [OF that] i by (cases "j = i") (simp_all add: element_ok_def)
  with okD show ?thesis by (simp add: variadic_ok_def)
qed

text \<open>No two tasks refer to the same element, so a write keeps the elements of the others.\<close>

lemma variadic_ok_write:
  assumes ok: "variadic_ok h voids gives s" and i: "i < length (vc_tasks s)" and r: "wt_phase (vc_tasks s ! i) = Resumed r"
  shows "variadic_ok h voids gives (s\<lparr>vc_results := wrapper_writes r (vc_tasks s ! i) (vc_results s),
    vc_tasks := (vc_tasks s)[i := (vc_tasks s ! i)\<lparr>wt_phase := TaskEnded\<rparr>]\<rparr>)"
proof -
  note okD = variadic_okD [OF ok]
  have t: "r = gives i" "wt_void (vc_tasks s ! i) = voids ! i" "wt_result (vc_tasks s ! i) = i"
    "vc_results s ! i = default_try (voids ! i)" "inputs (vc_group s) ! i = Started"
    using okD(2) okD(5) [of i] i r by (simp_all add: element_ok_def)
  have w: "wrapper_writes r (vc_tasks s ! i) (vc_results s) = (vc_results s)[i := place (voids ! i) (gives i)]"
    using t(4) list_update_id [of "vc_results s" i]
    by (auto simp: wrapper_writes_def place_def default_try_def t(1,2,3) split: sum.split)
  have "task_ok voids gives (s\<lparr>vc_results := wrapper_writes r (vc_tasks s ! i) (vc_results s),
      vc_tasks := (vc_tasks s)[i := (vc_tasks s ! i)\<lparr>wt_phase := TaskEnded\<rparr>]\<rparr>) j" if "j < length voids" for j
    using okD(2,3) okD(5) [OF that] i t(2,3,5) unfolding w by (cases "j = i") (simp_all add: element_ok_def)
  with okD show ?thesis by (simp add: variadic_ok_def w)
qed

text \<open>When the group resumes the coroutine every input has finished, so every task has written.\<close>

lemma resumed_all_ended:
  assumes ok: "variadic_ok h voids gives s" and r: "resumes (vc_group s) \<noteq> []"
  shows "i < length voids \<Longrightarrow> inputs (vc_group s) ! i = Finished \<and> wt_phase (vc_tasks s ! i) = TaskEnded"
    and "vc_results s = tuple_of voids gives"
proof -
  note okD = variadic_okD [OF ok]
  have "remaining (vc_group s) = 0" using okD(1) r by (auto simp: collect_ok_def split: if_splits)
  then have fin: "\<forall>x \<in> set (inputs (vc_group s)). x = Finished"
    using sum_cost_zero [of "inputs (vc_group s)"] by (simp add: remaining_def split: if_splits)
  have ended: "inputs (vc_group s) ! i = Finished \<and> wt_phase (vc_tasks s ! i) = TaskEnded \<and> vc_results s ! i = place (voids ! i) (gives i)"
    if i: "i < length voids" for i
  proof -
    have "inputs (vc_group s) ! i = Finished" using fin okD(4) i by simp
    with okD(5) [OF i] show ?thesis by (cases "wt_phase (vc_tasks s ! i)") (simp_all add: element_ok_def)
  qed
  then show "i < length voids \<Longrightarrow> inputs (vc_group s) ! i = Finished \<and> wt_phase (vc_tasks s ! i) = TaskEnded" by blast
  show "vc_results s = tuple_of voids gives"
    using okD(3) ended by (intro nth_equalityI) (simp_all add: tuple_of_def)
qed

lemma variadic_ok_step: "variadic_step ex h gives s t \<Longrightarrow> variadic_ok h voids gives s \<Longrightarrow> variadic_ok h voids gives t"
proof (induction rule: variadic_step.induct)
  case (v_return s)
  with resumed_all_ended(2) [OF v_return(3,1)] variadic_okD [OF v_return(3)] show ?case
    by (auto simp: variadic_ok_def)
qed (blast intro: variadic_ok_group variadic_ok_resume variadic_ok_write)+

section \<open>Termination\<close>

fun task_weight :: "'a task_phase \<Rightarrow> nat" where
  "task_weight AtAwaitable = 2"
| "task_weight (Resumed r) = 1"
| "task_weight TaskEnded = 0"

definition variadic_measure :: "('a, 'h) variadic \<Rightarrow> nat" where
  "variadic_measure s = collect_measure (vc_group s) + sum_list (map (\<lambda>t. task_weight (wt_phase t)) (vc_tasks s)) +
     (if vc_returned s = [] then 1 else 0)"

lemma variadic_step_measure:
  assumes "variadic_step ex h gives s t" and "variadic_ok h voids gives s"
  shows "variadic_measure t < variadic_measure s"
  using assms
proof (induction rule: variadic_step.induct)
  case (v_group s g)
  from collect_step_measure [OF v_group(1) variadic_okD(1) [OF v_group(3)]] show ?case by (simp add: variadic_measure_def)
next
  case (v_resume i s)
  then show ?case
    using sum_list_map_update [of i "vc_tasks s" "\<lambda>t. task_weight (wt_phase t)" "(vc_tasks s ! i)\<lparr>wt_phase := Resumed (gives i)\<rparr>"]
    by (simp add: variadic_measure_def)
next
  case (v_write i s r)
  then show ?case
    using sum_list_map_update [of i "vc_tasks s" "\<lambda>t. task_weight (wt_phase t)" "(vc_tasks s ! i)\<lparr>wt_phase := TaskEnded\<rparr>"]
    by (simp add: variadic_measure_def)
qed (simp add: variadic_measure_def)

text \<open>
  The end: the tuple was returned once, and nothing runs any more that could touch the coroutine, which may be destroyed. Only the parallel form
  with an executor that refuses a task gets stuck before.
\<close>

definition variadic_ended :: "bool \<Rightarrow> 'h \<Rightarrow> bool list \<Rightarrow> (nat \<Rightarrow> exn + 'a val) \<Rightarrow> ('a, 'h) variadic \<Rightarrow> bool" where
  "variadic_ended has_executor h voids gives s \<longleftrightarrow>
     vc_returned s = [tuple_of voids gives] \<and> (\<forall>t. \<not> variadic_step has_executor h gives s t)"

definition task_refused :: "bool \<Rightarrow> bool \<Rightarrow> ('a, 'h) variadic \<Rightarrow> bool" where
  "task_refused para has_executor s \<longleftrightarrow> para \<and> has_executor \<and> Refused \<in> set (inputs (vc_group s))"

definition variadic_inv :: "bool \<Rightarrow> bool \<Rightarrow> 'h \<Rightarrow> bool list \<Rightarrow> (nat \<Rightarrow> exn + 'a val) \<Rightarrow> ('a, 'h) variadic \<Rightarrow> bool" where
  "variadic_inv para ex h voids gives s \<longleftrightarrow>
     variadic_ok h voids gives s \<and> vc_para s = para \<and> (Refused \<in> set (inputs (vc_group s)) \<longrightarrow> para \<and> ex)"

lemma collect_step_refused:
  assumes "collect_all_step para ex h res s t" and "Refused \<in> set (inputs t)"
  shows "Refused \<in> set (inputs s) \<or> para \<and> ex"
  using assms by (induction rule: collect_all_step.induct)
    (auto simp: CollectAll_launch_def CollectAll_store_def CollectAll_set_handle_def dest!: subsetD [OF set_update_subset_insert] split: if_splits)

lemma variadic_inv_step:
  assumes "variadic_step ex h gives s t" and "variadic_inv para ex h voids gives s"
  shows "variadic_inv para ex h voids gives t"
proof -
  have "vc_para t = para \<and> (Refused \<in> set (inputs (vc_group t)) \<longrightarrow> para \<and> ex)"
    using assms collect_step_refused by (fastforce simp: variadic_inv_def elim!: variadic_stepE)
  with variadic_ok_step [OF assms(1)] assms(2) show ?thesis by (simp add: variadic_inv_def)
qed

lemma variadic_progress:
  assumes inv: "variadic_inv para ex h voids gives s" and un: "\<not> (variadic_ended ex h voids gives s \<or> task_refused para ex s)"
  shows "\<exists>t. variadic_step ex h gives s t"
proof -
  have ok: "variadic_ok h voids gives s" using inv by (simp add: variadic_inv_def)
  note okD = variadic_okD [OF ok]
  consider (returned) "vc_returned s \<noteq> []" | (resumed) "resumes (vc_group s) \<noteq> []" "vc_returned s = []"
    | (going) "resumes (vc_group s) = []" by blast
  then show ?thesis
  proof cases
    case returned
    then have "resumes (vc_group s) \<noteq> []" "vc_returned s = [tuple_of voids gives]" using okD(6) by auto
    with un show ?thesis by (auto simp: variadic_ended_def)
  next
    case resumed
    from v_return [OF this] show ?thesis by blast
  next
    case going
    have "Refused \<notin> set (inputs (vc_group s))" using inv un by (auto simp: variadic_inv_def task_refused_def)
    with collect_stuck [OF okD(1)] going obtain g where g: "collect_all_step (vc_para s) ex h (\<lambda>_. Value VUnit) (vc_group s) g" by force
    show ?thesis
    proof (cases "only_ended_store s g")
      case True
      from v_group [OF g this] show ?thesis by blast
    next
      case False
      then obtain i where i: "i < length voids" "inputs g ! i = Stored" "wt_phase (vc_tasks s ! i) \<noteq> TaskEnded"
        using collect_step_length [OF g] okD(4) by (auto simp: only_ended_store_def)
      with collect_step_input [OF g okD(1) i(1)] okD(5) [OF i(1)] have st: "inputs (vc_group s) ! i = Started"
        by (cases "wt_phase (vc_tasks s ! i)") (auto simp: element_ok_def)
      show ?thesis
      proof (cases "wt_phase (vc_tasks s ! i)")
        case AtAwaitable
        from v_resume [of i s ex h gives, OF _ st this] i(1) okD(2) show ?thesis by auto
      next
        case (Resumed r)
        from v_write [of i s r ex h gives, OF _ this] i(1) okD(2) show ?thesis by auto
      qed (use i(3) in simp)
    qed
  qed
qed

interpretation pack: ranked_system "variadic_step ex h gives" "\<lambda>m s. m = () \<and> variadic_inv para ex h voids gives s"
    "\<lambda>s. variadic_ended ex h voids gives s \<or> task_refused para ex s" "inv_image less_than (\<lambda>(m, s). variadic_measure s)"
  for para ex h gives voids
proof
  show "wf (inv_image less_than (\<lambda>(m :: unit, s). variadic_measure s))" by (rule wf_inv_image [OF wf_less_than])
  show "\<exists>t. variadic_step ex h gives s t"
    if "m = () \<and> variadic_inv para ex h voids gives s" and "\<not> (variadic_ended ex h voids gives s \<or> task_refused para ex s)" for m s
    using that by (blast intro: variadic_progress)
  show "\<exists>k. (k = () \<and> variadic_inv para ex h voids gives t) \<and> ((k, t), m, s) \<in> inv_image less_than (\<lambda>(m, s). variadic_measure s)"
    if "m = () \<and> variadic_inv para ex h voids gives s" and "variadic_step ex h gives s t" for m s t
    using that variadic_inv_step [OF that(2)] variadic_step_measure [OF that(2)] by (auto simp: variadic_inv_def)
qed

lemma variadic_inv_start:
  assumes "0 < length voids" and "length voids + 1 < 2 ^ 64"
  shows "variadic_inv para ex h voids gives (CollectAllVariadicImpl para [0..<length voids] voids)"
proof -
  let ?s = "CollectAllVariadicImpl para [0..<length voids] voids"
  have "task_ok voids gives ?s i" if "i < length voids" for i
    using that by (simp add: element_ok_def CollectAllVariadicImpl_def MakeWrapperTask_def CollectAll_ctor_def)
  moreover have "collect_ok h (\<lambda>_. Value VUnit) (length voids) (vc_group ?s)"
    using collect_ok_ctor [OF assms] by (simp add: CollectAllVariadicImpl_def)
  ultimately show ?thesis
    by (simp add: variadic_inv_def variadic_ok_def) (simp add: CollectAllVariadicImpl_def CollectAll_ctor_def)
qed

section \<open>Properties\<close>

text \<open>
  Claim C34. \<open>CollectAll\<close> and \<open>CollectAllPara\<close> on a pack of coroutines with different value types: in every interleaving of
  the group, of the inputs and of the wrappers' writes into the tuple, the coroutine comes to its end and returns, once, a tuple that has in the place of each
  input its value or its exception (for \<open>void\<close>, that it has ended without one); nothing is left then that could still write into the tuple. An
  exception of an input never leaves the collection. The exception is \<open>CollectAllPara\<close> with an executor that refuses a task, which may
  hang. The empty pack gives the empty tuple at once.\<close>

theorem variadic_collects_in_place:
  fixes h :: 'h and gives :: "nat \<Rightarrow> exn + 'a val"
  assumes size: "length voids + 1 < 2 ^ 64"
    and b: "b = CollectAll_variadic voids \<or> b = CollectAllPara_variadic voids"
  shows "case b of
      Inl results \<Rightarrow> voids = [] \<and> results = []
    | Inr s \<Rightarrow> inevitably (variadic_step has_executor h gives)
        (\<lambda>t. variadic_ended has_executor h voids gives t \<or> task_refused (vc_para s) has_executor t) s"
proof (cases "voids = []")
  case False
  then have "0 < length voids" by simp
  from pack.ends [of "()", OF conjI [OF refl variadic_inv_start [OF this size]]] show ?thesis
    using b False by (auto simp: CollectAll_variadic_def CollectAllPara_variadic_def CollectAllVariadicImpl_def Let_def)
qed (use b in \<open>auto simp: CollectAll_variadic_def CollectAllPara_variadic_def\<close>)

text \<open>The sequential form cannot be refused: a value, an exception and a \<open>void\<close>.\<close>

definition demo_gives :: "nat \<Rightarrow> exn + nat val" where
  "demo_gives i = (if i = 0 then Inr (VVal 4) else if i = 1 then Inl (UserExn 7) else Inr VUnit)"

theorem variadic_collects_in_place_witness:
  "inevitably (variadic_step True ''co'' demo_gives)
     (\<lambda>t. vc_returned t = [[Value (VVal 4), Exception (Some (UserExn 7)), Value VUnit]])
     (CollectAllVariadicImpl False [0..<3] [False, False, True])"
proof -
  let ?v = "[False, False, True]"
  let ?s = "CollectAllVariadicImpl False [0..<3] ?v :: (nat, string) variadic"
  have "tuple_of ?v demo_gives = [Value (VVal 4), Exception (Some (UserExn 7)), Value VUnit]"
    by (simp add: tuple_of_def demo_gives_def place_def upt_rec)
  moreover have "CollectAll_variadic ?v = Inr ?s" by (simp add: CollectAll_variadic_def numeral_3_eq_3)
  moreover have "\<not> task_refused (vc_para ?s) True t" for t :: "(nat, string) variadic"
    by (simp add: task_refused_def CollectAllVariadicImpl_def)
  ultimately show ?thesis
    using variadic_collects_in_place [of ?v "CollectAll_variadic ?v" True "''co''" demo_gives]
    by (auto simp: variadic_ended_def elim!: inevitably_mono)
qed

end
