(* ===== verification/Spec2Isabelle.thy ===== *)
theory Spec2Isabelle
  imports Try_Variant Pool_System Executor_Model Collect_All Collect_Any Future_Race Handle_Program
    Future_Awaiter Move_Wrapper Lazy_Handles Collect_Race Collect_Futures Plain_IO Parallel_Calls Sync_Schedule
    Future_Refs Await_Dispatch Type_Traits Group_Contracts Handle_Bounds Variadic_Collect
begin

text \<open>
  A verification library for mini-async-simple, a header-only C++20 library of futures, coroutines and
  executors (all paths below are under \<^verbatim>\<open>include/async_simple/\<close>).

  \<^bold>\<open>The program.\<close> A thread pool (\<^verbatim>\<open>util/thread_pool.hpp\<close>) owns one blocking queue per worker
  (\<^verbatim>\<open>container/threadsafe_queue.hpp\<close>). An \<open>Executor\<close> (\<^verbatim>\<open>executor/executor.hpp\<close>) is the interface through
  which everything else runs functions; \<open>SimpleExecutor\<close> (\<^verbatim>\<open>executor/simple_executor.hpp\<close>) implements it
  over the pool, and its contexts (\<open>Checkout\<close>, \<open>Checkin\<close>) bring a computation back to the worker it
  left. \<open>Try<T>\<close> (\<^verbatim>\<open>base/try.hpp\<close>, \<^verbatim>\<open>base/try_variant.hpp\<close>) is a value or an exception.
  \<open>Promise\<close> and \<open>Future\<close> (\<^verbatim>\<open>sync/\<close>) share a reference-counted \<open>FutureState\<close> that hands a result to a
  continuation. \<open>Lazy\<close> coroutines (\<^verbatim>\<open>coro/lazy.hpp\<close>) await each other by symmetric transfer, are
  rescheduled on executors, and come home to their context through \<open>ViaCoroutine\<close>
  (\<^verbatim>\<open>coro/via_coroutine.hpp\<close>). \<open>CollectAll\<close> and \<open>CollectAny\<close> (\<^verbatim>\<open>coro/collect.hpp\<close>) join many coroutines
  with a \<open>CountEvent\<close> (\<^verbatim>\<open>coro/count_event.hpp\<close>).

  \<^bold>\<open>Conventions.\<close> A method is an \<open>action\<close> on the object's record: it gives an outcome (\<open>Return\<close>, \<open>Throw\<close>
  an exception, \<open>Abort\<close> for a failed \<open>ASSERT\<close> or \<open>std::terminate\<close>, \<open>Undefined\<close> for undefined behaviour)
  and the new object. Machine integers are words where wrap-around can show: the reference counters of
  8 bits, worker numbers of 32 bits, contexts and event counters of 64 bits. Pointers are positions in
  a list or keys of a map, null is \<open>None\<close>. Concurrency is interleaving: a step relation whose steps are
  the critical sections or the atomic operations of the code, sequentially consistent.

  \<^bold>\<open>The theories, in the order of the code.\<close>

  \<^item> \<^verbatim>\<open>Async_Prelude\<close>: outcomes, actions, the assertion macros, lemmas on lists and words. \<^verbatim>\<open>Inevitable\<close>: what every run of a
    step relation reaches, and the locale \<open>ranked_system\<close> of the systems that end, interpreted by each of the coroutine machines.
  \<^item> \<^verbatim>\<open>Try_Base\<close>, \<^verbatim>\<open>Try_Variant\<close>: \<open>Try\<close> with its hand-written union, and \<open>TryV\<close> over \<open>std::variant\<close>; both
    interpret the locale \<open>try_like\<close> of what a \<open>Try\<close> promises. The union never reads or destroys a dead
    member and refines the abstract value; the two implementations agree except on moved-from objects.
  \<^item> \<^verbatim>\<open>Threadsafe_Queue\<close>: the operations as functions (first in, first out, stop) and the condition
    variable protocol (no lost wake-up); the locale \<open>work_queue\<close> is what the pool relies on.
  \<^item> \<^verbatim>\<open>Thread_Pool\<close>, \<^verbatim>\<open>Pool_System\<close>: \<open>ScheduleById\<close>, one turn of a worker with stealing, and the whole pool as
    a transition system: every accepted function runs exactly once, the destructor drains and ends.
  \<^item> \<^verbatim>\<open>Executor_Model\<close>: the locales \<open>executor\<close> and \<open>context_executor\<close>, the defaults of \<open>Executor\<close>, and
    \<open>SimpleExecutor\<close> as their interpretation: contexts encode a worker and lead back to it.
  \<^item> \<^verbatim>\<open>Sync_Schedule\<close>: \<open>SyncSchedule\<close> with its semaphore, interleaved with the workers and with others who
    schedule: the function is called once before the call returns, and from a worker the call can hang.
  \<^item> \<^verbatim>\<open>Count_Event\<close>, \<^verbatim>\<open>Collect_All\<close>, \<^verbatim>\<open>Collect_Any\<close>: the counter, and the two awaiters as an interleaving of the
    suspending thread and the inputs: resumed once, with all results in place or with the first one,
    and always resumed unless the executor refuses an input. The resumed coroutine of \<open>CollectAny\<close> moves the shared
    result out, which the loop can see: it then goes on starting inputs.
  \<^item> \<^verbatim>\<open>Future_State\<close>, \<^verbatim>\<open>Local_State\<close>, \<^verbatim>\<open>Future_Delivery\<close>, \<^verbatim>\<open>Future_Race\<close>: the shared state on a heap with its counters,
    the four-state machine of \<open>SetResult\<close> and \<open>SetContinuation\<close>, where and how often a continuation is
    called, and the two setters as racing atomic steps of any number of threads. \<^verbatim>\<open>Future_Refs\<close>: the state
    masks and \<open>ContinuationReference\<close> as an object that may be copied and destroyed.
  \<^item> \<^verbatim>\<open>Future_Handles\<close>, \<^verbatim>\<open>Handle_Safety\<close>, \<^verbatim>\<open>Handle_Program\<close>: \<open>Promise\<close> and \<open>Future\<close> objects, and programs that make,
    copy, move, assign, use and destroy them in any order while workers run what was posted: the counters equal
    the number of holders, no deleted state is touched, every accepted continuation is called once, and what is
    left at the end are the states whose handle a move assignment overwrote. \<^verbatim>\<open>Handle_Bounds\<close>: what
    goes wrong with more handles than the counter can count.
  \<^item> \<^verbatim>\<open>Future_Then\<close>, \<^verbatim>\<open>Move_Wrapper\<close>: the function objects that \<open>ThenTry\<close>, \<open>ThenValue\<close> and \<open>Wait\<close> build, as data that own
    their promise, interpreted by an environment that is indexed by the depth of calls inside calls; a
    chain of callbacks composes them, whether the result comes first or last. \<^verbatim>\<open>Type_Traits\<close>: the types and the
    overloads that the compiler chooses for them.
  \<^item> \<^verbatim>\<open>Future_Awaiter\<close>: \<open>co_await\<close> on a future, whose coroutine is resumed inside the call that sets the
    result or the continuation and destroys the awaiter there.
  \<^item> \<^verbatim>\<open>Lazy_Promise\<close>, \<^verbatim>\<open>Coroutine_Machine\<close>, \<^verbatim>\<open>Lazy_Model\<close>: the promise of a coroutine; frames, awaiters and executors;
    \<open>Lazy\<close>, \<open>RescheduleLazy\<close>, \<open>Start\<close>, \<open>Detach\<close>, \<open>SyncAwait\<close>; the steps of the machine and the
    direct-style meaning \<open>sem\<close> of a body.
  \<^item> \<^verbatim>\<open>Lazy_Correct\<close>, \<^verbatim>\<open>Lazy_Sync\<close>, \<^verbatim>\<open>Lazy_Types\<close>: every run of the machine does what \<open>sem\<close> says, so \<open>SyncAwait\<close> is a
    call; coroutines that stay home never stop the process; the tags of the promises are right.
  \<^item> \<^verbatim>\<open>Lazy_Handles\<close>: \<open>Lazy\<close>, \<open>RescheduleLazy\<close> and awaiter objects in programs that move, await, read and destroy
    them: the frames alive are those that are held, and those that the code forgets.
  \<^item> \<^verbatim>\<open>Await_Dispatch\<close>: which awaiter \<open>co_await x\<close> gets, from the concepts, the overloads and the order of the includes;
    the machine suspends with the awaiter that this choice gives.
  \<^item> \<^verbatim>\<open>Coroutine_Embedding\<close>, \<^verbatim>\<open>Embedded_Operations\<close>, \<^verbatim>\<open>Embedded_Await\<close>, \<^verbatim>\<open>Single_Flow\<close>, \<^verbatim>\<open>Lazy_Parallel\<close>, \<^verbatim>\<open>Parallel_Calls\<close>: many
    callers of \<open>SyncAwait\<close> at once on one machine, whose steps interleave. A renaming of handles embeds the machine of
    each call into the shared one, every operation respects it, and one call has one flow of control;
    so every caller gets what its own body gives.
  \<^item> \<^verbatim>\<open>Result_Log\<close>, \<^verbatim>\<open>Group_Machine\<close>, \<^verbatim>\<open>Collect_Machine\<close>, \<^verbatim>\<open>Race_Machine\<close>: the awaiters of \<open>CollectAll\<close> and \<open>CollectAny\<close>
    on that machine: the loop of \<open>await_suspend\<close> starts or posts coroutines, whose callbacks drive the awaiter. Every step is
    one of a coroutine or of the awaiter, so the invariants of both hold, and every interleaving ends with the group collected.
    In \<^verbatim>\<open>Race_Machine\<close> the frames of the inputs exist from the start, and leaving the loop destroys those of \<open>Lazy\<close> inputs that
    were not started and leaks those of \<open>RescheduleLazy\<close> inputs (lemma \<open>rescheduled_input_leaks\<close>).
    \<^verbatim>\<open>Group_Contracts\<close>: so the machine gives what the coroutines below expect of an awaited group.
  \<^item> \<^verbatim>\<open>Collect_Coroutines\<close>, \<^verbatim>\<open>Collect_Race\<close>: \<open>CollectAll\<close>, its windowed and parallel forms, \<open>CollectAny\<close> and \<open>sleep\<close> as
    bodies: all forms of \<open>CollectAll\<close> collect the same results in the same places, \<open>CollectAny\<close> takes the first out of the
    shared result with \<open>await_resume\<close>; the contract of the awaited group is the one that the theories of the awaiters prove.
  \<^item> \<^verbatim>\<open>Variadic_Collect\<close>: the forms of \<open>CollectAll\<close> over a pack, whose wrapper tasks write the elements of a tuple through
    references while the group runs; the group's own vector is discarded.
  \<^item> \<^verbatim>\<open>Collect_Futures\<close>: \<open>CollectAll\<close> over futures (\<^verbatim>\<open>sync/future_helper.hpp\<close>), its caller and the threads that
    resolve the inputs interleaved: the shared context lives as long as somebody writes to it, and its
    destructor delivers all results in order.
  \<^item> \<^verbatim>\<open>IO_Executor\<close>: \<open>SimpleIOExecutor\<close> over a kernel that is a parameter: what a submission does with its
    callback, and that the loop as written serves no completion while the executor is in use. \<^verbatim>\<open>Plain_IO\<close>:
    the class as built without AIO, inside \<open>SimpleExecutor\<close>.

  \<^bold>\<open>Bounds.\<close> Reference counters hold for programs with at most 250 handles and pending references per
  state before each operation (\<open>legal\<close> and \<open>roomy_world\<close> in \<^verbatim>\<open>Handle_Program\<close>: the 8 bits
  count to 255, and an operation takes some references while it runs); worker numbers are at most \<open>2 ^ 30\<close>, which the context mask needs;
  \<open>CollectAll\<close> has fewer than \<open>2 ^ 64 - 1\<close> inputs. The only count of attempts is the loop of
  \<open>Pool_ScheduleById\<close>, whose bound is the code's own. \<open>then_env n\<close> allows \<open>n\<close> nested calls; a chain of \<open>k\<close> callbacks
  needs \<open>k\<close> of them, and the theorem gives it \<open>k + 1\<close> and proves that it returns. Every other loop is structural or has a measure.

  \<^bold>\<open>What is a parameter.\<close> Functions given to executors and continuations are opaque; whether one throws is
  a parameter. Which of several workers gets a lock, a task or a random number is a choice of the
  scheduler, over which the theorems quantify. A user's coroutine is a tree of awaits that may end in a failed assertion; an awaitable from
  outside (a future, a collector, a user's type) is ready, declines to suspend, or is resumed later on
  a thread that the environment chooses, with a result that the environment chooses. Arguments that a coroutine takes by
  reference (the pack of \<open>CollectAll\<close>, which a lazily started coroutine reads only when it is awaited) are assumed to live until then.

  \<^bold>\<open>Not modelled.\<close> The C++ memory model (a weaker ordering is a finding, not a theorem), \<open>std::function\<close>
  and thread creation beyond what the code uses of them, the kernel's side of asynchronous IO (a parameter
  of \<^verbatim>\<open>IO_Executor\<close>), references and qualifiers in the types of \<^verbatim>\<open>Type_Traits\<close>, compiler attributes, and the tests. Programs over
  \<open>Promise\<close> and \<open>Future\<close> consist of the operations of \<open>client_op\<close>; \<open>Wait\<close>, \<open>Get\<close> and \<open>Then\<close> are in \<^verbatim>\<open>Future_Then\<close>. The
  machine of a group runs its inputs; what the resumed coroutine then does is the meaning of its body, not a step there.
\<close>

end
